(* ===== verification/Prelude.thy ===== *)
theory Prelude
  imports Main "HOL-Library.Word"
begin

unbundle bit_operations_syntax

text \<open>
  Shared vocabulary of the development: the machine types of the sources (bytes, the fixed
  width integers, \<^verbatim>\<open>std::string\<close> as a list of bytes), signed \<^verbatim>\<open>char\<close> comparisons, string
  literals, the outcome type of code that may throw, and the generic lemmas on words and
  lists that the component theories rely on.
\<close>

section \<open>Machine types\<close>

type_synonym byte = "8 word"
type_synonym u16 = "16 word"
type_synonym u32 = "32 word"
type_synonym u64 = "64 word"
type_synonym bytes = "byte list"

text \<open>
  A \<^verbatim>\<open>std::string\<close> is a byte list. The sources are built by g++ on x86-64, where \<^verbatim>\<open>char\<close> is a
  signed 8 bit integer: a range test \<^verbatim>\<open>lo <= c && c <= hi\<close> on a \<^verbatim>\<open>char\<close> compares signed values.
\<close>

definition char_range :: "byte \<Rightarrow> byte \<Rightarrow> byte \<Rightarrow> bool" where
  "char_range lo hi c \<longleftrightarrow> sint lo \<le> sint c \<and> sint c \<le> sint hi"

definition lit :: "string \<Rightarrow> bytes" where
  "lit s = map of_char s"

text \<open>
  Outcomes of code that may throw a C++ exception or fail an assertion. \<open>undefined_behaviour\<close> is neither: it marks
  an input on which the code reads or writes outside of an object or overflows a signed integer, where C++ promises
  nothing.
\<close>

datatype cpp_error =
    runtime_error string
  | invalid_argument string
  | overflow_error string
  | range_error string
  | out_of_range
  | assertion_failed
  | undefined_behaviour

type_synonym 'a outcome = "cpp_error + 'a"

section \<open>Collections of simplification rules\<close>

named_theorems byte_simps \<open>facts on bytes and characters\<close>
named_theorems outcome_simps \<open>unfolding of fallible operations\<close>

section \<open>Signed characters\<close>

lemma sint_word:
  fixes w :: "'a :: len word"
  shows "sint w = (if uint w < 2 ^ (LENGTH('a) - 1) then uint w else uint w - 2 ^ LENGTH('a))"
proof -
  let ?n = "LENGTH('a) - 1"
  have len: "(2 :: int) ^ LENGTH('a) = 2 * 2 ^ ?n"
    by (simp only: power_Suc [symmetric]) simp
  have *: "sint w = (uint w + 2 ^ ?n) mod (2 * 2 ^ ?n) - 2 ^ ?n"
    by (simp add: sint_uint signed_take_bit_eq_take_bit_shift take_bit_eq_mod len)
  have bounds: "0 \<le> uint w" "uint w < 2 * 2 ^ ?n"
    using uint_lt2p [of w] unfolding len by simp_all
  show ?thesis
  proof (cases "uint w < 2 ^ ?n")
    case True
    with * bounds show ?thesis by simp
  next
    case False
    have "(uint w + 2 ^ ?n) mod (2 * 2 ^ ?n) = ((uint w - 2 ^ ?n) + 2 * 2 ^ ?n) mod (2 * 2 ^ ?n)"
      by (simp add: algebra_simps)
    also have "\<dots> = uint w - 2 ^ ?n"
      using False bounds by (simp only: mod_add_self2) simp
    finally show ?thesis using * False len by simp
  qed
qed

lemma sint_byte: "sint (c :: byte) = (if uint c < 128 then uint c else uint c - 256)"
  by (simp add: sint_word)

lemma sint_nonneg_iff:
  fixes w :: "'a :: len word"
  shows "0 \<le> sint w \<longleftrightarrow> unat w < 2 ^ (LENGTH('a) - 1)"
proof -
  have "uint w = int (unat w)" by simp
  then have "uint w < 2 ^ (LENGTH('a) - 1) \<longleftrightarrow> unat w < 2 ^ (LENGTH('a) - 1)"
    by (simp only: of_nat_less_numeral_power_cancel_iff)
  moreover have "\<not> 0 \<le> uint w - 2 ^ LENGTH('a)" using uint_lt2p [of w] by linarith
  ultimately show ?thesis by (simp add: sint_word)
qed

lemma sint_nonneg_eq: "0 \<le> sint w \<Longrightarrow> sint w = int (unat w)" for w :: "'a :: len word"
proof -
  assume "0 \<le> sint w"
  moreover have "\<not> 0 \<le> uint w - 2 ^ LENGTH('a)" using uint_lt2p [of w] by linarith
  ultimately show ?thesis by (simp add: sint_word split: if_splits)
qed

lemma char_range_unsigned [byte_simps]:
  assumes "hi < 128" and "lo < 128"
  shows "char_range lo hi c \<longleftrightarrow> lo \<le> c \<and> c \<le> (hi :: byte)"
proof -
  have "uint c < 256" "0 \<le> uint c" "0 \<le> uint lo"
    using uint_lt2p [of c] by simp_all
  moreover have "uint hi < 128" "uint lo < 128"
    using assms by (simp_all add: word_less_def)
  ultimately show ?thesis
    unfolding char_range_def sint_byte word_le_def by arith
qed

section \<open>Facts about every byte of a range\<close>

text \<open>A property of the bytes of a range holds when it evaluates to true on each of them.\<close>

lemma bytes_between:
  assumes "list_all P (map of_nat [lo..<hi])" "lo \<le> unat b" "unat b < hi"
  shows "P (b :: byte)"
proof -
  have all: "\<forall>n \<in> {lo..<hi}. P (of_nat n)" using assms(1) by (simp add: list_all_iff)
  have "P (of_nat (unat b))" by (rule bspec [OF all]) (use assms in simp)
  then show ?thesis by simp
qed

lemma all_bytes: "list_all P (map of_nat [0..<256]) \<Longrightarrow> P (b :: byte)"
  by (erule bytes_between) (use unsigned_less [of b] in simp_all)

lemma nibbles: "list_all P (map of_nat [0..<16]) \<Longrightarrow> b < 16 \<Longrightarrow> P (b :: byte)"
  by (erule bytes_between) (simp_all add: word_less_nat_alt)

lemma chars_between:
  "char_range lo hi b \<Longrightarrow> list_all P (map of_nat [unat lo..<Suc (unat hi)]) \<Longrightarrow> hi < 128 \<Longrightarrow> lo < 128 \<Longrightarrow> P b"
  by (erule bytes_between) (simp_all add: char_range_unsigned word_le_nat_alt)

section \<open>Positions in a list\<close>

text \<open>A scan over a memory goes from one position where the rest is known to the next.\<close>

lemma cursor: "drop i m = xs @ ys \<Longrightarrow> drop (i + length xs) m = ys"
  by (metis add.commute append_eq_conv_conj drop_drop)

lemma cursor_Suc: "drop i m = c # ys \<Longrightarrow> drop (Suc i) m = ys"
  using cursor [of i m "[c]" ys] by simp

lemma drop_bound: "drop i m = c # ys \<Longrightarrow> i < length m"
  by (metis drop_eq_Nil leI list.distinct(1))

end
