(* ===== verification/UInt128.thy ===== *)
theory UInt128
  imports Prelude
begin

text \<open>
  The unsigned 128 bit integer of \<^verbatim>\<open>src/utils/base_int.h\<close> and \<^verbatim>\<open>src/utils/base_int.cpp\<close>:
  two 64 bit halves, and every operator as the code composes it from 64 bit operations. The
  abstraction \<open>nat128\<close> reads a value as a natural number; the lemmas show that each
  operator is the arithmetic operation modulo \<open>2 ^ 128\<close>, that \<open>uint128_divmod\<close> returns for every
  divisor but 0 and is Euclidean division, and that \<open>str\<close> prints the value. The templates
  over a scalar type are modelled at \<^verbatim>\<open>T = uint64_t\<close>. The interface \<open>wide_uint\<close> states what
  \<^verbatim>\<open>bigDivide\<close> needs of the class.
\<close>

section \<open>The class\<close>

record uint128_t =
  UPPER :: u64
  LOWER :: u64

definition uint128 :: "u64 \<Rightarrow> u64 \<Rightarrow> uint128_t" where
  "uint128 upper_rhs lower_rhs = \<lparr>UPPER = upper_rhs, LOWER = lower_rhs\<rparr>"

definition uint128_of :: "u64 \<Rightarrow> uint128_t" where
  "uint128_of rhs = \<lparr>UPPER = 0, LOWER = rhs\<rparr>"

definition uint128_default :: uint128_t where
  "uint128_default = \<lparr>UPPER = 0, LOWER = 0\<rparr>"

definition uint128_0 :: uint128_t where "uint128_0 = uint128_of 0"
definition uint128_1 :: uint128_t where "uint128_1 = uint128_of 1"
definition uint128_64 :: uint128_t where "uint128_64 = uint128_of 64"
definition uint128_128 :: uint128_t where "uint128_128 = uint128_of 128"

definition uint128_assign :: "uint128_t \<Rightarrow> uint128_t \<Rightarrow> uint128_t" where
  "uint128_assign this rhs = this\<lparr>UPPER := UPPER rhs, LOWER := LOWER rhs\<rparr>"

definition uint128_assign_T :: "uint128_t \<Rightarrow> u64 \<Rightarrow> uint128_t" where
  "uint128_assign_T this rhs = this\<lparr>UPPER := 0, LOWER := rhs\<rparr>"

subsection \<open>Typecast operators\<close>

definition uint128_bool :: "uint128_t \<Rightarrow> bool" where
  "uint128_bool this \<longleftrightarrow> UPPER this OR LOWER this \<noteq> 0"

definition uint128_char :: "uint128_t \<Rightarrow> byte" where
  "uint128_char this = ucast (LOWER this)"

definition uint128_int :: "uint128_t \<Rightarrow> u32" where
  "uint128_int this = ucast (LOWER this)"

definition uint128_uint8 :: "uint128_t \<Rightarrow> byte" where
  "uint128_uint8 this = ucast (LOWER this)"

definition uint128_uint16 :: "uint128_t \<Rightarrow> u16" where
  "uint128_uint16 this = ucast (LOWER this)"

definition uint128_uint32 :: "uint128_t \<Rightarrow> u32" where
  "uint128_uint32 this = ucast (LOWER this)"

definition uint128_uint64 :: "uint128_t \<Rightarrow> u64" where
  "uint128_uint64 this = LOWER this"

subsection \<open>Bitwise operators\<close>

definition uint128_and :: "uint128_t \<Rightarrow> uint128_t \<Rightarrow> uint128_t" where
  "uint128_and this rhs = uint128 (UPPER this AND UPPER rhs) (LOWER this AND LOWER rhs)"

definition uint128_or :: "uint128_t \<Rightarrow> uint128_t \<Rightarrow> uint128_t" where
  "uint128_or this rhs = uint128 (UPPER this OR UPPER rhs) (LOWER this OR LOWER rhs)"

definition uint128_xor :: "uint128_t \<Rightarrow> uint128_t \<Rightarrow> uint128_t" where
  "uint128_xor this rhs = uint128 (UPPER this XOR UPPER rhs) (LOWER this XOR LOWER rhs)"

definition uint128_and_assign :: "uint128_t \<Rightarrow> uint128_t \<Rightarrow> uint128_t" where
  "uint128_and_assign this rhs =
     this\<lparr>UPPER := UPPER this AND UPPER rhs, LOWER := LOWER this AND LOWER rhs\<rparr>"

definition uint128_or_assign :: "uint128_t \<Rightarrow> uint128_t \<Rightarrow> uint128_t" where
  "uint128_or_assign this rhs =
     this\<lparr>UPPER := UPPER this OR UPPER rhs, LOWER := LOWER this OR LOWER rhs\<rparr>"

definition uint128_xor_assign :: "uint128_t \<Rightarrow> uint128_t \<Rightarrow> uint128_t" where
  "uint128_xor_assign this rhs =
     this\<lparr>UPPER := UPPER this XOR UPPER rhs, LOWER := LOWER this XOR LOWER rhs\<rparr>"

definition uint128_not :: "uint128_t \<Rightarrow> uint128_t" where
  "uint128_not this = uint128 (NOT (UPPER this)) (NOT (LOWER this))"

definition uint128_and_T :: "uint128_t \<Rightarrow> u64 \<Rightarrow> uint128_t" where
  "uint128_and_T this rhs = uint128 0 (LOWER this AND rhs)"

definition uint128_or_T :: "uint128_t \<Rightarrow> u64 \<Rightarrow> uint128_t" where
  "uint128_or_T this rhs = uint128 (UPPER this) (LOWER this OR rhs)"

definition uint128_xor_T :: "uint128_t \<Rightarrow> u64 \<Rightarrow> uint128_t" where
  "uint128_xor_T this rhs = uint128 (UPPER this) (LOWER this XOR rhs)"

definition uint128_and_assign_T :: "uint128_t \<Rightarrow> u64 \<Rightarrow> uint128_t" where
  "uint128_and_assign_T this rhs = this\<lparr>UPPER := 0, LOWER := LOWER this AND rhs\<rparr>"

definition uint128_or_assign_T :: "uint128_t \<Rightarrow> u64 \<Rightarrow> uint128_t" where
  "uint128_or_assign_T this rhs = this\<lparr>LOWER := LOWER this OR rhs\<rparr>"

definition uint128_xor_assign_T :: "uint128_t \<Rightarrow> u64 \<Rightarrow> uint128_t" where
  "uint128_xor_assign_T this rhs = this\<lparr>LOWER := LOWER this XOR rhs\<rparr>"

subsection \<open>Shifts\<close>

definition uint128_shl :: "uint128_t \<Rightarrow> uint128_t \<Rightarrow> uint128_t" where
  "uint128_shl this rhs =
     (let shift = LOWER rhs in
      if UPPER rhs \<noteq> 0 \<or> shift \<ge> 128 then uint128_0
      else if shift = 64 then uint128 (LOWER this) 0
      else if shift = 0 then this
      else if shift < 64 then
        uint128 (push_bit (unat shift) (UPPER this) + drop_bit (unat (64 - shift)) (LOWER this))
                (push_bit (unat shift) (LOWER this))
      else if 128 > shift \<and> shift > 64 then
        uint128 (push_bit (unat (shift - 64)) (LOWER this)) 0
      else uint128_0)"

definition uint128_shr :: "uint128_t \<Rightarrow> uint128_t \<Rightarrow> uint128_t" where
  "uint128_shr this rhs =
     (let shift = LOWER rhs in
      if UPPER rhs \<noteq> 0 \<or> shift \<ge> 128 then uint128_0
      else if shift = 64 then uint128 0 (UPPER this)
      else if shift = 0 then this
      else if shift < 64 then
        uint128 (drop_bit (unat shift) (UPPER this))
                (push_bit (unat (64 - shift)) (UPPER this) + drop_bit (unat shift) (LOWER this))
      else if 128 > shift \<and> shift > 64 then
        uint128 0 (drop_bit (unat (shift - 64)) (UPPER this))
      else uint128_0)"

definition uint128_shl_assign :: "uint128_t \<Rightarrow> uint128_t \<Rightarrow> uint128_t" where
  "uint128_shl_assign this rhs = uint128_shl this rhs"

definition uint128_shr_assign :: "uint128_t \<Rightarrow> uint128_t \<Rightarrow> uint128_t" where
  "uint128_shr_assign this rhs = uint128_shr this rhs"

definition uint128_shl_T :: "uint128_t \<Rightarrow> u64 \<Rightarrow> uint128_t" where
  "uint128_shl_T this rhs = uint128_shl this (uint128_of rhs)"

definition uint128_shr_T :: "uint128_t \<Rightarrow> u64 \<Rightarrow> uint128_t" where
  "uint128_shr_T this rhs = uint128_shr this (uint128_of rhs)"

subsection \<open>Logical and comparison operators\<close>

definition uint128_lnot :: "uint128_t \<Rightarrow> bool" where
  "uint128_lnot this \<longleftrightarrow> UPPER this OR LOWER this = 0"

definition uint128_land :: "uint128_t \<Rightarrow> uint128_t \<Rightarrow> bool" where
  "uint128_land this rhs \<longleftrightarrow> uint128_bool this \<and> uint128_bool rhs"

definition uint128_lor :: "uint128_t \<Rightarrow> uint128_t \<Rightarrow> bool" where
  "uint128_lor this rhs \<longleftrightarrow> uint128_bool this \<or> uint128_bool rhs"

definition uint128_eq :: "uint128_t \<Rightarrow> uint128_t \<Rightarrow> bool" where
  "uint128_eq this rhs \<longleftrightarrow> UPPER this = UPPER rhs \<and> LOWER this = LOWER rhs"

definition uint128_ne :: "uint128_t \<Rightarrow> uint128_t \<Rightarrow> bool" where
  "uint128_ne this rhs \<longleftrightarrow> UPPER this \<noteq> UPPER rhs \<or> LOWER this \<noteq> LOWER rhs"

definition uint128_gt :: "uint128_t \<Rightarrow> uint128_t \<Rightarrow> bool" where
  "uint128_gt this rhs =
     (if UPPER this = UPPER rhs then LOWER this > LOWER rhs else UPPER this > UPPER rhs)"

definition uint128_lt :: "uint128_t \<Rightarrow> uint128_t \<Rightarrow> bool" where
  "uint128_lt this rhs =
     (if UPPER this = UPPER rhs then LOWER this < LOWER rhs else UPPER this < UPPER rhs)"

definition uint128_ge :: "uint128_t \<Rightarrow> uint128_t \<Rightarrow> bool" where
  "uint128_ge this rhs \<longleftrightarrow> uint128_gt this rhs \<or> uint128_eq this rhs"

definition uint128_le :: "uint128_t \<Rightarrow> uint128_t \<Rightarrow> bool" where
  "uint128_le this rhs \<longleftrightarrow> uint128_lt this rhs \<or> uint128_eq this rhs"

definition uint128_eq_T :: "uint128_t \<Rightarrow> u64 \<Rightarrow> bool" where
  "uint128_eq_T this rhs \<longleftrightarrow> UPPER this = 0 \<and> LOWER this = rhs"

definition uint128_ne_T :: "uint128_t \<Rightarrow> u64 \<Rightarrow> bool" where
  "uint128_ne_T this rhs \<longleftrightarrow> UPPER this OR of_bool (LOWER this \<noteq> rhs) \<noteq> 0"

definition uint128_gt_T :: "uint128_t \<Rightarrow> u64 \<Rightarrow> bool" where
  "uint128_gt_T this rhs \<longleftrightarrow> UPPER this \<noteq> 0 \<or> LOWER this > rhs"

definition uint128_lt_T :: "uint128_t \<Rightarrow> u64 \<Rightarrow> bool" where
  "uint128_lt_T this rhs \<longleftrightarrow> (if UPPER this = 0 then LOWER this < rhs else False)"

definition uint128_ge_T :: "uint128_t \<Rightarrow> u64 \<Rightarrow> bool" where
  "uint128_ge_T this rhs \<longleftrightarrow> uint128_gt_T this rhs \<or> uint128_eq_T this rhs"

definition uint128_le_T :: "uint128_t \<Rightarrow> u64 \<Rightarrow> bool" where
  "uint128_le_T this rhs \<longleftrightarrow> uint128_lt_T this rhs \<or> uint128_eq_T this rhs"

subsection \<open>Arithmetic operators\<close>

definition uint128_add :: "uint128_t \<Rightarrow> uint128_t \<Rightarrow> uint128_t" where
  "uint128_add this rhs =
     uint128 (UPPER this + UPPER rhs + of_bool (LOWER this + LOWER rhs < LOWER this))
             (LOWER this + LOWER rhs)"

definition uint128_add_assign :: "uint128_t \<Rightarrow> uint128_t \<Rightarrow> uint128_t" where
  "uint128_add_assign this rhs =
     (let this1 = this\<lparr>UPPER := UPPER rhs + UPPER this
                               + of_bool (LOWER this + LOWER rhs < LOWER this)\<rparr>
      in this1\<lparr>LOWER := LOWER this1 + LOWER rhs\<rparr>)"

definition uint128_sub :: "uint128_t \<Rightarrow> uint128_t \<Rightarrow> uint128_t" where
  "uint128_sub this rhs =
     uint128 (UPPER this - UPPER rhs - of_bool (LOWER this - LOWER rhs > LOWER this))
             (LOWER this - LOWER rhs)"

definition uint128_sub_assign :: "uint128_t \<Rightarrow> uint128_t \<Rightarrow> uint128_t" where
  "uint128_sub_assign this rhs = uint128_sub this rhs"

text \<open>
  The product works on four 32 bit limbs; \<open>limbs\<close> is the array \<^verbatim>\<open>top\<close> (or \<^verbatim>\<open>bottom\<close>), most
  significant limb first, and \<open>products i y\<close> is \<^verbatim>\<open>products[i][y]\<close>, that is
  \<^verbatim>\<open>top[3 - i] * bottom[y]\<close>.
\<close>

definition limbs :: "uint128_t \<Rightarrow> u64 list" where
  "limbs v = [drop_bit 32 (UPPER v), UPPER v AND 0xffffffff,
              drop_bit 32 (LOWER v), LOWER v AND 0xffffffff]"

definition uint128_mul :: "uint128_t \<Rightarrow> uint128_t \<Rightarrow> uint128_t" where
  "uint128_mul this rhs =
     (let top = limbs this; bottom = limbs rhs;
          products = (\<lambda>i y. top ! (3 - i) * bottom ! y);
          lo = (\<lambda>w. w AND 0xffffffff); hi = (\<lambda>w. drop_bit 32 w);
          fourth32 = lo (products 0 3);
          third32 = lo (products 0 2) + hi (products 0 3);
          second32 = lo (products 0 1) + hi (products 0 2);
          first32 = lo (products 0 0) + hi (products 0 1);
          third32 = third32 + lo (products 1 3);
          second32 = second32 + (lo (products 1 2) + hi (products 1 3));
          first32 = first32 + (lo (products 1 1) + hi (products 1 2));
          second32 = second32 + lo (products 2 3);
          first32 = first32 + (lo (products 2 2) + hi (products 2 3));
          first32 = first32 + lo (products 3 3)
      in uint128_add
           (uint128_add
             (uint128_add (uint128 (push_bit 32 first32) 0)
                          (uint128 (drop_bit 32 third32) (push_bit 32 third32)))
             (uint128 second32 0))
           (uint128_of fourth32))"

definition uint128_mul_assign :: "uint128_t \<Rightarrow> uint128_t \<Rightarrow> uint128_t" where
  "uint128_mul_assign this rhs = uint128_mul this rhs"

text \<open>\<^verbatim>\<open>bits()\<close>: the counter is a \<^verbatim>\<open>uint8_t\<close>.\<close>

function count_bits :: "u64 \<Rightarrow> byte \<Rightarrow> byte" where
  "count_bits v out = (if v \<noteq> 0 then count_bits (drop_bit 1 v) (out + 1) else out)"
  by pat_completeness auto
termination
proof (relation "measure (\<lambda>(v, out). unat v)", goal_cases)
  case 1 then show ?case by simp
next
  case (2 v out)
  then have "unat v > 0" by (simp add: unat_gt_0)
  then show ?case by (simp add: drop_bit_eq_div unat_div)
qed

definition uint128_bits :: "uint128_t \<Rightarrow> byte" where
  "uint128_bits this =
     (if UPPER this \<noteq> 0 then count_bits (UPPER this) 64 else count_bits (LOWER this) 0)"

text \<open>
  \<^verbatim>\<open>divmod\<close>: the shift-and-subtract loop stops when the remainder is below the divisor. It is a
  loop that may run forever on arbitrary variables (with \<^verbatim>\<open>copyd = 0\<close> nothing changes), so
  not returning is \<open>None\<close>; the lemmas below show that \<open>uint128_divmod\<close> always returns.
\<close>

partial_function (option) divmod_loop ::
  "uint128_t \<Rightarrow> uint128_t \<Rightarrow> uint128_t \<Rightarrow> uint128_t \<Rightarrow> uint128_t \<Rightarrow> (uint128_t \<times> uint128_t) option" where
  "divmod_loop rhs first second copyd adder =
     (if uint128_ge second rhs then
        (if uint128_ge second copyd
         then divmod_loop rhs (uint128_or_assign first adder) (uint128_sub_assign second copyd)
                (uint128_shr_assign copyd uint128_1) (uint128_shr_assign adder uint128_1)
         else divmod_loop rhs first second
                (uint128_shr_assign copyd uint128_1) (uint128_shr_assign adder uint128_1))
      else Some (first, second))"

definition uint128_divmod :: "uint128_t \<Rightarrow> uint128_t \<Rightarrow> (uint128_t \<times> uint128_t) outcome option" where
  "uint128_divmod lhs rhs =
     (if uint128_eq rhs uint128_0 then
        Some (Inl (runtime_error ''Error: division or modulus by 0''))
      else if uint128_eq rhs uint128_1 then Some (Inr (lhs, uint128_0))
      else if uint128_eq lhs rhs then Some (Inr (uint128_1, uint128_0))
      else if uint128_eq lhs uint128_0 \<or> uint128_lt lhs rhs then Some (Inr (uint128_0, lhs))
      else
        (let first = uint128_0; second = lhs;
             shift = ucast (uint128_bits lhs) - ucast (uint128_bits rhs);
             copyd = uint128_shl_T rhs shift;
             adder = uint128_shl_T uint128_1 shift
         in map_option Inr
             (if uint128_gt copyd second
              then divmod_loop rhs first second
                     (uint128_shr_assign copyd uint128_1) (uint128_shr_assign adder uint128_1)
              else divmod_loop rhs first second copyd adder)))"

definition uint128_div :: "uint128_t \<Rightarrow> uint128_t \<Rightarrow> uint128_t outcome option" where
  "uint128_div this rhs = map_option (map_sum id fst) (uint128_divmod this rhs)"

definition uint128_mod :: "uint128_t \<Rightarrow> uint128_t \<Rightarrow> uint128_t outcome option" where
  "uint128_mod this rhs =
     map_option (map_sum id (\<lambda>q. uint128_sub this (uint128_mul rhs q))) (uint128_div this rhs)"

subsection \<open>Scalar operands, increment, decrement\<close>

definition uint128_add_T :: "uint128_t \<Rightarrow> u64 \<Rightarrow> uint128_t" where
  "uint128_add_T this rhs =
     uint128 (UPPER this + of_bool (LOWER this + rhs < LOWER this)) (LOWER this + rhs)"

definition uint128_add_assign_T :: "uint128_t \<Rightarrow> u64 \<Rightarrow> uint128_t" where
  "uint128_add_assign_T this rhs =
     (let this1 = this\<lparr>UPPER := UPPER this + of_bool (LOWER this + rhs < LOWER this)\<rparr>
      in this1\<lparr>LOWER := LOWER this1 + rhs\<rparr>)"

definition uint128_sub_T :: "uint128_t \<Rightarrow> u64 \<Rightarrow> uint128_t" where
  "uint128_sub_T this rhs =
     uint128 (UPPER this - of_bool (LOWER this - rhs > LOWER this)) (LOWER this - rhs)"

definition uint128_mul_T :: "uint128_t \<Rightarrow> u64 \<Rightarrow> uint128_t" where
  "uint128_mul_T this rhs = uint128_mul this (uint128_of rhs)"

definition uint128_div_T :: "uint128_t \<Rightarrow> u64 \<Rightarrow> uint128_t outcome option" where
  "uint128_div_T this rhs = uint128_div this (uint128_of rhs)"

text \<open>\<^verbatim>\<open>T operator*(T, uint128_t)\<close>: the product is computed in the scalar type.\<close>

definition T_mul_uint128 :: "u64 \<Rightarrow> uint128_t \<Rightarrow> u64" where
  "T_mul_uint128 lhs rhs = lhs * LOWER rhs"

definition T_add_uint128 :: "u64 \<Rightarrow> uint128_t \<Rightarrow> u64" where
  "T_add_uint128 lhs rhs = uint128_uint64 (uint128_add_T rhs lhs)"

definition T_sub_uint128 :: "u64 \<Rightarrow> uint128_t \<Rightarrow> u64" where
  "T_sub_uint128 lhs rhs = uint128_uint64 (uint128_sub (uint128_of lhs) rhs)"

definition T_div_uint128 :: "u64 \<Rightarrow> uint128_t \<Rightarrow> u64 outcome option" where
  "T_div_uint128 lhs rhs = map_option (map_sum id uint128_uint64) (uint128_div (uint128_of lhs) rhs)"

definition T_mod_uint128 :: "u64 \<Rightarrow> uint128_t \<Rightarrow> u64 outcome option" where
  "T_mod_uint128 lhs rhs = map_option (map_sum id uint128_uint64) (uint128_mod (uint128_of lhs) rhs)"

definition uint128_mod_T :: "uint128_t \<Rightarrow> u64 \<Rightarrow> uint128_t outcome option" where
  "uint128_mod_T this rhs =
     map_option (map_sum id (\<lambda>q. uint128_sub_T this (T_mul_uint128 rhs q))) (uint128_div_T this rhs)"

definition T_eq_uint128 :: "u64 \<Rightarrow> uint128_t \<Rightarrow> bool" where
  "T_eq_uint128 lhs rhs \<longleftrightarrow> UPPER rhs = 0 \<and> lhs = LOWER rhs"

definition T_ne_uint128 :: "u64 \<Rightarrow> uint128_t \<Rightarrow> bool" where
  "T_ne_uint128 lhs rhs \<longleftrightarrow> UPPER rhs OR of_bool (lhs \<noteq> LOWER rhs) \<noteq> 0"

definition T_gt_uint128 :: "u64 \<Rightarrow> uint128_t \<Rightarrow> bool" where
  "T_gt_uint128 lhs rhs \<longleftrightarrow> UPPER rhs = 0 \<and> lhs > LOWER rhs"

definition T_lt_uint128 :: "u64 \<Rightarrow> uint128_t \<Rightarrow> bool" where
  "T_lt_uint128 lhs rhs \<longleftrightarrow> (if UPPER rhs \<noteq> 0 then True else lhs < LOWER rhs)"

definition T_ge_uint128 :: "u64 \<Rightarrow> uint128_t \<Rightarrow> bool" where
  "T_ge_uint128 lhs rhs \<longleftrightarrow> (if UPPER rhs \<noteq> 0 then False else lhs \<ge> LOWER rhs)"

definition T_le_uint128 :: "u64 \<Rightarrow> uint128_t \<Rightarrow> bool" where
  "T_le_uint128 lhs rhs \<longleftrightarrow> (if UPPER rhs \<noteq> 0 then True else lhs \<le> LOWER rhs)"

text \<open>The prefix and postfix forms return the value of the expression and the new object.\<close>

definition uint128_preinc :: "uint128_t \<Rightarrow> uint128_t \<times> uint128_t" where
  "uint128_preinc this = (let this1 = uint128_add_assign this uint128_1 in (this1, this1))"

definition uint128_postinc :: "uint128_t \<Rightarrow> uint128_t \<times> uint128_t" where
  "uint128_postinc this = (this, snd (uint128_preinc this))"

definition uint128_predec :: "uint128_t \<Rightarrow> uint128_t \<times> uint128_t" where
  "uint128_predec this = (let this1 = uint128_sub_assign this uint128_1 in (this1, this1))"

definition uint128_postdec :: "uint128_t \<Rightarrow> uint128_t \<times> uint128_t" where
  "uint128_postdec this = (this, snd (uint128_predec this))"

subsection \<open>The remaining compound operators and accessors\<close>

definition uint128_div_assign :: "uint128_t \<Rightarrow> uint128_t \<Rightarrow> uint128_t outcome option" where
  "uint128_div_assign this rhs = uint128_div this rhs"

definition uint128_mod_assign :: "uint128_t \<Rightarrow> uint128_t \<Rightarrow> uint128_t outcome option" where
  "uint128_mod_assign this rhs = uint128_mod this rhs"

definition uint128_shl_assign_T :: "uint128_t \<Rightarrow> u64 \<Rightarrow> uint128_t" where
  "uint128_shl_assign_T this rhs = uint128_shl this (uint128_of rhs)"

definition uint128_shr_assign_T :: "uint128_t \<Rightarrow> u64 \<Rightarrow> uint128_t" where
  "uint128_shr_assign_T this rhs = uint128_shr this (uint128_of rhs)"

definition uint128_land_T :: "uint128_t \<Rightarrow> u64 \<Rightarrow> bool" where
  "uint128_land_T this rhs \<longleftrightarrow> uint128_bool this \<and> rhs \<noteq> 0"

definition uint128_lor_T :: "uint128_t \<Rightarrow> u64 \<Rightarrow> bool" where
  "uint128_lor_T this rhs \<longleftrightarrow> uint128_bool this \<or> rhs \<noteq> 0"

definition uint128_sub_assign_T :: "uint128_t \<Rightarrow> u64 \<Rightarrow> uint128_t" where
  "uint128_sub_assign_T this rhs = uint128_sub_T this rhs"

definition uint128_mul_assign_T :: "uint128_t \<Rightarrow> u64 \<Rightarrow> uint128_t" where
  "uint128_mul_assign_T this rhs = uint128_mul this (uint128_of rhs)"

definition uint128_div_assign_T :: "uint128_t \<Rightarrow> u64 \<Rightarrow> uint128_t outcome option" where
  "uint128_div_assign_T this rhs = uint128_div this (uint128_of rhs)"

text \<open>Unlike \<open>uint128_mod_T\<close>, the compound form converts the scalar first.\<close>

definition uint128_mod_assign_T :: "uint128_t \<Rightarrow> u64 \<Rightarrow> uint128_t outcome option" where
  "uint128_mod_assign_T this rhs = uint128_mod this (uint128_of rhs)"

definition uint128_upper :: "uint128_t \<Rightarrow> u64" where
  "uint128_upper this = UPPER this"

definition uint128_lower :: "uint128_t \<Rightarrow> u64" where
  "uint128_lower this = LOWER this"

definition T_and_uint128 :: "u64 \<Rightarrow> uint128_t \<Rightarrow> u64" where
  "T_and_uint128 lhs rhs = lhs AND uint128_lower rhs"

definition T_or_uint128 :: "u64 \<Rightarrow> uint128_t \<Rightarrow> u64" where
  "T_or_uint128 lhs rhs = lhs OR uint128_lower rhs"

definition T_xor_uint128 :: "u64 \<Rightarrow> uint128_t \<Rightarrow> u64" where
  "T_xor_uint128 lhs rhs = lhs XOR uint128_lower rhs"

subsection \<open>Printing\<close>

definition str_digits :: bytes where
  "str_digits = lit ''0123456789abcdef''"

text \<open>The \<^verbatim>\<open>do ... while\<close> loop of \<^verbatim>\<open>str\<close>; the outer \<open>option\<close> is non-termination.\<close>

partial_function (option) str_loop ::
  "uint128_t \<Rightarrow> byte \<Rightarrow> bytes \<Rightarrow> bytes outcome option" where
  "str_loop first base out =
     Option.bind (uint128_divmod first (uint128_of (ucast base)))
       (\<lambda>res. case res of
          Inl e \<Rightarrow> Some (Inl e)
        | Inr (q, r) \<Rightarrow>
            (let out1 = str_digits ! unat (uint128_uint8 r) # out
             in if uint128_bool q then str_loop q base out1 else Some (Inr out1)))"

definition uint128_str :: "uint128_t \<Rightarrow> byte \<Rightarrow> u32 \<Rightarrow> bytes outcome option" where
  "uint128_str this base len =
     (if base < 2 \<or> base > 16 then
        Some (Inl (invalid_argument ''Base must be in th range 2-16''))
      else map_option
        (map_sum id
          (\<lambda>out. if length out < unat len then replicate (unat len - length out) 48 @ out else out))
        (if uint128_lnot this then Some (Inr (lit ''0''))
         else str_loop this base []))"

text \<open>\<^verbatim>\<open>operator<<\<close>: the text appended to the stream under the format flags that are set.\<close>

definition uint128_print :: "bool \<Rightarrow> bool \<Rightarrow> bool \<Rightarrow> uint128_t \<Rightarrow> bytes outcome option" where
  "uint128_print oct dec hex rhs =
     (if oct then uint128_str rhs 8 0
      else if dec then uint128_str rhs 10 0
      else if hex then uint128_str rhs 16 0
      else Some (Inr []))"

section \<open>Multiply and divide\<close>

definition bigDivide_u :: "u64 \<Rightarrow> u64 \<Rightarrow> u64 \<Rightarrow> (bool \<times> u64) outcome option" where
  "bigDivide_u A B C =
     (let a = uint128_of A; b = uint128_of B; c = uint128_of C
      in map_option
           (map_sum id (\<lambda>x. (uint128_le_T x 0xffffffffffffffff, uint128_uint64 x)))
           (uint128_div (uint128_mul a b) c))"

text \<open>
  The signed overload: its arguments are the two's complement words; \<open>result0\<close> is the value
  of the reference parameter before the call.
\<close>

definition bigDivide_s :: "u64 \<Rightarrow> u64 \<Rightarrow> u64 \<Rightarrow> u64 \<Rightarrow> (bool \<times> u64) outcome option" where
  "bigDivide_s result0 A B C =
     (if \<not> (sint A \<ge> 0 \<and> sint B \<ge> 0 \<and> sint C > 0) then Some (Inl assertion_failed)
      else map_option
        (map_sum id (\<lambda>(res, r2). if res then (r2 \<le> 0x7fffffffffffffff, r2) else (res, result0)))
        (bigDivide_u A B C))"

definition bigDivide :: "u64 \<Rightarrow> u64 \<Rightarrow> u64 \<Rightarrow> u64 \<Rightarrow> u64 outcome option" where
  "bigDivide res0 A B C =
     map_option
       (\<lambda>x. case x of Inl e \<Rightarrow> Inl e
          | Inr (ok, res) \<Rightarrow>
              if \<not> ok then Inl (overflow_error ''overflow while performing bigDivide'') else Inr res)
       (bigDivide_s res0 A B C)"

section \<open>Hexadecimal digits\<close>

definition hex_to_decimal :: "byte \<Rightarrow> u32" where
  "hex_to_decimal a =
     (if char_range 48 57 a then ucast a - 48
      else if char_range 97 102 a then ucast a - 97 + 10
      else if char_range 65 70 a then ucast a - 65 + 10
      else 0)"

section \<open>The value of an object and the arithmetic it implements\<close>

definition nat128 :: "uint128_t \<Rightarrow> nat" where
  "nat128 x = unat (UPPER x) * 2 ^ 64 + unat (LOWER x)"

lemma unat_u64_bound: "unat (w :: u64) < 2 ^ 64"
  by (rule order_less_le_trans [OF unsigned_less]) simp

lemma nat128_wrap:
  assumes "l < (2::nat) ^ 64"
  shows "(u mod 2 ^ 64) * 2 ^ 64 + l = (u * 2 ^ 64 + l) mod 2 ^ 128"
proof -
  have wrap: "u * 2 ^ 64 mod 2 ^ 128 = (u mod 2 ^ 64) * 2 ^ 64"
    using mult_mod_left [of u "2 ^ 64" "2 ^ 64"] by (simp only: power_add [symmetric]) simp
  have "u mod 2 ^ 64 \<le> 2 ^ 64 - 1" by simp
  then have "(u mod 2 ^ 64) * 2 ^ 64 \<le> (2 ^ 64 - 1) * 2 ^ 64" by (rule mult_le_mono1)
  then have "(u mod 2 ^ 64) * 2 ^ 64 + l < 2 ^ 128" using assms by simp
  then have "((u mod 2 ^ 64) * 2 ^ 64 + l) mod 2 ^ 128 = (u mod 2 ^ 64) * 2 ^ 64 + l"
    by (rule mod_less)
  then show ?thesis by (simp only: wrap [symmetric] mod_add_left_eq)
qed

lemma nat128_bound: "nat128 x < 2 ^ 128"
  using nat128_wrap [OF unat_u64_bound, of "unat (UPPER x)" "LOWER x"] unat_u64_bound [of "UPPER x"]
  by (simp add: nat128_def)

lemma nat128_inj: "nat128 x = nat128 y \<longleftrightarrow> x = y"
proof
  assume eq: "nat128 x = nat128 y"
  then have "nat128 x div 2 ^ 64 = nat128 y div 2 ^ 64" "nat128 x mod 2 ^ 64 = nat128 y mod 2 ^ 64"
    by simp_all
  then have "unat (UPPER x) = unat (UPPER y)" "unat (LOWER x) = unat (LOWER y)"
    using unat_u64_bound by (simp_all add: nat128_def)
  then show "x = y" by (simp add: word_unat_eq_iff)
qed simp

lemma carry_u64: "(of_bool ((a :: u64) + b < a) :: nat) = (unat a + unat b) div 2 ^ 64"
proof -
  have "unat (a + b) = (unat a + unat b) mod 2 ^ 64" by (simp add: unat_word_ariths)
  then show ?thesis using unat_u64_bound [of a] unat_u64_bound [of b]
    by (cases "2 ^ 64 \<le> unat a + unat b") (auto simp: word_less_nat_alt le_mod_geq le_div_geq)
qed

lemma borrow_u64: "(a :: u64) - b > a \<longleftrightarrow> unat a < unat b"
  using unat_u64_bound [of a] unat_u64_bound [of b] by (auto simp: word_less_nat_alt unat_sub_if')

lemma unat_of_bool_u64 [simp]: "unat (of_bool b :: u64) = of_bool b"
  by simp

lemma nat128_uint128 [simp]: "nat128 (uint128 u l) = unat u * 2 ^ 64 + unat l"
  by (simp add: nat128_def uint128_def)
lemma nat128_of [simp]: "nat128 (uint128_of l) = unat l"
  by (simp add: nat128_def uint128_of_def)

lemma nat128_add: "nat128 (uint128_add x y) = (nat128 x + nat128 y) mod 2 ^ 128"
proof -
  let ?s = "unat (LOWER x) + unat (LOWER y)" and ?u = "unat (UPPER x) + unat (UPPER y)"
  have "nat128 (uint128_add x y) = ((?u + ?s div 2 ^ 64) mod 2 ^ 64) * 2 ^ 64 + ?s mod 2 ^ 64"
    by (simp add: uint128_add_def unat_word_ariths carry_u64 mod_simps)
  also have "\<dots> = ((?u + ?s div 2 ^ 64) * 2 ^ 64 + ?s mod 2 ^ 64) mod 2 ^ 128"
    by (rule nat128_wrap) simp
  also have "(?u + ?s div 2 ^ 64) * 2 ^ 64 + ?s mod 2 ^ 64 = nat128 x + nat128 y"
    using div_mult_mod_eq [of ?s "2 ^ 64"] by (simp add: nat128_def algebra_simps)
  finally show ?thesis .
qed
lemma limb_product:
  fixes B :: nat
  assumes p: "x3*y3 = l33 + B*h33" "x3*y2 = l32 + B*h32" "x3*y1 = l31 + B*h31" "x3*y0 = l30 + B*h30"
      "x2*y3 = l23 + B*h23" "x2*y2 = l22 + B*h22" "x2*y1 = l21 + B*h21"
      "x1*y3 = l13 + B*h13" "x1*y2 = l12 + B*h12" "x0*y3 = l03 + B*h03"
  shows "(x0*B^3 + x1*B^2 + x2*B + x3) * (y0*B^3 + y1*B^2 + y2*B + y3) =
    ((l30 + h31 + (l21 + h22) + (l12 + h13) + l03) * B^3
     + (l31 + h32 + (l22 + h23) + l13) * B^2 + (l32 + h33 + l23) * B + l33)
    + (h30 + h21 + h12 + h03 + x2*y0 + x1*y1 + x0*y2 + (x1*y0 + x0*y1) * B + x0*y0 * B^2) * B^4"
proof -
  have "(x0*B^3 + x1*B^2 + x2*B + x3) * (y0*B^3 + y1*B^2 + y2*B + y3) =
     x3*y3 + (x3*y2 + x2*y3)*B + (x3*y1 + x2*y2 + x1*y3)*B^2
     + (x3*y0 + x2*y1 + x1*y2 + x0*y3)*B^3 + (x2*y0 + x1*y1 + x0*y2 + (x1*y0 + x0*y1) * B + x0*y0 * B^2) * B^4"
    by (simp add: algebra_simps power2_eq_square power3_eq_cube power4_eq_xxxx)
  then show ?thesis unfolding p by (simp add: algebra_simps power2_eq_square power3_eq_cube power4_eq_xxxx)
qed

lemma uint128_add_sub: "uint128_add (uint128_sub x y) y = x"
  by (simp add: uint128_add_def uint128_sub_def uint128_def)

lemma nat128_sub: "nat128 (uint128_sub x y) = (nat128 x + 2 ^ 128 - nat128 y) mod 2 ^ 128"
proof -
  have "nat128 x = (nat128 (uint128_sub x y) + nat128 y) mod 2 ^ 128"
    using nat128_add [of "uint128_sub x y" y] by (simp add: uint128_add_sub)
  then show ?thesis
    using nat128_bound [of x] nat128_bound [of y] nat128_bound [of "uint128_sub x y"]
    by (cases "nat128 (uint128_sub x y) + nat128 y < 2 ^ 128") (simp_all add: le_mod_geq)
qed

lemma nat128_sub_le: "nat128 y \<le> nat128 x \<Longrightarrow> nat128 (uint128_sub x y) = nat128 x - nat128 y"
  using nat128_bound [of x] by (simp add: nat128_sub le_mod_geq)

lemma unat_lo32: "unat ((w :: u64) AND 0xffffffff) = unat w mod 2 ^ 32"
proof -
  have "w AND 0xffffffff = take_bit 32 w" by (simp add: take_bit_eq_mask mask_eq_exp_minus_1)
  then show ?thesis by (simp only:) (subst unsigned_take_bit_eq, rule take_bit_eq_mod)
qed

lemma unat_hi32: "unat (drop_bit 32 (w :: u64)) = unat w div 2 ^ 32"
  by (simp add: drop_bit_eq_div unat_div)

lemma unat_hi32_less: "unat (w :: u64) div 2 ^ 32 < 2 ^ 32"
  using unat_u64_bound [of w] by (simp add: less_mult_imp_div_less)

lemma unat_mult32:
  assumes "unat a < 2 ^ 32" and "unat b < 2 ^ 32"
  shows "unat ((a :: u64) * b) = unat a * unat b"
proof -
  have "unat a * unat b < 2 ^ 32 * 2 ^ 32" using assms by (intro mult_strict_mono) simp_all
  then show ?thesis by (simp add: unat_word_ariths)
qed

lemma unat_add_small:
  assumes "unat a + unat b < 2 ^ 64" shows "unat ((a :: u64) + b) = unat a + unat b"
  using assms by (simp add: unat_word_ariths)

lemma div_mod_scale: "(a div b) * (b * c) + (a mod b) * c = (a :: nat) * c"
  by (simp only: mult.assoc [symmetric] distrib_right [symmetric] div_mult_mod_eq)

lemma nat128_limbs:
  "nat128 x = unat (limbs x ! 0) * (2 ^ 32) ^ 3 + unat (limbs x ! 1) * (2 ^ 32) ^ 2
      + unat (limbs x ! 2) * 2 ^ 32 + unat (limbs x ! 3)"
proof -
  have "unat (UPPER x) * 2 ^ 64
      = unat (UPPER x) div 2 ^ 32 * (2 ^ 32) ^ 3 + unat (UPPER x) mod 2 ^ 32 * (2 ^ 32) ^ 2"
    using div_mod_scale [of "unat (UPPER x)" "2 ^ 32" "2 ^ 64"] by simp
  moreover have "unat (LOWER x) = unat (LOWER x) div 2 ^ 32 * 2 ^ 32 + unat (LOWER x) mod 2 ^ 32"
    by (simp only: div_mult_mod_eq)
  ultimately show ?thesis
    unfolding nat128_def by (simp add: limbs_def unat_lo32 unat_hi32)
qed

lemma limbs_less: "i < 4 \<Longrightarrow> unat (limbs x ! i) < 2 ^ 32"
  using unat_hi32_less [of "UPPER x"] unat_hi32_less [of "LOWER x"]
  by (auto simp: limbs_def unat_lo32 unat_hi32 nth_Cons split: nat.splits)

lemma nat128_push32: "unat (push_bit 32 (w :: u64)) * 2 ^ 64 = (unat w * (2 ^ 32) ^ 3) mod 2 ^ 128"
proof -
  have "unat (push_bit 32 w) = (unat w * 2 ^ 32) mod 2 ^ 64"
    by (simp add: push_bit_eq_mult unat_word_ariths mult.commute)
  then show ?thesis using nat128_wrap [of 0 "unat w * 2 ^ 32"] by (simp add: mult.commute)
qed

lemma nat128_split32:
  "unat (drop_bit 32 (w :: u64)) * 2 ^ 64 + unat (push_bit 32 w) = unat w * 2 ^ 32"
proof -
  have "unat (push_bit 32 w) = (unat w * 2 ^ 32) mod (2 ^ 32 * 2 ^ 32)"
    by (simp add: push_bit_eq_mult unat_word_ariths mult.commute)
  also have "\<dots> = unat w mod 2 ^ 32 * 2 ^ 32" by (simp only: mult_mod_left)
  finally have "unat (push_bit 32 w) = unat w mod 2 ^ 32 * 2 ^ 32" .
  then show ?thesis
    using div_mod_scale [of "unat w" "2 ^ 32" "2 ^ 32"] by (simp add: unat_hi32)
qed

text \<open>The columns of the schoolbook product, as the code accumulates them.\<close>

definition prod_lo :: "uint128_t \<Rightarrow> uint128_t \<Rightarrow> nat \<Rightarrow> nat \<Rightarrow> u64" where
  "prod_lo x y i j = (limbs x ! (3 - i) * limbs y ! j) AND 0xffffffff"

definition prod_hi :: "uint128_t \<Rightarrow> uint128_t \<Rightarrow> nat \<Rightarrow> nat \<Rightarrow> u64" where
  "prod_hi x y i j = drop_bit 32 (limbs x ! (3 - i) * limbs y ! j)"

lemma prod_lo_less: "unat (prod_lo x y i j) < 2 ^ 32"
  by (simp add: prod_lo_def unat_lo32)

lemma prod_hi_less: "unat (prod_hi x y i j) < 2 ^ 32"
  unfolding prod_hi_def unat_hi32 by (rule unat_hi32_less)

lemma limb_prod:
  assumes "i < 4" "j < 4"
  shows "unat (limbs x ! (3 - i)) * unat (limbs y ! j)
    = unat (prod_lo x y i j) + 2 ^ 32 * unat (prod_hi x y i j)"
proof -
  have "unat (limbs x ! (3 - i) * limbs y ! j) = unat (limbs x ! (3 - i)) * unat (limbs y ! j)"
    using assms by (intro unat_mult32 limbs_less) simp_all
  then show ?thesis
    unfolding prod_lo_def prod_hi_def unat_lo32 unat_hi32 by (simp only: mod_mult_div_eq)
qed

lemma nat128_mul: "nat128 (uint128_mul x y) = (nat128 x * nat128 y) mod 2 ^ 128"
proof -
  let ?l = "prod_lo x y" and ?h = "prod_hi x y"
  define t3 s2 f1 where "t3 = ?l 0 2 + ?h 0 3 + ?l 1 3"
    and "s2 = ?l 0 1 + ?h 0 2 + (?l 1 2 + ?h 1 3) + ?l 2 3"
    and "f1 = ?l 0 0 + ?h 0 1 + (?l 1 1 + ?h 1 2) + (?l 2 2 + ?h 2 3) + ?l 3 3"
  let ?sum = "unat f1 * (2 ^ 32) ^ 3 + unat s2 * (2 ^ 32) ^ 2 + unat t3 * 2 ^ 32 + unat (?l 0 3)"
  have mul: "uint128_mul x y = uint128_add (uint128_add (uint128_add (uint128 (push_bit 32 f1) 0)
      (uint128 (drop_bit 32 t3) (push_bit 32 t3))) (uint128 s2 0)) (uint128_of (?l 0 3))"
    unfolding uint128_mul_def Let_def f1_def t3_def s2_def prod_lo_def prod_hi_def by simp
  have sums: "unat t3 = unat (?l 0 2) + unat (?h 0 3) + unat (?l 1 3)"
    "unat s2 = unat (?l 0 1) + unat (?h 0 2) + (unat (?l 1 2) + unat (?h 1 3)) + unat (?l 2 3)"
    "unat f1 = unat (?l 0 0) + unat (?h 0 1) + (unat (?l 1 1) + unat (?h 1 2))
       + (unat (?l 2 2) + unat (?h 2 3)) + unat (?l 3 3)"
    unfolding t3_def s2_def f1_def
    using prod_lo_less [of x y 0 0] prod_lo_less [of x y 1 1] prod_lo_less [of x y 2 2] prod_lo_less [of x y 3 3] prod_lo_less [of x y 0 1] prod_lo_less [of x y 1 2] prod_lo_less [of x y 2 3] prod_lo_less [of x y 0 2] prod_lo_less [of x y 1 3]
      prod_hi_less [of x y 0 1] prod_hi_less [of x y 1 2] prod_hi_less [of x y 2 3] prod_hi_less [of x y 0 2] prod_hi_less [of x y 1 3] prod_hi_less [of x y 0 3]
    by (simp_all add: unat_add_small)
  have prods:
    "unat (limbs x ! 3) * unat (limbs y ! 3) = unat (prod_lo x y 0 3) + 2 ^ 32 * unat (prod_hi x y 0 3)"
    "unat (limbs x ! 3) * unat (limbs y ! 2) = unat (prod_lo x y 0 2) + 2 ^ 32 * unat (prod_hi x y 0 2)"
    "unat (limbs x ! 3) * unat (limbs y ! 1) = unat (prod_lo x y 0 1) + 2 ^ 32 * unat (prod_hi x y 0 1)"
    "unat (limbs x ! 3) * unat (limbs y ! 0) = unat (prod_lo x y 0 0) + 2 ^ 32 * unat (prod_hi x y 0 0)"
    "unat (limbs x ! 2) * unat (limbs y ! 3) = unat (prod_lo x y 1 3) + 2 ^ 32 * unat (prod_hi x y 1 3)"
    "unat (limbs x ! 2) * unat (limbs y ! 2) = unat (prod_lo x y 1 2) + 2 ^ 32 * unat (prod_hi x y 1 2)"
    "unat (limbs x ! 2) * unat (limbs y ! 1) = unat (prod_lo x y 1 1) + 2 ^ 32 * unat (prod_hi x y 1 1)"
    "unat (limbs x ! 1) * unat (limbs y ! 3) = unat (prod_lo x y 2 3) + 2 ^ 32 * unat (prod_hi x y 2 3)"
    "unat (limbs x ! 1) * unat (limbs y ! 2) = unat (prod_lo x y 2 2) + 2 ^ 32 * unat (prod_hi x y 2 2)"
    "unat (limbs x ! 0) * unat (limbs y ! 3) = unat (prod_lo x y 3 3) + 2 ^ 32 * unat (prod_hi x y 3 3)"
    using limb_prod [of 0 3 x y] limb_prod [of 0 2 x y] limb_prod [of 0 1 x y] limb_prod [of 0 0 x y] limb_prod [of 1 3 x y] limb_prod [of 1 2 x y] limb_prod [of 1 1 x y] limb_prod [of 2 3 x y] limb_prod [of 2 2 x y] limb_prod [of 3 3 x y] by simp_all
  have "\<exists>k. nat128 x * nat128 y = ?sum + k * (2 ^ 32) ^ 4"
    unfolding nat128_limbs [of x] nat128_limbs [of y] sums
    by (rule exI, rule limb_product [OF prods])
  then obtain k where k: "nat128 x * nat128 y = ?sum + k * (2 ^ 32) ^ 4" ..
  have "nat128 (uint128_mul x y) =
      (unat f1 * (2 ^ 32) ^ 3 + unat t3 * 2 ^ 32 + unat s2 * 2 ^ 64 + unat (?l 0 3)) mod 2 ^ 128"
    unfolding mul nat128_add nat128_uint128 nat128_split32 nat128_push32 nat128_of
    by (simp only: mod_add_left_eq unsigned_0 add_0_right)
  also have "\<dots> = ?sum mod 2 ^ 128" by (simp add: ac_simps)
  also have "\<dots> = (nat128 x * nat128 y) mod 2 ^ 128" unfolding k by simp
  finally show ?thesis .
qed

lemma nat128_eq: "uint128_eq x y \<longleftrightarrow> nat128 x = nat128 y"
  by (cases x; cases y) (simp add: uint128_eq_def nat128_inj)

lemma nat128_lt: "uint128_lt x y \<longleftrightarrow> nat128 x < nat128 y"
proof -
  have "u * 2 ^ 64 + l < v * 2 ^ 64 + m \<longleftrightarrow> (if u = v then l < m else u < v)"
    if "l < 2 ^ 64" "m < 2 ^ 64" for u v l m :: nat
    using that by (cases u v rule: linorder_cases) (auto dest!: less_imp_add_positive)
  from this [OF unat_u64_bound unat_u64_bound] show ?thesis
    by (auto simp: uint128_lt_def nat128_def word_less_nat_alt word_unat_eq_iff)
qed

lemma nat128_gt: "uint128_gt x y \<longleftrightarrow> nat128 x > nat128 y"
  using nat128_lt [of y x] by (auto simp: uint128_gt_def uint128_lt_def)

lemma nat128_ge: "uint128_ge x y \<longleftrightarrow> nat128 x \<ge> nat128 y"
  by (auto simp: uint128_ge_def nat128_gt nat128_eq)

lemma nat128_le: "uint128_le x y \<longleftrightarrow> nat128 x \<le> nat128 y"
  by (auto simp: uint128_le_def nat128_lt nat128_eq)

lemma nat128_bool: "uint128_bool x \<longleftrightarrow> nat128 x \<noteq> 0"
  by (auto simp: uint128_bool_def nat128_def or_eq_0_iff unsigned_eq_0_iff unat_gt_0)

lemma nat128_lnot: "uint128_lnot x \<longleftrightarrow> nat128 x = 0"
  by (auto simp: uint128_lnot_def nat128_def or_eq_0_iff unsigned_eq_0_iff unat_gt_0)

lemma unat_push_u64: "unat (push_bit n (w :: u64)) = (unat w * 2 ^ n) mod 2 ^ 64"
  by (simp only: unsigned_push_bit_eq) (simp add: push_bit_eq_mult take_bit_eq_mod)

lemma unat_drop_u64: "unat (drop_bit n (w :: u64)) = unat w div 2 ^ n"
  by (simp only: unsigned_drop_bit_eq) (simp add: drop_bit_eq_div take_bit_eq_mod unat_u64_bound [simplified])

lemma nat128_shl: "nat128 (uint128_shl x r) = (nat128 x * 2 ^ nat128 r) mod 2 ^ 128"
proof -
  let ?n = "unat (LOWER r)" and ?u = "unat (UPPER x)" and ?l = "unat (LOWER x)"
  consider "UPPER r \<noteq> 0 \<or> 128 \<le> ?n" | "UPPER r = 0" "?n = 0" | "UPPER r = 0" "0 < ?n" "?n < 64"
    | "UPPER r = 0" "64 \<le> ?n" "?n < 128" by linarith
  then show ?thesis
  proof cases
    case 1
    then have "128 \<le> nat128 r" by (auto simp: nat128_def word_unat_eq_iff)
    then have "2 ^ 128 dvd (2::nat) ^ nat128 r" by (rule le_imp_power_dvd)
    then have "(nat128 x * 2 ^ nat128 r) mod 2 ^ 128 = 0" by (simp add: mod_eq_0_iff_dvd)
    then show ?thesis using 1 by (auto simp: uint128_shl_def uint128_0_def word_le_nat_alt)
  next
    case 2
    then have "LOWER r = 0" by (simp add: unsigned_eq_0_iff)
    with 2 show ?thesis
      using nat128_bound [of x] by (simp add: uint128_shl_def nat128_def [of r])
  next
    case 3
    then have n: "unat (64 - LOWER r) = 64 - ?n" "nat128 r = ?n" "LOWER r < 64" "LOWER r \<noteq> 0"
        "LOWER r \<noteq> 64" "\<not> 128 \<le> LOWER r"
      by (auto simp: unat_sub_if' nat128_def word_less_nat_alt word_le_nat_alt)
    have pw: "(2::nat) ^ 64 = 2 ^ (64 - ?n) * 2 ^ ?n"
      using 3 by (simp flip: power_add)
    have carry: "?l div 2 ^ (64 - ?n) * 2 ^ 64 + (?l * 2 ^ ?n) mod 2 ^ 64 = ?l * 2 ^ ?n"
    proof -
      have "?l div 2 ^ (64 - ?n) = (?l * 2 ^ ?n) div 2 ^ 64" unfolding pw by simp
      then show ?thesis by (simp only: div_mult_mod_eq)
    qed
    have "nat128 (uint128_shl x r)
        = ((?u * 2 ^ ?n + ?l div 2 ^ (64 - ?n)) mod 2 ^ 64) * 2 ^ 64 + (?l * 2 ^ ?n) mod 2 ^ 64"
      using 3 n by (simp add: uint128_shl_def Let_def unat_word_ariths unat_push_u64 unat_drop_u64
          mod_add_left_eq)
    also have "\<dots> = ((?u * 2 ^ ?n + ?l div 2 ^ (64 - ?n)) * 2 ^ 64 + (?l * 2 ^ ?n) mod 2 ^ 64) mod 2 ^ 128"
      by (rule nat128_wrap) simp
    also have "(?u * 2 ^ ?n + ?l div 2 ^ (64 - ?n)) * 2 ^ 64 + (?l * 2 ^ ?n) mod 2 ^ 64 = nat128 x * 2 ^ ?n"
      unfolding distrib_right add.assoc carry by (simp add: nat128_def algebra_simps)
    finally show ?thesis by (simp add: n)
  next
    case 4
    then have n: "unat (LOWER r - 64) = ?n - 64" "nat128 r = ?n"
      by (auto simp: unat_sub_if' nat128_def)
    have "nat128 (uint128_shl x r) = ((?l * 2 ^ (?n - 64)) mod 2 ^ 64) * 2 ^ 64"
      using 4 n by (auto simp: uint128_shl_def Let_def unat_push_u64 word_le_nat_alt word_less_nat_alt
          word_unat_eq_iff unat_u64_bound [simplified])
    also have "\<dots> = (?l * 2 ^ (?n - 64) * 2 ^ 64) mod 2 ^ 128"
      using nat128_wrap [of 0 "?l * 2 ^ (?n - 64)"] by simp
    also have "\<dots> = (nat128 x * 2 ^ ?n) mod 2 ^ 128"
    proof -
      have "(2::nat) ^ ?n = 2 ^ (?n - 64) * 2 ^ 64"
        using 4 power_add [of "2::nat" "?n - 64" 64] by simp
      then have "nat128 x * 2 ^ ?n = ?l * 2 ^ (?n - 64) * 2 ^ 64 + (?u * 2 ^ (?n - 64)) * 2 ^ 128"
        by (simp add: nat128_def algebra_simps)
      then show ?thesis by (simp only: mod_mult_self1)
    qed
    finally show ?thesis by (simp add: n)
  qed
qed

lemma nat128_shr: "nat128 (uint128_shr x r) = nat128 x div 2 ^ nat128 r"
proof -
  let ?n = "unat (LOWER r)" and ?u = "unat (UPPER x)" and ?l = "unat (LOWER x)"
  consider "UPPER r \<noteq> 0 \<or> 128 \<le> ?n" | "UPPER r = 0" "?n = 0" | "UPPER r = 0" "0 < ?n" "?n < 64"
    | "UPPER r = 0" "64 \<le> ?n" "?n < 128" by linarith
  then show ?thesis
  proof cases
    case 1
    then have "128 \<le> nat128 r" by (auto simp: nat128_def word_unat_eq_iff)
    then have "(2::nat) ^ 128 \<le> 2 ^ nat128 r" by (rule power_increasing) simp
    then have "nat128 x div 2 ^ nat128 r = 0"
      using nat128_bound [of x] by simp
    then show ?thesis using 1 by (auto simp: uint128_shr_def uint128_0_def word_le_nat_alt)
  next
    case 2
    then have "LOWER r = 0" by (simp add: unsigned_eq_0_iff)
    with 2 show ?thesis by (simp add: uint128_shr_def nat128_def [of r])
  next
    case 3
    then have n: "unat (64 - LOWER r) = 64 - ?n" "nat128 r = ?n" "LOWER r < 64" "LOWER r \<noteq> 0"
        "LOWER r \<noteq> 64" "\<not> 128 \<le> LOWER r"
      by (auto simp: unat_sub_if' nat128_def word_less_nat_alt word_le_nat_alt)
    have pw: "(2::nat) ^ 64 = 2 ^ ?n * 2 ^ (64 - ?n)"
      using 3 by (simp flip: power_add)
    have hi: "(?u * 2 ^ (64 - ?n)) mod 2 ^ 64 = ?u mod 2 ^ ?n * 2 ^ (64 - ?n)"
      unfolding pw by (simp only: mult_mod_left)
    have lo: "?l div 2 ^ ?n < 2 ^ (64 - ?n)"
      using unat_u64_bound [of "LOWER x"] unfolding pw by (simp add: less_mult_imp_div_less mult.commute)
    have fits: "?u mod 2 ^ ?n * 2 ^ (64 - ?n) + ?l div 2 ^ ?n < 2 ^ 64"
    proof -
      have "Suc (?u mod 2 ^ ?n) \<le> 2 ^ ?n" by (simp add: Suc_leI)
      then have "Suc (?u mod 2 ^ ?n) * 2 ^ (64 - ?n) \<le> 2 ^ 64" unfolding pw by (rule mult_le_mono1)
      then show ?thesis using lo by simp
    qed
    have "nat128 (uint128_shr x r)
        = ?u div 2 ^ ?n * 2 ^ 64 + (?u mod 2 ^ ?n * 2 ^ (64 - ?n) + ?l div 2 ^ ?n)"
      using 3 n fits by (simp add: uint128_shr_def Let_def unat_word_ariths unat_push_u64 unat_drop_u64 hi [simplified])
    also have "\<dots> = ?u * 2 ^ (64 - ?n) + ?l div 2 ^ ?n"
      unfolding pw by (simp only: add.assoc [symmetric] div_mod_scale)
    also have "\<dots> = nat128 x div 2 ^ ?n"
    proof -
      have "nat128 x = ?l + ?u * 2 ^ (64 - ?n) * 2 ^ ?n"
        unfolding nat128_def pw by (simp only: ac_simps)
      then show ?thesis by simp
    qed
    finally show ?thesis by (simp add: n)
  next
    case 4
    then have n: "unat (LOWER r - 64) = ?n - 64" "nat128 r = ?n"
      by (auto simp: unat_sub_if' nat128_def)
    have "nat128 (uint128_shr x r) = ?u div 2 ^ (?n - 64)"
      using 4 n by (auto simp: uint128_shr_def Let_def unat_drop_u64 word_le_nat_alt word_less_nat_alt
          word_unat_eq_iff)
    also have "\<dots> = (nat128 x div 2 ^ 64) div 2 ^ (?n - 64)"
      using unat_u64_bound [of "LOWER x"] by (simp add: nat128_def)
    also have "\<dots> = nat128 x div 2 ^ ?n"
      using 4 power_add [of "2::nat" 64 "?n - 64"] by (simp flip: div_mult2_eq)
    finally show ?thesis by (simp add: n)
  qed
qed

declare count_bits.simps [simp del]

lemma count_bits_spec:
  "v \<noteq> 0 \<Longrightarrow> \<exists>n. 0 < n \<and> n \<le> 64 \<and> 2 ^ (n - 1) \<le> unat v \<and> unat v < 2 ^ n \<and> count_bits v out = out + of_nat n"
proof (induction v out rule: count_bits.induct)
  case (1 v out)
  have half: "unat (drop_bit 1 v) = unat v div 2" by (simp only: unat_drop_u64) simp
  show ?case
  proof (cases "drop_bit 1 v = 0")
    case True
    with half "1.prems" have "unat v = 1" by (auto simp: word_unat_eq_iff)
    with True show ?thesis
      using "1.prems" by (intro exI [of _ 1]) (simp add: count_bits.simps [of v] count_bits.simps [of 0])
  next
    case False
    from "1.IH" [OF "1.prems" False] obtain n where n: "0 < n" "2 ^ (n - 1) \<le> unat v div 2"
      "unat v div 2 < 2 ^ n" "count_bits (drop_bit 1 v) (out + 1) = out + 1 + of_nat n"
      unfolding half by blast
    have lower: "2 ^ n \<le> unat v" and upper: "unat v < 2 ^ Suc n"
      using n(1-3) by (cases n; simp)+
    have "(2::nat) ^ n < 2 ^ 64" using lower unat_u64_bound [of v] by linarith
    then have "n < 64" by (rule power_less_imp_less_exp [rotated]) simp
    with n lower upper "1.prems" show ?thesis
      by (intro exI [of _ "Suc n"]) (simp add: count_bits.simps [of v])
  qed
qed

lemma bits_spec:
  assumes "nat128 x \<noteq> 0"
  shows "0 < unat (uint128_bits x)" "unat (uint128_bits x) \<le> 128"
    "2 ^ (unat (uint128_bits x) - 1) \<le> nat128 x" "nat128 x < 2 ^ unat (uint128_bits x)"
proof -
  have "0 < unat (uint128_bits x) \<and> unat (uint128_bits x) \<le> 128 \<and>
    2 ^ (unat (uint128_bits x) - 1) \<le> nat128 x \<and> nat128 x < 2 ^ unat (uint128_bits x)"
  proof (cases "UPPER x = 0")
    case True
    with assms have "LOWER x \<noteq> 0" by (auto simp: nat128_def)
    from count_bits_spec [OF this, of 0] obtain n where n: "0 < n" "n \<le> 64"
      "2 ^ (n - 1) \<le> unat (LOWER x)" "unat (LOWER x) < 2 ^ n" "uint128_bits x = of_nat n"
      using True by (auto simp: uint128_bits_def)
    moreover from n have "unat (uint128_bits x) = n" by (simp add: unat_of_nat)
    ultimately show ?thesis using True by (simp add: nat128_def)
  next
    case False
    from count_bits_spec [OF this, of 64] obtain n where n: "0 < n" "n \<le> 64"
      "2 ^ (n - 1) \<le> unat (UPPER x)" "unat (UPPER x) < 2 ^ n" "uint128_bits x = 64 + of_nat n"
      using False by (auto simp: uint128_bits_def)
    then have b: "unat (uint128_bits x) = 64 + n" by (simp add: unat_word_ariths unat_of_nat)
    have "2 ^ (64 + n - 1) = 2 ^ (n - 1) * (2::nat) ^ 64"
      using n(1) by (cases n) (simp_all add: power_add)
    moreover have "nat128 x < (unat (UPPER x) + 1) * 2 ^ 64"
      using unat_u64_bound [of "LOWER x"] by (simp add: nat128_def)
    moreover have "(unat (UPPER x) + 1) * 2 ^ 64 \<le> 2 ^ n * 2 ^ 64"
      using n(4) by (intro mult_le_mono1) simp
    moreover have "2 ^ (n - 1) * 2 ^ 64 \<le> nat128 x"
      using mult_le_mono1 [OF n(3), of "2 ^ 64"] by (simp add: nat128_def)
    ultimately show ?thesis using n(1,2) by (simp add: b power_add mult.commute)
  qed
  then show "0 < unat (uint128_bits x)" "unat (uint128_bits x) \<le> 128"
    "2 ^ (unat (uint128_bits x) - 1) \<le> nat128 x" "nat128 x < 2 ^ unat (uint128_bits x)"
    by auto
qed

lemma nat128_or_halves: "nat128 x = push_bit 64 (unat (UPPER x)) OR unat (LOWER x)"
proof -
  have "push_bit 64 (unat (UPPER x)) AND unat (LOWER x) = 0"
    by (rule bit_eqI) (auto simp: bit_simps dest: bit_imp_le_length)
  then show ?thesis
    by (simp only: nat128_def disjunctive_add_eq_or [symmetric]) (simp add: push_bit_eq_mult)
qed

lemma bit_nat128:
  "bit (nat128 x) n \<longleftrightarrow> (if n < 64 then bit (LOWER x) n else bit (UPPER x) (n - 64))"
  unfolding nat128_or_halves
  by (auto simp: bit_simps dest: bit_imp_le_length)

lemma nat128_and: "nat128 (uint128_and x y) = nat128 x AND nat128 y"
  by (rule bit_eqI) (simp add: bit_and_iff bit_nat128, simp add: uint128_and_def uint128_def bit_and_iff)

lemma nat128_or: "nat128 (uint128_or x y) = nat128 x OR nat128 y"
  by (rule bit_eqI) (simp add: bit_or_iff bit_nat128, simp add: uint128_or_def uint128_def bit_or_iff)

lemma nat128_xor: "nat128 (uint128_xor x y) = nat128 x XOR nat128 y"
  by (rule bit_eqI) (simp add: bit_xor_iff bit_nat128, simp add: uint128_xor_def uint128_def bit_xor_iff)

lemma nat128_not: "nat128 (uint128_not x) = 2 ^ 128 - 1 - nat128 x"
proof -
  have "unat (NOT w) = 2 ^ 64 - 1 - unat w" for w :: u64
  proof -
    have "NOT w = - 1 - w" by (simp add: not_eq_complement)
    then have "unat (NOT w) = unat (- 1 :: u64) - unat w" by (simp only: unat_sub word_n1_ge)
    then show ?thesis by (simp add: unsigned_minus_1_eq_mask mask_eq_exp_minus_1)
  qed
  then show ?thesis
    using unat_u64_bound [of "UPPER x"] unat_u64_bound [of "LOWER x"]
    by (simp add: uint128_not_def nat128_def [of x] diff_mult_distrib)
qed

lemma nat128_or_pow2:
  assumes "nat128 x mod 2 ^ Suc k = 0" "nat128 y = 2 ^ k"
  shows "nat128 (uint128_or x y) = nat128 x + nat128 y"
proof -
  have "take_bit (Suc k) (nat128 x) = 0" using assms(1) by (simp only: take_bit_eq_mod)
  then have "\<not> bit (take_bit (Suc k) (nat128 x)) k" by simp
  then have "\<not> bit (nat128 x) k" by (simp only: bit_take_bit_iff) simp
  then have "nat128 x AND nat128 y = 0"
    unfolding assms(2) by (intro bit_eqI) (auto simp: bit_simps)
  then show ?thesis by (simp add: nat128_or disjunctive_add_eq_or)
qed

lemma nat128_one [simp]: "nat128 uint128_1 = 1" "nat128 uint128_0 = 0"
  by (simp_all add: uint128_1_def uint128_0_def)

lemma assign_ops:
  "uint128_and_assign x y = uint128_and x y" "uint128_or_assign x y = uint128_or x y"
  "uint128_xor_assign x y = uint128_xor x y" "uint128_add_assign x y = uint128_add x y"
  by (simp_all add: uint128_and_assign_def uint128_and_def uint128_or_assign_def uint128_or_def
      uint128_xor_assign_def uint128_xor_def uint128_add_assign_def uint128_add_def uint128_def
      add.commute)

lemma unat_ucast_byte: "unat (ucast (b :: byte) :: u64) = unat b"
  by (simp add: unsigned_ucast_eq take_bit_nat_eq_self_iff order_less_le_trans [OF unsigned_less])

lemma divmod_loop_step:
  "divmod_loop rhs q r copyd adder =
     (if nat128 rhs \<le> nat128 r then
        (if nat128 copyd \<le> nat128 r
         then divmod_loop rhs (uint128_or q adder) (uint128_sub r copyd)
                (uint128_shr copyd uint128_1) (uint128_shr adder uint128_1)
         else divmod_loop rhs q r (uint128_shr copyd uint128_1) (uint128_shr adder uint128_1))
      else Some (q, r))"
  by (subst divmod_loop.simps)
     (simp add: nat128_ge assign_ops uint128_sub_assign_def uint128_shr_assign_def)

lemma divmod_loop_correct:
  assumes "nat128 copyd = nat128 rhs * 2 ^ k" "nat128 adder = 2 ^ k"
    "nat128 q mod 2 ^ Suc k = 0" "nat128 r < 2 ^ Suc k * nat128 rhs"
  shows "\<exists>q' r'. divmod_loop rhs q r copyd adder = Some (q', r') \<and> nat128 r' < nat128 rhs
    \<and> nat128 q' * nat128 rhs + nat128 r' = nat128 q * nat128 rhs + nat128 r"
  using assms
proof (induction k arbitrary: q r copyd adder)
  case 0
  show ?case
  proof (cases "nat128 rhs \<le> nat128 r")
    case True
    let ?q = "uint128_or q adder" and ?r = "uint128_sub r copyd"
    have or: "nat128 ?q = nat128 q + 1" using nat128_or_pow2 [of q 0 adder] 0 by simp
    have sub: "nat128 ?r = nat128 r - nat128 rhs" using nat128_sub_le [of copyd r] 0 True by simp
    have "nat128 ?r < nat128 rhs" using 0 True sub by simp
    then have "divmod_loop rhs q r copyd adder = Some (?q, ?r)"
      using 0 True by (simp add: divmod_loop_step [of rhs q] divmod_loop_step [of rhs ?q])
    then show ?thesis using 0 True or sub by (auto simp: algebra_simps)
  next
    case False
    then show ?thesis using 0 by (simp add: divmod_loop_step [of rhs q])
  qed
next
  case (Suc k)
  let ?c = "uint128_shr copyd uint128_1" and ?a = "uint128_shr adder uint128_1"
  have half: "nat128 ?c = nat128 rhs * 2 ^ k" "nat128 ?a = 2 ^ k"
    using Suc.prems(1,2) by (simp_all add: nat128_shr)
  have even: "nat128 v mod 2 ^ Suc k = 0" if "nat128 v mod 2 ^ Suc (Suc k) = 0" for v
    using that by (metis dvd_eq_mod_eq_0 dvd_trans le_imp_power_dvd le_add2 plus_1_eq_Suc)
  consider "nat128 r < nat128 rhs" | "nat128 rhs \<le> nat128 r" "nat128 r < nat128 copyd"
    | "nat128 rhs \<le> nat128 r" "nat128 copyd \<le> nat128 r" by linarith
  then show ?case
  proof cases
    case 1
    then show ?thesis by (simp add: divmod_loop_step [of rhs q])
  next
    case 2
    then show ?thesis
      using Suc.IH [OF half even [OF Suc.prems(3)]] Suc.prems(1)
      by (simp add: divmod_loop_step [of rhs q r copyd adder] mult.commute)
  next
    case 3
    let ?q = "uint128_or q adder" and ?r = "uint128_sub r copyd"
    have or: "nat128 ?q = nat128 q + 2 ^ Suc k"
      using nat128_or_pow2 [OF Suc.prems(3,2)] Suc.prems(2) by simp
    have sub: "nat128 ?r = nat128 r - nat128 copyd" using nat128_sub_le [OF 3(2)] .
    have "nat128 ?q mod 2 ^ Suc k = 0"
      using even [OF Suc.prems(3)] unfolding or by (simp add: mod_add_left_eq [symmetric] del: power_Suc)
    moreover have "nat128 ?r < 2 ^ Suc k * nat128 rhs"
      using Suc.prems(1,4) 3(2) unfolding sub by (simp add: algebra_simps)
    moreover have "nat128 ?q * nat128 rhs + nat128 ?r = nat128 q * nat128 rhs + nat128 r"
      using Suc.prems(1) 3(2) unfolding or sub by (simp add: algebra_simps)
    ultimately show ?thesis
      using Suc.IH [OF half, of ?q ?r] 3 by (simp add: divmod_loop_step [of rhs q r copyd adder])
  qed
qed

lemma divmod_start:
  assumes "0 < nat128 rhs" "nat128 rhs < nat128 lhs"
  defines "s \<equiv> ucast (uint128_bits lhs) - ucast (uint128_bits rhs) :: u64"
    and "k \<equiv> unat (uint128_bits lhs) - unat (uint128_bits rhs)"
  shows "nat128 (uint128_shl_T rhs s) = nat128 rhs * 2 ^ k"
    and "nat128 (uint128_shl_T uint128_1 s) = 2 ^ k"
    and "nat128 lhs < 2 ^ Suc k * nat128 rhs"
proof -
  let ?bl = "unat (uint128_bits lhs)" and ?br = "unat (uint128_bits rhs)"
  have "nat128 lhs \<noteq> 0" "nat128 rhs \<noteq> 0" using assms by linarith+
  note bl = bits_spec [OF this(1)] and br = bits_spec [OF this(2)]
  have "(2::nat) ^ (?br - 1) < 2 ^ ?bl" using br(3) bl(4) assms(2) by linarith
  then have "?br - 1 < ?bl" by (rule power_less_imp_less_exp [rotated]) simp
  then have le: "?br \<le> ?bl" using br(1) by linarith
  then have s: "unat s = k" by (simp add: s_def k_def unat_sub_if' unat_ucast_byte)
  have pow: "(2::nat) ^ ?bl = 2 ^ ?br * 2 ^ k" using le by (simp add: k_def flip: power_add)
  have "nat128 rhs * 2 ^ k < 2 ^ ?bl" unfolding pow using br(4) by simp
  also have "(2::nat) ^ ?bl \<le> 2 ^ 128" using bl(2) by (rule power_increasing) simp
  finally have small: "nat128 rhs * 2 ^ k < 2 ^ 128" .
  then show "nat128 (uint128_shl_T rhs s) = nat128 rhs * 2 ^ k"
    by (simp add: uint128_shl_T_def nat128_shl s)
  have "(2::nat) ^ k \<le> nat128 rhs * 2 ^ k" using assms by simp
  with small have "(2::nat) ^ k < 2 ^ 128" by linarith
  then show "nat128 (uint128_shl_T uint128_1 s) = 2 ^ k"
    by (simp add: uint128_shl_T_def nat128_shl s)
  have "nat128 lhs < 2 ^ ?br * 2 ^ k" using bl(4) pow by simp
  also have "2 ^ ?br \<le> 2 * nat128 rhs" using br(1,3) by (cases ?br) simp_all
  finally show "nat128 lhs < 2 ^ Suc k * nat128 rhs" by (simp add: mult.commute mult.left_commute)
qed

lemma divmod_loop_quotient:
  assumes "nat128 copyd = nat128 rhs * 2 ^ j" "nat128 adder = 2 ^ j"
    "nat128 lhs < 2 ^ Suc j * nat128 rhs"
  shows "\<exists>q r. divmod_loop rhs uint128_0 lhs copyd adder = Some (q, r)
    \<and> nat128 q = nat128 lhs div nat128 rhs \<and> nat128 r = nat128 lhs mod nat128 rhs"
proof -
  from divmod_loop_correct [OF assms(1,2) _ assms(3), of uint128_0] obtain q r
    where run: "divmod_loop rhs uint128_0 lhs copyd adder = Some (q, r)" "nat128 r < nat128 rhs"
      "nat128 q * nat128 rhs + nat128 r = nat128 lhs" by auto
  then have "nat128 lhs div nat128 rhs = nat128 q" "nat128 lhs mod nat128 rhs = nat128 r"
    by (auto simp flip: run(3))
  with run(1) show ?thesis by auto
qed

lemma divmod_correct:
  assumes "nat128 rhs \<noteq> 0"
  shows "\<exists>q r. uint128_divmod lhs rhs = Some (Inr (q, r)) \<and> nat128 q = nat128 lhs div nat128 rhs
    \<and> nat128 r = nat128 lhs mod nat128 rhs"
proof -
  consider "nat128 rhs = 1" | "nat128 rhs \<noteq> 1" "nat128 lhs = nat128 rhs"
    | "nat128 rhs \<noteq> 1" "nat128 lhs < nat128 rhs" | "nat128 rhs \<noteq> 1" "nat128 rhs < nat128 lhs"
    by linarith
  then show ?thesis
  proof cases
    case 4
    let ?s = "ucast (uint128_bits lhs) - ucast (uint128_bits rhs) :: u64"
    let ?k = "unat (uint128_bits lhs) - unat (uint128_bits rhs)"
    let ?c = "uint128_shl_T rhs ?s" and ?a = "uint128_shl_T uint128_1 ?s"
    have start: "nat128 ?c = nat128 rhs * 2 ^ ?k" "nat128 ?a = 2 ^ ?k"
      "nat128 lhs < 2 ^ Suc ?k * nat128 rhs" using divmod_start [OF _ 4(2)] assms by simp_all
    show ?thesis
    proof (cases "nat128 lhs < nat128 ?c")
      case True
      then have "?k \<noteq> 0" using start(1) 4 by (intro notI) simp
      then obtain j where j: "?k = Suc j" by (cases ?k) auto
      have "nat128 (uint128_shr ?c uint128_1) = nat128 rhs * 2 ^ j"
        "nat128 (uint128_shr ?a uint128_1) = 2 ^ j"
        using start(1,2) by (simp_all add: nat128_shr j)
      moreover have "nat128 lhs < 2 ^ Suc j * nat128 rhs"
        using True start(1) unfolding j by (simp add: mult.commute)
      ultimately have "\<exists>q r. divmod_loop rhs uint128_0 lhs (uint128_shr ?c uint128_1) (uint128_shr ?a uint128_1)
          = Some (q, r) \<and> nat128 q = nat128 lhs div nat128 rhs \<and> nat128 r = nat128 lhs mod nat128 rhs"
        by (rule divmod_loop_quotient)
      then show ?thesis
        using 4 assms True
        by (auto simp: uint128_divmod_def nat128_eq nat128_lt nat128_gt Let_def uint128_shr_assign_def)
    next
      case False
      then show ?thesis
        using 4 assms divmod_loop_quotient [OF start]
        by (auto simp: uint128_divmod_def nat128_eq nat128_lt nat128_gt Let_def)
    qed
  qed (use assms in \<open>auto simp: uint128_divmod_def nat128_eq nat128_lt\<close>)
qed

lemma divmod_zero:
  "nat128 rhs = 0 \<Longrightarrow> uint128_divmod lhs rhs = Some (Inl (runtime_error ''Error: division or modulus by 0''))"
  by (simp add: uint128_divmod_def nat128_eq)

lemma uint128_div_correct:
  assumes "nat128 y \<noteq> 0"
  shows "\<exists>q. uint128_div x y = Some (Inr q) \<and> nat128 q = nat128 x div nat128 y"
  using divmod_correct [OF assms, of x] by (auto simp: uint128_div_def)

lemma uint128_mod_correct:
  assumes "nat128 y \<noteq> 0"
  shows "\<exists>r. uint128_mod x y = Some (Inr r) \<and> nat128 r = nat128 x mod nat128 y"
proof -
  obtain q where q: "uint128_div x y = Some (Inr q)" "nat128 q = nat128 x div nat128 y"
    using uint128_div_correct [OF assms] by blast
  have le: "nat128 y * nat128 q \<le> nat128 x" by (simp add: q(2))
  then have "nat128 (uint128_mul y q) = nat128 y * nat128 q"
    using nat128_bound [of x] by (simp add: nat128_mul)
  then have "nat128 (uint128_sub x (uint128_mul y q)) = nat128 x mod nat128 y"
    using nat128_sub_le [of "uint128_mul y q" x] le q(2) by (simp add: minus_mult_div_eq_mod)
  then show ?thesis by (simp add: uint128_mod_def q(1))
qed

lemma uint128_div_zero:
  "nat128 y = 0 \<Longrightarrow> uint128_div x y = Some (Inl (runtime_error ''Error: division or modulus by 0''))"
  by (simp add: uint128_div_def divmod_zero)

lemma cmp_T_of:
  "uint128_eq_T x w = uint128_eq x (uint128_of w)" "uint128_ne_T x w = uint128_ne x (uint128_of w)"
  "uint128_gt_T x w = uint128_gt x (uint128_of w)" "uint128_lt_T x w = uint128_lt x (uint128_of w)"
  by (auto simp: uint128_eq_T_def uint128_ne_T_def uint128_gt_T_def uint128_lt_T_def uint128_eq_def
      uint128_ne_def uint128_gt_def uint128_lt_def uint128_of_def or_eq_0_iff word_gt_0)

lemma nat128_cmp_T:
  "uint128_eq_T x w \<longleftrightarrow> nat128 x = unat w" "uint128_gt_T x w \<longleftrightarrow> nat128 x > unat w"
  "uint128_lt_T x w \<longleftrightarrow> nat128 x < unat w" "uint128_ge_T x w \<longleftrightarrow> nat128 x \<ge> unat w"
  "uint128_le_T x w \<longleftrightarrow> nat128 x \<le> unat w"
  by (auto simp: cmp_T_of uint128_ge_T_def uint128_le_T_def nat128_eq nat128_gt nat128_lt)

lemma unat_uint128_uint64: "unat (uint128_uint64 x) = nat128 x mod 2 ^ 64"
  using unat_u64_bound [of "LOWER x"] by (simp add: uint128_uint64_def nat128_def)

section \<open>What bigDivide relies on\<close>

text \<open>
  A wide unsigned integer: at least 128 bits, built from a 64 bit value, with a wrapping
  product, an exact quotient, and a comparison with and a projection to 64 bits. From these laws
  the rounded-down quotient \<open>a * b div c\<close> is exact, and the comparison detects its overflow.
\<close>

locale wide_uint =
  fixes val :: "'u \<Rightarrow> nat" and width :: nat
    and of64 :: "u64 \<Rightarrow> 'u" and mul :: "'u \<Rightarrow> 'u \<Rightarrow> 'u"
    and quot :: "'u \<Rightarrow> 'u \<Rightarrow> 'u outcome option"
    and low :: "'u \<Rightarrow> u64" and le64 :: "'u \<Rightarrow> u64 \<Rightarrow> bool"
  assumes wide: "128 \<le> width"
    and val_of64: "val (of64 w) = unat w"
    and val_mul: "val (mul x y) = (val x * val y) mod 2 ^ width"
    and quot_exact: "val y \<noteq> 0 \<Longrightarrow> \<exists>q. quot x y = Some (Inr q) \<and> val q = val x div val y"
    and low_val: "unat (low x) = val x mod 2 ^ 64"
    and le64_val: "le64 x w \<longleftrightarrow> val x \<le> unat w"
begin

lemma product_exact: "val (mul (of64 a) (of64 b)) = unat a * unat b"
proof -
  have "unat a * unat b < 2 ^ 64 * 2 ^ 64"
    by (intro mult_strict_mono unat_u64_bound) simp_all
  also have "\<dots> \<le> 2 ^ width" using power_increasing [OF wide, of "2::nat"] by simp
  finally show ?thesis by (simp add: val_mul val_of64)
qed

lemma muldiv:
  assumes "c \<noteq> 0"
  shows "\<exists>x. quot (mul (of64 a) (of64 b)) (of64 c) = Some (Inr x)
    \<and> unat (low x) = (unat a * unat b div unat c) mod 2 ^ 64
    \<and> (le64 x 0xffffffffffffffff \<longleftrightarrow> unat a * unat b div unat c < 2 ^ 64)"
proof -
  have "val (of64 c) \<noteq> 0" using assms by (simp add: val_of64 unsigned_eq_0_iff)
  from quot_exact [OF this] obtain x where
    x: "quot (mul (of64 a) (of64 b)) (of64 c) = Some (Inr x)"
      "val x = unat a * unat b div unat c"
    by (metis product_exact val_of64)
  then show ?thesis by (auto simp: low_val le64_val)
qed

end

interpretation u128: wide_uint nat128 128 uint128_of uint128_mul uint128_div uint128_uint64 uint128_le_T
  by unfold_locales
    (simp_all add: nat128_mul uint128_div_correct unat_uint128_uint64 nat128_cmp_T)

lemma bigDivide_u_correct:
  assumes "C \<noteq> 0"
  shows "\<exists>ok r. bigDivide_u A B C = Some (Inr (ok, r))
    \<and> (ok \<longleftrightarrow> unat A * unat B div unat C < 2 ^ 64)
    \<and> unat r = (unat A * unat B div unat C) mod 2 ^ 64"
  using u128.muldiv [OF assms, of A B] by (auto simp: bigDivide_u_def)

lemma bigDivide_s_correct:
  assumes "0 \<le> sint A" "0 \<le> sint B" "0 < sint C"
  shows "\<exists>ok r. bigDivide_s r0 A B C = Some (Inr (ok, r))
    \<and> (ok \<longleftrightarrow> sint A * sint B div sint C < 2 ^ 63)
    \<and> (ok \<longrightarrow> sint r = sint A * sint B div sint C)"
proof -
  have c: "C \<noteq> 0" using assms(3) by auto
  have nat: "sint A * sint B div sint C = int (unat A * unat B div unat C)"
    using assms by (simp add: sint_nonneg_eq zdiv_int)
  from bigDivide_u_correct [OF c, of A B] obtain ok r where
    r: "bigDivide_u A B C = Some (Inr (ok, r))" "ok \<longleftrightarrow> unat A * unat B div unat C < 2 ^ 64"
      "unat r = (unat A * unat B div unat C) mod 2 ^ 64" by blast
  have "sint r = int (unat r)" if "unat r < 2 ^ 63"
    using that by (intro sint_nonneg_eq) (simp add: sint_nonneg_iff)
  then show ?thesis
    using assms r unfolding nat
    by (cases ok) (auto simp: bigDivide_s_def word_le_nat_alt)
qed

section \<open>Printing and scalar operands\<close>

lemma hex_to_decimal_digit: "d < 16 \<Longrightarrow> unat (hex_to_decimal (str_digits ! d)) = d"
proof -
  have "list_all (\<lambda>d. unat (hex_to_decimal (str_digits ! d)) = d) [0..<16]"
    by (simp add: upt_rec hex_to_decimal_def str_digits_def lit_def char_range_def)
  moreover assume "d < 16"
  ultimately show ?thesis by (auto simp: list_all_iff)
qed

definition read_number :: "nat \<Rightarrow> bytes \<Rightarrow> nat" where
  "read_number base s = foldl (\<lambda>acc c. acc * base + unat (hex_to_decimal c)) 0 s"

lemma read_number_snoc: "read_number b (s @ [c]) = read_number b s * b + unat (hex_to_decimal c)"
  by (simp add: read_number_def)

lemma unat_uint128_uint8: "unat (uint128_uint8 x) = nat128 x mod 256"
proof -
  have "nat128 x = unat (UPPER x) * 2 ^ 56 * 256 + unat (LOWER x)" by (simp add: nat128_def)
  then show ?thesis
    by (simp only: uint128_uint8_def mod_mult_self3) (simp add: unsigned_ucast_eq take_bit_eq_mod)
qed

lemma length_str_digits [simp]: "length str_digits = 16"
  by (simp add: str_digits_def lit_def)

lemma str_loop_correct:
  assumes "2 \<le> unat base" "unat base \<le> 16"
  shows "\<exists>s. str_loop x base out = Some (Inr (s @ out)) \<and> read_number (unat base) s = nat128 x
     \<and> (\<forall>c \<in> set s. c \<in> set (take (unat base) str_digits))"
proof (induction "nat128 x" arbitrary: x out rule: less_induct)
  case less
  let ?b = "uint128_of (ucast base)"
  have b: "nat128 ?b = unat base" by (simp add: unat_ucast_byte)
  from divmod_correct [of ?b x] assms b obtain q r where
    qr: "uint128_divmod x ?b = Some (Inr (q, r))" "nat128 q = nat128 x div unat base"
      "nat128 r = nat128 x mod unat base" by auto
  have r: "unat (uint128_uint8 r) = nat128 r" "nat128 r < unat base"
    using qr(3) assms by (auto simp: unat_uint128_uint8 intro!: mod_less order_less_le_trans [OF mod_less_divisor])
  let ?c = "str_digits ! nat128 r"
  have c: "unat (hex_to_decimal ?c) = nat128 x mod unat base" "?c \<in> set (take (unat base) str_digits)"
  proof -
    have "nat128 r < 16" using r(2) assms by linarith
    then show "unat (hex_to_decimal ?c) = nat128 x mod unat base"
      by (simp add: hex_to_decimal_digit qr(3))
    show "?c \<in> set (take (unat base) str_digits)"
      using r(2) assms by (auto simp: in_set_conv_nth intro!: exI [of _ "nat128 r"])
  qed
  have unfold: "str_loop x base out =
      (if nat128 q \<noteq> 0 then str_loop q base (?c # out) else Some (Inr (?c # out)))"
    by (subst str_loop.simps) (simp add: qr(1) r(1) nat128_bool)
  show ?case
  proof (cases "nat128 q = 0")
    case True
    then have "nat128 x mod unat base = nat128 x" using qr(2) assms by (simp add: div_eq_0_iff)
    then show ?thesis
      using unfold True c by (intro exI [of _ "[?c]"]) (simp add: read_number_def)
  next
    case False
    then have "0 < nat128 x" using qr(2) by (cases "nat128 x") auto
    then have "nat128 q < nat128 x" using qr(2) assms by simp
    from less.hyps [OF this, of "?c # out"] obtain s where
      s: "str_loop q base (?c # out) = Some (Inr (s @ ?c # out))" "read_number (unat base) s = nat128 q"
        "\<forall>c \<in> set s. c \<in> set (take (unat base) str_digits)" by blast
    then show ?thesis
      using unfold False c
      by (intro exI [of _ "s @ [?c]"]) (auto simp: read_number_snoc qr(2))
  qed
qed

lemma read_number_zeros: "read_number b (replicate n 48 @ s) = read_number b s"
proof -
  have "hex_to_decimal 48 = 0" by (simp add: hex_to_decimal_def char_range_def)
  then have "foldl (\<lambda>acc c. acc * b + unat (hex_to_decimal c)) 0 (replicate n 48) = 0"
    by (induction n) simp_all
  then show ?thesis by (simp add: read_number_def)
qed

lemma uint128_str_correct:
  assumes "2 \<le> base" "base \<le> 16"
  shows "\<exists>s. uint128_str x base len = Some (Inr s) \<and> read_number (unat base) s = nat128 x
    \<and> unat len \<le> length s \<and> set s \<subseteq> set (take (unat base) str_digits)"
proof -
  have b: "2 \<le> unat base" "unat base \<le> 16" using assms by (simp_all add: word_le_nat_alt)
  have zero: "48 \<in> set (take (unat base) str_digits)"
    using b by (auto simp: in_set_conv_nth str_digits_def lit_def intro!: exI [of _ 0])
  have "\<exists>s. (if uint128_lnot x then Some (Inr (lit ''0'')) else str_loop x base []) = Some (Inr s)
      \<and> read_number (unat base) s = nat128 x \<and> set s \<subseteq> set (take (unat base) str_digits)"
  proof (cases "nat128 x = 0")
    case True
    then show ?thesis
      using zero by (simp add: nat128_lnot lit_def read_number_def hex_to_decimal_def char_range_def)
  next
    case False
    then show ?thesis
      using str_loop_correct [OF b, of x "[]"] by (auto simp: nat128_lnot)
  qed
  then obtain s where "(if uint128_lnot x then Some (Inr (lit ''0'')) else str_loop x base []) = Some (Inr s)"
      "read_number (unat base) s = nat128 x" "set s \<subseteq> set (take (unat base) str_digits)" by blast
  then show ?thesis
    using assms zero by (auto simp: uint128_str_def not_less read_number_zeros)
qed

lemma nat128_add_T: "nat128 (uint128_add_T x w) = (nat128 x + unat w) mod 2 ^ 128"
  using nat128_add [of x "uint128_of w"]
  by (simp add: uint128_add_def uint128_add_T_def uint128_of_def nat128_def)

lemma nat128_sub_T: "nat128 (uint128_sub_T x w) = (nat128 x + 2 ^ 128 - unat w) mod 2 ^ 128"
  using nat128_sub [of x "uint128_of w"]
  by (simp add: uint128_sub_def uint128_sub_T_def uint128_of_def nat128_def)

lemma uint128_mod_T_small:
  assumes "w \<noteq> 0" "UPPER x = 0"
  shows "\<exists>r. uint128_mod_T x w = Some (Inr r) \<and> nat128 r = nat128 x mod unat w"
proof -
  have w: "nat128 (uint128_of w) \<noteq> 0" using assms(1) by (simp add: unsigned_eq_0_iff)
  from uint128_div_correct [OF w, of x] obtain q where
    q: "uint128_div_T x w = Some (Inr q)" "nat128 q = nat128 x div unat w"
    by (auto simp: uint128_div_T_def)
  have x: "nat128 x < 2 ^ 64" using assms(2) unat_u64_bound [of "LOWER x"] by (simp add: nat128_def)
  have "nat128 q < 2 ^ 64" using q(2) x by (metis div_le_dividend order_le_less_trans)
  then have l: "unat (LOWER q) = nat128 q"
    using unat_uint128_uint64 [of q] by (simp add: uint128_uint64_def)
  have le: "unat w * nat128 q \<le> nat128 x" by (simp add: q(2))
  with x have p: "unat (T_mul_uint128 w q) = unat w * nat128 q"
    by (simp add: T_mul_uint128_def unat_word_ariths l)
  have "nat128 (uint128_sub_T x (T_mul_uint128 w q)) = nat128 x - unat w * nat128 q"
    using le x by (simp add: nat128_sub_T p le_mod_geq)
  also have "\<dots> = nat128 x mod unat w" by (simp add: q(2) minus_mult_div_eq_mod)
  finally show ?thesis by (simp add: uint128_mod_T_def q(1))
qed

lemma uint128_mod_T_wrong:
  "\<exists>r. uint128_mod_T (uint128 1 0) 1 = Some (Inr r) \<and> nat128 r = 2 ^ 64"
  by (simp add: uint128_mod_T_def uint128_div_T_def uint128_div_def uint128_divmod_def uint128_of_def uint128_0_def
      uint128_1_def uint128_eq_def uint128_def T_mul_uint128_def uint128_sub_T_def nat128_def)

section \<open>Properties\<close>

text \<open>
  Claim C28. Addition, subtraction and the four-limb product of \<^verbatim>\<open>uint128_t\<close> are the operations of
  arithmetic modulo \<open>2 ^ 128\<close> on every pair of values.
\<close>

theorem uint128_ring_exact:
  "nat128 (uint128_add x y) = (nat128 x + nat128 y) mod 2 ^ 128
   \<and> nat128 (uint128_sub x y) = (nat128 x + 2 ^ 128 - nat128 y) mod 2 ^ 128
   \<and> nat128 (uint128_mul x y) = (nat128 x * nat128 y) mod 2 ^ 128"
  by (simp only: nat128_add nat128_sub nat128_mul)

text \<open>
  The shifts multiply and divide by the power of two for every shift count (counts of
  128 and more give 0), and the comparison operators order objects as their values.
\<close>

theorem uint128_shift_compare_exact:
  "nat128 (uint128_shl x y) = (nat128 x * 2 ^ nat128 y) mod 2 ^ 128
   \<and> nat128 (uint128_shr x y) = nat128 x div 2 ^ nat128 y
   \<and> (uint128_lt x y \<longleftrightarrow> nat128 x < nat128 y) \<and> (uint128_ge x y \<longleftrightarrow> nat128 y \<le> nat128 x)
   \<and> (uint128_eq x y \<longleftrightarrow> nat128 x = nat128 y)"
  by (simp only: nat128_shl nat128_shr nat128_lt nat128_ge nat128_eq)

text \<open>
  Claim C11. For every divisor but 0 the shift-and-subtract loop of \<^verbatim>\<open>divmod\<close> stops, and
  \<^verbatim>\<open>operator/\<close> and \<^verbatim>\<open>operator%\<close> return the quotient and the remainder of Euclidean division.
\<close>

theorem uint128_divmod_euclid:
  assumes "nat128 rhs \<noteq> 0"
  shows "\<exists>q r. uint128_divmod lhs rhs = Some (Inr (q, r))
    \<and> uint128_div lhs rhs = Some (Inr q) \<and> uint128_mod lhs rhs = Some (Inr r)
    \<and> nat128 q = nat128 lhs div nat128 rhs \<and> nat128 r = nat128 lhs mod nat128 rhs"
proof -
  obtain q r where qr: "uint128_divmod lhs rhs = Some (Inr (q, r))" "nat128 q = nat128 lhs div nat128 rhs"
    "nat128 r = nat128 lhs mod nat128 rhs" using divmod_correct [OF assms] by blast
  moreover obtain r' where r': "uint128_mod lhs rhs = Some (Inr r')" "nat128 r' = nat128 lhs mod nat128 rhs"
    using uint128_mod_correct [OF assms] by blast
  moreover have "r' = r" using qr(3) r'(2) by (simp flip: nat128_inj)
  ultimately show ?thesis by (auto simp: uint128_div_def)
qed

theorem uint128_divmod_euclid_witness:
  "nat128 (uint128_of 10) \<noteq> 0 \<and>
   (\<exists>q r. uint128_divmod (uint128 7 3) (uint128_of 10) = Some (Inr (q, r))
    \<and> nat128 q = 12912720851596686131 \<and> nat128 r = 5)"
  using uint128_divmod_euclid [of "uint128_of 10" "uint128 7 3"] by auto

text \<open>
  Printing: for a base from 2 to 16, \<^verbatim>\<open>str\<close> returns a string of digits of that base,
  at least as long as asked for, that reads back (with the code's own \<^verbatim>\<open>hex_to_decimal\<close>) as the
  value printed.
\<close>

theorem uint128_str_reads_back:
  assumes "2 \<le> base" "base \<le> 16"
  shows "\<exists>s. uint128_str x base len = Some (Inr s) \<and> read_number (unat base) s = nat128 x
    \<and> unat len \<le> length s \<and> set s \<subseteq> set (take (unat base) str_digits)"
  using assms by (rule uint128_str_correct)

theorem uint128_str_reads_back_witness:
  "(2 :: byte) \<le> 10 \<and> (10 :: byte) \<le> 16
   \<and> (\<exists>s. uint128_str (uint128 1 0) 10 25 = Some (Inr s) \<and> read_number 10 s = 2 ^ 64
        \<and> 25 \<le> length s)"
  using uint128_str_reads_back [of 10 "uint128 1 0" 25] by auto

text \<open>
  Claim C30. \<^verbatim>\<open>bigDivide\<close> on non-negative arguments and a positive divisor returns
  \<open>A * B div C\<close> computed without overflow of the product whenever that fits in an \<^verbatim>\<open>int64_t\<close>,
  and throws \<^verbatim>\<open>overflow_error\<close> otherwise.
\<close>

theorem bigDivide_exact:
  assumes "0 \<le> sint A" "0 \<le> sint B" "0 < sint C"
  shows "if sint A * sint B div sint C < 2 ^ 63
    then \<exists>r. bigDivide r0 A B C = Some (Inr r) \<and> sint r = sint A * sint B div sint C
    else bigDivide r0 A B C = Some (Inl (overflow_error ''overflow while performing bigDivide''))"
  using bigDivide_s_correct [OF assms, of r0] by (auto simp: bigDivide_def)

theorem bigDivide_exact_witness:
  "0 \<le> sint (9000000000000000000 :: u64) \<and> 0 < sint (9 :: u64)
   \<and> (\<exists>r. bigDivide 0 9000000000000000000 5 9 = Some (Inr r) \<and> sint r = 5000000000000000000)"
  using bigDivide_exact [of 9000000000000000000 5 9 0] by simp

text \<open>
  The remainder template for a scalar operand is exact when the value fits in 64 bits,
  but not in general: it multiplies the quotient back in the scalar type, so that the remainder
  of \<open>2 ^ 64\<close> by 1 comes out as \<open>2 ^ 64\<close>.
\<close>

theorem uint128_mod_scalar_truncates:
  "(\<forall>x w. w \<noteq> 0 \<and> UPPER x = 0
      \<longrightarrow> (\<exists>r. uint128_mod_T x w = Some (Inr r) \<and> nat128 r = nat128 x mod unat w))
   \<and> (\<exists>r. uint128_mod_T (uint128 1 0) 1 = Some (Inr r) \<and> nat128 r = 2 ^ 64)"
  using uint128_mod_T_small uint128_mod_T_wrong by blast

theorem uint128_mod_scalar_truncates_witness:
  "(13 :: u64) \<noteq> 0 \<and> UPPER (uint128_of 100) = 0
   \<and> (\<exists>r. uint128_mod_T (uint128_of 100) 13 = Some (Inr r) \<and> nat128 r = 9)"
  using uint128_mod_scalar_truncates [THEN conjunct1, rule_format, of 13 "uint128_of 100"]
  by (simp add: uint128_of_def nat128_def)

end
