(* ===== verification/Strings.thy ===== *)
theory Strings
  imports Prelude
begin

text \<open>
  The string utilities of \<^verbatim>\<open>src/utils/strings.h\<close> (class \<^verbatim>\<open>utils::String\<close> and the free operators).
  A \<^verbatim>\<open>std::string\<close> is a byte list and a reference parameter that is modified is returned. A
  position of \<^verbatim>\<open>find\<close> is an \<open>option\<close>, \<open>None\<close> for \<^verbatim>\<open>npos\<close>: the length of a string is below
  \<^verbatim>\<open>max_size()\<close>, which is below \<^verbatim>\<open>npos\<close>, so no position of a string is \<^verbatim>\<open>npos\<close>. Loops over
  an index are recursive functions on the index.
\<close>

section \<open>Characters and numbers\<close>

definition IS_BLANK :: "byte \<Rightarrow> bool" where
  "IS_BLANK c \<longleftrightarrow> c = 32 \<or> c = 9"

definition IS_DIGIT :: "byte \<Rightarrow> bool" where
  "IS_DIGIT c \<longleftrightarrow> char_range 48 57 c"

definition IS_ALPHA :: "byte \<Rightarrow> bool" where
  "IS_ALPHA c \<longleftrightarrow> char_range 97 122 c \<or> char_range 65 90 c"

definition IS_HEX_DIGIT :: "byte \<Rightarrow> bool" where
  "IS_HEX_DIGIT c \<longleftrightarrow> char_range 65 70 c \<or> char_range 97 102 c"

text \<open>
  A pointer into \<^verbatim>\<open>c_str()\<close> is the suffix it points to; reading at the end gives the
  terminating zero. \<open>cstr\<close> is the C string read through a pointer.
\<close>

definition peek :: "bytes \<Rightarrow> byte" where
  "peek p = (case p of [] \<Rightarrow> 0 | c # _ \<Rightarrow> c)"

definition cstr :: "bytes \<Rightarrow> bytes" where
  "cstr s = takeWhile (\<lambda>c. c \<noteq> 0) s"

definition is_number :: "bytes \<Rightarrow> int" where
  "is_number str =
     (if length str = 0 then 0
      else
        let ptr = dropWhile IS_BLANK str;
            ptr = (if peek ptr = 45 \<or> peek ptr = 43 then tl ptr else ptr)
        in if IS_DIGIT (peek ptr) \<or> peek ptr = 46 then
             let (type, base, ptr) =
                   (if peek ptr \<noteq> 46 then
                      let (type, base, ptr) =
                            (if peek ptr = 48 \<and> peek (tl ptr) \<noteq> 0
                                \<and> (peek (tl ptr) = 120 \<or> peek (tl ptr) = 88)
                             then (2, 16, tl (tl ptr)) else (0, 10, ptr));
                          ptr = dropWhile (\<lambda>c. c = 48) ptr;
                          ptr = dropWhile (\<lambda>c. IS_DIGIT c \<or> base = 16 \<and> IS_HEX_DIGIT c) ptr
                      in (type, base :: int, ptr)
                    else (0, 10, ptr));
                 (type, ptr) =
                   (if base = 10 \<and> peek ptr \<noteq> 0 \<and> peek ptr = 46 then (3, tl ptr) else (type, ptr));
                 ptr = (if type = 3 \<and> base = 10 then dropWhile IS_DIGIT ptr else ptr)
             in if peek ptr = 0 then (if type > 0 then type else 1) else 0
           else 0)"

text \<open>
  The decimal conversions of the C library: \<open>strtol10\<close> skips white space, takes a sign and the
  longest run of digits (no digits give 0) and saturates at the 64 bit range; \<^verbatim>\<open>atoi\<close> is its
  conversion to \<^verbatim>\<open>int\<close>; \<^verbatim>\<open>sscanf\<close> with \<^verbatim>\<open>%ld\<close> reads the same.
\<close>

definition isspace :: "byte \<Rightarrow> bool" where
  "isspace c \<longleftrightarrow> c = 32 \<or> char_range 9 13 c"

definition digits_value :: "bytes \<Rightarrow> int" where
  "digits_value ds = foldl (\<lambda>v c. v * 10 + (uint c - 48)) 0 ds"

definition strtol10 :: "bytes \<Rightarrow> int" where
  "strtol10 s =
     (let p = dropWhile isspace s;
          neg = (peek p = 45);
          p = (if peek p = 45 \<or> peek p = 43 then tl p else p);
          v = digits_value (takeWhile IS_DIGIT p)
      in max (- (2 ^ 63)) (min (2 ^ 63 - 1) (if neg then - v else v)))"

definition atoi :: "bytes \<Rightarrow> int" where
  "atoi s = sint (word_of_int (strtol10 s) :: u32)"

definition Stoi :: "bytes \<Rightarrow> int" where
  "Stoi str = (if 0 = length str then 0 else atoi str)"

definition Stoui :: "bytes \<Rightarrow> int" where
  "Stoui str = (if 0 = length str then 0 else uint (word_of_int (atoi str) :: u32))"

definition Stoi64 :: "bytes \<Rightarrow> int" where
  "Stoi64 str = strtol10 str"

definition Stoui64 :: "bytes \<Rightarrow> int" where
  "Stoui64 str = strtol10 str"

definition Stol :: "bytes \<Rightarrow> int" where
  "Stol str = (if 0 = length str then 0 else strtol10 str)"

text \<open>The floating point conversions, with \<^verbatim>\<open>atof\<close> and the cast as arguments.\<close>

definition Stof :: "(bytes \<Rightarrow> 'd) \<Rightarrow> ('d \<Rightarrow> 'f) \<Rightarrow> 'f \<Rightarrow> bytes \<Rightarrow> 'f" where
  "Stof atof to_float zero_f str = (if 0 = length str then zero_f else to_float (atof (cstr str)))"

definition Stod :: "(bytes \<Rightarrow> 'd) \<Rightarrow> 'd \<Rightarrow> bytes \<Rightarrow> 'd" where
  "Stod atof zero str = (if 0 = length str then zero else atof (cstr str))"

definition Stob :: "bytes \<Rightarrow> bool" where
  "Stob str =
     (if 0 = length str \<or> str = lit ''0'' \<or> str = lit ''false'' \<or> str = lit ''FALSE'' then False else True)"

text \<open>The decimal formats \<^verbatim>\<open>%d\<close>, \<^verbatim>\<open>%u\<close>, \<^verbatim>\<open>%ld\<close>, and \<^verbatim>\<open>snprintf\<close> into a buffer of \<open>n\<close> bytes.\<close>

fun dec_nat :: "nat \<Rightarrow> bytes" where
  "dec_nat n = (if n < 10 then [48 + of_nat n] else dec_nat (n div 10) @ [48 + of_nat (n mod 10)])"

declare dec_nat.simps [simp del]

definition dec_int :: "int \<Rightarrow> bytes" where
  "dec_int v = (if v < 0 then 45 # dec_nat (nat (- v)) else dec_nat (nat v))"

definition snprintf :: "nat \<Rightarrow> bytes \<Rightarrow> bytes" where
  "snprintf n text = take (n - 1) text"

definition ToString_int :: "u32 \<Rightarrow> bytes" where
  "ToString_int val = snprintf 32 (dec_int (sint val))"

definition ToString_uint :: "u32 \<Rightarrow> bytes" where
  "ToString_uint val = snprintf 32 (dec_int (uint val))"

definition ToString_int64 :: "u64 \<Rightarrow> bytes" where
  "ToString_int64 val = snprintf 32 (dec_int (sint val))"

definition ToString_double :: "('d \<Rightarrow> bytes) \<Rightarrow> 'd \<Rightarrow> bytes" where
  "ToString_double fmt_f val = snprintf 32 (fmt_f val)"

definition ToString_bool :: "bool \<Rightarrow> bytes" where
  "ToString_bool val = (if val then lit ''1'' else lit ''0'')"

section \<open>Formatting into a growing buffer\<close>

text \<open>
  \<^verbatim>\<open>vsnprintf(buf, nMalloc, format, ap)\<close> is the argument \<open>vsn\<close>: for a buffer size it gives the
  returned count and the bytes left in the buffer (before the terminating zero). \<open>malloc_ok\<close>
  says which allocations succeed; a failed one calls \<^verbatim>\<open>abort\<close>, the outcome \<open>Inl assertion_failed\<close>.
  The outer \<open>option\<close> is \<open>None\<close> for a loop that does not end.
\<close>

definition kMaxStringLen :: int where
  "kMaxStringLen = 1024 * 1024"

partial_function (option) format_loop ::
  "(int \<Rightarrow> bool) \<Rightarrow> (int \<Rightarrow> int \<times> bytes) \<Rightarrow> (bytes \<Rightarrow> bytes) \<Rightarrow> bytes \<Rightarrow> int \<Rightarrow> bytes outcome option" where
  "format_loop malloc_ok vsn store str nTimes =
     (if nTimes < 256 then
        let nMalloc = kMaxStringLen * nTimes
        in if malloc_ok nMalloc then
             let (nCopy, buf) = vsn nMalloc
             in if -1 < nCopy \<and> nCopy < nMalloc then Some (Inr (store (cstr buf)))
                else format_loop malloc_ok vsn store str (nTimes * 2)
           else Some (Inl assertion_failed)
      else Some (Inr str))"

definition Format_ref :: "(int \<Rightarrow> bool) \<Rightarrow> (int \<Rightarrow> int \<times> bytes) \<Rightarrow> bytes \<Rightarrow> bytes outcome option" where
  "Format_ref malloc_ok vsn str = format_loop malloc_ok vsn (\<lambda>b. b) str 1"

definition Format :: "(int \<Rightarrow> bool) \<Rightarrow> (int \<Rightarrow> int \<times> bytes) \<Rightarrow> bytes outcome option" where
  "Format malloc_ok vsn = format_loop malloc_ok vsn (\<lambda>b. b) [] 1"

definition AppendFormat ::
  "(int \<Rightarrow> bool) \<Rightarrow> (int \<Rightarrow> int \<times> bytes) \<Rightarrow> bytes \<Rightarrow> bytes outcome option" where
  "AppendFormat malloc_ok vsn org = format_loop malloc_ok vsn (\<lambda>b. org @ b) org 1"

section \<open>Searching and splitting\<close>

function find_from :: "(byte \<Rightarrow> bool) \<Rightarrow> bytes \<Rightarrow> nat \<Rightarrow> nat option" where
  "find_from P s pos =
     (if pos < length s then (if P (s ! pos) then Some pos else find_from P s (pos + 1)) else None)"
  by pat_completeness auto
termination by (relation "measure (\<lambda>(P, s, pos). length s - pos)") auto

declare find_from.simps [simp del]

definition find_first_of :: "bytes \<Rightarrow> bytes \<Rightarrow> nat \<Rightarrow> nat option" where
  "find_first_of s delim pos = find_from (\<lambda>c. c \<in> set delim) s pos"

definition find_first_of_char :: "bytes \<Rightarrow> byte \<Rightarrow> nat \<Rightarrow> nat option" where
  "find_first_of_char s c pos = find_from (\<lambda>d. d = c) s pos"

definition substr :: "bytes \<Rightarrow> nat \<Rightarrow> nat \<Rightarrow> bytes" where
  "substr s pos n = take n (drop pos s)"

lemma find_from_bounds:
  "find_from P s pos = Some i \<Longrightarrow> pos \<le> i \<and> i < length s \<and> P (s ! i)"
  by (induction P s pos rule: find_from.induct) (subst (asm) find_from.simps, auto split: if_splits)

lemma find_first_of_bounds:
  "find_first_of s delim pos = Some i \<Longrightarrow> pos \<le> i \<and> i < length s"
  by (auto simp: find_first_of_def dest: find_from_bounds)

lemma find_first_of_char_bounds:
  "find_first_of_char s c pos = Some i \<Longrightarrow> pos \<le> i \<and> i < length s"
  by (auto simp: find_first_of_char_def dest: find_from_bounds)

text \<open>
  After the loop of \<^verbatim>\<open>split\<close> \<^verbatim>\<open>index\<close> is \<^verbatim>\<open>npos\<close>, so \<^verbatim>\<open>index - last > 0\<close> holds and the rest of the
  string is appended, empty or not.
\<close>

function split_loop :: "bytes \<Rightarrow> bytes \<Rightarrow> nat \<Rightarrow> bytes list \<Rightarrow> bytes list" where
  "split_loop s delim pos0 ret =
     (case find_first_of s delim pos0 of
        Some index \<Rightarrow> split_loop s delim (index + 1) (ret @ [substr s pos0 (index - pos0)])
      | None \<Rightarrow> ret @ [drop pos0 s])"
  by pat_completeness auto
termination
  by (relation "measure (\<lambda>(s, delim, pos0, ret). length s - pos0)")
    (auto dest!: find_first_of_bounds)

declare split_loop.simps [simp del]

definition split :: "bytes \<Rightarrow> bytes \<Rightarrow> bytes list" where
  "split s delim = split_loop s delim 0 []"

text \<open>A \<^verbatim>\<open>std::map\<close> as a partial function; \<^verbatim>\<open>insert\<close> keeps an existing binding.\<close>

definition map_insert :: "'k \<Rightarrow> 'v \<Rightarrow> ('k \<rightharpoonup> 'v) \<Rightarrow> ('k \<rightharpoonup> 'v)" where
  "map_insert k v m = (case m k of None \<Rightarrow> m(k \<mapsto> v) | Some _ \<Rightarrow> m)"

definition ParseAttribute :: "bytes \<Rightarrow> bytes \<Rightarrow> bytes \<Rightarrow> (bytes \<rightharpoonup> bytes)" where
  "ParseAttribute s delim ope =
     foldl (\<lambda>ret part.
              let item = split part ope
              in if length item > 1 then map_insert (item ! 0) (item ! 1) ret
                 else map_insert (item ! 0) [] ret)
           Map.empty (split s delim)"

function Strtok_loop :: "bytes \<Rightarrow> byte \<Rightarrow> nat \<Rightarrow> bytes list \<Rightarrow> bytes list" where
  "Strtok_loop str separator newPos arr =
     (case find_first_of_char str separator newPos of
        None \<Rightarrow> arr @ [drop newPos str]
      | Some pos \<Rightarrow>
          Strtok_loop str separator (pos + 1)
            (if pos > newPos then arr @ [substr str newPos (pos - newPos)] else arr))"
  by pat_completeness auto
termination
  by (relation "measure (\<lambda>(str, c, newPos, arr). length str - newPos)")
    (auto dest!: find_first_of_char_bounds)

declare Strtok_loop.simps [simp del]

text \<open>The overload with an output vector returns its size as an \<^verbatim>\<open>int32_t\<close>.\<close>

definition Strtok_into :: "bytes \<Rightarrow> byte \<Rightarrow> bytes list \<Rightarrow> bytes list \<times> int" where
  "Strtok_into str separator arr =
     (let arr = Strtok_loop str separator 0 arr in (arr, sint (of_nat (length arr) :: u32)))"

definition Strtok_char :: "bytes \<Rightarrow> byte \<Rightarrow> bytes list" where
  "Strtok_char str separator = Strtok_loop str separator 0 []"

section \<open>Trimming and classification\<close>

definition IsSpace :: "byte \<Rightarrow> bool" where
  "IsSpace nValue \<longleftrightarrow> sint nValue > 0 \<and> isspace nValue"

function skip_left :: "bytes \<Rightarrow> nat \<Rightarrow> nat" where
  "skip_left str nLeftPos =
     (if nLeftPos < length str \<and> IsSpace (str ! nLeftPos) then skip_left str (nLeftPos + 1) else nLeftPos)"
  by pat_completeness auto
termination by (relation "measure (\<lambda>(s, p). length s - p)") auto

declare skip_left.simps [simp del]

fun skip_right :: "bytes \<Rightarrow> nat \<Rightarrow> nat \<Rightarrow> nat" where
  "skip_right str nLeftPos nRightPos =
     (if nRightPos \<ge> nLeftPos \<and> IsSpace (str ! nRightPos)
      then (if nRightPos = 0 then nRightPos else skip_right str nLeftPos (nRightPos - 1))
      else nRightPos)"

declare skip_right.simps [simp del]

definition TrimLeft :: "bytes \<Rightarrow> bytes" where
  "TrimLeft str =
     (if length str = 0 then str
      else let nRightPos = length str - 1; nLeftPos = skip_left str 0
           in if nLeftPos > nRightPos then []
              else substr str nLeftPos (nRightPos - nLeftPos + 1))"

definition TrimRight :: "bytes \<Rightarrow> bytes" where
  "TrimRight str =
     (if length str = 0 then str
      else let nLeftPos = 0; nRightPos = skip_right str nLeftPos (length str - 1)
           in if nLeftPos > nRightPos then []
              else substr str nLeftPos (nRightPos - nLeftPos + 1))"

definition Trim :: "bytes \<Rightarrow> bytes" where
  "Trim str =
     (if length str = 0 then str
      else let nLeftPos = skip_left str 0; nRightPos = skip_right str nLeftPos (length str - 1)
           in if nLeftPos > nRightPos then []
              else substr str nLeftPos (nRightPos - nLeftPos + 1))"

fun CanDisplay :: "bytes \<Rightarrow> bool" where
  "CanDisplay [] = True"
| "CanDisplay (c # str) = (if \<not> char_range 0x20 127 c then False else CanDisplay str)"

fun IsContainUppercase :: "bytes \<Rightarrow> bool" where
  "IsContainUppercase [] = False"
| "IsContainUppercase (c # str) = (if char_range 65 90 c then True else IsContainUppercase str)"

fun IsContainLowercase :: "bytes \<Rightarrow> bool" where
  "IsContainLowercase [] = False"
| "IsContainLowercase (c # str) = (if char_range 97 122 c then True else IsContainLowercase str)"

fun IsInteger :: "bytes \<Rightarrow> bool" where
  "IsInteger [] = True"
| "IsInteger (c # str) = (if sint c > 57 \<or> sint c < 48 then False else IsInteger str)"

definition ToLower :: "bytes \<Rightarrow> bytes" where
  "ToLower str = map (\<lambda>c. if char_range 65 90 c then c + 0x20 else c) str"

definition ToUpper :: "bytes \<Rightarrow> bytes" where
  "ToUpper str = map (\<lambda>c. if char_range 97 122 c then c - 0x20 else c) str"

definition CharIsLetter :: "byte \<Rightarrow> bool" where
  "CharIsLetter c = (if char_range 65 90 c \<or> char_range 97 122 c then True else False)"

fun eq_ignore_loop :: "bytes \<Rightarrow> bytes \<Rightarrow> bool" where
  "eq_ignore_loop (a # s1) (b # s2) =
     (if a = b then eq_ignore_loop s1 s2
      else if \<not> CharIsLetter a \<or> \<not> CharIsLetter b then False
      else if 0x20 \<noteq> \<bar>sint a - sint b\<bar> then False
      else eq_ignore_loop s1 s2)"
| "eq_ignore_loop _ _ = True"

definition EqualsIgnoreCase :: "bytes \<Rightarrow> bytes \<Rightarrow> bool" where
  "EqualsIgnoreCase s1 s2 = (if length s1 \<noteq> length s2 then False else eq_ignore_loop s1 s2)"

section \<open>Substrings\<close>

text \<open>\<^verbatim>\<open>str.find(key, pos)\<close>: the first position from \<open>pos\<close> on where \<open>key\<close> occurs.\<close>

function find_str :: "bytes \<Rightarrow> bytes \<Rightarrow> nat \<Rightarrow> nat option" where
  "find_str str key pos =
     (if pos + length key \<le> length str
      then (if take (length key) (drop pos str) = key then Some pos else find_str str key (pos + 1))
      else None)"
  by pat_completeness auto
termination by (relation "measure (\<lambda>(s, k, pos). Suc (length s) - pos)") auto

declare find_str.simps [simp del]

text \<open>The upper-case copies are computed and not used.\<close>

definition IsContainStringIgnoreCase :: "bytes \<Rightarrow> bytes \<Rightarrow> bool" where
  "IsContainStringIgnoreCase str1 str2 =
     (let s1 = ToUpper str1; s2 = ToUpper str2 in find_str str1 str2 0 \<noteq> None)"

text \<open>\<^verbatim>\<open>Replace\<close>: \<open>None\<close> when the loop does not end.\<close>

partial_function (option) replace_loop :: "bytes \<Rightarrow> bytes \<Rightarrow> bytes \<Rightarrow> nat \<Rightarrow> bytes option" where
  "replace_loop str from to pos =
     (case find_str str from pos of
        None \<Rightarrow> Some str
      | Some p \<Rightarrow>
          replace_loop (take p str @ to @ drop (p + length from) str) from to (p + length to))"

definition Replace :: "bytes \<Rightarrow> bytes \<Rightarrow> bytes \<Rightarrow> bytes option" where
  "Replace str from to = replace_loop str from to 0"

definition Swap :: "bytes \<Rightarrow> bytes \<Rightarrow> bytes \<times> bytes" where
  "Swap ls rs = (let temp = ls; ls = rs; rs = temp in (ls, rs))"

section \<open>Hexadecimal\<close>

definition hex_digit :: "byte \<Rightarrow> byte" where
  "hex_digit n = (if n \<ge> 0 \<and> n \<le> 9 then n + 48 else n - 10 + 97)"

fun BinToHexString :: "bytes \<Rightarrow> bytes" where
  "BinToHexString [] = []"
| "BinToHexString (item # value) =
     (let high = drop_bit 4 item; low = item AND 0x0F
      in hex_digit high # hex_digit low # BinToHexString value)"

definition hex_nibble :: "bool \<Rightarrow> byte \<Rightarrow> byte option" where
  "hex_nibble force_little c =
     (if char_range 48 57 c then Some (c - 48)
      else if char_range 97 102 c then Some (c - 97 + 10)
      else if char_range 65 70 c \<and> \<not> force_little then Some (c - 65 + 10)
      else None)"

text \<open>The loop of \<^verbatim>\<open>HexStringToBin\<close> over the pairs; \<open>None\<close> is its early \<^verbatim>\<open>return ""\<close>.\<close>

fun hex_pairs :: "bool \<Rightarrow> bytes \<Rightarrow> bytes option" where
  "hex_pairs force_little (h # l # rest) =
     (case hex_nibble force_little h of None \<Rightarrow> None
      | Some high \<Rightarrow>
        (case hex_nibble force_little l of None \<Rightarrow> None
         | Some low \<Rightarrow> map_option ((#) (push_bit 4 high + low)) (hex_pairs force_little rest)))"
| "hex_pairs force_little _ = Some []"

definition HexStringToBin :: "bytes \<Rightarrow> bool \<Rightarrow> bytes" where
  "HexStringToBin hex_string force_little =
     (if length hex_string mod 2 \<noteq> 0 \<or> hex_string = [] then []
      else case hex_pairs force_little hex_string of None \<Rightarrow> [] | Some result \<Rightarrow> result)"

fun all_hex :: "bytes \<Rightarrow> bool" where
  "all_hex [] = True"
| "all_hex (c # s) =
     (if char_range 48 57 c \<or> char_range 97 102 c \<or> char_range 65 70 c then all_hex s else False)"

definition IsHexString :: "bytes \<Rightarrow> bool" where
  "IsHexString hex_string = (if length hex_string mod 2 \<noteq> 0 then False else all_hex hex_string)"

definition HexStringToBin_out :: "bytes \<Rightarrow> bytes \<Rightarrow> bool \<times> bytes" where
  "HexStringToBin_out hex_string out_put =
     (if \<not> IsHexString hex_string then (False, out_put)
      else (True, HexStringToBin hex_string False))"

text \<open>
  The formats \<^verbatim>\<open>%02x\<close> and \<^verbatim>\<open>%02X\<close> of an \<^verbatim>\<open>unsigned int\<close>; \<open>alpha\<close> is the code of the digit ten.
\<close>

fun hex_nat :: "byte \<Rightarrow> nat \<Rightarrow> bytes" where
  "hex_nat alpha n =
     (let d = (if n mod 16 < 10 then 48 + of_nat (n mod 16) else alpha + of_nat (n mod 16 - 10))
      in if n < 16 then [d] else hex_nat alpha (n div 16) @ [d])"

declare hex_nat.simps [simp del]

definition fmt_02 :: "byte \<Rightarrow> u32 \<Rightarrow> bytes" where
  "fmt_02 alpha v =
     (let t = hex_nat alpha (unat v) in if length t < 2 then replicate (2 - length t) 48 @ t else t)"

text \<open>
  \<^verbatim>\<open>AppendFormat(result, "%02x", b)\<close> of a byte: the text is at most eight characters long and
  fits the first buffer.
\<close>

fun Bin4_loop :: "nat \<Rightarrow> bytes \<Rightarrow> bytes \<Rightarrow> bytes" where
  "Bin4_loop i (b # value) result =
     (if i < 4 then Bin4_loop (i + 1) value (result @ fmt_02 97 (ucast b)) else result)"
| "Bin4_loop i [] result = result"

definition Bin4ToHexString :: "bytes \<Rightarrow> bytes" where
  "Bin4ToHexString value = Bin4_loop 0 value []"

section \<open>Time stamps\<close>

record tm =
  tm_year :: int
  tm_mon :: int
  tm_mday :: int
  tm_hour :: int
  tm_min :: int
  tm_sec :: int

text \<open>
  \<^verbatim>\<open>mktime\<close> is an argument: it depends on the time zone of the process. Its first argument is the field
  \<^verbatim>\<open>tm_isdst\<close>, which \<^verbatim>\<open>ToTimestamp\<close> leaves at the zero that \<^verbatim>\<open>{ 0 }\<close> puts into every field: the fields are then
  read as standard time. \<^verbatim>\<open>mktime\<close> ignores \<^verbatim>\<open>tm_wday\<close> and \<^verbatim>\<open>tm_yday\<close>.
\<close>

definition ToTimestamp :: "(int \<Rightarrow> tm \<Rightarrow> int) \<Rightarrow> bytes \<Rightarrow> int option" where
  "ToTimestamp mktime strTime =
     Option.bind (Replace strTime (lit '':'') (lit ''-'')) (\<lambda>t1.
     Option.bind (Replace t1 (lit '' '') (lit ''-'')) (\<lambda>t2.
     Option.bind (Replace t2 (lit ''/'') (lit ''-'')) (\<lambda>t3.
     Option.bind (Replace t3 (lit ''.'') (lit ''-'')) (\<lambda>strNewTime.
       let (nValues, n) = Strtok_into strNewTime 45 []
       in if n \<noteq> 6 then Some 0
          else Some (mktime 0 \<lparr>tm_year = atoi (nValues ! 0) - 1900, tm_mon = atoi (nValues ! 1) - 1,
                               tm_mday = atoi (nValues ! 2), tm_hour = atoi (nValues ! 3),
                               tm_min = atoi (nValues ! 4), tm_sec = atoi (nValues ! 5)\<rparr>)))))"

section \<open>Splitting at a key and attribute lists\<close>

text \<open>
  \<^verbatim>\<open>Strtok\<close> with a key string works on \<^verbatim>\<open>int\<close> positions; \<open>i32\<close> is the conversion of a size to
  \<^verbatim>\<open>int\<close>, and \<^verbatim>\<open>npos\<close> converts to \<open>-1\<close>. The search is for \<^verbatim>\<open>key.c_str()\<close>.
\<close>

definition i32 :: "nat \<Rightarrow> int" where
  "i32 n = sint (of_nat n :: u32)"

definition find_i32 :: "bytes \<Rightarrow> bytes \<Rightarrow> int \<Rightarrow> int" where
  "find_i32 content key start_pos =
     (case find_str content (cstr key) (nat (start_pos mod 2 ^ 64)) of None \<Rightarrow> -1 | Some p \<Rightarrow> i32 p)"

partial_function (option) strtok_key_loop ::
  "bytes \<Rightarrow> bytes \<Rightarrow> int \<Rightarrow> bool \<Rightarrow> int \<Rightarrow> int \<Rightarrow> int \<Rightarrow> bytes list \<Rightarrow> (int \<times> bytes list) option" where
  "strtok_key_loop content key max_items ignore_empty end_pos start_pos item_count values =
     (if start_pos < end_pos then
        let p = find_i32 content key start_pos;
            find_pos = (if p < 0 \<or> p \<ge> end_pos \<or> (max_items > 0 \<and> item_count = max_items - 1)
                        then end_pos else p)
        in if find_pos < start_pos then Some (item_count, values)
           else if find_pos > start_pos \<or> \<not> ignore_empty then
             strtok_key_loop content key max_items ignore_empty end_pos
               (find_pos + i32 (length key)) (item_count + 1)
               (values @ [if find_pos > start_pos
                          then substr content (nat start_pos) (nat (find_pos - start_pos)) else []])
           else
             strtok_key_loop content key max_items ignore_empty end_pos
               (find_pos + i32 (length key)) item_count values
      else Some (item_count, values))"

definition Strtok_key ::
  "bytes \<Rightarrow> bytes \<Rightarrow> int \<Rightarrow> bool \<Rightarrow> nat option \<Rightarrow> (int \<times> bytes list) option" where
  "Strtok_key content key max_items ignore_empty content_len =
     (let end_pos = (case content_len of None \<Rightarrow> i32 (length content) | Some n \<Rightarrow> i32 n)
      in if length key = 0 then Some (0, [])
         else strtok_key_loop content key max_items ignore_empty
                (if end_pos \<le> 0 \<or> end_pos \<ge> i32 (length content) then i32 (length content) else end_pos)
                0 0 [])"

text \<open>One pass of the loop of \<^verbatim>\<open>ParseAttributes\<close>, on the map and the line count.\<close>

definition parse_part ::
  "bytes \<Rightarrow> bool \<Rightarrow> bool \<Rightarrow> bool \<Rightarrow> bytes \<Rightarrow> (bytes \<rightharpoonup> bytes) \<times> int \<Rightarrow> ((bytes \<rightharpoonup> bytes) \<times> int) option" where
  "parse_part value_key key_low_case trim_key trim_value strPartValue st =
     (let (attrs, lines) = st
      in Option.bind (Strtok_key strPartValue value_key 2 False None) (\<lambda>(n, part_values).
         if n = 0 then Some (attrs, lines)
         else
           let front = hd part_values;
               front = (if key_low_case then ToLower front else front);
               front = (if trim_key then Trim front else front);
               back = last part_values;
               back = (if trim_value \<and> length part_values > 1 then Trim back else back)
           in if length part_values < 2 then Some (attrs(front \<mapsto> []), lines + 1)
              else Some (attrs(front \<mapsto> back), lines + 1)))"

fun parse_parts ::
  "bytes \<Rightarrow> bool \<Rightarrow> bool \<Rightarrow> bool \<Rightarrow> bytes list \<Rightarrow> (bytes \<rightharpoonup> bytes) \<times> int \<Rightarrow> ((bytes \<rightharpoonup> bytes) \<times> int) option" where
  "parse_parts value_key key_low_case trim_key trim_value [] st = Some st"
| "parse_parts value_key key_low_case trim_key trim_value (part # parts) st =
     Option.bind (parse_part value_key key_low_case trim_key trim_value part st)
       (parse_parts value_key key_low_case trim_key trim_value parts)"

definition ParseAttributes ::
  "bytes \<Rightarrow> (bytes \<rightharpoonup> bytes) \<Rightarrow> bytes \<Rightarrow> bytes \<Rightarrow> bool \<Rightarrow> bool \<Rightarrow> bool \<Rightarrow> ((bytes \<rightharpoonup> bytes) \<times> int) option" where
  "ParseAttributes content attrs sep_key value_key key_low_case trim_key trim_value =
     Option.bind (Strtok_key content sep_key (-1) False None) (\<lambda>(_, parts).
       parse_parts value_key key_low_case trim_key trim_value parts (attrs, 0))"

section \<open>Comparison and exclusive or\<close>

text \<open>\<^verbatim>\<open>std::string\<close> compares lexicographically, characters as unsigned bytes.\<close>

fun str_less :: "bytes \<Rightarrow> bytes \<Rightarrow> bool" where
  "str_less _ [] = False"
| "str_less [] (_ # _) = True"
| "str_less (a # s) (b # t) = (if a < b then True else if b < a then False else str_less s t)"

definition LessThanXored :: "bytes \<Rightarrow> bytes \<Rightarrow> bytes \<Rightarrow> bool" where
  "LessThanXored l r x =
     (if length l \<noteq> length r \<or> length r \<noteq> length x then False
      else let v1 = map2 (\<lambda>a b. a XOR b) x l; v2 = map2 (\<lambda>a b. a XOR b) x r in str_less v1 v2)"

definition cstr_append :: "bytes \<Rightarrow> bytes \<Rightarrow> bytes" where
  "cstr_append ls rs = cstr ls @ rs"

definition cstr_eq :: "bytes \<Rightarrow> bytes \<Rightarrow> bool" where
  "cstr_eq ls rs \<longleftrightarrow> rs = cstr ls"

definition str_eq_cstr :: "bytes \<Rightarrow> bytes \<Rightarrow> bool" where
  "str_eq_cstr ls rs \<longleftrightarrow> ls = cstr rs"

definition str_xor :: "bytes \<Rightarrow> bytes \<Rightarrow> bytes" where
  "str_xor ls rs =
     (if length ls \<noteq> length rs then ls else map2 (\<lambda>a b. a XOR b) ls rs)"

end
