(* ===== verification/StringFacts.thy ===== *)
theory StringFacts
  imports Strings
begin

text \<open>
  What the string utilities of the theory \<open>Strings\<close> compute.
\<close>

section \<open>C strings\<close>

lemma cstr_id: "0 \<notin> set s \<Longrightarrow> cstr s = s" "0 \<notin> set s \<Longrightarrow> cstr (s @ [0]) = s"
  by (induction s) (simp_all add: cstr_def)

section \<open>Hexadecimal\<close>

lemma nibble_parts:
  fixes b :: byte
  shows "push_bit 4 (drop_bit 4 b) + (b AND 0x0F) = b" "drop_bit 4 b < 16" "b AND 0x0F < 16"
proof -
  have m: "b AND 0x0F = take_bit 4 b" by (simp add: take_bit_eq_mask mask_eq_exp_minus_1)
  show "push_bit 4 (drop_bit 4 b) + (b AND 0x0F) = b" by (simp add: m bits_ident)
  have "unat b < 256" using unsigned_less [of b] by simp
  then have "unat (drop_bit 4 b) < 16" by (simp add: drop_bit_eq_div unat_div)
  then show "drop_bit 4 b < 16" by (simp add: word_less_nat_alt)
  have "unat (take_bit 4 b) < 16" unfolding unsigned_take_bit_eq by (simp add: take_bit_eq_mod)
  then show "b AND 0x0F < 16" by (simp add: m word_less_nat_alt)
qed

lemma nibble_join:
  fixes h l :: byte
  assumes "h < 16" "l < 16"
  shows "drop_bit 4 (push_bit 4 h + l) = h" "(push_bit 4 h + l) AND 0x0F = l"
proof -
  have n: "unat h < 16" "unat l < 16" using assms unfolding word_less_nat_alt by simp_all
  have u: "unat (push_bit 4 h + l) = unat h * 16 + unat l"
    using n by (simp add: unat_word_ariths push_bit_eq_mult)
  show "drop_bit 4 (push_bit 4 h + l) = h"
    using n by (simp add: word_eq_iff_unsigned [where 'a = nat] drop_bit_eq_div unat_div u)
  have m: "(push_bit 4 h + l) AND 0x0F = take_bit 4 (push_bit 4 h + l)"
    by (simp add: take_bit_eq_mask mask_eq_exp_minus_1)
  show "(push_bit 4 h + l) AND 0x0F = l"
    using n unfolding m word_eq_iff_unsigned [where 'a = nat] unsigned_take_bit_eq u
    by (simp add: take_bit_eq_mod)
qed

lemma hex_nibble_digit:
  assumes "n < 16"
  shows "hex_nibble force (hex_digit n) = Some n"
proof -
  have "hex_nibble False (hex_digit n) = Some n \<and> hex_nibble True (hex_digit n) = Some n"
    using _ assms by (rule nibbles) code_simp
  then show ?thesis by (cases force) simp_all
qed

lemma hex_digit_is_hex:
  assumes "n < 16"
  shows "char_range 48 57 (hex_digit n) \<or> char_range 97 102 (hex_digit n)"
  using _ assms by (rule nibbles) code_simp

lemma hex_nibble_lower:
  assumes "hex_nibble False c = Some n"
  shows "n < 16 \<and> hex_digit n = (if char_range 65 90 c then c + 0x20 else c)"
proof -
  let ?P = "\<lambda>c. case hex_nibble False c of None \<Rightarrow> True
    | Some n \<Rightarrow> n < 16 \<and> hex_digit n = (if char_range 65 90 c then c + 0x20 else c)"
  consider "char_range 48 57 c" | "char_range 97 102 c" | "char_range 65 70 c"
    using assms by (auto simp: hex_nibble_def split: if_splits)
  then have "?P c" by cases (erule chars_between, code_simp, simp, simp)+
  with assms show ?thesis by simp
qed

lemma hex_pairs_digits [simp]: "hex_pairs force (BinToHexString v) = Some v"
  by (induction v) (simp_all add: hex_nibble_digit nibble_parts)

lemma length_BinToHexString [simp]: "length (BinToHexString v) = 2 * length v"
  by (induction v) (simp_all add: Let_def)

lemma BinToHexString_empty [simp]: "BinToHexString v = [] \<longleftrightarrow> v = []"
  by (cases v) (simp_all add: Let_def)

lemma HexStringToBin_BinToHexString: "HexStringToBin (BinToHexString v) force = v"
  by (simp add: HexStringToBin_def)

lemma all_hex_BinToHexString: "all_hex (BinToHexString v)"
proof (induction v)
  case (Cons b v)
  then show ?case
    using hex_digit_is_hex [OF nibble_parts(2) [of b]] hex_digit_is_hex [OF nibble_parts(3) [of b]]
    by (auto simp: Let_def)
qed simp

lemma all_hex_nibble: "all_hex (c # s) \<Longrightarrow> \<exists>n. hex_nibble False c = Some n"
  by (auto simp: hex_nibble_def split: if_splits)

lemma hex_pairs_lower:
  "all_hex s \<Longrightarrow> even (length s) \<Longrightarrow> \<exists>v. hex_pairs False s = Some v \<and> BinToHexString v = ToLower s"
proof (induction "length s" arbitrary: s rule: less_induct)
  case less
  show ?case
  proof (cases "s = []")
    case True
    then show ?thesis by (simp add: ToLower_def)
  next
    case False
    then obtain h l rest where s: "s = h # l # rest"
      using less.prems(2) by (cases s; cases "tl s") auto
    have hl: "all_hex (l # rest)" "all_hex rest" "even (length rest)"
      using less.prems unfolding s by (auto split: if_splits)
    obtain a b where ab: "hex_nibble False h = Some a" "hex_nibble False l = Some b"
      using all_hex_nibble [of h "l # rest"] all_hex_nibble [of l rest] less.prems(1) hl(1)
      unfolding s by blast
    obtain v where v: "hex_pairs False rest = Some v" "BinToHexString v = ToLower rest"
      using less.hyps [of rest] hl s by auto
    show ?thesis
      using hex_nibble_lower [OF ab(1)] hex_nibble_lower [OF ab(2)] ab v
      by (simp add: s nibble_join ToLower_def Let_def)
  qed
qed

lemma BinToHexString_HexStringToBin:
  "IsHexString h \<Longrightarrow> BinToHexString (HexStringToBin h False) = ToLower h"
  using hex_pairs_lower [of h]
  by (auto simp: IsHexString_def HexStringToBin_def ToLower_def even_iff_mod_2_eq_zero split: if_splits)

section \<open>Trimming\<close>

lemma skip_left_props:
  "nLeft \<le> length s \<Longrightarrow> nLeft \<le> skip_left s nLeft \<and> skip_left s nLeft \<le> length s
    \<and> (\<forall>k. nLeft \<le> k \<and> k < skip_left s nLeft \<longrightarrow> IsSpace (s ! k))
    \<and> (skip_left s nLeft < length s \<longrightarrow> \<not> IsSpace (s ! skip_left s nLeft))"
proof (induction s nLeft rule: skip_left.induct)
  case (1 s p)
  show ?case
  proof (cases "p < length s \<and> IsSpace (s ! p)")
    case True
    with 1 have IH: "p + 1 \<le> skip_left s (p + 1) \<and> skip_left s (p + 1) \<le> length s
      \<and> (\<forall>k. p + 1 \<le> k \<and> k < skip_left s (p + 1) \<longrightarrow> IsSpace (s ! k))
      \<and> (skip_left s (p + 1) < length s \<longrightarrow> \<not> IsSpace (s ! skip_left s (p + 1)))" by simp
    have "skip_left s p = skip_left s (p + 1)" using True by (subst skip_left.simps) simp
    moreover have "IsSpace (s ! k)" if "p \<le> k" "k < skip_left s (p + 1)" for k
      using IH True that by (cases "k = p") auto
    ultimately show ?thesis using IH True by auto
  next
    case False
    then have "skip_left s p = p" by (subst skip_left.simps) auto
    with False 1 show ?thesis by auto
  qed
qed

lemma skip_right_props:
  "skip_right s l r \<le> r \<and> (\<forall>k. skip_right s l r < k \<and> k \<le> r \<longrightarrow> IsSpace (s ! k))
    \<and> (l \<le> skip_right s l r \<longrightarrow> skip_right s l r = 0 \<or> \<not> IsSpace (s ! skip_right s l r))"
proof (induction r)
  case 0
  then show ?case by (subst (1 2 3 4 5) skip_right.simps) simp
next
  case (Suc r)
  show ?case
  proof (cases "l \<le> Suc r \<and> IsSpace (s ! Suc r)")
    case True
    then have "skip_right s l (Suc r) = skip_right s l r" by (subst skip_right.simps) simp
    with Suc True show ?thesis by (auto simp: le_Suc_eq)
  next
    case False
    then have "skip_right s l (Suc r) = Suc r" by (subst skip_right.simps) auto
    with False show ?thesis by auto
  qed
qed

lemma Trim_decomposes:
  "\<exists>a b. s = a @ Trim s @ b \<and> list_all IsSpace (a @ b)
     \<and> (Trim s \<noteq> [] \<longrightarrow> \<not> IsSpace (hd (Trim s)) \<and> \<not> IsSpace (last (Trim s)))"
proof (cases "s = []")
  case True
  then show ?thesis by (simp add: Trim_def)
next
  case False
  define n where "n = skip_left s 0"
  define m where "m = skip_right s n (length s - 1)"
  have n: "n \<le> length s" "\<And>k. k < n \<Longrightarrow> IsSpace (s ! k)" "n < length s \<Longrightarrow> \<not> IsSpace (s ! n)"
    using skip_left_props [of 0 s] by (auto simp: n_def)
  have m: "m \<le> length s - 1" "\<And>k. m < k \<Longrightarrow> k \<le> length s - 1 \<Longrightarrow> IsSpace (s ! k)"
    "n \<le> m \<Longrightarrow> m = 0 \<or> \<not> IsSpace (s ! m)"
    using skip_right_props [of s n "length s - 1"] by (auto simp: m_def)
  show ?thesis
  proof (cases "n > m")
    case True
    have "n = length s"
    proof (rule ccontr)
      assume "n \<noteq> length s"
      then have "n < length s" "n \<le> length s - 1" using n(1) by auto
      with True m(2) n(3) show False by blast
    qed
    then have "list_all IsSpace s" using n(2) by (simp add: list_all_length)
    moreover have "Trim s = []" using False True by (simp add: Trim_def n_def m_def Let_def)
    ultimately show ?thesis by (intro exI [of _ s] exI [of _ "[]"]) simp
  next
    case le: False
    have len: "m < length s" using m(1) False by (cases s) auto
    have T: "Trim s = take (m - n + 1) (drop n s)"
      using False le by (simp add: Trim_def n_def m_def Let_def substr_def)
    have s: "s = take n s @ Trim s @ drop (Suc m) s"
      using le len by (simp add: T) (metis append_take_drop_id drop_drop le_add_diff_inverse2 not_le add_Suc)
    have "list_all IsSpace (take n s)" using n(1,2) by (simp add: list_all_length)
    moreover have "list_all IsSpace (drop (Suc m) s)" using m(2) len by (simp add: list_all_length)
    moreover have "hd (Trim s) = s ! n" using le len by (simp add: T hd_drop_conv_nth)
    moreover have "last (Trim s) = s ! m"
    proof -
      have "length (Trim s) = m - n + 1" using le len by (simp add: T)
      then show ?thesis using le len by (subst last_conv_nth) (auto simp: T)
    qed
    moreover have "\<not> IsSpace (s ! n)" using n(3) le len by simp
    moreover have "\<not> IsSpace (s ! m)" using m(3) le calculation(5) by auto
    ultimately show ?thesis using s by (metis list_all_append)
  qed
qed

lemma TrimRight_all_spaces: "s \<noteq> [] \<Longrightarrow> list_all IsSpace s \<Longrightarrow> TrimRight s = [hd s]"
proof -
  assume s: "s \<noteq> []" "list_all IsSpace s"
  have "r < length s \<Longrightarrow> skip_right s 0 r = 0" for r
  proof (induction r)
    case 0
    then show ?case by (subst skip_right.simps) simp
  next
    case (Suc r)
    then show ?case using s by (subst skip_right.simps) (simp add: list_all_length)
  qed
  from this [of "length s - 1"] s have "skip_right s 0 (length s - 1) = 0" by simp
  with s show ?thesis by (cases s) (simp_all add: TrimRight_def substr_def)
qed

lemma TrimLeft_dropWhile: "TrimLeft s = dropWhile IsSpace s"
proof -
  have "skip_left s p = p + length (takeWhile IsSpace (drop p s))" if "p \<le> length s" for p
    using that
  proof (induction s p rule: skip_left.induct)
    case (1 s p)
    show ?case
    proof (cases "p < length s")
      case True
      then have "drop p s = s ! p # drop (Suc p) s" by (simp add: Cons_nth_drop_Suc)
      with 1 True show ?thesis by (subst skip_left.simps) auto
    qed (use 1 in \<open>subst skip_left.simps, simp\<close>)
  qed
  from this [of 0] have "skip_left s 0 = length (takeWhile IsSpace s)" by simp
  moreover have "dropWhile IsSpace s = drop (length (takeWhile IsSpace s)) s"
    by (simp add: dropWhile_eq_drop)
  moreover have "length (takeWhile IsSpace s) \<le> length s" by (simp add: length_takeWhile_le)
  ultimately show ?thesis by (auto simp: TrimLeft_def substr_def Let_def)
qed

section \<open>Case\<close>

lemma uint_plus_32: "uint a < 128 \<Longrightarrow> uint (a + 32 :: byte) = uint a + 32"
  by (simp add: uint_word_ariths)

lemma ignore_case_char:
  fixes a b :: byte
  shows "(a = b \<or> CharIsLetter a \<and> CharIsLetter b \<and> 0x20 = \<bar>sint a - sint b\<bar>) \<longleftrightarrow>
    (if char_range 65 90 a then a + 0x20 else a) = (if char_range 65 90 b then b + 0x20 else b)"
proof -
  have eq: "x = y \<longleftrightarrow> uint x = uint y" for x y :: byte by (simp add: word_eq_iff_unsigned)
  have [simp]: "char_range 65 90 c \<longleftrightarrow> 65 \<le> uint c \<and> uint c \<le> 90"
    "char_range 97 122 c \<longleftrightarrow> 97 \<le> uint c \<and> uint c \<le> 122" for c :: byte
    by (simp_all add: char_range_unsigned word_le_def)
  have "uint a < 256" "0 \<le> uint a" "uint b < 256" "0 \<le> uint b"
    using uint_lt2p [of a] uint_lt2p [of b] by simp_all
  then show ?thesis
    unfolding eq CharIsLetter_def sint_byte by (auto simp: uint_plus_32)
qed

lemma eq_ignore_loop_lower:
  "length s = length t \<Longrightarrow> eq_ignore_loop s t \<longleftrightarrow> ToLower s = ToLower t"
proof (induction s t rule: list_induct2)
  case (Cons a s b t)
  have "eq_ignore_loop (a # s) (b # t) \<longleftrightarrow>
    (a = b \<or> CharIsLetter a \<and> CharIsLetter b \<and> 0x20 = \<bar>sint a - sint b\<bar>) \<and> eq_ignore_loop s t"
    by auto
  then show ?case unfolding ignore_case_char Cons.IH by (simp add: ToLower_def)
qed (simp add: ToLower_def)

lemma EqualsIgnoreCase_lower: "EqualsIgnoreCase s t \<longleftrightarrow> ToLower s = ToLower t"
proof (cases "length s = length t")
  case False
  then have "length (ToLower s) \<noteq> length (ToLower t)" by (simp add: ToLower_def)
  with False show ?thesis by (auto simp: EqualsIgnoreCase_def)
qed (simp add: EqualsIgnoreCase_def eq_ignore_loop_lower)

section \<open>Comparison and exclusive or\<close>

lemma str_less_irrefl: "\<not> str_less s s"
  by (induction s) auto

lemma str_less_trans: "str_less s t \<Longrightarrow> str_less t u \<Longrightarrow> str_less s u"
proof (induction s u arbitrary: t rule: str_less.induct)
  case (1 s)
  then show ?case by (cases t) simp_all
next
  case (2 b u)
  then show ?case by simp
next
  case (3 a s b u)
  then show ?case by (cases t) (auto split: if_splits)
qed

lemma str_less_total: "s \<noteq> t \<Longrightarrow> str_less s t \<or> str_less t s"
  by (induction s t rule: str_less.induct) (auto simp: neq_Nil_conv)

lemma map2_xor_inj:
  "length x = length l \<Longrightarrow> length l = length r \<Longrightarrow>
   map2 (\<lambda>a b. a XOR b) x l = map2 (\<lambda>a b. a XOR b) x (r :: bytes) \<longleftrightarrow> l = r"
proof (induction x l r rule: list_induct3)
  case (Cons x xs l ls r rs)
  have cancel: "x XOR (x XOR y) = y" for y by (simp flip: xor.assoc)
  have "x XOR l = x XOR r \<longleftrightarrow> l = r" by (rule iffI, drule arg_cong [where f = "\<lambda>z. x XOR z"], simp only: cancel) simp
  moreover have "map2 (\<lambda>a b. a XOR b) xs ls = map2 (\<lambda>a b. a XOR b) xs rs \<longleftrightarrow> ls = rs"
    by (rule Cons.IH)
  ultimately show ?case by simp
qed simp

lemma str_xor_self_inverse: "length a = length b \<Longrightarrow> str_xor (str_xor a b) b = a"
proof (induction a b rule: list_induct2)
  case (Cons x xs y ys)
  then show ?case by (simp add: str_xor_def xor.assoc)
qed (simp add: str_xor_def)

section \<open>Splitting\<close>

text \<open>The reference splitting of a string at every character of a set, and joining.\<close>

fun pieces :: "(byte \<Rightarrow> bool) \<Rightarrow> bytes \<Rightarrow> bytes list" where
  "pieces P [] = [[]]"
| "pieces P (c # s) = (if P c then [] # pieces P s else (c # hd (pieces P s)) # tl (pieces P s))"

fun join :: "bytes \<Rightarrow> bytes list \<Rightarrow> bytes" where
  "join sep [] = []"
| "join sep [x] = x"
| "join sep (x # y # xs) = x @ sep @ join sep (y # xs)"

lemma pieces_nonempty [simp]: "pieces P s \<noteq> []"
  by (cases s) simp_all

lemma pieces_free: "list_all (list_all (\<lambda>c. \<not> P c)) (pieces P s)"
proof (induction s)
  case (Cons d s)
  obtain q qs where qs: "pieces P s = q # qs" by (cases "pieces P s") simp_all
  with Cons show ?case by simp
qed simp

lemma join_Cons: "xs \<noteq> [] \<Longrightarrow> join sep (x # xs) = x @ sep @ join sep xs"
  by (cases xs) simp_all

lemma join_pieces: "join [d] (pieces (\<lambda>c. c = d) s) = s"
proof (induction s)
  case (Cons c s)
  show ?case
  proof (cases "c = d")
    case True
    with Cons show ?thesis by (simp add: join_Cons)
  next
    case False
    obtain p ps where ps: "pieces (\<lambda>c. c = d) s = p # ps" by (cases "pieces (\<lambda>c. c = d) s") auto
    with Cons False show ?thesis by (cases ps) simp_all
  qed
qed simp

lemma pieces_free_append:
  "list_all (\<lambda>c. \<not> P c) x \<Longrightarrow> pieces P (x @ s) = (x @ hd (pieces P s)) # tl (pieces P s)"
  by (induction x) simp_all

lemma pieces_join:
  "xs \<noteq> [] \<Longrightarrow> P d \<Longrightarrow> list_all (list_all (\<lambda>c. \<not> P c)) xs \<Longrightarrow> pieces P (join [d] xs) = xs"
proof (induction "[d]" xs rule: join.induct)
  case (2 x)
  then show ?case using pieces_free_append [of P x "[]"] by simp
next
  case (3 x y xs)
  then show ?case by (simp add: pieces_free_append)
qed simp

lemma find_from_pieces:
  "(case find_from P s p of
      None \<Rightarrow> pieces P (drop p s) = [drop p s]
    | Some i \<Rightarrow> pieces P (drop p s) = take (i - p) (drop p s) # pieces P (drop (i + 1) s))"
proof (induction P s p rule: find_from.induct)
  case (1 P s p)
  show ?case
  proof (cases "p < length s")
    case lt: True
    then have d: "drop p s = s ! p # drop (Suc p) s" by (simp add: Cons_nth_drop_Suc)
    show ?thesis
    proof (cases "P (s ! p)")
      case True
      with lt d show ?thesis by (subst find_from.simps) simp
    next
      case False
      with lt have e: "find_from P s p = find_from P s (p + 1)" by (subst find_from.simps) simp
      show ?thesis
      proof (cases "find_from P s (p + 1)")
        case None
        with 1 [OF lt False] e d False show ?thesis by simp
      next
        case (Some i)
        then have "p + 1 \<le> i" using find_from_bounds by blast
        then have "i - p = Suc (i - Suc p)" by simp
        with Some 1 [OF lt False] e d False show ?thesis by simp
      qed
    qed
  qed (subst find_from.simps, simp)
qed

lemma split_loop_pieces:
  "split_loop s delim p ret = ret @ pieces (\<lambda>c. c \<in> set delim) (drop p s)"
proof (induction s delim p ret rule: split_loop.induct)
  case (1 s delim p ret)
  show ?case
  proof (cases "find_first_of s delim p")
    case None
    then show ?thesis
      using find_from_pieces [where P = "\<lambda>c. c \<in> set delim" and s = s and p = p]
      by (subst split_loop.simps) (simp add: find_first_of_def)
  next
    case (Some i)
    with 1 [OF Some] show ?thesis
      using find_from_pieces [where P = "\<lambda>c. c \<in> set delim" and s = s and p = p]
      by (subst split_loop.simps) (simp add: find_first_of_def substr_def)
  qed
qed

lemma split_pieces: "split s delim = pieces (\<lambda>c. c \<in> set delim) s"
  by (simp add: split_def split_loop_pieces)

lemma split_join:
  "ps \<noteq> [] \<Longrightarrow> list_all (\<lambda>p. d \<notin> set p) ps \<Longrightarrow> split (join [d] ps) [d] = ps"
  by (auto simp: split_pieces list_all_iff intro!: pieces_join)

lemma join_split: "join [d] (split s [d]) = s"
  by (simp add: split_pieces join_pieces)

subsection \<open>Attribute strings\<close>

lemma foldl_map_insert: "foldl (\<lambda>m (k, v). map_insert k v m) m kvs = map_of kvs ++ m"
proof (induction kvs arbitrary: m)
  case (Cons kv kvs)
  obtain k v where kv: "kv = (k, v)" by fastforce
  have "map_of kvs ++ map_insert k v m = map_of (kv # kvs) ++ m"
    by (rule ext) (auto simp: kv map_insert_def map_add_def split: option.splits)
  then show ?case using Cons.IH [of "map_insert k v m"] by (simp only: kv foldl.simps prod.case)
qed simp

definition render_attr :: "byte \<Rightarrow> bytes \<times> bytes \<Rightarrow> bytes" where
  "render_attr ope kv = fst kv @ [ope] @ snd kv"

lemma split_attr:
  "ope \<notin> set k \<Longrightarrow> ope \<notin> set v \<Longrightarrow> split (render_attr ope (k, v)) [ope] = [k, v]"
  using split_join [of "[k, v]" ope] by (simp add: render_attr_def)

lemma ParseAttribute_render:
  assumes "kvs \<noteq> []" "d \<noteq> ope" "list_all (\<lambda>(k, v). {d, ope} \<inter> (set k \<union> set v) = {}) kvs"
  shows "ParseAttribute (join [d] (map (render_attr ope) kvs)) [d] [ope] = map_of kvs"
proof -
  let ?f = "\<lambda>ret part. let item = split part [ope] in if length item > 1
     then map_insert (item ! 0) (item ! 1) ret else map_insert (item ! 0) [] ret"
  have parts: "split (join [d] (map (render_attr ope) kvs)) [d] = map (render_attr ope) kvs"
    using assms by (intro split_join) (auto simp: list_all_iff render_attr_def)
  have "foldl ?f m (map (render_attr ope) kvs) = foldl (\<lambda>m (k, v). map_insert k v m) m kvs" for m
    using assms(3)
  proof (induction kvs arbitrary: m)
    case (Cons kv kvs)
    obtain k v where kv: "kv = (k, v)" by fastforce
    have "split (render_attr ope (k, v)) [ope] = [k, v]"
      using Cons.prems by (intro split_attr) (auto simp: kv)
    with Cons kv show ?case by simp
  qed simp
  then show ?thesis by (simp add: ParseAttribute_def parts foldl_map_insert)
qed

subsection \<open>Splitting at a character\<close>

lemma Strtok_loop_pieces:
  "Strtok_loop s c p arr =
     arr @ filter (\<lambda>x. x \<noteq> []) (butlast (pieces (\<lambda>d. d = c) (drop p s)))
       @ [last (pieces (\<lambda>d. d = c) (drop p s))]"
proof (induction s c p arr rule: Strtok_loop.induct)
  case (1 s c p arr)
  note fp = find_from_pieces [where P = "\<lambda>d. d = c" and s = s and p = p]
  show ?case
  proof (cases "find_first_of_char s c p")
    case None
    with fp show ?thesis by (subst Strtok_loop.simps) (simp add: find_first_of_char_def)
  next
    case (Some i)
    then have "p \<le> i \<and> i < length s" by (rule find_first_of_char_bounds)
    then have "i > p \<longleftrightarrow> take (i - p) (drop p s) \<noteq> []" by auto
    with 1 [OF Some] Some fp show ?thesis
      by (subst Strtok_loop.simps) (auto simp: find_first_of_char_def substr_def)
  qed
qed

section \<open>Replacing\<close>

text \<open>The reference: replace the leftmost occurrences, from left to right.\<close>

function replace_all :: "bytes \<Rightarrow> bytes \<Rightarrow> bytes \<Rightarrow> bytes" where
  "replace_all from to s =
     (if from = [] \<or> s = [] then s
      else if take (length from) s = from then to @ replace_all from to (drop (length from) s)
      else hd s # replace_all from to (tl s))"
  by pat_completeness auto
termination by (relation "measure (\<lambda>(from, to, s). length s)") auto

declare replace_all.simps [simp del]

lemma replace_all_short: "length s < length from \<Longrightarrow> replace_all from to s = s"
proof (induction s)
  case (Cons c s)
  then have "length (take (length from) (c # s)) \<noteq> length from" by simp
  then have "take (length from) (c # s) \<noteq> from" by metis
  with Cons show ?case by (subst replace_all.simps) simp
qed (subst replace_all.simps, simp)

lemma find_str_replace:
  "from \<noteq> [] \<Longrightarrow>
   (case find_str s from p of
      None \<Rightarrow> replace_all from to (drop p s) = drop p s
    | Some i \<Rightarrow> p \<le> i \<and> i + length from \<le> length s
        \<and> replace_all from to (drop p s)
          = take (i - p) (drop p s) @ to @ replace_all from to (drop (i + length from) s))"
proof (induction s "from" p rule: find_str.induct)
  case (1 s "from" p)
  show ?case
  proof (cases "p + length from \<le> length s")
    case le: True
    show ?thesis
    proof (cases "take (length from) (drop p s) = from")
      case True
      moreover have "drop p s \<noteq> []" using le 1(2) by (cases "from") auto
      ultimately have "replace_all from to (drop p s) = to @ replace_all from to (drop (length from) (drop p s))"
        using 1(2) by (subst replace_all.simps) simp
      with le True show ?thesis by (subst find_str.simps) (simp add: add.commute)
    next
      case False
      have "p < length s" using le 1(2) by (cases "from") auto
      then have d: "drop p s = s ! p # drop (Suc p) s" by (simp add: Cons_nth_drop_Suc)
      have e: "find_str s from p = find_str s from (p + 1)" using le False by (subst find_str.simps) simp
      have r: "replace_all from to (drop p s) = s ! p # replace_all from to (drop (Suc p) s)"
        using 1(2) False by (subst replace_all.simps) (simp add: d)
      show ?thesis
      proof (cases "find_str s from (p + 1)")
        case None
        with 1(1) [OF le False 1(2)] e r d show ?thesis by simp
      next
        case (Some i)
        then have "p + 1 \<le> i" using 1(1) [OF le False 1(2)] by simp
        then have "i - p = Suc (i - Suc p)" by simp
        with Some 1(1) [OF le False 1(2)] e r d show ?thesis by simp
      qed
    qed
  next
    case False
    moreover have "0 < length from" using 1(2) by simp
    ultimately have "length (drop p s) < length from" unfolding length_drop by linarith
    then have "replace_all from to (drop p s) = drop p s" by (rule replace_all_short)
    with False show ?thesis by (subst find_str.simps) simp
  qed
qed

lemma replace_loop_correct:
  "from \<noteq> [] \<Longrightarrow> p \<le> length s \<Longrightarrow>
   replace_loop s from to p = Some (take p s @ replace_all from to (drop p s))"
proof (induction "length s - p" arbitrary: s p rule: less_induct)
  case less
  note f = find_str_replace [OF less.prems(1), where s = s and p = p and to = to]
  show ?case
  proof (cases "find_str s from p")
    case None
    with f show ?thesis by (subst replace_loop.simps) simp
  next
    case (Some i)
    with f have i: "p \<le> i" "i + length from \<le> length s"
      "replace_all from to (drop p s) = take (i - p) (drop p s) @ to @ replace_all from to (drop (i + length from) s)"
      by simp_all
    let ?s = "take i s @ to @ drop (i + length from) s"
    have "0 < length from" using less.prems(1) by simp
    then have "length ?s - (i + length to) < length s - p"
      using i(1,2) unfolding length_append length_take length_drop by linarith
    then have "replace_loop ?s from to (i + length to)
      = Some (take (i + length to) ?s @ replace_all from to (drop (i + length to) ?s))"
      using less.prems(1) i(2) by (intro less.hyps) simp_all
    moreover have "take (i + length to) ?s = take i s @ to" "drop (i + length to) ?s = drop (i + length from) s"
      using i(2) by simp_all
    moreover have "take i s = take p s @ take (i - p) (drop p s)"
      using i(1) by (metis le_add_diff_inverse take_add)
    ultimately show ?thesis using Some i(3) by (subst replace_loop.simps) simp
  qed
qed

lemma replace_loop_empty:
  assumes "replace_loop s from to p = Some r"
  shows "from = [] \<longrightarrow> p \<le> length s \<longrightarrow> False"
  using assms
proof (induction rule: replace_loop.raw_induct [rotated 1, consumes 1, case_names 1])
  case (1 f s "from" to p r)
  show ?case
  proof (intro impI)
    assume e: "from = []" "p \<le> length s"
    then have "find_str s from p = Some p" by (subst find_str.simps) simp
    with 1(2) e have "f (take p s @ to @ drop p s) [] to (p + length to) = Some r" by simp
    from 1(1) [OF this] e show False by simp
  qed
qed

lemma Replace_correct: "from \<noteq> [] \<Longrightarrow> Replace s from to = Some (replace_all from to s)"
  by (simp add: Replace_def replace_loop_correct)

lemma Replace_empty: "Replace s [] to = None"
  using replace_loop_empty [of s "[]" to 0] by (cases "Replace s [] to") (auto simp: Replace_def)

lemma replace_all_char: "replace_all [c] [d] s = map (\<lambda>x. if x = c then d else x) s"
  by (induction s) (subst replace_all.simps, simp)+

section \<open>Decimal numbers\<close>

lemma IS_DIGIT_iff: "IS_DIGIT c \<longleftrightarrow> 48 \<le> uint c \<and> uint c \<le> 57"
  by (simp add: IS_DIGIT_def char_range_unsigned word_le_def)

lemma uint_digit: "d < 10 \<Longrightarrow> uint (48 + of_nat d :: byte) = 48 + int d"
  by (simp add: uint_word_ariths unsigned_of_nat take_bit_eq_mod)

lemma IS_DIGIT_digit: "d < 10 \<Longrightarrow> IS_DIGIT (48 + of_nat d)"
  by (simp add: IS_DIGIT_iff uint_digit)

lemma dec_nat_nonempty [simp]: "dec_nat n \<noteq> []"
  by (subst dec_nat.simps) simp

lemma dec_nat_digits: "list_all IS_DIGIT (dec_nat n)"
proof (induction n rule: dec_nat.induct)
  case (1 n)
  then show ?case
    by (subst dec_nat.simps) (simp add: IS_DIGIT_digit)
qed

lemma digits_value_append [simp]: "digits_value (a @ [c]) = digits_value a * 10 + (uint c - 48)"
  by (simp add: digits_value_def)

lemma digits_value_dec_nat: "digits_value (dec_nat n) = int n"
proof (induction n rule: dec_nat.induct)
  case (1 n)
  show ?case
  proof (cases "n < 10")
    case True
    then show ?thesis by (subst dec_nat.simps) (simp add: digits_value_def uint_digit)
  next
    case False
    then have "digits_value (dec_nat n) = int (n div 10) * 10 + int (n mod 10)"
      using 1 by (subst dec_nat.simps) (simp add: uint_digit)
    then show ?thesis by (simp add: zdiv_int zmod_int)
  qed
qed

lemma length_dec_nat: "n < 10 ^ k \<Longrightarrow> 0 < k \<Longrightarrow> length (dec_nat n) \<le> k"
proof (induction k arbitrary: n)
  case (Suc k)
  show ?case
  proof (cases "n < 10")
    case True
    then show ?thesis by (subst dec_nat.simps) simp
  next
    case False
    with Suc.prems have "0 < k" by (cases k) simp_all
    moreover have "n div 10 < 10 ^ k" using Suc.prems by (simp add: less_mult_imp_div_less mult.commute)
    ultimately show ?thesis using Suc.IH [of "n div 10"] False by (subst dec_nat.simps) simp
  qed
qed simp

lemma digit_no_space: "IS_DIGIT c \<Longrightarrow> \<not> isspace c \<and> c \<noteq> 45 \<and> c \<noteq> 43 \<and> c \<noteq> 0 \<and> c \<noteq> 46 \<and> \<not> IS_BLANK c"
  by (auto simp: IS_DIGIT_iff isspace_def IS_BLANK_def char_range_unsigned word_le_def)

lemma dropWhile_hd: "s \<noteq> [] \<Longrightarrow> \<not> P (hd s) \<Longrightarrow> dropWhile P s = s"
  by (cases s) simp_all

lemma peek_hd: "s \<noteq> [] \<Longrightarrow> peek s = hd s"
  by (cases s) (simp_all add: peek_def)

lemma dec_nat_hd: "IS_DIGIT (hd (dec_nat n))"
  using dec_nat_digits [of n] by (cases "dec_nat n") simp_all

lemma takeWhile_digits: "takeWhile IS_DIGIT (dec_nat n) = dec_nat n"
  using dec_nat_digits [of n] by (simp add: list_all_iff)

lemma strtol10_dec_nat_min: "strtol10 (dec_nat n) = min (2 ^ 63 - 1) (int n)"
  using dec_nat_hd [of n] digit_no_space [of "hd (dec_nat n)"]
  by (simp add: strtol10_def dropWhile_hd peek_hd Let_def takeWhile_digits digits_value_dec_nat)

lemma strtol10_dec_nat: "n < 2 ^ 63 \<Longrightarrow> strtol10 (dec_nat n) = int n"
  by (simp add: strtol10_dec_nat_min)

lemma strtol10_minus: "n \<le> 2 ^ 63 \<Longrightarrow> strtol10 (45 # dec_nat n) = - int n"
  using of_nat_le_iff [of n "2 ^ 63", where 'a = int]
  by (simp add: strtol10_def isspace_def char_range_unsigned peek_def Let_def takeWhile_digits
      digits_value_dec_nat)

lemma strtol10_dec_int:
  assumes "- (2 ^ 63) \<le> v" "v < 2 ^ 63"
  shows "strtol10 (dec_int v) = v"
proof (cases "v < 0")
  case True
  then have "nat (- v) \<le> 2 ^ 63" using assms by (simp add: nat_le_iff)
  from strtol10_minus [OF this] True show ?thesis by (simp add: dec_int_def)
next
  case False
  then have "nat v < 2 ^ 63" using assms by (simp add: nat_less_iff)
  from strtol10_dec_nat [OF this] False show ?thesis by (simp add: dec_int_def)
qed

lemma length_dec_int: "- (2 ^ 63) \<le> v \<Longrightarrow> v < 2 ^ 63 \<Longrightarrow> length (dec_int v) \<le> 20"
proof (cases "v < 0")
  case True
  assume "- (2 ^ 63) \<le> v"
  then have "nat (- v) < 10 ^ 19" by (simp add: nat_less_iff)
  then have "length (dec_nat (nat (- v))) \<le> 19" by (rule length_dec_nat) simp
  with True show ?thesis by (simp add: dec_int_def)
next
  case False
  assume "v < 2 ^ 63"
  then have "nat v < 10 ^ 20" by (simp add: nat_less_iff)
  then have "length (dec_nat (nat v)) \<le> 20" by (rule length_dec_nat) simp
  with False show ?thesis by (simp add: dec_int_def)
qed

lemma sint64_bounds: "- (2 ^ 63) \<le> sint (w :: u64)" "sint (w :: u64) < 2 ^ 63"
  using sint_greater_eq [of w] sint_less [of w] by simp_all

lemma sint32_bounds: "- (2 ^ 31) \<le> sint (w :: u32)" "sint (w :: u32) < 2 ^ 31"
  using sint_greater_eq [of w] sint_less [of w] by simp_all

lemma ToString_int64_text: "ToString_int64 w = dec_int (sint w)"
  using length_dec_int [OF sint64_bounds [of w]] by (simp add: ToString_int64_def snprintf_def)

lemma ToString_int_text: "ToString_int w = dec_int (sint w)"
  using length_dec_int [of "sint w"] sint32_bounds [of w] by (simp add: ToString_int_def snprintf_def)

lemma dec_int_nonempty [simp]: "dec_int v \<noteq> []"
  by (simp add: dec_int_def)

lemma atoi_dec_int: "- (2 ^ 31) \<le> v \<Longrightarrow> v < 2 ^ 31 \<Longrightarrow> atoi (dec_int v) = v"
  using strtol10_dec_int [of v] by (simp add: atoi_def signed_of_int signed_take_bit_int_eq_self)

lemma atoi_dec_nat: "n < 2 ^ 31 \<Longrightarrow> atoi (dec_nat n) = int n"
  using atoi_dec_int [of "int n"] by (simp add: dec_int_def)

lemma Stoui64_saturates: "Stoui64 (dec_nat (2 ^ 64 - 1)) = 2 ^ 63 - 1"
  by (simp add: Stoui64_def strtol10_dec_nat_min)

section \<open>Time stamps\<close>

lemma digits_no_sep: "list_all IS_DIGIT s \<Longrightarrow> c \<in> {45, 32, 58, 47, 46} \<Longrightarrow> c \<notin> set s"
  by (auto simp: list_all_iff IS_DIGIT_iff)

definition date_text :: "byte \<Rightarrow> byte \<Rightarrow> byte \<Rightarrow> nat \<Rightarrow> nat \<Rightarrow> nat \<Rightarrow> nat \<Rightarrow> nat \<Rightarrow> nat \<Rightarrow> bytes" where
  "date_text d t c y mo da h mi s =
     dec_nat y @ [d] @ dec_nat mo @ [d] @ dec_nat da @ [t] @ dec_nat h @ [c] @ dec_nat mi @ [c] @ dec_nat s"

lemma map_id_digits:
  "a \<in> {45, 32, 58, 47, 46} \<Longrightarrow> map (\<lambda>x. if x = a then b else x) (dec_nat n) = dec_nat n"
  using digits_no_sep [OF dec_nat_digits, of a n] by (auto intro!: map_idI)

lemma dashes_split:
  "Strtok_into (dec_nat y @ [45] @ dec_nat mo @ [45] @ dec_nat da @ [45] @ dec_nat h @ [45] @ dec_nat mi
      @ [45] @ dec_nat s) 45 []
   = ([dec_nat y, dec_nat mo, dec_nat da, dec_nat h, dec_nat mi, dec_nat s], 6)"
proof -
  let ?xs = "[dec_nat y, dec_nat mo, dec_nat da, dec_nat h, dec_nat mi, dec_nat s]"
  have "list_all (list_all (\<lambda>c. \<not> c = 45)) ?xs"
    using digits_no_sep [OF dec_nat_digits, of 45] by (auto simp: list_all_iff)
  then have "pieces (\<lambda>c. c = 45) (join [45] ?xs) = ?xs" by (intro pieces_join) simp_all
  then show ?thesis by (simp add: Strtok_into_def Strtok_loop_pieces)
qed

lemma ToTimestamp_date:
  assumes "y < 2 ^ 31" "mo < 2 ^ 31" "da < 2 ^ 31" "h < 2 ^ 31" "mi < 2 ^ 31" "s < 2 ^ 31"
    "{d, t, c} \<subseteq> {45, 32, 58, 47, 46}"
  shows "ToTimestamp mktime (date_text d t c y mo da h mi s) =
    Some (mktime 0 \<lparr>tm_year = int y - 1900, tm_mon = int mo - 1, tm_mday = int da, tm_hour = int h,
                  tm_min = int mi, tm_sec = int s\<rparr>)"
proof -
  let ?r = "\<lambda>a. map (\<lambda>x. if x = a then 45 else x)"
  have "?r 46 (?r 47 (?r 32 (?r 58 (date_text d t c y mo da h mi s)))) =
    dec_nat y @ [45] @ dec_nat mo @ [45] @ dec_nat da @ [45] @ dec_nat h @ [45] @ dec_nat mi @ [45] @ dec_nat s"
    using assms(7) by (auto simp: date_text_def map_id_digits simp del: map_map)
  then show ?thesis
    using assms dashes_split [of y mo da h mi s]
    by (simp add: ToTimestamp_def Replace_correct lit_def replace_all_char atoi_dec_nat del: map_map)
qed

section \<open>Classification of numbers\<close>

definition strip_sign :: "bytes \<Rightarrow> bytes" where
  "strip_sign p = (if peek p = 45 \<or> peek p = 43 then tl p else p)"

definition hex_prefix :: "bytes \<Rightarrow> bool" where
  "hex_prefix p \<longleftrightarrow> peek p = 48 \<and> (peek (tl p) = 120 \<or> peek (tl p) = 88)"

definition number_body :: "bytes \<Rightarrow> int" where
  "number_body p =
     (if peek p = 46 then (if peek (dropWhile IS_DIGIT (tl p)) = 0 then 3 else 0)
      else if hex_prefix p then
        (if peek (dropWhile (\<lambda>c. IS_DIGIT c \<or> IS_HEX_DIGIT c) (tl (tl p))) = 0 then 2 else 0)
      else if IS_DIGIT (peek p) then
        (let q = dropWhile IS_DIGIT p
         in if peek q = 46 then (if peek (dropWhile IS_DIGIT (tl q)) = 0 then 3 else 0)
            else if peek q = 0 then 1 else 0)
      else 0)"

lemma dropWhile_dropWhile: "(\<And>c. Q c \<Longrightarrow> P c) \<Longrightarrow> dropWhile P (dropWhile Q s) = dropWhile P s"
  by (induction s) auto

lemma IS_DIGIT_48 [simp]: "IS_DIGIT 48" "\<not> IS_DIGIT 46" "\<not> IS_DIGIT 0"
  by (simp_all add: IS_DIGIT_iff)

lemma dropWhile_zeros:
  "dropWhile (\<lambda>c. IS_DIGIT c \<or> b \<and> IS_HEX_DIGIT c) (dropWhile (\<lambda>c. c = 48) p)
    = dropWhile (\<lambda>c. IS_DIGIT c \<or> b \<and> IS_HEX_DIGIT c) p"
  by (rule dropWhile_dropWhile) simp

lemma is_number_body: "is_number s = (if s = [] then 0 else number_body (strip_sign (dropWhile IS_BLANK s)))"
proof (cases "s = []")
  case False
  define p where "p = strip_sign (dropWhile IS_BLANK s)"
  have p': "p = (let ptr = dropWhile IS_BLANK s in if peek ptr = 45 \<or> peek ptr = 43 then tl ptr else ptr)"
    by (simp add: p_def strip_sign_def Let_def)
  note unfold = is_number_def number_body_def Let_def p' [unfolded Let_def, symmetric]
  have neq: "peek p = 48 \<Longrightarrow> peek p \<noteq> 46 \<and> IS_DIGIT (peek p)" by simp
  have hx: "hex_prefix p \<longleftrightarrow> peek p = 48 \<and> peek (tl p) \<noteq> 0 \<and> (peek (tl p) = 120 \<or> peek (tl p) = 88)"
    by (auto simp: hex_prefix_def)
  consider "peek p = 46" | "hex_prefix p" | "IS_DIGIT (peek p)" "\<not> hex_prefix p" "peek p \<noteq> 46"
    | "\<not> IS_DIGIT (peek p)" "peek p \<noteq> 46" "\<not> hex_prefix p" using hx by blast
  then have "is_number s = number_body p"
  proof cases
    case 1
    with False show ?thesis by (simp add: unfold)
  next
    case 2
    then have "peek p = 48" "peek (tl p) \<noteq> 0" "peek (tl p) = 120 \<or> peek (tl p) = 88" using hx by blast+
    with False 2 show ?thesis using dropWhile_zeros [where b = True] by (simp add: unfold)
  next
    case 3
    with False show ?thesis
      using dropWhile_zeros [where b = False] by (simp add: unfold hx [symmetric])
  next
    case 4
    with False show ?thesis by (simp add: unfold)
  qed
  with False show ?thesis by (simp add: p_def)
qed (simp add: is_number_def)

lemma peek_zero: "0 \<notin> set p \<Longrightarrow> peek p = 0 \<longleftrightarrow> p = []"
  by (cases p) (auto simp: peek_def)

lemma peek_Cons [simp]: "peek (c # p) = c" "peek [] = 0"
  by (simp_all add: peek_def)

lemma peek_dropWhile: "0 \<notin> set p \<Longrightarrow> peek (dropWhile P p) = 0 \<longleftrightarrow> list_all P p"
  by (subst peek_zero) (auto simp: list_all_iff dest: set_dropWhileD)

lemma dot_split:
  assumes "0 \<notin> set p"
  shows "(\<exists>r. dropWhile IS_DIGIT p = 46 # r \<and> list_all IS_DIGIT r) \<longleftrightarrow>
    (\<exists>a b. p = a @ [46] @ b \<and> list_all IS_DIGIT a \<and> list_all IS_DIGIT b)"
proof safe
  fix r assume r: "dropWhile IS_DIGIT p = 46 # r" "list_all IS_DIGIT r"
  have "p = takeWhile IS_DIGIT p @ 46 # r" using r(1) by (metis takeWhile_dropWhile_id)
  moreover have "list_all IS_DIGIT (takeWhile IS_DIGIT p)" by (auto simp: list_all_iff dest: set_takeWhileD)
  ultimately show "\<exists>a b. p = a @ [46] @ b \<and> list_all IS_DIGIT a \<and> list_all IS_DIGIT b"
    using r(2) by auto
next
  fix a b assume "p = a @ [46] @ b" "list_all IS_DIGIT a" "list_all IS_DIGIT b"
  then show "\<exists>r. dropWhile IS_DIGIT (a @ [46] @ b) = 46 # r \<and> list_all IS_DIGIT r"
    by (auto simp: list_all_iff)
qed

text \<open>The three grammars: decimal digits, hexadecimal with its prefix, decimal with a point.\<close>

definition number_form :: "int \<Rightarrow> bytes \<Rightarrow> bool" where
  "number_form k p \<longleftrightarrow>
     (if k = 1 then p \<noteq> [] \<and> list_all IS_DIGIT p
      else if k = 2 then (\<exists>x h. p = 48 # x # h \<and> x \<in> {120, 88} \<and> list_all (\<lambda>c. IS_DIGIT c \<or> IS_HEX_DIGIT c) h)
      else k = 3 \<and> (\<exists>a b. p = a @ [46] @ b \<and> list_all IS_DIGIT a \<and> list_all IS_DIGIT b))"

lemma number_body_form:
  assumes "0 \<notin> set p" "k \<in> {1, 2, 3}"
  shows "number_body p = k \<longleftrightarrow> number_form k p"
proof (cases p)
  case Nil
  then show ?thesis using assms(2) by (auto simp: number_body_def number_form_def hex_prefix_def)
next
  case p: (Cons c r)
  have r: "0 \<notin> set r" using assms(1) p by simp
  consider (dot) "c = 46" | (hex) x h where "c = 48" "r = x # h" "x \<in> {120, 88}"
    | (dec) "IS_DIGIT c" "\<not> hex_prefix p" | (no) "c \<noteq> 46" "\<not> IS_DIGIT c"
    using p r by (cases r) (auto simp: hex_prefix_def)
  then show ?thesis
  proof cases
    case dot
    have "(\<exists>a b. p = a @ [46] @ b \<and> list_all IS_DIGIT a \<and> list_all IS_DIGIT b) \<longleftrightarrow> list_all IS_DIGIT r"
      using dot_split [OF assms(1)] by (simp add: p dot)
    with dot r assms(2) show ?thesis
      by (auto simp: p number_body_def number_form_def peek_dropWhile)
  next
    case hex
    have "\<not> IS_DIGIT x" using hex(3) by (auto simp: IS_DIGIT_iff)
    moreover have "x \<noteq> 46" using hex(3) by auto
    ultimately have "\<not> (\<exists>a b. p = a @ [46] @ b \<and> list_all IS_DIGIT a \<and> list_all IS_DIGIT b)"
      using dot_split [OF assms(1)] by (simp add: p hex)
    moreover have "hex_prefix p" using hex by (auto simp: p hex_prefix_def)
    ultimately show ?thesis using hex r assms(2) \<open>\<not> IS_DIGIT x\<close>
      by (auto simp: p number_body_def number_form_def peek_dropWhile)
  next
    case dec
    have c46: "c \<noteq> 46" using dec(1) by auto
    have hx: "\<not> (\<exists>x h. p = 48 # x # h \<and> x \<in> {120, 88} \<and> list_all (\<lambda>c. IS_DIGIT c \<or> IS_HEX_DIGIT c) h)"
      using dec(2) by (auto simp: hex_prefix_def)
    let ?q = "dropWhile IS_DIGIT p"
    have q0: "0 \<notin> set ?q" using assms(1) by (auto dest: set_dropWhileD)
    have body: "number_body p = (if peek ?q = 46 then (if peek (dropWhile IS_DIGIT (tl ?q)) = 0 then 3 else 0)
      else if peek ?q = 0 then 1 else 0)"
      using dec c46 by (simp add: number_body_def p Let_def)
    show ?thesis
    proof (cases "peek ?q = 46")
      case True
      then obtain r' where r': "?q = 46 # r'" by (cases ?q) auto
      moreover have "0 \<notin> set r'" using q0 r' by simp
      moreover have "\<not> list_all IS_DIGIT p" using r' by (metis dropWhile_eq_Nil_conv list.distinct(1) list_all_iff)
      ultimately show ?thesis
        using assms(2) hx dot_split [OF assms(1)] by (auto simp: body number_form_def peek_dropWhile)
    next
      case False
      then have "\<not> (\<exists>r. ?q = 46 # r)" by auto
      then have "\<not> (\<exists>a b. p = a @ [46] @ b \<and> list_all IS_DIGIT a \<and> list_all IS_DIGIT b)"
        using dot_split [OF assms(1)] by blast
      moreover have "p \<noteq> []" by (simp add: p)
      ultimately show ?thesis
        using False assms(2) hx peek_dropWhile [OF assms(1)] by (auto simp: body number_form_def)
    qed
  next
    case no
    then have "\<not> (\<exists>a b. p = a @ [46] @ b \<and> list_all IS_DIGIT a \<and> list_all IS_DIGIT b)"
      using dot_split [OF assms(1)] by (simp add: p)
    moreover have "\<not> hex_prefix p" using no by (auto simp: hex_prefix_def p)
    moreover have "c \<noteq> 48" using no by auto
    ultimately show ?thesis using no assms(2) by (auto simp: number_body_def number_form_def p)
  qed
qed

lemma number_form_head: "number_form k p \<Longrightarrow> p \<noteq> [] \<and> \<not> IS_BLANK (hd p) \<and> hd p \<noteq> 45 \<and> hd p \<noteq> 43"
proof -
  assume f: "number_form k p"
  consider "p \<noteq> []" "list_all IS_DIGIT p" | x h where "p = 48 # x # h"
    | a b where "p = a @ [46] @ b" "list_all IS_DIGIT a"
    using f unfolding number_form_def by (metis (full_types))
  then have "p \<noteq> [] \<and> (IS_DIGIT (hd p) \<or> hd p = 46)"
  proof cases
    case 1
    then show ?thesis by (cases p) simp_all
  next
    case 3
    then show ?thesis by (cases a) simp_all
  qed simp
  then show ?thesis using digit_no_space [of "hd p"] by (auto simp: IS_BLANK_def)
qed

lemma strip_sign_parts:
  "\<exists>sg. sg \<in> {[], [45], [43]} \<and> p = sg @ strip_sign p"
  by (cases p) (auto simp: strip_sign_def)

lemma strip_form:
  assumes "list_all IS_BLANK bl" "sg \<in> {[], [45], [43]}" "number_form k p"
  shows "strip_sign (dropWhile IS_BLANK (bl @ sg @ p)) = p"
proof -
  have p: "p \<noteq> []" "\<not> IS_BLANK (hd p)" "hd p \<noteq> 45" "hd p \<noteq> 43" using number_form_head [OF assms(3)] by simp_all
  have nb: "\<not> IS_BLANK 45" "\<not> IS_BLANK 43" by (simp_all add: IS_BLANK_def)
  have "dropWhile IS_BLANK (bl @ sg @ p) = sg @ p"
    using assms(1,2) p nb by (auto simp: list_all_iff dropWhile_hd)
  then show ?thesis using assms(2) p by (auto simp: strip_sign_def peek_hd)
qed

lemma is_number_correct:
  assumes "0 \<notin> set s" "k \<in> {1, 2, 3}"
  shows "is_number s = k \<longleftrightarrow>
    (\<exists>bl sg p. s = bl @ sg @ p \<and> list_all IS_BLANK bl \<and> sg \<in> {[], [45], [43]} \<and> number_form k p)"
proof -
  let ?p = "strip_sign (dropWhile IS_BLANK s)"
  have sub: "set ?p \<subseteq> set s" by (auto simp: strip_sign_def dest: set_dropWhileD list.set_sel(2) [rotated])
  then have z: "0 \<notin> set ?p" using assms(1) by auto
  obtain sg where sg: "sg \<in> {[], [45], [43]}" "dropWhile IS_BLANK s = sg @ ?p" using strip_sign_parts by blast
  have s: "s = takeWhile IS_BLANK s @ sg @ ?p" using sg(2) by (metis takeWhile_dropWhile_id)
  have bl: "list_all IS_BLANK (takeWhile IS_BLANK s)" by (auto simp: list_all_iff dest: set_takeWhileD)
  have ne: "number_body ?p = k \<Longrightarrow> s \<noteq> []"
    using number_body_form [OF z assms(2)] number_form_head [of k ?p] by (auto simp: strip_sign_def)
  show ?thesis
  proof
    assume "is_number s = k"
    then have "number_body ?p = k" using assms(2) by (auto simp: is_number_body split: if_splits)
    then show "\<exists>bl sg p. s = bl @ sg @ p \<and> list_all IS_BLANK bl \<and> sg \<in> {[], [45], [43]} \<and> number_form k p"
      using s bl sg(1) number_body_form [OF z assms(2)] by blast
  next
    assume "\<exists>bl sg p. s = bl @ sg @ p \<and> list_all IS_BLANK bl \<and> sg \<in> {[], [45], [43]} \<and> number_form k p"
    then obtain bl sg p where "s = bl @ sg @ p" "list_all IS_BLANK bl" "sg \<in> {[], [45], [43]}" "number_form k p"
      by blast
    then have "number_form k ?p" using strip_form [of bl sg k p] by simp
    then have "number_body ?p = k" using number_body_form [OF z assms(2)] by simp
    then show "is_number s = k" using ne by (auto simp: is_number_body)
  qed
qed

section \<open>Formatting into a growing buffer\<close>

text \<open>
  What C promises of \<^verbatim>\<open>vsnprintf\<close>: it returns the length of the whole text and writes as much of it
  as the buffer holds.
\<close>

definition vsnprintf_law :: "(int \<Rightarrow> int \<times> bytes) \<Rightarrow> bytes \<Rightarrow> bool" where
  "vsnprintf_law vsn text \<longleftrightarrow> (\<forall>n > 0. vsn n = (int (length text), take (nat n - 1) text))"

lemma format_loop_correct:
  assumes "vsnprintf_law vsn text" "\<And>n. malloc_ok n" "k + j = 8"
  shows "format_loop malloc_ok vsn store str (2 ^ k) =
    Some (Inr (if length text < 2 ^ 27 \<and> 0 < j then store (cstr text) else str))"
  using assms(3)
proof (induction j arbitrary: k)
  case 0
  then show ?case by (subst format_loop.simps) simp
next
  case (Suc j)
  have k: "(2 :: int) ^ k < 256"
  proof -
    have "k \<le> 7" using Suc.prems by simp
    then have "(2 :: int) ^ k \<le> 2 ^ 7" by (rule power_increasing) simp
    then show ?thesis by simp
  qed
  have pos: "0 < kMaxStringLen * 2 ^ k" by (simp add: kMaxStringLen_def)
  have v: "vsn (kMaxStringLen * 2 ^ k) = (int (length text), take (nat (kMaxStringLen * 2 ^ k) - 1) text)"
    using assms(1) pos by (simp add: vsnprintf_law_def)
  show ?case
  proof (cases "int (length text) < kMaxStringLen * 2 ^ k")
    case True
    have "kMaxStringLen * 2 ^ k \<le> kMaxStringLen * 2 ^ 7"
      using Suc.prems by (intro mult_left_mono power_increasing) (simp_all add: kMaxStringLen_def)
    then have "int (length text) < 2 ^ 27" using True by (simp add: kMaxStringLen_def)
    then have "length text < 2 ^ 27" by simp
    moreover have "take (nat (kMaxStringLen * 2 ^ k) - 1) text = text" using True by simp
    ultimately show ?thesis using True k v assms(2) by (subst format_loop.simps) (simp add: Let_def)
  next
    case False
    have "format_loop malloc_ok vsn store str (2 ^ k) = format_loop malloc_ok vsn store str (2 ^ Suc k)"
      using False k v assms(2) by (subst format_loop.simps) (simp add: Let_def mult.commute)
    also have "\<dots> = Some (Inr (if length text < 2 ^ 27 \<and> 0 < j then store (cstr text) else str))"
      using Suc.prems by (intro Suc.IH) simp
    also have "\<dots> = Some (Inr (if length text < 2 ^ 27 \<and> 0 < Suc j then store (cstr text) else str))"
    proof (cases "j = 0")
      case True
      then have "k = 7" using Suc.prems by simp
      then have "\<not> int (length text) < 2 ^ 27" using False by (simp add: kMaxStringLen_def)
      then have "\<not> length text < 2 ^ 27" by simp
      then show ?thesis by simp
    qed simp
    finally show ?thesis .
  qed
qed

lemma format_all:
  assumes "vsnprintf_law vsn text" "\<And>n. malloc_ok n"
  shows "Format malloc_ok vsn = Some (Inr (if length text < 2 ^ 27 then cstr text else []))"
    and "Format_ref malloc_ok vsn str = Some (Inr (if length text < 2 ^ 27 then cstr text else str))"
    and "AppendFormat malloc_ok vsn str = Some (Inr (if length text < 2 ^ 27 then str @ cstr text else str))"
  using format_loop_correct [OF assms, of 0 8]
  by (simp_all add: Format_def Format_ref_def AppendFormat_def)

section \<open>Bytes as hexadecimal text\<close>

lemma hex_digit_unat:
  assumes "n < 16"
  shows "(if unat n < 10 then 48 + of_nat (unat n) else 97 + of_nat (unat n - 10)) = hex_digit n"
  using _ assms by (rule nibbles) code_simp

lemma fmt_02_byte: "fmt_02 97 (ucast (b :: byte)) = [hex_digit (drop_bit 4 b), hex_digit (b AND 0x0F)]"
proof -
  define n where "n = unat b"
  let ?dg = "\<lambda>n. if n < 10 then 48 + of_nat n else 97 + of_nat (n - 10) :: byte"
  have b: "n < 256" using unsigned_less [of b] by (simp add: n_def)
  have u: "unat (ucast b :: u32) = n" using b by (simp add: n_def unsigned_ucast_eq take_bit_eq_mod)
  have hi: "unat (drop_bit 4 b) = n div 16" by (simp add: n_def drop_bit_eq_div unat_div)
  have m: "b AND 0x0F = take_bit 4 b" by (simp add: take_bit_eq_mask mask_eq_exp_minus_1)
  have lo: "unat (b AND 0x0F) = n mod 16"
    unfolding m unsigned_take_bit_eq n_def by (simp add: take_bit_eq_mod)
  have "hex_nat 97 n = (if n < 16 then [?dg n] else [?dg (n div 16), ?dg (n mod 16)])"
    using b by (subst hex_nat.simps, subst hex_nat.simps) (auto simp: Let_def)
  then have "fmt_02 97 (ucast b) = [?dg (n div 16), ?dg (n mod 16)]"
    by (auto simp: fmt_02_def u Let_def)
  also have "?dg (n div 16) = hex_digit (drop_bit 4 b)"
    using hex_digit_unat [OF nibble_parts(2), of b] unfolding hi .
  also have "?dg (n mod 16) = hex_digit (b AND 0x0F)"
    using hex_digit_unat [OF nibble_parts(3), of b] unfolding lo .
  finally show ?thesis .
qed

lemma Bin4_loop_hex:
  "i \<le> 4 \<Longrightarrow> Bin4_loop i v r = r @ BinToHexString (take (4 - i) v)"
proof (induction v arbitrary: i r)
  case (Cons b v)
  show ?case
  proof (cases "i < 4")
    case True
    then have "4 - i = Suc (4 - Suc i)" by simp
    with True Cons show ?thesis by (simp add: fmt_02_byte Let_def)
  qed (use Cons in simp)
qed simp

lemma Bin4ToHexString_take: "Bin4ToHexString v = BinToHexString (take 4 v)"
  by (simp add: Bin4ToHexString_def Bin4_loop_hex)

section \<open>Splitting at a key\<close>

lemma i32_small: "n < 2 ^ 31 \<Longrightarrow> i32 n = int n"
  by (simp add: i32_def signed_of_nat signed_take_bit_int_eq_self)

lemma find_str_char: "find_str s [c] p = find_from (\<lambda>x. x = c) s p"
proof (induction s "[c]" p rule: find_str.induct)
  case (1 s p)
  show ?case
  proof (cases "p < length s")
    case True
    then have "take 1 (drop p s) = [s ! p]" by (simp add: take_Suc_conv_app_nth hd_drop_conv_nth take_Suc)
    with 1 True show ?thesis
      by (subst find_str.simps, subst find_from.simps) auto
  next
    case False
    then show ?thesis by (subst find_str.simps, subst find_from.simps) simp
  qed
qed

lemma find_i32_char:
  assumes "length s < 2 ^ 31" "d \<noteq> 0" "p \<le> length s"
  shows "find_i32 s [d] (int p) = (case find_from (\<lambda>x. x = d) s p of None \<Rightarrow> -1 | Some i \<Rightarrow> int i)"
proof -
  have "p < 2 ^ 64" using assms(1,3) by (rule_tac le_less_trans [of _ "length s"]) simp_all
  then have "nat (int p mod 2 ^ 64) = p" by simp
  moreover have "i32 i = int i" if "find_from (\<lambda>x. x = d) s p = Some i" for i
    using find_from_bounds [OF that] assms(1) by (intro i32_small) simp
  ultimately show ?thesis
    using assms(2) by (simp add: find_i32_def cstr_def find_str_char split: option.split)
qed

definition no_last_empty :: "bytes list \<Rightarrow> bytes list" where
  "no_last_empty q = (if last q = [] then butlast q else q)"

lemma no_last_empty_Cons [simp]: "q \<noteq> [] \<Longrightarrow> no_last_empty (x # q) = x # no_last_empty q"
  by (simp add: no_last_empty_def)

lemma strtok_loop_char:
  assumes "length s < 2 ^ 31 - 1" "d \<noteq> 0" "mx \<le> 0"
  shows "strtok_key_loop s [d] mx False (int (length s)) (int p) cnt vals =
    (let q = no_last_empty (pieces (\<lambda>x. x = d) (drop p s)) in Some (cnt + int (length q), vals @ q))"
proof (induction "length s - p" arbitrary: p cnt vals rule: less_induct)
  case less
  have one: "i32 (length [d]) = 1" by (simp add: i32_def)
  show ?case
  proof (cases "p < length s")
    case False
    then show ?thesis by (subst strtok_key_loop.simps) (simp add: no_last_empty_def)
  next
    case True
    have s: "length s < 2 ^ 31" using assms(1) by simp
    note f = find_i32_char [OF s assms(2), of p]
    note fp = find_from_pieces [where P = "\<lambda>x. x = d" and s = s and p = p]
    show ?thesis
    proof (cases "find_from (\<lambda>x. x = d) s p")
      case None
      have "strtok_key_loop s [d] mx False (int (length s)) (int p) cnt vals =
        strtok_key_loop s [d] mx False (int (length s)) (int (length s) + 1) (cnt + 1) (vals @ [drop p s])"
        using True None f one by (subst strtok_key_loop.simps) (simp add: Let_def substr_def)
      also have "\<dots> = Some (cnt + 1, vals @ [drop p s])" by (subst strtok_key_loop.simps) simp
      finally show ?thesis using fp None True by (simp add: no_last_empty_def)
    next
      case (Some i)
      then have i: "p \<le> i" "i < length s" using find_from_bounds by blast+
      have "strtok_key_loop s [d] mx False (int (length s)) (int p) cnt vals =
        strtok_key_loop s [d] mx False (int (length s)) (int i + 1) (cnt + 1) (vals @ [take (i - p) (drop p s)])"
        using True Some f one i assms(3)
        by (subst strtok_key_loop.simps) (auto simp add: Let_def substr_def nat_diff_distrib)
      also have "\<dots> = (let q = no_last_empty (pieces (\<lambda>x. x = d) (drop (i + 1) s))
        in Some (cnt + 1 + int (length q), (vals @ [take (i - p) (drop p s)]) @ q))"
        using less.hyps [of "i + 1" "cnt + 1" "vals @ [take (i - p) (drop p s)]"] i
        by (simp add: add.commute)
      finally show ?thesis using fp Some by (simp add: Let_def)
    qed
  qed
qed

lemma Strtok_key_char:
  assumes "length s < 2 ^ 31 - 1" "d \<noteq> 0" "mx \<le> 0"
  shows "Strtok_key s [d] mx False None =
    (let q = no_last_empty (pieces (\<lambda>x. x = d) s) in Some (int (length q), q))"
  using strtok_loop_char [OF assms, of 0 0 "[]"] assms(1)
  by (simp add: Strtok_key_def i32_small Let_def)

lemma Strtok_key_two:
  assumes "length k + length v < 2 ^ 31 - 2" "d \<noteq> 0" "d \<notin> set k"
  shows "Strtok_key (k @ [d] @ v) [d] 2 False None =
    Some (if v = [] then (1, [k]) else (2, [k, v]))"
proof -
  let ?s = "k @ [d] @ v"
  have len: "length ?s < 2 ^ 31" using assms(1) by simp
  have one: "i32 (length [d]) = 1" by (simp add: i32_def)
  have "pieces (\<lambda>x. x = d) ?s = k # pieces (\<lambda>x. x = d) v"
    using assms(3) by (subst pieces_free_append) (auto simp: list_all_iff)
  have find: "find_from (\<lambda>x. x = d) ?s 0 = Some (length k)"
  proof -
    have "n \<le> length k \<Longrightarrow> find_from (\<lambda>x. x = d) ?s (length k - n) = Some (length k)" for n
    proof (induction n)
      case 0
      then show ?case by (subst find_from.simps) (simp add: nth_append)
    next
      case (Suc n)
      then have "?s ! (length k - Suc n) \<noteq> d" using assms(3) by (auto simp: nth_append)
      moreover have "length k - Suc n + 1 = length k - n" using Suc.prems by simp
      ultimately show ?case using Suc by (subst find_from.simps) simp
    qed
    from this [of "length k"] show ?thesis by simp
  qed
  have f: "find_i32 ?s [d] 0 = int (length k)"
    using find_i32_char [OF len assms(2), of 0] find by simp
  have "Strtok_key ?s [d] 2 False None =
    strtok_key_loop ?s [d] 2 False (int (length ?s)) 0 0 []"
    using len by (simp add: Strtok_key_def i32_small Let_def)
  also have "\<dots> = strtok_key_loop ?s [d] 2 False (int (length ?s)) (int (length k) + 1) 1 [k]"
    using f one by (subst strtok_key_loop.simps) (auto simp add: Let_def substr_def)
  also have "\<dots> = Some (if v = [] then (1, [k]) else (2, [k, v]))"
  proof (cases "v = []")
    case True
    then show ?thesis by (subst strtok_key_loop.simps) simp
  next
    case False
    have "strtok_key_loop ?s [d] 2 False (int (length ?s)) (int (length k) + 1) 1 [k] =
      strtok_key_loop ?s [d] 2 False (int (length ?s)) (int (length ?s) + 1) 2 [k, v]"
      using False one by (subst strtok_key_loop.simps) (auto simp add: Let_def substr_def nat_add_distrib)
    also have "\<dots> = Some (2, [k, v])" by (subst strtok_key_loop.simps) simp
    finally show ?thesis using False by simp
  qed
  finally show ?thesis .
qed

subsection \<open>Attribute lists\<close>

definition norm_attr :: "bool \<Rightarrow> bool \<Rightarrow> bool \<Rightarrow> bytes \<times> bytes \<Rightarrow> bytes \<times> bytes" where
  "norm_attr low trim_k trim_v kv =
     ((if trim_k then Trim else id) ((if low then ToLower else id) (fst kv)),
      (if trim_v then Trim else id) (snd kv))"

lemma parse_part_attr:
  assumes "length k + length v < 2 ^ 31 - 2" "d \<noteq> 0" "d \<notin> set k"
  shows "parse_part [d] low trim_k trim_v (render_attr d (k, v)) (attrs, n) =
    Some (let (k', v') = norm_attr low trim_k trim_v (k, v) in (attrs(k' \<mapsto> v'), n + 1))"
  using Strtok_key_two [OF assms]
  by (simp add: parse_part_def render_attr_def norm_attr_def Let_def Trim_def)

lemma parse_parts_attrs:
  assumes "d \<noteq> 0"
    "list_all (\<lambda>(k, v). length k + length v < 2 ^ 31 - 2 \<and> d \<notin> set k) kvs"
  shows "parse_parts [d] low trim_k trim_v (map (render_attr d) kvs) (attrs, n) =
    Some (attrs ++ map_of (rev (map (norm_attr low trim_k trim_v) kvs)), n + int (length kvs))"
  using assms(2)
proof (induction kvs arbitrary: attrs n)
  case (Cons kv kvs)
  obtain k v where kv: "kv = (k, v)" by fastforce
  obtain k' v' where n: "norm_attr low trim_k trim_v (k, v) = (k', v')" by fastforce
  have "parse_part [d] low trim_k trim_v (render_attr d (k, v)) (attrs, n) = Some (attrs(k' \<mapsto> v'), n + 1)"
    using Cons.prems assms(1) by (subst parse_part_attr) (simp_all add: kv n)
  with Cons show ?case by (simp add: kv n add.assoc)
qed simp

lemma ParseAttributes_render:
  assumes "d \<noteq> 0" "e \<noteq> 0" "d \<noteq> e" "kvs \<noteq> []"
    "list_all (\<lambda>(k, v). d \<notin> set k \<and> d \<notin> set v \<and> e \<notin> set k) kvs"
    "length (join [d] (map (render_attr e) kvs)) < 2 ^ 31 - 1"
  shows "ParseAttributes (join [d] (map (render_attr e) kvs)) attrs [d] [e] low trim_k trim_v =
    Some (attrs ++ map_of (rev (map (norm_attr low trim_k trim_v) kvs)), int (length kvs))"
proof -
  let ?parts = "map (render_attr e) kvs"
  have "pieces (\<lambda>x. x = d) (join [d] ?parts) = ?parts"
    using assms(3,4,5) by (intro pieces_join) (auto simp: list_all_iff render_attr_def)
  moreover have "no_last_empty ?parts = ?parts"
    using assms(4) by (simp add: no_last_empty_def last_map render_attr_def)
  ultimately have tok: "Strtok_key (join [d] ?parts) [d] (- 1) False None = Some (int (length kvs), ?parts)"
    using Strtok_key_char [OF assms(6,1), of "- 1"] by simp
  have len: "length k + length v < 2 ^ 31 - 2" if "(k, v) \<in> set kvs" for k v
  proof -
    have "length x \<le> length (join [d] xs)" if "x \<in> set xs" for x xs
      using that by (induction "[d]" xs rule: join.induct) auto
    moreover have "render_attr e (k, v) \<in> set ?parts" using that by (simp only: set_map imageI)
    ultimately have "length (render_attr e (k, v)) \<le> length (join [d] ?parts)" .
    moreover have "length (render_attr e (k, v)) = Suc (length k + length v)" by (simp add: render_attr_def)
    ultimately show ?thesis using assms(6) by linarith
  qed
  have "parse_parts [e] low trim_k trim_v ?parts (attrs, 0) =
    Some (attrs ++ map_of (rev (map (norm_attr low trim_k trim_v) kvs)), 0 + int (length kvs))"
    using assms(2,5) len by (intro parse_parts_attrs) (auto simp: list_all_iff)
  with tok show ?thesis by (simp add: ParseAttributes_def)
qed

section \<open>Properties\<close>

text \<open>
  Hexadecimal text: \<^verbatim>\<open>HexStringToBin\<close> inverts \<^verbatim>\<open>BinToHexString\<close> (with either value of
  \<^verbatim>\<open>force_little\<close>), whose output \<^verbatim>\<open>IsHexString\<close> accepts; and re-encoding what was decoded from an
  accepted string gives that string in lower case.
\<close>

theorem hex_string_roundtrip:
  "HexStringToBin (BinToHexString v) force = v \<and> IsHexString (BinToHexString v)
   \<and> (IsHexString h \<longrightarrow> BinToHexString (HexStringToBin h False) = ToLower h)"
  by (simp add: HexStringToBin_BinToHexString BinToHexString_HexStringToBin IsHexString_def
      all_hex_BinToHexString)

theorem hex_string_roundtrip_witness:
  "IsHexString [52, 65, 102, 48] \<and> BinToHexString (HexStringToBin [52, 65, 102, 48] False) = [52, 97, 102, 48]"
proof -
  have h: "IsHexString [52, 65, 102, 48]" by code_simp
  moreover have "ToLower [52, 65, 102, 48] = [52, 97, 102, 48]" by code_simp
  ultimately show ?thesis using hex_string_roundtrip [of "[]" False "[52, 65, 102, 48]"] by simp
qed

text \<open>
  Claim C36. \<^verbatim>\<open>is_number\<close> on a string without zero bytes classifies exactly: blanks, an optional sign, and
  then one or more decimal digits (1), \<^verbatim>\<open>0x\<close> or \<^verbatim>\<open>0X\<close> and any number, possibly none, of hexadecimal
  digits (2), or digits around a point, either side possibly empty (3).
\<close>

theorem is_number_grammar:
  assumes "0 \<notin> set s" "k \<in> {1, 2, 3}"
  shows "is_number s = k \<longleftrightarrow>
    (\<exists>bl sg p. s = bl @ sg @ p \<and> list_all IS_BLANK bl \<and> sg \<in> {[], [45], [43]} \<and> number_form k p)"
  using assms by (rule is_number_correct)

theorem is_number_grammar_witness:
  "(0 :: byte) \<notin> set [32, 45, 48, 120] \<and> is_number [32, 45, 48, 120] = 2"
proof -
  have "number_form 2 [48, 120]" by (simp add: number_form_def)
  then have "\<exists>bl sg p. [32, 45, 48, 120] = bl @ sg @ p \<and> list_all IS_BLANK bl \<and> sg \<in> {[], [45], [43]}
      \<and> number_form 2 p"
    by (intro exI [of _ "[32]"] exI [of _ "[45]"] exI [of _ "[48, 120]"]) (simp add: IS_BLANK_def)
  then show ?thesis using is_number_grammar [of "[32, 45, 48, 120]" 2] by simp
qed

text \<open>
  Printing and reading integers: every \<^verbatim>\<open>int64_t\<close> and every \<^verbatim>\<open>int\<close> printed by \<^verbatim>\<open>ToString\<close>
  fits its buffer of 32 bytes and reads back through \<^verbatim>\<open>Stoi64\<close> and \<^verbatim>\<open>Stoi\<close>; \<^verbatim>\<open>Stoui64\<close>
  does not read the upper half of the \<^verbatim>\<open>uint64_t\<close> range, it saturates at the largest \<^verbatim>\<open>int64_t\<close>.
\<close>

theorem integer_text_roundtrip:
  "Stoi64 (ToString_int64 v) = sint v \<and> length (ToString_int64 v) < 32
   \<and> Stoi (ToString_int w) = sint w
   \<and> Stoui64 (dec_nat (2 ^ 64 - 1)) = 2 ^ 63 - 1"
  using strtol10_dec_int [OF sint64_bounds [of v]] atoi_dec_int [OF sint32_bounds [of w]]
    length_dec_int [OF sint64_bounds [of v]] Stoui64_saturates
  by (simp add: Stoi64_def Stoi_def ToString_int64_text ToString_int_text)

text \<open>
  \<^verbatim>\<open>split\<close> at a character cuts the string at every occurrence of it: joining the pieces
  restores the string, no piece contains the character, there is always at least one piece, and
  splitting a join of such pieces gives the pieces back, empty ones included.
\<close>

theorem split_inverts_join:
  "join [d] (split s [d]) = s \<and> split s [d] \<noteq> [] \<and> list_all (\<lambda>p. d \<notin> set p) (split s [d])
   \<and> (ps \<noteq> [] \<and> list_all (\<lambda>p. d \<notin> set p) ps \<longrightarrow> split (join [d] ps) [d] = ps)"
  using pieces_free [of "\<lambda>c. c = d" s]
  by (auto simp: join_split split_join) (auto simp: split_pieces list_all_iff)

theorem split_inverts_join_witness:
  "list_all (\<lambda>p. (59 :: byte) \<notin> set p) [[97], [], [98]] \<and> split [97, 59, 59, 98] [59] = [[97], [], [98]]"
  using split_inverts_join [of 59 "[]" "[[97], [], [98]]"] by simp

text \<open>
  Claim C32. \<^verbatim>\<open>ParseAttributes\<close> on a list of \<^verbatim>\<open>key=value\<close> parts returns, adds to the map every part with key
  and value normalised as asked for (a later part overrides an earlier one, the value may contain
  the operator), and counts the parts.
\<close>

theorem ParseAttributes_reads:
  assumes "d \<noteq> 0" "e \<noteq> 0" "d \<noteq> e" "kvs \<noteq> []"
    "list_all (\<lambda>(k, v). d \<notin> set k \<and> d \<notin> set v \<and> e \<notin> set k) kvs"
    "length (join [d] (map (render_attr e) kvs)) < 2 ^ 31 - 1"
  shows "ParseAttributes (join [d] (map (render_attr e) kvs)) attrs [d] [e] low trim_k trim_v =
    Some (attrs ++ map_of (rev (map (norm_attr low trim_k trim_v) kvs)), int (length kvs))"
  using assms by (rule ParseAttributes_render)

theorem ParseAttributes_reads_witness:
  "ParseAttributes [65, 61, 49, 59, 66, 61, 61] Map.empty [59] [61] True False False
     = Some ([[97] \<mapsto> [49], [98] \<mapsto> [61]], 2)"
proof -
  have "ToLower [65] = [97]" "ToLower [66] = [98]" by code_simp+
  then show ?thesis
    using ParseAttributes_reads [of 59 61 "[([65], [49]), ([66], [61])]" Map.empty True False False]
    by (simp add: render_attr_def norm_attr_def fun_upd_twist)
qed

text \<open>
  Claim C35. \<^verbatim>\<open>Replace\<close> with a non-empty pattern returns, and replaces every occurrence from left to
  right without rescanning what it inserted; with an empty pattern it never returns.
\<close>

theorem Replace_replaces:
  "(from \<noteq> [] \<longrightarrow> Replace s from to = Some (replace_all from to s)) \<and> Replace s [] to = None"
  by (simp add: Replace_correct Replace_empty)

theorem Replace_replaces_witness:
  "Replace [97, 97, 97] [97, 97] [97] = Some [97, 97]"
proof -
  have "replace_all [97, 97] [97] [97, 97, 97] = [97, 97]" by code_simp
  then show ?thesis using Replace_replaces [of "[97, 97]" "[97, 97, 97]" "[97]"] by simp
qed

text \<open>
  \<^verbatim>\<open>Trim\<close> removes exactly the white space at both ends, \<^verbatim>\<open>TrimLeft\<close> that on the left; but
  \<^verbatim>\<open>TrimRight\<close> of a string of white space only keeps its first character.
\<close>

theorem Trim_exact:
  "(\<exists>a b. s = a @ Trim s @ b \<and> list_all IsSpace (a @ b)
      \<and> (Trim s \<noteq> [] \<longrightarrow> \<not> IsSpace (hd (Trim s)) \<and> \<not> IsSpace (last (Trim s))))
   \<and> TrimLeft s = dropWhile IsSpace s
   \<and> (s \<noteq> [] \<and> list_all IsSpace s \<longrightarrow> TrimRight s = [hd s])"
  using Trim_decomposes [of s] TrimRight_all_spaces [of s] by (simp add: TrimLeft_dropWhile)

theorem Trim_exact_witness: "list_all IsSpace [32, 9] \<and> TrimRight [32, 9] = [32]"
proof -
  have "list_all IsSpace [32, 9]" by code_simp
  then show ?thesis using Trim_exact [of "[32, 9]"] by simp
qed

text \<open>
  \<^verbatim>\<open>ToTimestamp\<close> of a date and time written with any of the separators space, dash, colon,
  slash and dot calls \<^verbatim>\<open>mktime\<close> with \<^verbatim>\<open>tm_isdst\<close> 0 and the fields of the text, the year counted from 1900 and the month
  from 0.
\<close>

theorem ToTimestamp_reads:
  assumes "y < 2 ^ 31" "mo < 2 ^ 31" "da < 2 ^ 31" "h < 2 ^ 31" "mi < 2 ^ 31" "s < 2 ^ 31"
    "{d, t, c} \<subseteq> {45, 32, 58, 47, 46}"
  shows "ToTimestamp mktime (date_text d t c y mo da h mi s) =
    Some (mktime 0 \<lparr>tm_year = int y - 1900, tm_mon = int mo - 1, tm_mday = int da, tm_hour = int h,
                  tm_min = int mi, tm_sec = int s\<rparr>)"
  using assms by (rule ToTimestamp_date)

theorem ToTimestamp_reads_witness:
  "ToTimestamp (\<lambda>isdst tm. tm_year tm * 100 + tm_mon tm) (date_text 47 32 58 2017 3 9 12 0 5) = Some 11702"
  using ToTimestamp_reads [of 2017 3 9 12 0 5 47 32 58 "\<lambda>isdst tm. tm_year tm * 100 + tm_mon tm"] by simp

end
