(* ===== verification/BaseN.thy ===== *)
theory BaseN
  imports Strings
begin

text \<open>
  The base 16, 32 and 64 codecs of \<^verbatim>\<open>src/utils/basen.h\<close>. A conversion trait is a record of its three
  functions; the generic \<^verbatim>\<open>encode\<close> and \<^verbatim>\<open>decode\<close> are parameterised by it as in the source. Shifts
  of a \<^verbatim>\<open>char\<close> are shifts of its value promoted to \<^verbatim>\<open>int\<close>. Failed assertions are the outcome
  \<open>Inl assertion_failed\<close>, and \<open>None\<close> is a loop that does not end.

  The interface \<open>conversion\<close> states what a trait promises (a group of 4 to 6 bits, a dictionary that the
  decoder inverts and that avoids padding and white space); inside it the codec is shown to cut the
  bits of the input into groups, and to round trip. It is interpreted on the three traits.
\<close>

section \<open>Conversion traits\<close>

record conversion_traits =
  group_length :: nat
  encode_char :: "u32 \<Rightarrow> byte outcome"
  decode_char :: "byte \<Rightarrow> byte"

definition dictionary_at :: "bytes \<Rightarrow> u32 \<Rightarrow> byte outcome" where
  "dictionary_at dictionary index =
     (if unat index < length dictionary then Inr (dictionary ! unat index) else Inl assertion_failed)"

definition b16_encode :: "u32 \<Rightarrow> byte outcome" where
  "b16_encode index = dictionary_at (lit ''0123456789abcdef'') index"

definition b16_decode :: "byte \<Rightarrow> byte" where
  "b16_decode c =
     (if char_range 48 57 c then c - 48
      else if char_range 65 70 c then c - 65 + 10
      else if char_range 97 102 c then c - 97 + 10
      else -1)"

definition b16_conversion_traits :: conversion_traits where
  "b16_conversion_traits = \<lparr>group_length = 4, encode_char = b16_encode, decode_char = b16_decode\<rparr>"

definition b32_encode :: "u32 \<Rightarrow> byte outcome" where
  "b32_encode index = dictionary_at (lit ''ABCDEFGHIJKLMNOPQRSTUVWXYZ234567'') index"

definition b32_decode :: "byte \<Rightarrow> byte" where
  "b32_decode c =
     (if char_range 65 90 c then c - 65
      else if char_range 50 55 c then c - 50 + 26
      else -1)"

definition b32_conversion_traits :: conversion_traits where
  "b32_conversion_traits = \<lparr>group_length = 5, encode_char = b32_encode, decode_char = b32_decode\<rparr>"

definition b64_encode :: "u32 \<Rightarrow> byte outcome" where
  "b64_encode index =
     dictionary_at (lit ''ABCDEFGHIJKLMNOPQRSTUVWXYZabcdefghijklmnopqrstuvwxyz0123456789+/'') index"

definition b64_decode :: "byte \<Rightarrow> byte" where
  "b64_decode c =
     (let indexOf_a = 26; indexOf_0 = indexOf_a + indexOf_a; indexOf_Plus = indexOf_0 + 10
      in if char_range 65 90 c then c - 65
         else if char_range 97 122 c then c - 97 + indexOf_a
         else if char_range 48 57 c then c - 48 + indexOf_0
         else if c = 43 then c - 43 + indexOf_Plus
         else if c = 47 then c - 47 + indexOf_Plus + 1
         else -1)"

definition b64_conversion_traits :: conversion_traits where
  "b64_conversion_traits = \<lparr>group_length = 6, encode_char = b64_encode, decode_char = b64_decode\<rparr>"

section \<open>Decoding\<close>

text \<open>\<^verbatim>\<open>(value << n) & 0xFF\<close> and \<^verbatim>\<open>value >> n\<close> for a \<^verbatim>\<open>char\<close>, stored in a \<^verbatim>\<open>char\<close>.\<close>

definition shl_char :: "byte \<Rightarrow> nat \<Rightarrow> byte" where
  "shl_char value n = word_of_int (push_bit n (sint value) AND 0xFF)"

definition shr_char :: "byte \<Rightarrow> nat \<Rightarrow> byte" where
  "shr_char value n = word_of_int (drop_bit n (sint value))"

record decode_state =
  output_current_bit :: nat
  buffer :: byte
  trailing_equal :: nat
  decoded :: bytes

definition decode_step :: "conversion_traits \<Rightarrow> byte \<Rightarrow> decode_state \<Rightarrow> decode_state" where
  "decode_step T c st =
     (if c = 61 then st\<lparr>trailing_equal := trailing_equal st + 1\<rparr>
      else if isspace c then st
      else
        let value = decode_char T c
        in if value = -1 then st
           else
             let bits_in_current_byte =
                   min (output_current_bit st + group_length T) 8 - output_current_bit st
             in if bits_in_current_byte = group_length T then
                  let st = st\<lparr>buffer := buffer st OR shl_char value (8 - output_current_bit st - group_length T),
                              output_current_bit := output_current_bit st + group_length T\<rparr>
                  in if output_current_bit st = 8
                     then st\<lparr>decoded := decoded st @ [buffer st], buffer := 0, output_current_bit := 0\<rparr>
                     else st
                else
                  let bits_in_next_byte = group_length T - bits_in_current_byte;
                      st = st\<lparr>buffer := buffer st OR shr_char value bits_in_next_byte\<rparr>;
                      st = st\<lparr>decoded := decoded st @ [buffer st]\<rparr>;
                      st = st\<lparr>buffer := 0\<rparr>;
                      st = st\<lparr>buffer := buffer st OR shl_char value (8 - bits_in_next_byte)\<rparr>
                  in st\<lparr>output_current_bit := bits_in_next_byte\<rparr>)"

definition decode_init :: decode_state where
  "decode_init = \<lparr>output_current_bit = 0, buffer = 0, trailing_equal = 0, decoded = []\<rparr>"

definition decode_finish :: "conversion_traits \<Rightarrow> decode_state \<Rightarrow> bytes" where
  "decode_finish T st =
     (if output_current_bit st \<noteq> 0 then
        let trailing_bits = trailing_equal st * group_length T + output_current_bit st
        in if trailing_bits AND 7 \<noteq> 0 then decoded st @ [buffer st] else decoded st
      else decoded st)"

definition decode :: "conversion_traits \<Rightarrow> bytes \<Rightarrow> bytes" where
  "decode T input = decode_finish T (fold (decode_step T) input decode_init)"

section \<open>Encoding\<close>

definition extract_partial_bits :: "byte \<Rightarrow> nat \<Rightarrow> nat \<Rightarrow> byte outcome" where
  "extract_partial_bits v start_bit bits_count =
     (if \<not> start_bit + bits_count < 8 then Inl assertion_failed
      else
        let t1 = shr_char v (8 - bits_count - start_bit);
            t2 = word_of_int (sint t1 AND NOT (push_bit bits_count (-1)))
        in Inr t2)"

definition extract_overlapping_bits :: "byte \<Rightarrow> byte \<Rightarrow> nat \<Rightarrow> nat \<Rightarrow> byte outcome" where
  "extract_overlapping_bits previous next start_bit bits_count =
     (if \<not> start_bit + bits_count < 16 then Inl assertion_failed
      else
        let bits_count_in_previous = 8 - start_bit;
            bits_count_in_next = bits_count - bits_count_in_previous;
            t1 = shl_char previous bits_count_in_next;
            t2 = word_of_int (drop_bit (8 - bits_count_in_next) (sint next)
                              AND NOT (push_bit bits_count_in_next (-1))) :: byte
        in Inr (word_of_int ((sint t1 OR sint t2) AND NOT (push_bit bits_count (-1)))))"

partial_function (option) encode_loop ::
  "conversion_traits \<Rightarrow> bytes \<Rightarrow> nat \<Rightarrow> bool \<Rightarrow> byte \<Rightarrow> bytes \<Rightarrow> (nat \<times> bytes) outcome option" where
  "encode_loop T iter start_bit has_backlog backlog out =
     (if has_backlog \<or> iter \<noteq> [] then
        if \<not> has_backlog then
          if start_bit + group_length T < 8 then
            (case extract_partial_bits (hd iter) start_bit (group_length T) of
               Inl e \<Rightarrow> Some (Inl e)
             | Inr v \<Rightarrow>
                 (case encode_char T (scast v) of
                    Inl e \<Rightarrow> Some (Inl e)
                  | Inr c \<Rightarrow> encode_loop T iter (start_bit + group_length T) has_backlog backlog (out @ [c])))
          else encode_loop T (tl iter) start_bit True (hd iter) out
        else
          (case extract_overlapping_bits backlog (if iter \<noteq> [] then hd iter else 0) start_bit (group_length T) of
             Inl e \<Rightarrow> Some (Inl e)
           | Inr v \<Rightarrow>
               (case encode_char T (scast v) of
                  Inl e \<Rightarrow> Some (Inl e)
                | Inr c \<Rightarrow>
                    encode_loop T iter ((start_bit + group_length T) mod 8) False backlog (out @ [c])))
      else Some (Inr (start_bit, out)))"

partial_function (option) pad_loop :: "conversion_traits \<Rightarrow> nat \<Rightarrow> bytes \<Rightarrow> bytes option" where
  "pad_loop T start_bit out =
     (if start_bit \<noteq> 0 then pad_loop T ((start_bit + group_length T) mod 8) (out @ [61]) else Some out)"

declare encode_loop.simps [code] pad_loop.simps [code]

definition encode :: "conversion_traits \<Rightarrow> bytes \<Rightarrow> bytes outcome option" where
  "encode T input =
     Option.bind (encode_loop T input 0 False 0 [])
       (\<lambda>r. case r of Inl e \<Rightarrow> Some (Inl e)
                    | Inr (start_bit, out) \<Rightarrow> map_option Inr (pad_loop T start_bit out))"

section \<open>The codecs\<close>

definition encoded_size16 :: "nat \<Rightarrow> nat" where
  "encoded_size16 rawsize = rawsize * 2"

definition encoded_size32 :: "nat \<Rightarrow> nat" where
  "encoded_size32 rawsize = (rawsize + 4) div 5 * 8"

definition encoded_size64 :: "nat \<Rightarrow> nat" where
  "encoded_size64 rawsize = (rawsize + 2) div 3 * 4"

definition encode_b16 :: "bytes \<Rightarrow> bytes outcome option" where
  "encode_b16 v = encode b16_conversion_traits v"

definition encode_b32 :: "bytes \<Rightarrow> bytes outcome option" where
  "encode_b32 v = encode b32_conversion_traits v"

definition encode_b64 :: "bytes \<Rightarrow> bytes outcome option" where
  "encode_b64 v = encode b64_conversion_traits v"

definition decode_b16 :: "bytes \<Rightarrow> bytes" where
  "decode_b16 v = decode b16_conversion_traits v"

definition decode_b32 :: "bytes \<Rightarrow> bytes" where
  "decode_b32 v = decode b32_conversion_traits v"

definition decode_b64 :: "bytes \<Rightarrow> bytes" where
  "decode_b64 v = decode b64_conversion_traits v"

section \<open>Bits\<close>

text \<open>The bits of a byte and of a group of \<open>g\<close> bits, most significant first.\<close>

definition group_bits :: "nat \<Rightarrow> byte \<Rightarrow> bool list" where
  "group_bits g v = map (\<lambda>i. bit v (g - 1 - i)) [0..<g]"

definition byte_bits :: "byte \<Rightarrow> bool list" where
  "byte_bits v = group_bits 8 v"

definition bits_of :: "bytes \<Rightarrow> bool list" where
  "bits_of s = concat (map byte_bits s)"

lemma length_group_bits [simp]: "length (group_bits g v) = g" "length (byte_bits v) = 8"
  by (simp_all add: group_bits_def byte_bits_def)

lemma nth_byte_bits: "i < 8 \<Longrightarrow> byte_bits v ! i = bit v (7 - i)"
  by (simp add: byte_bits_def group_bits_def)

lemma nth_group_bits: "i < g \<Longrightarrow> group_bits g v ! i = bit v (g - 1 - i)"
  by (simp add: group_bits_def)

lemma bits_of_simps [simp]: "bits_of [] = []" "bits_of (b # s) = byte_bits b @ bits_of s"
  "bits_of (s @ t) = bits_of s @ bits_of t"
  by (simp_all add: bits_of_def)

lemma length_bits_of [simp]: "length (bits_of s) = 8 * length s"
  by (induction s) simp_all

lemma byte_eq_bits: "(\<And>i. i < 8 \<Longrightarrow> bit a i = bit b i) \<Longrightarrow> a = (b :: byte)"
  by (rule bit_word_eqI) simp

lemma byte_bits_inject: "byte_bits a = byte_bits b \<longleftrightarrow> a = b"
proof
  assume e: "byte_bits a = byte_bits b"
  show "a = b"
  proof (rule byte_eq_bits)
    fix i :: nat assume "i < 8"
    then show "bit a i = bit b i"
      using arg_cong [OF e, of "\<lambda>l. l ! (7 - i)"] by (simp add: nth_byte_bits)
  qed
qed simp

lemma bits_of_prefix: "bits_of s @ r = bits_of t @ u \<Longrightarrow> length s = length t \<Longrightarrow> s = t \<and> r = u"
proof (induction s arbitrary: t)
  case (Cons b s)
  then show ?case by (cases t) (auto simp: byte_bits_inject)
qed simp

subsection \<open>Shifts of characters\<close>

lemma bit_shl_char: "bit (shl_char v n) i \<longleftrightarrow> i < 8 \<and> n \<le> i \<and> bit v (i - n)"
proof (cases "i < 8")
  case True
  have m: "(0xFF :: int) = mask 8" by (simp add: mask_eq_exp_minus_1)
  show ?thesis using True unfolding shl_char_def m
    by (auto simp: bit_word_of_int_iff bit_and_iff bit_mask_iff bit_push_bit_iff bit_sint_iff)
qed (auto dest: bit_imp_le_length)

lemma bit_shr_char: "i + n < 8 \<Longrightarrow> bit (shr_char v n) i \<longleftrightarrow> bit v (i + n)"
  by (auto simp: shr_char_def bit_word_of_int_iff bit_drop_bit_eq bit_sint_iff add.commute)

lemma unat_exp: "g < 8 \<Longrightarrow> unat (2 ^ g :: byte) = 2 ^ g"
proof -
  assume "g < 8"
  then have "g \<in> {0, 1, 2, 3, 4, 5, 6, 7}" by auto
  then show ?thesis by auto
qed

lemma take_bit_self: "g < 8 \<Longrightarrow> take_bit g v = v \<longleftrightarrow> (v :: byte) < 2 ^ g"
  by (simp add: word_eq_iff_unsigned [where 'a = nat] unsigned_take_bit_eq take_bit_nat_eq_self_iff
      word_less_nat_alt unat_exp)

lemma bit_group_high: "v < 2 ^ g \<Longrightarrow> g \<le> i \<Longrightarrow> g < 8 \<Longrightarrow> \<not> bit (v :: byte) i"
  using take_bit_self [of g v] by (metis bit_take_bit_iff not_le)

lemma bits_below: "(\<And>i. g \<le> i \<Longrightarrow> \<not> bit v i) \<Longrightarrow> g < 8 \<Longrightarrow> (v :: byte) < 2 ^ g"
proof -
  assume h: "\<And>i. g \<le> i \<Longrightarrow> \<not> bit v i" "g < 8"
  have "take_bit g v = v" by (rule bit_word_eqI) (use h in \<open>auto simp: bit_take_bit_iff not_le [symmetric]\<close>)
  then show ?thesis using h(2) by (simp add: take_bit_self)
qed

subsection \<open>Extraction\<close>

lemma extract_partial_bits_correct:
  assumes "s + g < 8"
  shows "\<exists>v. extract_partial_bits b s g = Inr v \<and> v < 2 ^ g \<and> group_bits g v = take g (drop s (byte_bits b))"
proof -
  define v :: byte where "v = word_of_int (sint (shr_char b (8 - g - s)) AND NOT (push_bit g (- 1)))"
  have bv: "bit v i \<longleftrightarrow> i < g \<and> bit b (i + (8 - g - s))" for i
    using assms bit_shr_char [of i "8 - g - s" b] unfolding v_def
    by (auto simp: bit_word_of_int_iff bit_and_iff bit_mask_iff bit_sint_iff bit_shr_char)
  have "group_bits g v = take g (drop s (byte_bits b))"
  proof (rule nth_equalityI)
    fix i assume "i < length (group_bits g v)"
    then have i: "i < g" by simp
    then have "g - 1 - i + (8 - g - s) = 7 - (s + i)" using assms by simp
    with i assms show "group_bits g v ! i = take g (drop s (byte_bits b)) ! i"
      by (simp add: nth_group_bits nth_byte_bits bv)
  qed (use assms in simp)
  moreover have "v < 2 ^ g" using assms by (intro bits_below) (auto simp: bv)
  ultimately show ?thesis using assms by (simp add: extract_partial_bits_def v_def Let_def)
qed

lemma extract_overlapping_bits_correct:
  assumes "s < 8" "g < 8" "8 \<le> s + g"
  shows "\<exists>v. extract_overlapping_bits p q s g = Inr v \<and> v < 2 ^ g
    \<and> group_bits g v = take g (drop s (byte_bits p @ byte_bits q))"
proof -
  define n where "n = g - (8 - s)"
  have n: "n < 8" "n \<le> g" "g - n = 8 - s" using assms by (auto simp: n_def)
  define t2 :: byte where "t2 = word_of_int (drop_bit (8 - n) (sint q) AND NOT (push_bit n (- 1)))"
  define v :: byte where "v = word_of_int ((sint (shl_char p n) OR sint t2) AND NOT (push_bit g (- 1)))"
  have bt2: "bit t2 i \<longleftrightarrow> i < n \<and> bit q (i + (8 - n))" for i
    using n unfolding t2_def
    by (cases "i < n") (auto simp: bit_word_of_int_iff bit_and_iff bit_mask_iff bit_drop_bit_eq bit_sint_iff add.commute)
  have bv: "bit v i \<longleftrightarrow> i < g \<and> (n \<le> i \<and> bit p (i - n) \<or> i < n \<and> bit q (i + (8 - n)))" for i
    using n assms unfolding v_def
    by (auto simp: bit_word_of_int_iff bit_and_iff bit_or_iff bit_mask_iff bit_sint_iff bit_shl_char bt2
        dest: bit_imp_le_length)
  have "group_bits g v = take g (drop s (byte_bits p @ byte_bits q))"
  proof (rule nth_equalityI)
    fix i assume "i < length (group_bits g v)"
    then have i: "i < g" by simp
    have e: "take g (drop s (byte_bits p @ byte_bits q)) ! i = (byte_bits p @ byte_bits q) ! (s + i)"
      using i assms(1) by (simp del: drop_append)
    show "group_bits g v ! i = take g (drop s (byte_bits p @ byte_bits q)) ! i"
    proof (cases "s + i < 8")
      case True
      then have "n \<le> g - 1 - i" "g - 1 - i - n = 7 - (s + i)" using n i assms by (auto simp: n_def)
      with i True show ?thesis unfolding e by (simp add: nth_group_bits nth_byte_bits nth_append bv)
    next
      case False
      then have "g - 1 - i < n" "g - 1 - i + (8 - n) = 7 - (s + i - 8)" "s + i - 8 < 8"
        using n i assms by (auto simp: n_def)
      with i False show ?thesis unfolding e by (simp add: nth_group_bits nth_byte_bits nth_append bv)
    qed
  qed (use assms in simp)
  moreover have "v < 2 ^ g" using assms by (intro bits_below) (auto simp: bv)
  moreover have "extract_overlapping_bits p q s g = Inr v"
    using assms by (simp add: extract_overlapping_bits_def v_def t2_def n_def Let_def)
  ultimately show ?thesis by blast
qed

section \<open>What a conversion trait promises, and what the codec then does\<close>

locale conversion =
  fixes T :: conversion_traits
  assumes group: "4 \<le> group_length T" "group_length T \<le> 6"
    and dictionary: "v < 2 ^ group_length T \<Longrightarrow>
      \<exists>c. encode_char T (scast v) = Inr c \<and> c \<noteq> 61 \<and> \<not> isspace c \<and> decode_char T c = v"
begin

definition dict :: "byte \<Rightarrow> byte" where
  "dict v = (case encode_char T (scast v) of Inr c \<Rightarrow> c | Inl _ \<Rightarrow> 0)"

lemma dict:
  assumes "v < 2 ^ group_length T"
  shows "encode_char T (scast v) = Inr (dict v)" "dict v \<noteq> 61" "\<not> isspace (dict v)"
    "decode_char T (dict v) = v" "v \<noteq> -1"
proof -
  obtain c where c: "encode_char T (scast v) = Inr c" "c \<noteq> 61" "\<not> isspace c" "decode_char T c = v"
    using dictionary [OF assms] by blast
  then show "encode_char T (scast v) = Inr (dict v)" "dict v \<noteq> 61" "\<not> isspace (dict v)"
    "decode_char T (dict v) = v" by (simp_all add: dict_def)
  show "v \<noteq> -1"
  proof
    assume "v = -1"
    then have "bit v 7" by simp
    moreover have "\<not> bit v 7" by (rule bit_group_high [OF assms]) (use group in simp_all)
    ultimately show False by simp
  qed
qed

definition groups :: "byte list \<Rightarrow> bool list" where
  "groups vs = concat (map (group_bits (group_length T)) vs)"

lemma groups_simps [simp]: "groups [] = []" "groups (v # vs) = group_bits (group_length T) v @ groups vs"
  by (simp_all add: groups_def)

lemma length_groups [simp]: "length (groups vs) = group_length T * length vs"
  by (induction vs) simp_all

text \<open>The encoder emits the dictionary characters of the groups of the pending bits, the last one
  filled up with zeros.\<close>

lemma encode_loop_correct:
  "s < 8 \<Longrightarrow> \<exists>vs z.
     encode_loop T iter s False bl out = Some (Inr ((s + group_length T * length vs) mod 8, out @ map dict vs))
   \<and> groups vs = drop s (bits_of iter) @ replicate z False \<and> z < group_length T
   \<and> list_all (\<lambda>v. v < 2 ^ group_length T) vs"
proof (induction "8 * length iter - s" arbitrary: iter s bl out rule: less_induct)
  case less
  define g where "g = group_length T"
  have g: "4 \<le> g" "g \<le> 6" using group by (simp_all add: g_def)
  show ?case
  proof (cases iter)
    case Nil
    then have "encode_loop T iter s False bl out = Some (Inr (s, out))"
      by (subst encode_loop.simps) simp
    with Nil less.prems g show ?thesis by (intro exI [of _ "[]"] exI [of _ 0]) (simp add: g_def)
  next
    case (Cons p rest)
    show ?thesis
    proof (cases "s + g < 8")
      case True
      obtain v where v: "extract_partial_bits p s g = Inr v" "v < 2 ^ g"
        "group_bits g v = take g (drop s (byte_bits p))" using extract_partial_bits_correct [OF True] by blast
      have step: "encode_loop T iter s False bl out = encode_loop T iter (s + g) False bl (out @ [dict v])"
        using True v dict(1) [of v] by (subst encode_loop.simps) (simp add: Cons g_def)
      have meas: "8 * length iter - (s + g) < 8 * length iter - s"
        using True g by (intro diff_less_mono2) (simp_all add: Cons)
      obtain vs z where IH: "encode_loop T iter (s + g) False bl (out @ [dict v])
          = Some (Inr ((s + g + g * length vs) mod 8, (out @ [dict v]) @ map dict vs))"
        "groups vs = drop (s + g) (bits_of iter) @ replicate z False" "z < g" "list_all (\<lambda>v. v < 2 ^ g) vs"
        using less.hyps [OF meas, of bl "out @ [dict v]"] True by (auto simp: g_def)
      have "drop s (bits_of iter) = group_bits g v @ drop (s + g) (bits_of iter)"
        using v(3) True append_take_drop_id [of g "drop s (byte_bits p)"] by (simp add: Cons add.commute)
      with IH v(2) step show ?thesis
        by (intro exI [of _ "v # vs"] exI [of _ z]) (simp add: g_def add.assoc)
    next
      case False
      let ?q = "if rest \<noteq> [] then hd rest else 0"
      obtain v where v: "extract_overlapping_bits p ?q s g = Inr v" "v < 2 ^ g"
        "group_bits g v = take g (drop s (byte_bits p @ byte_bits ?q))"
        using extract_overlapping_bits_correct [of s g p ?q] less.prems False g by auto
      have m: "(s + g) mod 8 = s + g - 8" using less.prems False g by (simp add: mod_if)
      have "encode_loop T iter s False bl out = encode_loop T rest s True p out"
        using False by (subst encode_loop.simps) (simp add: Cons g_def)
      also have "\<dots> = encode_loop T rest (s + g - 8) False p (out @ [dict v])"
        using v dict(1) [of v] by (subst encode_loop.simps) (simp add: m [unfolded g_def] g_def)
      finally have step: "encode_loop T iter s False bl out = encode_loop T rest (s + g - 8) False p (out @ [dict v])" .
      have lt8: "s + g - 8 < 8" using less.prems g by linarith
      have meas: "8 * length rest - (s + g - 8) < 8 * length iter - s"
        using less.prems False g by (simp add: Cons)
      obtain vs z where IH: "encode_loop T rest (s + g - 8) False p (out @ [dict v])
          = Some (Inr ((s + g - 8 + g * length vs) mod 8, (out @ [dict v]) @ map dict vs))"
        "groups vs = drop (s + g - 8) (bits_of rest) @ replicate z False" "z < g" "list_all (\<lambda>v. v < 2 ^ g) vs"
        using less.hyps [OF meas lt8, of p "out @ [dict v]"] by (auto simp: g_def)
      have pos: "(s + g - 8 + g * length vs) mod 8 = (s + g * length (v # vs)) mod 8"
        using mod_add_self2 [of "s + g - 8 + g * length vs" 8] False by (simp add: add.assoc)
      show ?thesis
      proof (cases rest)
        case Nil
        then have vs: "vs = []"
        proof -
          have "g * length vs = z" using arg_cong [OF IH(2), of length] Nil by (simp add: g_def)
          then show ?thesis using IH(3) by (cases vs) simp_all
        qed
        have "byte_bits 0 = replicate 8 False"
          by (rule nth_equalityI) (simp_all add: nth_byte_bits)
        then have "group_bits g v = drop s (byte_bits p) @ replicate (s + g - 8) False"
          using v(3) Nil less.prems False g by simp
        with IH step pos v(2) vs Nil Cons g less.prems show ?thesis
          by (intro exI [of _ "[v]"] exI [of _ "s + g - 8"]) (simp add: g_def)
      next
        case (Cons q rest')
        have "drop s (bits_of iter) = group_bits g v @ drop (s + g - 8) (bits_of rest)"
        proof -
          have "drop s (byte_bits p @ byte_bits q) = group_bits g v @ drop g (drop s (byte_bits p @ byte_bits q))"
            using v(3) Cons by (simp only: list.sel append_take_drop_id list.distinct simp_thms if_True)
          also have "drop g (drop s (byte_bits p @ byte_bits q)) = drop (s + g - 8) (byte_bits q)"
            using less.prems False by (simp add: add.commute)
          finally show ?thesis using less.prems False g \<open>iter = p # rest\<close> Cons by simp
        qed
        with IH step pos v(2) show ?thesis
          by (intro exI [of _ "v # vs"] exI [of _ z]) (simp add: g_def)
      qed
    qed
  qed
qed

lemma pad_loop_correct:
  "s < 8 \<Longrightarrow> (s + k * group_length T) mod 8 = 0 \<Longrightarrow>
   \<exists>e. pad_loop T s out = Some (out @ replicate e 61) \<and> (s + e * group_length T) mod 8 = 0 \<and> e \<le> k"
proof (induction k arbitrary: s out)
  case 0
  then show ?case by (subst pad_loop.simps) simp
next
  case (Suc k)
  show ?case
  proof (cases "s = 0")
    case True
    then show ?thesis by (subst pad_loop.simps) (auto intro: exI [of _ 0])
  next
    case False
    let ?s = "(s + group_length T) mod 8"
    have "(?s + k * group_length T) mod 8 = 0" using Suc.prems(2) by (simp add: mod_add_left_eq add.assoc)
    from Suc.IH [OF _ this, of "out @ [61]"] obtain e where
      e: "pad_loop T ?s (out @ [61]) = Some ((out @ [61]) @ replicate e 61)"
        "(?s + e * group_length T) mod 8 = 0" "e \<le> k" by auto
    have "(s + Suc e * group_length T) mod 8 = 0" using e(2) by (simp add: mod_add_left_eq add.assoc)
    with e False show ?thesis by (subst pad_loop.simps) (auto intro!: exI [of _ "Suc e"])
  qed
qed

lemma encode_correct:
  "\<exists>vs z e. encode T input = Some (Inr (map dict vs @ replicate e 61))
     \<and> groups vs = bits_of input @ replicate z False \<and> z < group_length T
     \<and> list_all (\<lambda>v. v < 2 ^ group_length T) vs \<and> (z + e * group_length T) mod 8 = 0
     \<and> (\<forall>k. (z + k * group_length T) mod 8 = 0 \<longrightarrow> e \<le> k)"
proof -
  obtain vs z where l: "encode_loop T input 0 False 0 [] = Some (Inr ((group_length T * length vs) mod 8, map dict vs))"
    "groups vs = bits_of input @ replicate z False" "z < group_length T" "list_all (\<lambda>v. v < 2 ^ group_length T) vs"
    using encode_loop_correct [of 0 input 0 "[]"] by auto
  have len: "group_length T * length vs = 8 * length input + z" using arg_cong [OF l(2), of length] by simp
  then have z: "(group_length T * length vs) mod 8 = z" using l(3) group by simp
  have "7 * length vs * group_length T = 7 * (8 * length input + z)"
    unfolding len [symmetric] by simp
  then have "(z + 7 * length vs * group_length T) mod 8 = (z + 7 * (8 * length input + z)) mod 8" by simp
  also have "\<dots> = (8 * (7 * length input + z)) mod 8" by (simp add: algebra_simps)
  finally have m: "(z + (7 * length vs) * group_length T) mod 8 = 0" by simp
  have z8: "z < 8" using l(3) group by simp
  obtain e where e: "pad_loop T z (map dict vs) = Some (map dict vs @ replicate e 61)"
    "(z + e * group_length T) mod 8 = 0" using pad_loop_correct [OF z8 m, of "map dict vs"] by (elim exE conjE)
  have "e \<le> k" if k: "(z + k * group_length T) mod 8 = 0" for k
  proof -
    obtain e' where e': "pad_loop T z (map dict vs) = Some (map dict vs @ replicate e' 61)" "e' \<le> k"
      using pad_loop_correct [OF z8 k, of "map dict vs"] by (elim exE conjE)
    then have "map dict vs @ replicate e (61 :: byte) = map dict vs @ replicate e' 61" using e(1) by simp
    from arg_cong [OF this, of length] e'(2) show ?thesis by simp
  qed
  then show ?thesis using l z e
    by (intro exI [of _ vs] exI [of _ z] exI [of _ e]) (simp add: encode_def)
qed

lemma encode_length:
  "\<exists>s L z e. encode T input = Some (Inr s) \<and> length s = L + e \<and> group_length T * L = 8 * length input + z
     \<and> z < group_length T \<and> (z + e * group_length T) mod 8 = 0
     \<and> (\<forall>k. (z + k * group_length T) mod 8 = 0 \<longrightarrow> e \<le> k)"
proof -
  obtain vs z e where E: "encode T input = Some (Inr (map dict vs @ replicate e 61))"
    "groups vs = bits_of input @ replicate z False" "z < group_length T"
    "(z + e * group_length T) mod 8 = 0" "\<forall>k. (z + k * group_length T) mod 8 = 0 \<longrightarrow> e \<le> k"
    using encode_correct [of input] by (elim exE conjE)
  have "group_length T * length vs = 8 * length input + z" using arg_cong [OF E(2), of length] by simp
  then show ?thesis using E
    by (intro exI [of _ "map dict vs @ replicate e 61"] exI [of _ "length vs"] exI [of _ z] exI [of _ e]) simp
qed

text \<open>The decoder: the bytes written so far and the bits in the buffer are the bits read.\<close>

definition dec_rel :: "decode_state \<Rightarrow> bool list \<Rightarrow> bool" where
  "dec_rel st bs \<longleftrightarrow> output_current_bit st < 8 \<and> (\<forall>i < 8 - output_current_bit st. \<not> bit (buffer st) i)
     \<and> bits_of (decoded st) @ take (output_current_bit st) (byte_bits (buffer st)) = bs"

lemma fill_buffer:
  assumes "k + g \<le> 8" "g < 8" "\<forall>i < 8 - k. \<not> bit b i" "v < 2 ^ g"
  shows "take (k + g) (byte_bits (b OR shl_char v (8 - k - g))) = take k (byte_bits b) @ group_bits g v"
    and "i < 8 - (k + g) \<Longrightarrow> \<not> bit (b OR shl_char v (8 - k - g)) i"
proof -
  let ?b = "b OR shl_char v (8 - k - g)"
  have bb: "bit ?b i \<longleftrightarrow> bit b i \<or> (i < 8 \<and> 8 - k - g \<le> i \<and> bit v (i - (8 - k - g)))" for i
    by (simp add: bit_or_iff bit_shl_char)
  show "take (k + g) (byte_bits ?b) = take k (byte_bits b) @ group_bits g v"
  proof (rule nth_equalityI)
    fix i assume "i < length (take (k + g) (byte_bits ?b))"
    then have i: "i < k + g" using assms(1) by simp
    show "take (k + g) (byte_bits ?b) ! i = (take k (byte_bits b) @ group_bits g v) ! i"
    proof (cases "i < k")
      case True
      then have "\<not> bit v (7 - i - (8 - k - g))"
        using assms(1) by (intro bit_group_high [OF assms(4) _ assms(2)]) simp
      then have "bit ?b (7 - i) = bit b (7 - i)" unfolding bb by simp
      with True i assms(1) show ?thesis by (simp add: nth_byte_bits nth_append)
    next
      case False
      then have "7 - i < 8 - k" using i assms(1) by linarith
      then have "\<not> bit b (7 - i)" using assms(3) by blast
      moreover have "7 - i - (8 - k - g) = g - 1 - (i - k)" "8 - k - g \<le> 7 - i" using False i assms(1) by simp_all
      ultimately have "bit ?b (7 - i) = bit v (g - 1 - (i - k))" unfolding bb by auto
      then show ?thesis using False i assms(1) by (simp add: nth_byte_bits nth_append nth_group_bits)
    qed
  qed (use assms(1) in simp)
  show "\<not> bit ?b i" if "i < 8 - (k + g)"
  proof -
    have "i < 8 - k" "i < 8 - k - g" using that by linarith+
    then show ?thesis using assms(3) unfolding bb by auto
  qed
qed

lemma overflow_buffer:
  assumes "k < 8" "8 < k + g" "g < 8" "\<forall>i < 8 - k. \<not> bit b i" "v < 2 ^ g"
  defines "n \<equiv> g - (8 - k)"
  shows "byte_bits (b OR shr_char v n) @ take n (byte_bits (0 OR shl_char v (8 - n)))
    = take k (byte_bits b) @ group_bits g v"
    and "i < 8 - n \<Longrightarrow> \<not> bit (0 OR shl_char v (8 - n)) i"
proof -
  have n: "n < 8" "n < g" "g - n = 8 - k" using assms(1-3) by (auto simp: n_def)
  have s7: "\<not> bit v 7" using assms(3) by (intro bit_group_high [OF assms(5) _ assms(3)]) simp
  have sh: "bit (shr_char v n) i \<longleftrightarrow> bit v (i + n)" if "i < 8" for i
  proof (cases "i + n < 8")
    case False
    then have "\<not> bit v (i + n)" by (auto dest: bit_imp_le_length)
    moreover have "\<not> bit (shr_char v n) i"
      using False that s7 by (auto simp: shr_char_def bit_word_of_int_iff bit_drop_bit_eq bit_sint_iff
          dest: bit_imp_le_length)
    ultimately show ?thesis by simp
  qed (rule bit_shr_char)
  have b1: "bit (b OR shr_char v n) i \<longleftrightarrow> bit b i \<or> bit v (i + n)" if "i < 8" for i
    using that by (simp add: bit_or_iff sh)
  have b2: "bit (0 OR shl_char v (8 - n)) i \<longleftrightarrow> i < 8 \<and> 8 - n \<le> i \<and> bit v (i - (8 - n))" for i
    by (simp add: bit_shl_char)
  show "byte_bits (b OR shr_char v n) @ take n (byte_bits (0 OR shl_char v (8 - n)))
    = take k (byte_bits b) @ group_bits g v" (is "?l = ?r")
  proof (rule nth_equalityI)
    show "length ?l = length ?r" using n assms(1) by simp
    fix i assume "i < length ?l"
    then have i: "i < 8 + n" using n by simp
    consider "i < k" | "k \<le> i" "i < 8" | "8 \<le> i" by linarith
    then show "?l ! i = ?r ! i"
    proof cases
      case 1
      then have "\<not> bit v (7 - i + n)" using n assms(1) by (intro bit_group_high [OF assms(5) _ assms(3)]) simp
      with 1 assms(1) show ?thesis by (simp add: nth_append nth_byte_bits b1)
    next
      case 2
      then have "\<not> bit b (7 - i)" using assms(4) by simp
      moreover have "7 - i + n = g - 1 - (i - k)" "i - k < g" using 2 n by simp_all
      ultimately show ?thesis using 2 assms(1) by (simp add: nth_append nth_byte_bits nth_group_bits b1)
    next
      case 3
      then have "7 - (i - 8) - (8 - n) = g - 1 - (i - k)" "i - k < g" "8 - n \<le> 7 - (i - 8)" "i - 8 < n" "7 - (i - 8) < 8"
        using n i assms(1) 3 by simp_all
      then have "bit (0 OR shl_char v (8 - n)) (7 - (i - 8)) = bit v (g - 1 - (i - k))" unfolding b2 by simp
      then show ?thesis using 3 assms(1) n \<open>i - k < g\<close> \<open>i - 8 < n\<close>
        by (simp add: nth_append nth_byte_bits nth_group_bits)
    qed
  qed
  show "\<not> bit (0 OR shl_char v (8 - n)) i" if "i < 8 - n" using that by (simp add: bit_shl_char)
qed

lemma decode_step_char:
  assumes "dec_rel st bs" "v < 2 ^ group_length T"
  shows "dec_rel (decode_step T (dict v) st) (bs @ group_bits (group_length T) v)
    \<and> trailing_equal (decode_step T (dict v) st) = trailing_equal st"
proof -
  define g where "g = group_length T"
  define k where "k = output_current_bit st"
  have g: "g < 8" "0 < g" "4 \<le> g" using group by (simp_all add: g_def)
  have v: "v < 2 ^ g" using assms(2) by (simp add: g_def)
  have k: "k < 8" "\<forall>i < 8 - k. \<not> bit (buffer st) i" "bits_of (decoded st) @ take k (byte_bits (buffer st)) = bs"
    using assms(1) by (simp_all add: dec_rel_def k_def)
  have d: "decode_step T (dict v) st =
    (if min (k + g) 8 - k = g then
       let st = st\<lparr>buffer := buffer st OR shl_char v (8 - k - g), output_current_bit := k + g\<rparr>
       in if output_current_bit st = 8
          then st\<lparr>decoded := decoded st @ [buffer st], buffer := 0, output_current_bit := 0\<rparr> else st
     else let n = g - (min (k + g) 8 - k)
       in st\<lparr>buffer := 0 OR shl_char v (8 - n), decoded := decoded st @ [buffer st OR shr_char v n],
             output_current_bit := n\<rparr>)"
    using dict [OF assms(2)] by (simp add: decode_step_def g_def k_def Let_def)
  show ?thesis
  proof (cases "k + g \<le> 8")
    case True
    let ?b = "buffer st OR shl_char v (8 - k - g)"
    note fb = fill_buffer [OF True g(1) k(2) v]
    show ?thesis
    proof (cases "k + g = 8")
      case eight: True
      then have "byte_bits ?b = take k (byte_bits (buffer st)) @ group_bits g v" using fb(1) by simp
      moreover have "min (k + g) 8 - k = g" using eight by simp
      ultimately show ?thesis using eight k by (simp add: d dec_rel_def Let_def g_def [symmetric])
    next
      case False
      moreover have "min (k + g) 8 - k = g" using True by simp
      ultimately show ?thesis using True k fb by (auto simp: d dec_rel_def Let_def g_def [symmetric])
    qed
  next
    case False
    define n where "n = g - (8 - k)"
    note ob = overflow_buffer [OF k(1) _ g(1) k(2) v, folded n_def]
    have n: "n < 8" using g k(1) by (simp add: n_def)
    have c: "\<not> min (k + g) 8 - k = g" "g - (min (k + g) 8 - k) = n" using False g by (auto simp: n_def)
    have eq: "byte_bits (buffer st OR shr_char v n) @ take n (byte_bits (0 OR shl_char v (8 - n)))
      = take k (byte_bits (buffer st)) @ group_bits g v" using ob(1) False by simp
    have low: "\<forall>i < 8 - n. \<not> bit (0 OR shl_char v (8 - n)) i" using ob(2) False by simp
    show ?thesis unfolding d dec_rel_def Let_def c(2) if_not_P [OF c(1)]
      using eq low n k(3) by (simp add: g_def [symmetric])
  qed
qed

lemma decode_chars:
  "dec_rel st bs \<Longrightarrow> list_all (\<lambda>v. v < 2 ^ group_length T) vs \<Longrightarrow>
   dec_rel (fold (decode_step T) (map dict vs) st) (bs @ groups vs)
   \<and> trailing_equal (fold (decode_step T) (map dict vs) st) = trailing_equal st"
proof (induction vs arbitrary: st bs)
  case (Cons v vs)
  then show ?case
    using decode_step_char [of st bs v]
      Cons.IH [of "decode_step T (dict v) st" "bs @ group_bits (group_length T) v"] by simp
qed simp

lemma decode_padding:
  "(decode_step T 61 ^^ e) st = st\<lparr>trailing_equal := trailing_equal st + e\<rparr>"
  by (induction e) (simp_all add: decode_step_def)

theorem decode_encode: "\<exists>s. encode T input = Some (Inr s) \<and> decode T s = input"
proof -
  obtain vs z e where E: "encode T input = Some (Inr (map dict vs @ replicate e 61))"
    "groups vs = bits_of input @ replicate z False" "z < group_length T"
    "list_all (\<lambda>v. v < 2 ^ group_length T) vs" "(z + e * group_length T) mod 8 = 0"
    using encode_correct [of input] by (elim exE conjE)
  define st where "st = fold (decode_step T) (map dict vs) decode_init"
  have "dec_rel decode_init []" by (simp add: dec_rel_def decode_init_def)
  from decode_chars [OF this E(4)] have rel: "dec_rel st (groups vs)" and te: "trailing_equal st = 0"
    by (simp_all add: st_def) (simp add: decode_init_def)
  have b: "bits_of (decoded st) @ take (output_current_bit st) (byte_bits (buffer st))
      = bits_of input @ replicate z False" and o8: "output_current_bit st < 8"
    using rel E(2) by (simp_all add: dec_rel_def)
  have z8: "z < 8" using E(3) group by simp
  have "8 * length (decoded st) + output_current_bit st = 8 * length input + z"
    using arg_cong [OF b, of length] o8 by simp
  then have len: "length (decoded st) = length input" "output_current_bit st = z"
    using o8 z8 by presburger+
  then have dec: "decoded st = input" using bits_of_prefix [OF b] by simp
  have "fold (decode_step T) (map dict vs @ replicate e 61) decode_init = st\<lparr>trailing_equal := e\<rparr>"
    by (simp add: decode_padding st_def [symmetric] te)
  moreover have "(e * group_length T + z) AND 7 = 0"
  proof -
    have "x AND 7 = x mod 8" for x :: nat
      using take_bit_eq_mask [of 3 x] by (simp add: take_bit_eq_mod mask_eq_exp_minus_1)
    then show ?thesis using E(5) by (simp add: add.commute)
  qed
  ultimately have "decode T (map dict vs @ replicate e 61) = input"
    by (simp add: decode_def decode_finish_def Let_def dec len(2))
  with E(1) show ?thesis by blast
qed

end

section \<open>The three codecs\<close>

definition good_dict :: "bytes \<Rightarrow> (byte \<Rightarrow> byte) \<Rightarrow> bool" where
  "good_dict d dec = list_all (\<lambda>(i, c). c \<noteq> 61 \<and> \<not> isspace c \<and> dec c = of_nat i) (enumerate 0 d)"

lemma good_dict_nth: "good_dict d dec \<Longrightarrow> i < length d \<Longrightarrow>
   d ! i \<noteq> 61 \<and> \<not> isspace (d ! i) \<and> dec (d ! i) = of_nat i"
  by (auto simp: good_dict_def list_all_length nth_enumerate_eq)

lemma dictionary_good:
  assumes "good_dict d dec" "length d = 2 ^ g" "g < 7" "v < 2 ^ g"
  shows "\<exists>c. dictionary_at d (scast v) = Inr c \<and> c \<noteq> 61 \<and> \<not> isspace c \<and> dec c = v"
proof -
  have u: "unat v < 2 ^ g" using assms(3,4) by (simp add: word_less_nat_alt unat_exp)
  have "(2 :: nat) ^ g \<le> 2 ^ 6" using assms(3) by (intro power_increasing) simp_all
  then have v: "unat v < 64" using u by simp
  then have "0 \<le> sint v" by (simp add: sint_nonneg_iff)
  then have "sint v = int (unat v)" by (rule sint_nonneg_eq)
  then have "(scast v :: u32) = of_nat (unat v)" unfolding scast_eq by (simp only: of_int_of_nat_eq)
  then have "unat (scast v :: u32) = unat v"
    using v by (simp only: unsigned_of_nat take_bit_eq_mod) simp
  then show ?thesis
    using good_dict_nth [OF assms(1), of "unat v"] u assms(2) by (auto simp: dictionary_at_def)
qed
interpretation b16: conversion b16_conversion_traits
proof (unfold_locales, goal_cases)
  case (3 v)
  have "good_dict (lit ''0123456789abcdef'') b16_decode" by code_simp
  moreover have "length (lit ''0123456789abcdef'') = 2 ^ 4" by (simp add: lit_def)
  ultimately show ?case
    using dictionary_good [of _ b16_decode 4 v] 3
    by (simp add: b16_conversion_traits_def b16_encode_def)
qed (simp_all add: b16_conversion_traits_def)

interpretation b32: conversion b32_conversion_traits
proof (unfold_locales, goal_cases)
  case (3 v)
  have "good_dict (lit ''ABCDEFGHIJKLMNOPQRSTUVWXYZ234567'') b32_decode" by code_simp
  moreover have "length (lit ''ABCDEFGHIJKLMNOPQRSTUVWXYZ234567'') = 2 ^ 5" by (simp add: lit_def)
  ultimately show ?case
    using dictionary_good [of _ b32_decode 5 v] 3
    by (simp add: b32_conversion_traits_def b32_encode_def)
qed (simp_all add: b32_conversion_traits_def)

interpretation b64: conversion b64_conversion_traits
proof (unfold_locales, goal_cases)
  case (3 v)
  have "good_dict (lit ''ABCDEFGHIJKLMNOPQRSTUVWXYZabcdefghijklmnopqrstuvwxyz0123456789+/'') b64_decode" by code_simp
  moreover have "length (lit ''ABCDEFGHIJKLMNOPQRSTUVWXYZabcdefghijklmnopqrstuvwxyz0123456789+/'') = 2 ^ 6" by (simp add: lit_def)
  ultimately show ?case
    using dictionary_good [of _ b64_decode 6 v] 3
    by (simp add: b64_conversion_traits_def b64_encode_def)
qed (simp_all add: b64_conversion_traits_def)

lemma size16:
  "4 * L = 8 * n + z \<Longrightarrow> z < 4 \<Longrightarrow> \<forall>k. (z + k * 4) mod 8 = 0 \<longrightarrow> e \<le> k \<Longrightarrow> L + e = encoded_size16 n"
  by (drule spec [of _ 0]) (simp add: encoded_size16_def, presburger)

lemma size32:
  assumes "5 * L = 8 * n + z" "z < 5" "(z + e * 5) mod 8 = 0" "\<forall>k. (z + k * 5) mod 8 = 0 \<longrightarrow> e \<le> k"
  shows "L + e = encoded_size32 n"
proof -
  consider "z = 0" | "z = 1" | "z = 2" | "z = 3" | "z = 4" using assms(2) by linarith
  then have "(z, e) \<in> {(0, 0), (1, 3), (2, 6), (3, 1), (4, 4)}"
  proof cases
    case 1 then show ?thesis using spec [OF assms(4), of 0] by simp
  next
    case 2 then have "e \<le> 3" using spec [OF assms(4), of 3] by simp
    then show ?thesis using assms(3) 2 by simp presburger
  next
    case 3 then have "e \<le> 6" using spec [OF assms(4), of 6] by simp
    then show ?thesis using assms(3) 3 by simp presburger
  next
    case 4 then have "e \<le> 1" using spec [OF assms(4), of 1] by simp
    then show ?thesis using assms(3) 4 by simp presburger
  next
    case 5 then have "e \<le> 4" using spec [OF assms(4), of 4] by simp
    then show ?thesis using assms(3) 5 by simp presburger
  qed
  moreover define m r where "m = n div 5" and "r = n mod 5"
  then have n: "n = 5 * m + r" "r < 5" by simp_all
  have "8 * m \<le> L" using assms(1) n(1) by linarith
  then obtain K where K: "L = 8 * m + K" using le_Suc_ex by blast
  have K': "5 * K = 8 * r + z" using assms(1) unfolding n(1) K by simp
  have "(n + 4) div 5 = m + (r + 4) div 5" unfolding n(1) by (simp add: add.assoc)
  moreover have "K + e = (r + 4) div 5 * 8"
  proof -
    consider "r = 0" | "r = 1" | "r = 2" | "r = 3" | "r = 4" using n(2) by linarith
    then show ?thesis using calculation(1) K' by cases (auto, presburger+)
  qed
  ultimately show ?thesis unfolding encoded_size32_def K by (simp add: algebra_simps)
qed

lemma size64:
  assumes "6 * L = 8 * n + z" "z < 6" "(z + e * 6) mod 8 = 0" "\<forall>k. (z + k * 6) mod 8 = 0 \<longrightarrow> e \<le> k"
  shows "L + e = encoded_size64 n"
proof -
  have "z mod 2 = 0" using assms(1) by presburger
  then have "z = 0 \<or> z = 2 \<or> z = 4" using assms(2) by presburger
  then consider "z = 0" | "z = 2" | "z = 4" by blast
  then have "(z, e) \<in> {(0, 0), (2, 1), (4, 2)}"
  proof cases
    case 1 then show ?thesis using spec [OF assms(4), of 0] by simp
  next
    case 2 then have "e \<le> 1" using spec [OF assms(4), of 1] by simp
    then show ?thesis using assms(3) 2 by simp presburger
  next
    case 3 then have "e \<le> 2" using spec [OF assms(4), of 2] by simp
    then show ?thesis using assms(3) 3 by simp presburger
  qed
  moreover define m r where "m = n div 3" and "r = n mod 3"
  then have n: "n = 3 * m + r" "r < 3" by simp_all
  have "4 * m \<le> L" using assms(1) n(1) by linarith
  then obtain K where K: "L = 4 * m + K" using le_Suc_ex by blast
  have K': "6 * K = 8 * r + z" using assms(1) unfolding n(1) K by simp
  have "(n + 2) div 3 = m + (r + 2) div 3" unfolding n(1) by (simp add: add.assoc)
  moreover have "K + e = (r + 2) div 3 * 4"
  proof -
    consider "r = 0" | "r = 1" | "r = 2" using n(2) by linarith
    then show ?thesis using calculation(1) K' by cases (auto, presburger+)
  qed
  ultimately show ?thesis unfolding encoded_size64_def K by (simp add: algebra_simps)
qed

section \<open>Properties\<close>

text \<open>
  Claim C22. Base 16, 32 and 64 round trip: encoding any byte string succeeds without a failed assertion
  and decoding the text gives the string back, whatever its length modulo the group.
\<close>

theorem basen_roundtrip:
  "(\<exists>s. encode_b16 v = Some (Inr s) \<and> decode_b16 s = v)
   \<and> (\<exists>s. encode_b32 v = Some (Inr s) \<and> decode_b32 s = v)
   \<and> (\<exists>s. encode_b64 v = Some (Inr s) \<and> decode_b64 s = v)"
  unfolding encode_b16_def encode_b32_def encode_b64_def decode_b16_def decode_b32_def decode_b64_def
  using b16.decode_encode b32.decode_encode b64.decode_encode by blast

text \<open>
  Claim C37. The size functions are exact: the encoded text has the length that
  \<^verbatim>\<open>encoded_size16\<close>, \<^verbatim>\<open>encoded_size32\<close> and \<^verbatim>\<open>encoded_size64\<close> compute, padding included.
\<close>

theorem basen_sizes:
  "(\<exists>s. encode_b16 v = Some (Inr s) \<and> length s = encoded_size16 (length v))
   \<and> (\<exists>s. encode_b32 v = Some (Inr s) \<and> length s = encoded_size32 (length v))
   \<and> (\<exists>s. encode_b64 v = Some (Inr s) \<and> length s = encoded_size64 (length v))"
proof (intro conjI)
  show "\<exists>s. encode_b16 v = Some (Inr s) \<and> length s = encoded_size16 (length v)"
    using b16.encode_length [of v] size16 by (auto simp: encode_b16_def b16_conversion_traits_def)
  show "\<exists>s. encode_b32 v = Some (Inr s) \<and> length s = encoded_size32 (length v)"
    using b32.encode_length [of v] size32 by (auto simp: encode_b32_def b32_conversion_traits_def)
  show "\<exists>s. encode_b64 v = Some (Inr s) \<and> length s = encoded_size64 (length v)"
    using b64.encode_length [of v] size64 by (auto simp: encode_b64_def b64_conversion_traits_def)
qed

end
