(* ===== verification/BaseUint.thy ===== *)
theory BaseUint
  imports BaseN StringFacts
begin

text \<open>
  The class template \<^verbatim>\<open>base_uint<bits>\<close> of \<^verbatim>\<open>src/utils/base_int.h\<close> (its parameter is the argument
  \<open>bits\<close>), its comparison operators and \<^verbatim>\<open>CryptoUint256\<close> of \<^verbatim>\<open>base_int.cpp\<close>. The hash
  \<^verbatim>\<open>Sha256::Crypto\<close> is an argument. The base 16 codec it uses is shown to agree with the hexadecimal
  functions of \<^verbatim>\<open>utils::String\<close>.
\<close>

section \<open>The class\<close>

record base_uint =
  uint_data :: bytes

definition WIDTH :: "nat \<Rightarrow> nat" where
  "WIDTH bits = bits div 8"

definition get_bytes :: "nat \<Rightarrow> base_uint \<Rightarrow> nat" where
  "get_bytes bits this = WIDTH bits"

definition base_uint_zero :: "nat \<Rightarrow> base_uint \<Rightarrow> base_uint" where
  "base_uint_zero bits this =
     (let data = take (WIDTH bits) (uint_data this) @ replicate (WIDTH bits - length (uint_data this)) 0
      in this\<lparr>uint_data := foldl (\<lambda>d i. d[i := 0]) data [0..<WIDTH bits]\<rparr>)"

definition base_uint_init :: "nat \<Rightarrow> bytes \<Rightarrow> base_uint \<Rightarrow> base_uint outcome" where
  "base_uint_init bits input this =
     (if length input = WIDTH bits then Inr (this\<lparr>uint_data := input\<rparr>) else Inl assertion_failed)"

definition FromB16 :: "nat \<Rightarrow> bytes \<Rightarrow> base_uint \<Rightarrow> (bool \<times> base_uint) outcome" where
  "FromB16 bits str this =
     (let strDecode = decode_b16 str
      in if length strDecode \<noteq> WIDTH bits then Inr (False, this)
         else map_sum id (\<lambda>t. (True, t)) (base_uint_init bits strDecode this))"

definition ToB16 :: "base_uint \<Rightarrow> bytes outcome option" where
  "ToB16 this = encode_b16 (uint_data this)"

text \<open>
  \<^verbatim>\<open>ToHex\<close>: the argument of \<^verbatim>\<open>%02X\<close> is a \<^verbatim>\<open>char\<close>, promoted with its sign. Reading past the end of a
  string that is too short is undefined in C++.
\<close>

definition ToHex :: "nat \<Rightarrow> base_uint \<Rightarrow> bytes outcome" where
  "ToHex bits this =
     (if length (uint_data this) < WIDTH bits then Inl undefined_behaviour
      else Inr (foldl (\<lambda>str i. str @ fmt_02 65 (scast (uint_data this ! i))) [] [0..<WIDTH bits]))"

definition At :: "base_uint \<Rightarrow> u32 \<Rightarrow> byte outcome" where
  "At this i =
     (if 0 \<le> sint i \<and> nat (sint i) < length (uint_data this) then Inr (uint_data this ! nat (sint i)) else Inl undefined_behaviour)"

definition GetData :: "base_uint \<Rightarrow> bytes" where
  "GetData this = uint_data this"

definition base_uint_eq :: "base_uint \<Rightarrow> base_uint \<Rightarrow> bool" where
  "base_uint_eq a b \<longleftrightarrow> GetData a = GetData b"

definition base_uint_ne :: "base_uint \<Rightarrow> base_uint \<Rightarrow> bool" where
  "base_uint_ne a b \<longleftrightarrow> \<not> base_uint_eq a b"

definition base_uint_lt :: "base_uint \<Rightarrow> base_uint \<Rightarrow> bool" where
  "base_uint_lt a b =
     (if length (GetData a) < length (GetData b) then True
      else if length (GetData a) > length (GetData b) then False
      else str_less (GetData a) (GetData b))"

definition CryptoUint256 :: "(bytes \<Rightarrow> bytes) \<Rightarrow> bytes \<Rightarrow> base_uint outcome" where
  "CryptoUint256 sha256 input =
     (let str_out = sha256 input; tmp = \<lparr>uint_data = []\<rparr> in base_uint_init 256 str_out tmp)"

section \<open>The two hexadecimal codecs\<close>

lemma group_bits_inject:
  assumes "g < 8" "a < 2 ^ g" "b < 2 ^ g" "group_bits g a = group_bits g b"
  shows "a = b"
proof (rule byte_eq_bits)
  fix i :: nat assume "i < 8"
  show "bit a i = bit b i"
  proof (cases "i < g")
    case True
    then show ?thesis using arg_cong [OF assms(4), of "\<lambda>l. l ! (g - 1 - i)"] by (simp add: nth_group_bits)
  next
    case False
    then show ?thesis using bit_group_high [of a g i] bit_group_high [of b g i] assms by simp
  qed
qed

lemma groups_inject:
  "length vs = length us \<Longrightarrow> list_all (\<lambda>v. v < 2 ^ g) vs \<Longrightarrow> list_all (\<lambda>v. v < 2 ^ g) us \<Longrightarrow> g < 8 \<Longrightarrow>
   concat (map (group_bits g) vs) = concat (map (group_bits g) us) \<Longrightarrow> vs = us"
  by (induction vs us rule: list_induct2) (auto dest: group_bits_inject)

definition nibbles_of :: "bytes \<Rightarrow> bytes" where
  "nibbles_of s = concat (map (\<lambda>b. [drop_bit 4 b, b AND 0x0F]) s)"

lemma bits_nibbles: "byte_bits b = group_bits 4 (drop_bit 4 b) @ group_bits 4 (b AND 0x0F)"
proof (rule nth_equalityI)
  fix i assume "i < length (byte_bits b)"
  then have i: "i < 8" by simp
  have m: "b AND 0x0F = take_bit 4 b" by (simp add: take_bit_eq_mask mask_eq_exp_minus_1)
  show "byte_bits b ! i = (group_bits 4 (drop_bit 4 b) @ group_bits 4 (b AND 0x0F)) ! i"
    using i by (auto simp: m nth_byte_bits nth_group_bits nth_append bit_drop_bit_eq bit_take_bit_iff)
qed simp

lemma bits_of_nibbles: "concat (map (group_bits 4) (nibbles_of s)) = bits_of s"
  by (induction s) (simp_all add: nibbles_of_def bits_nibbles)

lemma nibbles_small: "list_all (\<lambda>v. v < 2 ^ 4) (nibbles_of s)"
  by (induction s) (simp_all add: nibbles_of_def nibble_parts)

lemma b16_dict: "v < 16 \<Longrightarrow> b16.dict v = hex_digit v"
proof -
  assume "v < 16"
  have "(case dictionary_at (lit ''0123456789abcdef'') (scast v) of Inr c \<Rightarrow> c | Inl _ \<Rightarrow> 0) = hex_digit v"
    using _ \<open>v < 16\<close> by (rule nibbles) code_simp
  then show ?thesis
    by (simp add: b16.dict_def) (simp add: b16_conversion_traits_def b16_encode_def)
qed

lemma BinToHexString_nibbles: "BinToHexString s = map hex_digit (nibbles_of s)"
  by (induction s) (simp_all add: nibbles_of_def Let_def)

lemma encode_b16_hex: "encode_b16 s = Some (Inr (BinToHexString s))"
proof -
  have g: "group_length b16_conversion_traits = 4" by (simp add: b16_conversion_traits_def)
  obtain vs z e where E: "encode b16_conversion_traits s = Some (Inr (map b16.dict vs @ replicate e 61))"
    "b16.groups vs = bits_of s @ replicate z False" "z < 4" "list_all (\<lambda>v. v < 2 ^ 4) vs"
    "\<forall>k. (z + k * 4) mod 8 = 0 \<longrightarrow> e \<le> k"
    using b16.encode_correct [of s] unfolding g by (elim exE conjE)
  have "4 * length vs = 8 * length s + z" using arg_cong [OF E(2), of length] by (simp add: g)
  then have z: "z = 0" "length vs = 2 * length s" using E(3) by presburger+
  have e: "e = 0" using E(5) [rule_format, of 0] z by simp
  have "vs = nibbles_of s"
  proof (rule groups_inject [where g = 4])
    show "length vs = length (nibbles_of s)" using z(2) by (induction s) (auto simp: nibbles_of_def length_concat o_def sum_list_triv)
    show "concat (map (group_bits 4) vs) = concat (map (group_bits 4) (nibbles_of s))"
      using E(2) z(1) by (simp add: bits_of_nibbles b16.groups_def g)
  qed (use E(4) nibbles_small in simp_all)
  moreover have "map b16.dict (nibbles_of s) = map hex_digit (nibbles_of s)"
    using nibbles_small [of s] by (intro map_cong) (auto simp: list_all_iff b16_dict)
  ultimately show ?thesis
    using E(1) e by (simp add: encode_b16_def BinToHexString_nibbles)
qed

lemma decode_b16_hex: "decode_b16 (BinToHexString s) = s"
  using b16.decode_encode [of s] encode_b16_hex [of s] by (simp add: encode_b16_def decode_b16_def)

section \<open>The class, continued\<close>

definition base_uint_wf :: "nat \<Rightarrow> base_uint \<Rightarrow> bool" where
  "base_uint_wf bits t \<longleftrightarrow> length (uint_data t) = WIDTH bits"

lemma zero_data: "uint_data (base_uint_zero bits t) = replicate (WIDTH bits) 0"
proof -
  have "n \<le> length d \<Longrightarrow> foldl (\<lambda>d i. d[i := 0]) d [0..<n] = replicate n 0 @ drop n d" for n and d :: bytes
  proof (induction n)
    case (Suc n)
    then have "drop n d = d ! n # drop (Suc n) d" by (simp add: Cons_nth_drop_Suc)
    with Suc show ?case by (simp add: list_update_append replicate_append_same)
  qed simp
  then show ?thesis by (simp add: base_uint_zero_def Let_def)
qed

lemma length_hex_nat: "n < 16 ^ Suc k \<Longrightarrow> k = 0 \<or> 16 ^ k \<le> n \<Longrightarrow> length (hex_nat a n) = Suc k"
proof (induction k arbitrary: n)
  case 0
  then show ?case by (subst hex_nat.simps) (simp add: Let_def)
next
  case (Suc k)
  have "(1 :: nat) \<le> 16 ^ k" by simp
  then have "16 \<le> (16 :: nat) ^ Suc k" by simp
  then have n: "\<not> n < 16" using Suc.prems(2) by linarith
  have "n div 16 < 16 ^ Suc k" using Suc.prems(1) by (simp add: less_mult_imp_div_less mult.commute)
  moreover have "16 ^ k \<le> n div 16" using Suc.prems(2) by (simp add: less_eq_div_iff_mult_less_eq mult.commute)
  ultimately have "length (hex_nat a (n div 16)) = Suc k" by (intro Suc.IH) simp_all
  with n show ?case by (subst hex_nat.simps) (simp add: Let_def)
qed

lemma uint_scast_char: "uint (scast (c :: byte) :: u32) = sint c mod 2 ^ 32"
  unfolding scast_eq by (simp only: unsigned_of_int take_bit_eq_mod) simp

lemma unat_scast_char:
  "unat (scast (c :: byte) :: u32) = (if unat c < 128 then unat c else 2 ^ 32 - 256 + unat c)"
proof -
  have c: "0 \<le> uint c" "uint c < 256" using uint_lt2p [of c] by simp_all
  have n: "unat c = nat (uint c)" "unat (scast c :: u32) = nat (uint (scast c :: u32))" by simp_all
  show ?thesis
  proof (cases "uint c < 128")
    case True
    then have "sint c mod 2 ^ 32 = uint c" using c unfolding sint_byte by simp
    moreover have "nat (uint c) < 128" using True c by linarith
    ultimately show ?thesis unfolding n uint_scast_char by (simp only: if_True)
  next
    case False
    have "sint c mod 2 ^ 32 = (uint c - 256 + 2 ^ 32) mod 2 ^ 32"
      using False unfolding sint_byte by (simp only: if_False mod_add_self2)
    also have "\<dots> = uint c - 256 + 2 ^ 32" using c False by (intro mod_pos_pos_trivial) simp_all
    finally have e: "sint c mod 2 ^ 32 = uint c - 256 + 2 ^ 32" .
    have "uint c - 256 + 2 ^ 32 = 4294967040 + uint c" "(2 ^ 32 - 256 :: nat) = 4294967040" by simp_all
    then have "\<not> nat (uint c) < 128" "nat (uint c - 256 + 2 ^ 32) = 2 ^ 32 - 256 + nat (uint c)"
      using False c by linarith+
    then show ?thesis unfolding n uint_scast_char e by (simp only: if_False)
  qed
qed

lemma length_fmt_02_char: "length (fmt_02 65 (scast (c :: byte))) = (if unat c < 128 then 2 else 8)"
proof -
  have c: "unat c < 256" using unsigned_less [of c] by simp
  show ?thesis
  proof (cases "unat c < 128")
    case True
    have "length (hex_nat 65 (unat c)) = 1 \<or> length (hex_nat 65 (unat c)) = 2"
      using length_hex_nat [of "unat c" 0 65] length_hex_nat [of "unat c" 1 65] c
      by (cases "unat c < 16") simp_all
    with True show ?thesis by (auto simp: fmt_02_def unat_scast_char Let_def)
  next
    case False
    have "length (hex_nat 65 (2 ^ 32 - 256 + unat c)) = Suc 7"
      using c by (intro length_hex_nat) simp_all
    with False show ?thesis by (simp add: fmt_02_def unat_scast_char Let_def)
  qed
qed

lemma ToHex_length:
  assumes "base_uint_wf bits t"
  shows "\<exists>s. ToHex bits t = Inr s
    \<and> length s = 2 * WIDTH bits + 6 * length (filter (\<lambda>c. 128 \<le> unat c) (uint_data t))"
proof -
  let ?d = "uint_data t"
  have "n \<le> length ?d \<Longrightarrow> length (foldl (\<lambda>str i. str @ fmt_02 65 (scast (?d ! i))) [] [0..<n])
    = 2 * n + 6 * length (filter (\<lambda>c. 128 \<le> unat c) (take n ?d))" for n
    by (induction n) (auto simp: length_fmt_02_char take_Suc_conv_app_nth)
  from this [of "length ?d"] assms show ?thesis by (simp add: ToHex_def base_uint_wf_def)
qed

section \<open>Properties\<close>

text \<open>
  The base 16 codec and the hexadecimal functions of \<^verbatim>\<open>utils::String\<close> are the same functions on
  byte strings: \<^verbatim>\<open>encode_b16\<close> gives the text of \<^verbatim>\<open>BinToHexString\<close>, and \<^verbatim>\<open>decode_b16\<close> and
  \<^verbatim>\<open>HexStringToBin\<close> read it back to the same bytes.
\<close>

theorem hex_codecs_agree:
  "encode_b16 s = Some (Inr (BinToHexString s))
   \<and> decode_b16 (BinToHexString s) = HexStringToBin (BinToHexString s) force"
  by (simp add: encode_b16_hex decode_b16_hex HexStringToBin_BinToHexString)

text \<open>
  Claim C38. A \<^verbatim>\<open>base_uint\<close> of the right width survives \<^verbatim>\<open>ToB16\<close> and \<^verbatim>\<open>FromB16\<close>, which accepts the text into any
  object; \<^verbatim>\<open>ToHex\<close> on the other hand prints each byte from 128 on with eight digits instead of two, because
  the character is promoted with its sign.
\<close>

theorem base_uint_text:
  assumes "base_uint_wf bits t"
  shows "(\<exists>s. ToB16 t = Some (Inr s) \<and> FromB16 bits s u = Inr (True, u\<lparr>uint_data := uint_data t\<rparr>))
    \<and> (\<exists>s. ToHex bits t = Inr s
         \<and> length s = 2 * WIDTH bits + 6 * length (filter (\<lambda>c. 128 \<le> unat c) (uint_data t)))"
  using assms ToHex_length [OF assms]
  by (simp add: ToB16_def FromB16_def encode_b16_hex decode_b16_hex base_uint_init_def base_uint_wf_def)

theorem base_uint_text_witness:
  "base_uint_wf 32 \<lparr>uint_data = [1, 127, 128, 255]\<rparr>
   \<and> (\<exists>s. ToHex 32 \<lparr>uint_data = [1, 127, 128, 255]\<rparr> = Inr s \<and> length s = 20)"
  using base_uint_text [of 32 "\<lparr>uint_data = [1, 127, 128, 255]\<rparr>" undefined]
  by (simp add: base_uint_wf_def WIDTH_def)

end
