(* ===== verification/Crc.thy ===== *)
theory Crc
  imports Prelude
begin

text \<open>
  The cyclic redundancy checks of \<^verbatim>\<open>src/utils/crypto.cpp\<close>: the table driven \<^verbatim>\<open>Get_Crc16\<close>, the bitwise
  \<^verbatim>\<open>Crc8\<close> and \<^verbatim>\<open>Crc16\<close>. A pointer with a 16 bit length is the list of the bytes read through it. The
  bitwise step is linear over exclusive or; from this follow the equivalence of the two 16 bit checks
  (up to the order of the two result bytes) and that \<^verbatim>\<open>Crc8\<close> detects every change of a single byte.
\<close>

section \<open>The functions\<close>

definition auchCRCHi :: "byte list" where
  "auchCRCHi = [
    0x00, 0xC1, 0x81, 0x40, 0x01, 0xC0, 0x80, 0x41, 0x01, 0xC0, 0x80, 0x41, 0x00, 0xC1, 0x81, 0x40,
    0x01, 0xC0, 0x80, 0x41, 0x00, 0xC1, 0x81, 0x40, 0x00, 0xC1, 0x81, 0x40, 0x01, 0xC0, 0x80, 0x41,
    0x01, 0xC0, 0x80, 0x41, 0x00, 0xC1, 0x81, 0x40, 0x00, 0xC1, 0x81, 0x40, 0x01, 0xC0, 0x80, 0x41,
    0x00, 0xC1, 0x81, 0x40, 0x01, 0xC0, 0x80, 0x41, 0x01, 0xC0, 0x80, 0x41, 0x00, 0xC1, 0x81, 0x40,
    0x01, 0xC0, 0x80, 0x41, 0x00, 0xC1, 0x81, 0x40, 0x00, 0xC1, 0x81, 0x40, 0x01, 0xC0, 0x80, 0x41,
    0x00, 0xC1, 0x81, 0x40, 0x01, 0xC0, 0x80, 0x41, 0x01, 0xC0, 0x80, 0x41, 0x00, 0xC1, 0x81, 0x40,
    0x00, 0xC1, 0x81, 0x40, 0x01, 0xC0, 0x80, 0x41, 0x01, 0xC0, 0x80, 0x41, 0x00, 0xC1, 0x81, 0x40,
    0x01, 0xC0, 0x80, 0x41, 0x00, 0xC1, 0x81, 0x40, 0x00, 0xC1, 0x81, 0x40, 0x01, 0xC0, 0x80, 0x41,
    0x01, 0xC0, 0x80, 0x41, 0x00, 0xC1, 0x81, 0x40, 0x00, 0xC1, 0x81, 0x40, 0x01, 0xC0, 0x80, 0x41,
    0x00, 0xC1, 0x81, 0x40, 0x01, 0xC0, 0x80, 0x41, 0x01, 0xC0, 0x80, 0x41, 0x00, 0xC1, 0x81, 0x40,
    0x00, 0xC1, 0x81, 0x40, 0x01, 0xC0, 0x80, 0x41, 0x01, 0xC0, 0x80, 0x41, 0x00, 0xC1, 0x81, 0x40,
    0x01, 0xC0, 0x80, 0x41, 0x00, 0xC1, 0x81, 0x40, 0x00, 0xC1, 0x81, 0x40, 0x01, 0xC0, 0x80, 0x41,
    0x00, 0xC1, 0x81, 0x40, 0x01, 0xC0, 0x80, 0x41, 0x01, 0xC0, 0x80, 0x41, 0x00, 0xC1, 0x81, 0x40,
    0x01, 0xC0, 0x80, 0x41, 0x00, 0xC1, 0x81, 0x40, 0x00, 0xC1, 0x81, 0x40, 0x01, 0xC0, 0x80, 0x41,
    0x01, 0xC0, 0x80, 0x41, 0x00, 0xC1, 0x81, 0x40, 0x00, 0xC1, 0x81, 0x40, 0x01, 0xC0, 0x80, 0x41,
    0x00, 0xC1, 0x81, 0x40, 0x01, 0xC0, 0x80, 0x41, 0x01, 0xC0, 0x80, 0x41, 0x00, 0xC1, 0x81, 0x40]"

definition auchCRCLo :: "byte list" where
  "auchCRCLo = [
    0x00, 0xC0, 0xC1, 0x01, 0xC3, 0x03, 0x02, 0xC2, 0xC6, 0x06, 0x07, 0xC7, 0x05, 0xC5, 0xC4, 0x04,
    0xCC, 0x0C, 0x0D, 0xCD, 0x0F, 0xCF, 0xCE, 0x0E, 0x0A, 0xCA, 0xCB, 0x0B, 0xC9, 0x09, 0x08, 0xC8,
    0xD8, 0x18, 0x19, 0xD9, 0x1B, 0xDB, 0xDA, 0x1A, 0x1E, 0xDE, 0xDF, 0x1F, 0xDD, 0x1D, 0x1C, 0xDC,
    0x14, 0xD4, 0xD5, 0x15, 0xD7, 0x17, 0x16, 0xD6, 0xD2, 0x12, 0x13, 0xD3, 0x11, 0xD1, 0xD0, 0x10,
    0xF0, 0x30, 0x31, 0xF1, 0x33, 0xF3, 0xF2, 0x32, 0x36, 0xF6, 0xF7, 0x37, 0xF5, 0x35, 0x34, 0xF4,
    0x3C, 0xFC, 0xFD, 0x3D, 0xFF, 0x3F, 0x3E, 0xFE, 0xFA, 0x3A, 0x3B, 0xFB, 0x39, 0xF9, 0xF8, 0x38,
    0x28, 0xE8, 0xE9, 0x29, 0xEB, 0x2B, 0x2A, 0xEA, 0xEE, 0x2E, 0x2F, 0xEF, 0x2D, 0xED, 0xEC, 0x2C,
    0xE4, 0x24, 0x25, 0xE5, 0x27, 0xE7, 0xE6, 0x26, 0x22, 0xE2, 0xE3, 0x23, 0xE1, 0x21, 0x20, 0xE0,
    0xA0, 0x60, 0x61, 0xA1, 0x63, 0xA3, 0xA2, 0x62, 0x66, 0xA6, 0xA7, 0x67, 0xA5, 0x65, 0x64, 0xA4,
    0x6C, 0xAC, 0xAD, 0x6D, 0xAF, 0x6F, 0x6E, 0xAE, 0xAA, 0x6A, 0x6B, 0xAB, 0x69, 0xA9, 0xA8, 0x68,
    0x78, 0xB8, 0xB9, 0x79, 0xBB, 0x7B, 0x7A, 0xBA, 0xBE, 0x7E, 0x7F, 0xBF, 0x7D, 0xBD, 0xBC, 0x7C,
    0xB4, 0x74, 0x75, 0xB5, 0x77, 0xB7, 0xB6, 0x76, 0x72, 0xB2, 0xB3, 0x73, 0xB1, 0x71, 0x70, 0xB0,
    0x50, 0x90, 0x91, 0x51, 0x93, 0x53, 0x52, 0x92, 0x96, 0x56, 0x57, 0x97, 0x55, 0x95, 0x94, 0x54,
    0x9C, 0x5C, 0x5D, 0x9D, 0x5F, 0x9F, 0x9E, 0x5E, 0x5A, 0x9A, 0x9B, 0x5B, 0x99, 0x59, 0x58, 0x98,
    0x88, 0x48, 0x49, 0x89, 0x4B, 0x8B, 0x8A, 0x4A, 0x4E, 0x8E, 0x8F, 0x4F, 0x8D, 0x4D, 0x4C, 0x8C,
    0x44, 0x84, 0x85, 0x45, 0x87, 0x47, 0x46, 0x86, 0x82, 0x42, 0x43, 0x83, 0x41, 0x81, 0x80, 0x40]"

fun crc16_table_loop :: "byte \<Rightarrow> byte \<Rightarrow> bytes \<Rightarrow> byte \<times> byte" where
  "crc16_table_loop uchCRCHi uchCRCLo [] = (uchCRCHi, uchCRCLo)"
| "crc16_table_loop uchCRCHi uchCRCLo (m # puchMsg) =
     (let uIndex = unat (uchCRCHi XOR m)
      in crc16_table_loop (uchCRCLo XOR auchCRCHi ! uIndex) (auchCRCLo ! uIndex) puchMsg)"

definition Get_Crc16 :: "bytes \<Rightarrow> u16 \<Rightarrow> u16" where
  "Get_Crc16 puchMsg usDataLen =
     (let (uchCRCHi, uchCRCLo) = crc16_table_loop 0xFF 0xFF (take (unat usDataLen) puchMsg)
      in push_bit 8 (ucast uchCRCHi) OR ucast uchCRCLo)"

definition crc8_bit :: "byte \<Rightarrow> byte" where
  "crc8_bit crc = (if crc AND 0x01 \<noteq> 0 then drop_bit 1 crc XOR 0x8C else drop_bit 1 crc)"

fun crc8_loop :: "byte \<Rightarrow> bytes \<Rightarrow> byte" where
  "crc8_loop crc [] = crc"
| "crc8_loop crc (b # ptr) = crc8_loop ((crc8_bit ^^ 8) (crc XOR b)) ptr"

definition Crc8_ptr :: "bytes \<Rightarrow> u16 \<Rightarrow> byte" where
  "Crc8_ptr ptr len = crc8_loop 0 (take (unat len) ptr)"

text \<open>The length of the string is converted to \<^verbatim>\<open>uint16_t\<close>.\<close>

definition Crc8 :: "bytes \<Rightarrow> byte" where
  "Crc8 data = Crc8_ptr data (of_nat (length data))"

text \<open>One pass of the inner loop of \<^verbatim>\<open>Crc16\<close> on \<^verbatim>\<open>(CRC16Lo, CRC16Hi)\<close>.\<close>

definition crc16_bit :: "byte \<times> byte \<Rightarrow> byte \<times> byte" where
  "crc16_bit st =
     (let (SaveLo, SaveHi) = st;
          Hi = drop_bit 1 SaveHi;
          Lo = drop_bit 1 SaveLo;
          Lo = (if SaveHi AND 0x01 = 0x01 then Lo OR 0x80 else Lo)
      in if SaveLo AND 0x01 = 0x01 then (Lo XOR 0x01, Hi XOR 0xA0) else (Lo, Hi))"

fun crc16_loop :: "byte \<times> byte \<Rightarrow> bytes \<Rightarrow> byte \<times> byte" where
  "crc16_loop st [] = st"
| "crc16_loop (Lo, Hi) (b # pdata) = crc16_loop ((crc16_bit ^^ 8) (Lo XOR b, Hi)) pdata"

definition Crc16 :: "bytes \<Rightarrow> u16 \<Rightarrow> u16" where
  "Crc16 pdata datalen =
     (let (CRC16Lo, CRC16Hi) = crc16_loop (0xFF, 0xFF) (take (unat datalen) pdata)
      in push_bit 8 (ucast CRC16Hi) OR ucast CRC16Lo)"

section \<open>Linearity\<close>

lemma and_one_bit: "(w :: byte) AND 1 = of_bool (bit w 0)"
proof (rule bit_word_eqI)
  fix n show "bit (w AND 1) n = bit (of_bool (bit w 0) :: byte) n"
    by (cases "n = 0") (auto simp: bit_and_iff bit_1_iff)
qed

lemma xor_zero_eq: "a XOR b = 0 \<Longrightarrow> a = (b :: 'a :: len word)"
  by (rule bit_word_eqI) (metis bit_0_eq bit_xor_iff bot_apply bot_bool_def)

lemma bit_crc8_bit: "bit (crc8_bit w) i \<longleftrightarrow> (bit w (Suc i) \<noteq> (bit w 0 \<and> bit (0x8C :: byte) i))"
  by (auto simp: crc8_bit_def and_one_bit bit_xor_iff bit_drop_bit_eq)

lemma crc8_bit_xor: "crc8_bit (a XOR b) = crc8_bit a XOR crc8_bit b"
  by (rule bit_word_eqI) (auto simp: bit_crc8_bit bit_xor_iff)

lemma crc8_bits_xor: "(crc8_bit ^^ n) (a XOR b) = (crc8_bit ^^ n) a XOR (crc8_bit ^^ n) b"
  by (induction n) (simp_all add: crc8_bit_xor)

lemma crc8_bits_zero: "(crc8_bit ^^ n) 0 = 0"
  by (induction n) (simp_all add: crc8_bit_def)

lemma crc8_bit_inj: "crc8_bit w = 0 \<Longrightarrow> w = 0"
proof -
  assume z: "crc8_bit w = 0"
  have s: "bit w (Suc i) = (bit w 0 \<and> bit (0x8C :: byte) i)" for i
    using bit_crc8_bit [of w i] z by auto
  have "\<not> bit w 8" by (auto dest: bit_imp_le_length)
  then have "\<not> bit w 0" using s [of 7] by simp
  then have "\<not> bit w i" for i using s [of "i - 1"] by (cases i) auto
  then show "w = 0" by (intro bit_word_eqI) simp
qed

lemma crc8_bits_inj: "(crc8_bit ^^ n) w = 0 \<Longrightarrow> w = 0"
  by (induction n) (auto dest: crc8_bit_inj)

lemma crc8_loop_xor:
  "length s = length t \<Longrightarrow>
   crc8_loop (a XOR b) (map2 (\<lambda>x y. x XOR y) s t) = crc8_loop a s XOR crc8_loop b t"
proof (induction s t arbitrary: a b rule: list_induct2)
  case (Cons x s y t)
  have "(a XOR b) XOR (x XOR y) = (a XOR x) XOR (b XOR y)" by (simp add: ac_simps)
  with Cons show ?case by (simp add: crc8_bits_xor)
qed simp

lemma crc8_loop_zeros: "crc8_loop 0 (replicate n 0) = 0"
  by (induction n) (simp_all add: crc8_bits_zero)

lemma crc8_loop_zeros_inj: "crc8_loop a (replicate n 0) = 0 \<Longrightarrow> a = 0"
  by (induction n arbitrary: a) (auto dest: crc8_bits_inj)

lemma crc8_loop_append: "crc8_loop a (s @ t) = crc8_loop (crc8_loop a s) t"
  by (induction s arbitrary: a) simp_all

lemma crc8_loop_inj: "crc8_loop a s = crc8_loop b s \<Longrightarrow> a = b"
proof -
  assume e: "crc8_loop a s = crc8_loop b s"
  have "map2 (\<lambda>x y. x XOR y) s s = replicate (length s) 0" by (induction s) simp_all
  then have "crc8_loop (a XOR b) (replicate (length s) 0) = 0"
    using crc8_loop_xor [of s s a b] e by simp
  then have "a XOR b = 0" by (rule crc8_loop_zeros_inj)
  then show "a = b" by (rule xor_zero_eq)
qed

lemma crc8_loop_one:
  assumes "x \<noteq> y"
  shows "crc8_loop a (s @ x # t) \<noteq> crc8_loop a (s @ y # t)"
proof
  let ?c = "crc8_loop a s"
  assume "crc8_loop a (s @ x # t) = crc8_loop a (s @ y # t)"
  then have "(crc8_bit ^^ 8) (?c XOR x) = (crc8_bit ^^ 8) (?c XOR y)"
    by (auto simp: crc8_loop_append dest: crc8_loop_inj)
  then have "(crc8_bit ^^ 8) ((?c XOR x) XOR (?c XOR y)) = 0" by (simp only: crc8_bits_xor xor_self_eq)
  then have "(?c XOR x) XOR (?c XOR y) = 0" by (rule crc8_bits_inj)
  moreover have "(?c XOR x) XOR (?c XOR y) = x XOR y" by (simp add: xor.left_commute flip: xor.assoc)
  ultimately have "x XOR y = 0" by simp
  with assms show False by (auto dest: xor_zero_eq)
qed

section \<open>The sixteen bit checks\<close>

lemma bit_crc16_bit:
  "bit (fst (crc16_bit (lo, hi))) i \<longleftrightarrow>
     ((i < 7 \<and> bit lo (Suc i) \<or> i = 7 \<and> bit hi 0) \<noteq> (bit lo 0 \<and> i = 0))"
  "bit (snd (crc16_bit (lo, hi))) i \<longleftrightarrow> (bit hi (Suc i) \<noteq> (bit lo 0 \<and> bit (0xA0 :: byte) i))"
proof -
  have "(0x80 :: byte) = 2 ^ 7" by simp
  then have b80: "bit (0x80 :: byte) i \<longleftrightarrow> i = 7" by (simp only: bit_exp_iff) auto
  have b1: "bit (1 :: byte) i \<longleftrightarrow> i = 0" by (auto simp: bit_1_iff)
  have l7: "bit lo (Suc i) \<Longrightarrow> i < 7" by (auto dest: bit_imp_le_length)
  show "bit (fst (crc16_bit (lo, hi))) i \<longleftrightarrow>
     ((i < 7 \<and> bit lo (Suc i) \<or> i = 7 \<and> bit hi 0) \<noteq> (bit lo 0 \<and> i = 0))"
    using l7 by (auto simp: crc16_bit_def Let_def and_one_bit bit_xor_iff bit_or_iff bit_drop_bit_eq b80 b1
        simp del: bit_numeral_word_iff)
  show "bit (snd (crc16_bit (lo, hi))) i \<longleftrightarrow> (bit hi (Suc i) \<noteq> (bit lo 0 \<and> bit (0xA0 :: byte) i))"
    by (auto simp: crc16_bit_def Let_def and_one_bit bit_xor_iff bit_drop_bit_eq)
qed

definition pair_xor :: "byte \<times> byte \<Rightarrow> byte \<times> byte \<Rightarrow> byte \<times> byte" where
  "pair_xor p q = (fst p XOR fst q, snd p XOR snd q)"

lemma crc16_bit_xor: "crc16_bit (pair_xor p q) = pair_xor (crc16_bit p) (crc16_bit q)"
proof -
  obtain a b c d where pq: "p = (a, b)" "q = (c, d)" by fastforce
  show ?thesis unfolding pq
    by (intro prod_eqI bit_word_eqI; auto simp: pair_xor_def bit_crc16_bit bit_xor_iff)
qed

lemma crc16_bits_xor: "(crc16_bit ^^ n) (pair_xor p q) = pair_xor ((crc16_bit ^^ n) p) ((crc16_bit ^^ n) q)"
  by (induction n) (simp_all add: crc16_bit_xor)

lemma crc16_high: "n \<le> 8 \<Longrightarrow> (crc16_bit ^^ n) (0, hi) = (push_bit (8 - n) hi, drop_bit n hi)"
proof (induction n)
  case 0
  then show ?case by (intro prod_eqI bit_word_eqI) (auto simp: bit_push_bit_iff)
next
  case (Suc n)
  define k where "k = 7 - n"
  have k: "8 - n = Suc k" "8 - Suc n = k" "n = 7 - k" "k \<le> 7" using Suc.prems by (auto simp: k_def)
  have "crc16_bit (push_bit (Suc k) hi, drop_bit (7 - k) hi) = (push_bit k hi, drop_bit (Suc (7 - k)) hi)"
  proof (intro prod_eqI bit_word_eqI; simp only: fst_conv snd_conv)
    fix i :: nat
    assume "i < LENGTH(8)"
    then have i: "i < 8" by simp
    show "bit (fst (crc16_bit (push_bit (Suc k) hi, drop_bit (7 - k) hi))) i = bit (push_bit k hi) i"
      using i k(4)
      by (cases "i = 7") (auto simp: bit_crc16_bit bit_push_bit_iff bit_drop_bit_eq simp del: push_bit_Suc)
    show "bit (snd (crc16_bit (push_bit (Suc k) hi, drop_bit (7 - k) hi))) i = bit (drop_bit (Suc (7 - k)) hi) i"
      by (auto simp: bit_crc16_bit bit_push_bit_iff bit_drop_bit_eq simp del: push_bit_Suc)
  qed
  with Suc.IH Suc.prems show ?case unfolding k(3) [symmetric] k(1,2) by simp
qed

lemma crc16_table:
  "list_all (\<lambda>(u, h, l). (crc16_bit ^^ 8) (u, 0) = (h, l))
     (zip (map of_nat [0..<256]) (zip auchCRCHi auchCRCLo))"
  by code_simp

lemma crc16_table_byte: "(crc16_bit ^^ 8) (u, hi) = (hi XOR auchCRCHi ! unat u, auchCRCLo ! unat u)"
proof -
  have len: "length auchCRCHi = 256" "length auchCRCLo = 256" by (simp_all add: auchCRCHi_def auchCRCLo_def)
  have u: "unat u < 256" using unsigned_less [of u] by simp
  have "(crc16_bit ^^ 8) (u, 0) = (auchCRCHi ! unat u, auchCRCLo ! unat u)"
    using crc16_table [unfolded list_all_length, rule_format, of "unat u"] u by (simp add: len)
  moreover have "(u, hi) = pair_xor (u, 0) (0, hi)" by (simp add: pair_xor_def)
  moreover have "(crc16_bit ^^ 8) (0, hi) = (hi, 0)"
  proof -
    have "drop_bit 8 hi = 0" by (rule bit_word_eqI) (auto simp: bit_drop_bit_eq dest: bit_imp_le_length)
    then show ?thesis using crc16_high [of 8 hi] by simp
  qed
  ultimately show ?thesis by (simp only: crc16_bits_xor) (simp add: pair_xor_def xor.commute)
qed

lemma crc16_loop_table:
  "crc16_loop (lo, hi) s = (let (h, l) = crc16_table_loop lo hi s in (h, l))"
  by (induction s arbitrary: lo hi) (simp_all add: crc16_table_byte Let_def)

section \<open>Properties\<close>

text \<open>
  Claim C31. The two 16 bit checks are equivalent: the table driven \<^verbatim>\<open>Get_Crc16\<close> computes on every message
  the value of the bitwise \<^verbatim>\<open>Crc16\<close> with its two bytes exchanged.
\<close>

theorem crc16_table_equivalence:
  "Get_Crc16 msg len = word_rotl 8 (Crc16 msg len)"
proof -
  obtain h l where hl: "crc16_table_loop 0xFF 0xFF (take (unat len) msg) = (h, l)" by fastforce
  have "word_rotl 8 (push_bit 8 (ucast l) OR ucast h :: u16) = push_bit 8 (ucast h) OR ucast l"
  proof (rule bit_word_eqI)
    fix n :: nat
    assume "n < LENGTH(16)"
    then have n: "n < 16" by simp
    have "(n + 8) mod 16 = (if n < 8 then n + 8 else n - 8)" using n by (auto simp: mod_if)
    then show "bit (word_rotl 8 (push_bit 8 (ucast l) OR ucast h :: u16)) n
        = bit (push_bit 8 (ucast h) OR ucast l :: u16) n"
      using n by (auto simp: bit_word_rotl_iff bit_or_iff bit_push_bit_iff bit_ucast_iff dest: bit_imp_le_length)
  qed
  then show ?thesis by (simp add: Get_Crc16_def Crc16_def crc16_loop_table hl)
qed

text \<open>
  \<^verbatim>\<open>Crc8\<close> of a string of less than 65536 bytes detects every change of one byte; the length is
  converted to 16 bits, so that all strings of 65536 bytes have the check 0.
\<close>

theorem Crc8_detects_byte_change:
  "(length s + length t + 1 < 65536 \<and> x \<noteq> y \<longrightarrow> Crc8 (s @ x # t) \<noteq> Crc8 (s @ y # t))
   \<and> (length u = 65536 \<longrightarrow> Crc8 u = 0)"
proof -
  have "unat (of_nat n :: u16) = n mod 65536" for n
    by (simp add: unsigned_of_nat take_bit_eq_mod)
  then have len: "Crc8 d = crc8_loop 0 (take (length d mod 65536) d)" for d
    by (simp add: Crc8_def Crc8_ptr_def)
  show ?thesis using crc8_loop_one [of x y 0 s t] by (simp add: len)
qed

theorem Crc8_detects_byte_change_witness:
  "Crc8 [1, 2, 3] \<noteq> Crc8 [1, 7, 3] \<and> Crc8 (replicate 65536 9) = 0"
  using Crc8_detects_byte_change [of "[1]" "[3]" 2 7 "replicate 65536 9"] by simp

end
