(* ===== verification/Base58.thy ===== *)
theory Base58
  imports Complex_Main Prelude
begin

text \<open>
  \<^verbatim>\<open>Base58::Encode\<close> and \<^verbatim>\<open>Base58::Decode\<close> of \<^verbatim>\<open>src/utils/crypto.cpp\<close>: both multiply a digit vector by one
  base and divide it with carries by the other. The number of bytes \<^verbatim>\<open>Decode\<close> reserves is computed in
  floating point: the rounding to a \<^verbatim>\<open>double\<close> and the value of \<^verbatim>\<open>log2(58.0)\<close> are arguments, of which bounds on
  the relative error are assumed. That this many bytes hold the number is proved from them. The interface \<open>digit_vector\<close> states what one pass over a digit vector
  does to its value; it is interpreted on the passes of both functions.
\<close>

section \<open>The functions\<close>

definition kBase58Dictionary :: bytes where
  "kBase58Dictionary = lit ''123456789AbCDEFGHJKLMNPQRSTuVWXYZaBcdefghijkmnopqrstUvwxyz''"

text \<open>The table of \<^verbatim>\<open>int8_t\<close>, its entry -1 written as the byte 0xFF.\<close>

definition kBase58digits :: "byte list" where
  "kBase58digits = [
    0xFF, 0xFF, 0xFF, 0xFF, 0xFF, 0xFF, 0xFF, 0xFF, 0xFF, 0xFF, 0xFF, 0xFF, 0xFF, 0xFF, 0xFF, 0xFF,
    0xFF, 0xFF, 0xFF, 0xFF, 0xFF, 0xFF, 0xFF, 0xFF, 0xFF, 0xFF, 0xFF, 0xFF, 0xFF, 0xFF, 0xFF, 0xFF,
    0xFF, 0xFF, 0xFF, 0xFF, 0xFF, 0xFF, 0xFF, 0xFF, 0xFF, 0xFF, 0xFF, 0xFF, 0xFF, 0xFF, 0xFF, 0xFF,
    0xFF, 0, 1, 2, 3, 4, 5, 6, 7, 8, 0xFF, 0xFF, 0xFF, 0xFF, 0xFF, 0xFF,
    0xFF, 9, 34, 11, 12, 13, 14, 15, 16, 0xFF, 17, 18, 19, 20, 21, 0xFF,
    22, 23, 24, 25, 26, 52, 28, 29, 30, 31, 32, 0xFF, 0xFF, 0xFF, 0xFF, 0xFF,
    0xFF, 33, 10, 35, 36, 37, 38, 39, 40, 41, 42, 43, 0xFF, 44, 45, 46,
    47, 48, 49, 50, 51, 27, 53, 54, 55, 56, 57, 0xFF, 0xFF, 0xFF, 0xFF, 0xFF]"

text \<open>
  One pass of the inner loops, from the last element of the vector to the first (the list is the
  reversed vector): multiply by the other base, add the carry, keep the remainder. The last carry is
  dropped.
\<close>

fun encode_pass :: "nat \<Rightarrow> byte list \<Rightarrow> byte list" where
  "encode_pass carry [] = []"
| "encode_pass carry (it # rest) =
     (let carry = carry + 256 * unat it in of_nat (carry mod 58) # encode_pass (carry div 58) rest)"

fun decode_pass :: "nat \<Rightarrow> byte list \<Rightarrow> byte list" where
  "decode_pass carry [] = []"
| "decode_pass carry (tmp_j # rest) =
     (let tmp = unat tmp_j * 58 + carry in of_nat (tmp mod 256) # decode_pass (tmp div 256) rest)"

text \<open>
  The first loop of \<^verbatim>\<open>Encode\<close> returns \<^verbatim>\<open>zeros\<close> and \<^verbatim>\<open>first_no_zero\<close>, which is the index of the last leading
  zero (or 0).
\<close>

fun count_zeros :: "bytes \<Rightarrow> nat \<Rightarrow> nat \<Rightarrow> nat \<Rightarrow> nat \<times> nat" where
  "count_zeros [] i zeros first_no_zero = (zeros, first_no_zero)"
| "count_zeros (c # s) i zeros first_no_zero =
     (if c = 0 then count_zeros s (i + 1) (zeros + 1) i else (zeros, first_no_zero))"

definition Encode :: "bytes \<Rightarrow> bytes" where
  "Encode str_in =
     (let (zeros, first_no_zero) = count_zeros str_in 0 0 0;
          b58 = replicate (length str_in * 138 div 100 + 1) 0;
          b58 = foldl (\<lambda>b58 c. rev (encode_pass (unat c) (rev b58))) b58 (drop first_no_zero str_in);
          it = dropWhile (\<lambda>d. d = 0) b58
      in replicate zeros 49 @ map (\<lambda>d. kBase58Dictionary ! unat d) it)"

text \<open>
  The index of \<^verbatim>\<open>kBase58digits\<close> is a \<^verbatim>\<open>char\<close>: a negative one reads outside of the table, which is
  undefined in C++.
\<close>

definition base58_digit :: "byte \<Rightarrow> nat outcome" where
  "base58_digit c = (if unat c < 128 then Inr (unat (kBase58digits ! unat c)) else Inl undefined_behaviour)"

fun decode_loop :: "bytes \<Rightarrow> byte list \<Rightarrow> byte list outcome" where
  "decode_loop [] tmp_str = Inr tmp_str"
| "decode_loop (c # strIn) tmp_str =
     (case base58_digit c of
        Inl e \<Rightarrow> Inl e
      | Inr carry \<Rightarrow> decode_loop strIn (rev (decode_pass carry (rev tmp_str))))"

text \<open>
  \<^verbatim>\<open>std::size_t(left_size * log2(58.0) / 8 + 2)\<close>: each of the conversion to \<^verbatim>\<open>double\<close>, the product, the
  quotient and the sum rounds with \<open>rnd\<close>, and the conversion to an integer truncates.
\<close>

definition decode_size :: "(real \<Rightarrow> real) \<Rightarrow> real \<Rightarrow> nat \<Rightarrow> nat" where
  "decode_size rnd log2_58 left_size = nat \<lfloor>rnd (rnd (rnd (rnd (real left_size) * log2_58) / 8) + 2)\<rfloor>"

definition Decode :: "(real \<Rightarrow> real) \<Rightarrow> real \<Rightarrow> bytes \<Rightarrow> (nat \<times> bytes) outcome" where
  "Decode rnd log2_58 strIn =
     (let nZeros = length (takeWhile (\<lambda>c. c = kBase58Dictionary ! 0) strIn);
          left_size = length strIn - nZeros;
          new_size = decode_size rnd log2_58 left_size
      in map_sum id
           (\<lambda>tmp_str.
              let k = length (takeWhile (\<lambda>d. d = 0) tmp_str)
              in (nZeros + length tmp_str - k, replicate nZeros 0 @ drop k tmp_str))
           (decode_loop (drop nZeros strIn) (replicate new_size 0)))"

text \<open>
  What is assumed of floating point: no operation is off by more than one part in 2 to the 50, for zero and in the
  range of the values here, and neither is \<^verbatim>\<open>log2(58.0)\<close>. (A \<^verbatim>\<open>double\<close> rounds within one part in 2 to the 53.)
\<close>

definition double_arith :: "(real \<Rightarrow> real) \<Rightarrow> real \<Rightarrow> bool" where
  "double_arith rnd log2_58 \<longleftrightarrow>
     (\<forall>x. x = 0 \<or> 1 / 2 \<le> x \<and> x < 2 ^ 64 \<longrightarrow> \<bar>rnd x - x\<bar> \<le> x / 2 ^ 50) \<and> \<bar>log2_58 - log 2 58\<bar> \<le> log 2 58 / 2 ^ 50"

section \<open>Digit vectors\<close>

text \<open>The value of a digit list, least significant digit first.\<close>

fun value_of :: "nat \<Rightarrow> byte list \<Rightarrow> nat" where
  "value_of B [] = 0"
| "value_of B (d # ds) = unat d + B * value_of B ds"

lemma value_of_append: "value_of B (xs @ ys) = value_of B xs + B ^ length xs * value_of B ys"
  by (induction xs) (simp_all add: algebra_simps)

lemma value_of_replicate: "value_of B (replicate n 0) = 0"
  by (induction n) simp_all

lemma value_of_less: "list_all (\<lambda>d. unat d < B) xs \<Longrightarrow> value_of B xs < B ^ length xs"
proof (induction xs)
  case (Cons x xs)
  then have "unat x + B * value_of B xs < B + B * value_of B xs" by simp
  also have "\<dots> \<le> B * B ^ length xs" 
  proof -
    have "Suc (value_of B xs) \<le> B ^ length xs" using Cons by simp
    then have "B * Suc (value_of B xs) \<le> B * B ^ length xs" by (rule mult_le_mono2)
    then show ?thesis by simp
  qed
  finally show ?case by simp
qed simp

lemma value_of_inject:
  "value_of B xs = value_of B ys \<Longrightarrow> list_all (\<lambda>d. unat d < B) xs \<Longrightarrow> list_all (\<lambda>d. unat d < B) ys \<Longrightarrow>
   length xs = length ys \<Longrightarrow> xs = ys"
proof (induction xs arbitrary: ys)
  case (Cons x xs)
  then obtain y ys' where ys: "ys = y # ys'" by (cases ys) auto
  have lt: "unat x < B" "unat y < B" using Cons.prems ys by simp_all
  have e: "unat x + B * value_of B xs = unat y + B * value_of B ys'" using Cons.prems(1) ys by simp
  have "unat x = unat y" using arg_cong [OF e, of "\<lambda>n. n mod B"] lt by simp
  moreover have "value_of B xs = value_of B ys'" using e calculation lt by simp
  ultimately have "x = y" "xs = ys'" using Cons.IH [of ys'] Cons.prems ys
    by (simp_all add: word_eq_iff_unsigned [where 'a = nat])
  then show ?case using ys by simp
qed simp

text \<open>Without leading zeros the digits are determined by the value.\<close>

lemma value_of_length:
  assumes "value_of B xs = value_of B ys" "list_all (\<lambda>d. unat d < B) ys" "xs \<noteq> []" "last xs \<noteq> 0" "0 < B"
  shows "length xs \<le> length ys"
proof (rule ccontr)
  assume "\<not> length xs \<le> length ys"
  then have "length ys \<le> length xs - 1" by simp
  then have "B ^ length ys \<le> B ^ (length xs - 1)" using assms(5) by (intro power_increasing) simp_all
  also have "\<dots> \<le> value_of B xs"
  proof -
    have "0 < unat (last xs)" using assms(4) by (simp add: unat_gt_0)
    then have "B ^ (length xs - 1) * 1 \<le> B ^ (length xs - 1) * unat (last xs)" by (intro mult_le_mono2) simp
    also have "\<dots> \<le> value_of B (butlast xs @ [last xs])" unfolding value_of_append by simp
    finally show ?thesis using assms(3) by simp
  qed
  also have "\<dots> < B ^ length ys" using assms(1) value_of_less [OF assms(2)] by simp
  finally show False by simp
qed

lemma value_of_normal:
  assumes "value_of B xs = value_of B ys" "list_all (\<lambda>d. unat d < B) xs" "list_all (\<lambda>d. unat d < B) ys" "0 < B"
    "xs \<noteq> [] \<longrightarrow> last xs \<noteq> 0" "ys \<noteq> [] \<longrightarrow> last ys \<noteq> 0"
  shows "xs = ys"
proof -
  have "length xs = length ys"
    using value_of_length [OF assms(1,3)] value_of_length [OF assms(1) [symmetric] assms(2)] assms(4-6)
    by (metis le_antisym list.size(3) zero_le)
  with assms(1-3) show ?thesis by (rule value_of_inject)
qed

lemma dropWhile_zero_value: "value_of B (rev (dropWhile (\<lambda>d. d = 0) xs)) = value_of B (rev xs)"
  by (induction xs) (simp_all add: value_of_append)

lemma dropWhile_zero_last: "rev (dropWhile (\<lambda>d. d = (0 :: byte)) xs) \<noteq> [] \<longrightarrow> last (rev (dropWhile (\<lambda>d. d = 0) xs)) \<noteq> 0"
  by (induction xs) (auto simp: last_rev)

section \<open>Passes over a digit vector\<close>

locale digit_vector =
  fixes step :: "nat \<Rightarrow> byte list \<Rightarrow> byte list" and M B :: nat
  assumes base: "0 < B"
    and step_value: "value_of B (step c xs) = (c + M * value_of B xs) mod B ^ length xs"
    and step_length: "length (step c xs) = length xs"
    and step_digits: "list_all (\<lambda>d. unat d < B) (step c xs)"
begin

definition steps :: "byte list \<Rightarrow> nat list \<Rightarrow> byte list" where
  "steps v cs = foldl (\<lambda>v c. rev (step c (rev v))) v cs"

lemma length_steps: "length (steps v cs) = length v"
  by (induction cs arbitrary: v) (simp_all add: steps_def step_length)

lemma steps_digits: "list_all (\<lambda>d. unat d < B) v \<Longrightarrow> list_all (\<lambda>d. unat d < B) (steps v cs)"
  by (induction cs arbitrary: v) (simp_all add: steps_def step_digits)

lemma steps_value:
  "value_of B (rev v) = a mod B ^ length v \<Longrightarrow>
   value_of B (rev (steps v cs)) = foldl (\<lambda>a c. c + M * a) a cs mod B ^ length v"
proof (induction cs arbitrary: v a)
  case (Cons c cs)
  let ?v = "rev (step c (rev v))"
  have "value_of B (rev ?v) = (c + M * (a mod B ^ length v)) mod B ^ length v"
    using Cons.prems by (simp add: step_value)
  also have "\<dots> = (c + M * a) mod B ^ length v" by (metis mod_add_right_eq mod_mult_right_eq)
  finally have "value_of B (rev ?v) = (c + M * a) mod B ^ length ?v" by (simp add: step_length)
  from Cons.IH [OF this] show ?case by (simp add: steps_def step_length)
qed (simp add: steps_def)

text \<open>When the number fits, the vector holds it.\<close>

lemma steps_exact:
  assumes "foldl (\<lambda>a c. c + M * a) 0 cs < B ^ n"
  shows "value_of B (rev (steps (replicate n 0) cs)) = foldl (\<lambda>a c. c + M * a) 0 cs"
  using steps_value [of "replicate n 0" 0 cs] assms by (simp add: value_of_replicate)

end

lemma carry_value:
  fixes c x v B :: nat
  assumes "0 < B"
  shows "(c + M * x) mod B + B * (((c + M * x) div B + M * v) mod B ^ n) = (c + M * (x + B * v)) mod (B * B ^ n)"
proof -
  let ?t = "c + M * x"
  have "c + M * (x + B * v) = ?t mod B + B * (?t div B + M * v)"
    by (simp add: algebra_simps)
  also have "(\<dots>) mod (B * B ^ n) = ?t mod B + B * ((?t div B + M * v) mod B ^ n)"
  proof -
    have "(?t mod B + B * (?t div B + M * v)) div B = ?t div B + M * v"
      "(?t mod B + B * (?t div B + M * v)) mod B = ?t mod B" using assms by simp_all
    then show ?thesis by (simp add: mod_mult2_eq)
  qed
  finally show ?thesis by simp
qed

lemma unat_digit: "n < 256 \<Longrightarrow> unat (of_nat n :: byte) = n"
  by (simp add: unsigned_of_nat take_bit_eq_mod)

interpretation enc: digit_vector encode_pass 256 58
proof (unfold_locales, goal_cases)
  case (2 c xs)
  show ?case
  proof (induction xs arbitrary: c)
    case (Cons x xs)
    have "(c + 256 * unat x) mod 58 < 256" by (rule less_trans [of _ 58]) simp_all
    with Cons carry_value [of 58 c 256 "unat x" "value_of 58 xs" "length xs"] show ?case
      by (simp add: Let_def unat_digit)
  qed simp
next
  case (3 c xs)
  show ?case by (induction xs arbitrary: c) (simp_all add: Let_def)
next
  case (4 c xs)
  show ?case
  proof (induction xs arbitrary: c)
    case (Cons x xs)
    have "(c + 256 * unat x) mod 58 < 256" by (rule less_trans [of _ 58]) simp_all
    with Cons show ?case by (simp add: Let_def unat_digit)
  qed simp
qed simp

interpretation dec: digit_vector decode_pass 58 256
proof (unfold_locales, goal_cases)
  case (2 c xs)
  show ?case
  proof (induction xs arbitrary: c)
    case (Cons x xs)
    with carry_value [of 256 c 58 "unat x" "value_of 256 xs" "length xs"] show ?case
      by (simp add: Let_def unat_digit add.commute mult.commute)
  qed simp
next
  case (3 c xs)
  show ?case by (induction xs arbitrary: c) (simp_all add: Let_def)
next
  case (4 c xs)
  show ?case by (induction xs arbitrary: c) (simp_all add: Let_def unat_digit)
qed simp

lemma foldl_value: "foldl (\<lambda>a c. c + M * a) 0 (map unat xs) = value_of M (rev xs)"
  by (induction xs rule: rev_induct) simp_all

section \<open>Buffer sizes\<close>

lemma base58_size: "256 ^ n \<le> (58 :: nat) ^ (n * 138 div 100 + 1)"
proof -
  let ?m = "n * 138 div 100 + 1"
  have "(256 ^ n) ^ 100 = ((256 :: nat) ^ 100) ^ n" by (simp only: power_mult [symmetric] mult.commute)
  also have "\<dots> \<le> (58 ^ 138) ^ n" by (rule power_mono) simp_all
  also have "\<dots> = 58 ^ (138 * n)" by (simp only: power_mult [symmetric])
  also have "\<dots> \<le> 58 ^ (?m * 100)" by (rule power_increasing) simp_all
  also have "\<dots> = (58 ^ ?m) ^ 100" by (simp only: power_mult [symmetric])
  finally have "(256 ^ n) ^ 100 \<le> ((58 :: nat) ^ ?m) ^ 100" .
  then show ?thesis by (subst (asm) power_mono_iff) simp_all
qed

text \<open>The bytes that \<^verbatim>\<open>Decode\<close> reserves hold eight times every number of so many digits.\<close>

lemma decode_size_real:
  fixes n l e :: real
  assumes n: "0 \<le> n" "n \<le> 2 ^ 32" and l: "5 \<le> l" "l \<le> 6" and e: "e = 1 / 2 ^ 50"
    and a: "n * (1 - e) \<le> a" and L: "l * (1 - e) \<le> L" and b: "a * L * (1 - e) \<le> b"
    and c: "b / 8 * (1 - e) \<le> c" and d: "(c + 2) * (1 - e) \<le> d"
  shows "n * l + 11 \<le> 8 * d"
proof -
  have e01: "0 \<le> 1 - e" "1 - e \<le> 1" by (simp_all add: e)
  have pos: "0 \<le> n * (1 - e)" "0 \<le> l * (1 - e)" using n l e01 by (intro mult_nonneg_nonneg; simp)+
  have "0 \<le> a" using pos(1) a by (rule order_trans)
  have "(n * (1 - e)) * (l * (1 - e)) \<le> a * L" by (rule mult_mono [OF a L \<open>0 \<le> a\<close> pos(2)])
  then have "(n * (1 - e)) * (l * (1 - e)) * (1 - e) \<le> b" using b e01 by (meson mult_right_mono order_trans)
  then have "(n * (1 - e)) * (l * (1 - e)) * (1 - e) / 8 * (1 - e) \<le> c"
    using c e01 by (meson mult_right_mono order_trans divide_right_mono zero_le_numeral)
  then have "((n * (1 - e)) * (l * (1 - e)) * (1 - e) / 8 * (1 - e) + 2) * (1 - e) \<le> d"
    using d e01 by (meson add_right_mono mult_right_mono order_trans)
  moreover have "((n * (1 - e)) * (l * (1 - e)) * (1 - e) / 8 * (1 - e) + 2) * (1 - e) = (n * l) * (1 - e) ^ 5 / 8 + 2 * (1 - e)"
    by (simp add: power_numeral_reduce field_simps)
  ultimately have main: "(n * l) * (1 - e) ^ 5 / 8 + 2 * (1 - e) \<le> d" by (simp only:)
  have bern: "1 - 5 * e \<le> (1 - e) ^ 5" using Bernoulli_inequality [of "- e" 5] e01 by simp
  have "(n * l) * (5 * e) \<le> (2 ^ 32 * 6) * (5 * e)"
    using n l by (intro mult_right_mono mult_mono) (simp_all add: e)
  also have "\<dots> \<le> 1" by (simp add: e)
  finally have small: "(n * l) * (5 * e) \<le> 1" .
  have "(n * l) * (1 - 5 * e) \<le> (n * l) * (1 - e) ^ 5" using n l bern by (intro mult_left_mono) simp_all
  moreover have "(n * l) * (1 - 5 * e) = n * l - (n * l) * (5 * e)" by (simp only: right_diff_distrib mult_1_right)
  moreover have "16 * e \<le> 1" by (simp add: e)
  moreover have "X - Y \<le> Q \<Longrightarrow> Y \<le> 1 \<Longrightarrow> 16 * e \<le> 1 \<Longrightarrow> Q / 8 + 2 * (1 - e) \<le> d \<Longrightarrow> X + 11 \<le> 8 * d" for X Y Q :: real
    by simp
  ultimately show ?thesis using main small by metis
qed

lemma log_58: "5 \<le> log 2 58" "log 2 58 \<le> 6"
  by (simp_all add: le_log_iff log_le_iff)

lemma decode_size_enough:
  assumes dbl: "double_arith rnd log2_58" and n: "n < 2 ^ 32"
  shows "8 * 58 ^ n \<le> (256 :: nat) ^ decode_size rnd log2_58 n"
proof -
  define e :: real where "e = 1 / 2 ^ 50"
  have e: "0 < e" "e < 1 / 100" by (simp_all add: e_def)
  have rnd: "x * (1 - e) \<le> rnd x" "rnd x \<le> x * (1 + e)" if "x = 0 \<or> 1 / 2 \<le> x \<and> x < 2 ^ 64" for x
  proof -
    have "\<bar>rnd x - x\<bar> \<le> x / 2 ^ 50" using dbl that unfolding double_arith_def by blast
    then have "\<bar>rnd x - x\<bar> \<le> x * e" by (simp only: e_def times_divide_eq_right mult_1_right)
    then show "x * (1 - e) \<le> rnd x" "rnd x \<le> x * (1 + e)" by (simp_all add: algebra_simps abs_le_iff)
  qed
  define l L where "l = log 2 58" and "L = log2_58"
  have l: "5 \<le> l" "l \<le> 6" using log_58 by (simp_all add: l_def)
  have "\<bar>L - l\<bar> \<le> l / 2 ^ 50" using dbl unfolding double_arith_def l_def L_def by blast
  then have "\<bar>L - l\<bar> \<le> l * e" by (simp only: e_def times_divide_eq_right mult_1_right)
  then have L: "l * (1 - e) \<le> L" "L \<le> l * (1 + e)" by (simp_all add: algebra_simps abs_le_iff)
  have "l * e \<le> 6 / 100" using l e by (intro order_trans [OF mult_mono [of l 6 e "1 / 100"]]) simp_all
  then have L47: "49 / 10 \<le> L" "L \<le> 7" using L l by (simp_all add: algebra_simps)
  define a where "a = rnd (real n)"
  define b where "b = rnd (a * L)"
  define c where "c = rnd (b / 8)"
  define d where "d = rnd (c + 2)"
  have n32: "real n < 2 ^ 32" using n by (simp only: of_nat_less_numeral_power_cancel_iff)
  have a: "real n * (1 - e) \<le> a" "a \<le> real n * (1 + e)"
    unfolding a_def using n32 by (intro rnd; cases "n = 0"; simp)+
  have grow: "x * (1 + e) \<le> 2 * x" "98 / 100 * x \<le> x * (1 - e)" if "0 \<le> x" for x :: real
  proof -
    have "x * e \<le> x * (1 / 100)" using that e by (intro mult_left_mono) simp_all
    then show "x * (1 + e) \<le> 2 * x" "98 / 100 * x \<le> x * (1 - e)" using that by (simp_all add: algebra_simps)
  qed
  have a2: "98 / 100 * real n \<le> a" "a \<le> 2 * real n" using a grow [of "real n"] by simp_all
  have "98 / 100 * real n * (49 / 10) \<le> a * L" "a * L \<le> 2 * real n * 7" using a2 L47 by (intro mult_mono; simp)+
  then have aL: "48 / 10 * real n \<le> a * L" "a * L \<le> 14 * real n" by simp_all
  then have aL2: "a * L = 0 \<or> 1 / 2 \<le> a * L \<and> a * L < 2 ^ 64" using n32 by (cases "n = 0") auto
  have b: "a * L * (1 - e) \<le> b" "b \<le> a * L * (1 + e)" unfolding b_def using rnd [OF aL2] by simp_all
  have b2: "4 * real n \<le> b" "b \<le> 28 * real n" using b grow [of "a * L"] aL by (simp_all add: aL2)
  then have b3: "b / 8 = 0 \<or> 1 / 2 \<le> b / 8 \<and> b / 8 < 2 ^ 64" using n32 by (cases "n = 0") auto
  have c: "b / 8 * (1 - e) \<le> c" "c \<le> b / 8 * (1 + e)" unfolding c_def using rnd [OF b3] by simp_all
  have c2: "0 \<le> c" "c \<le> 7 * real n" using c grow [of "b / 8"] b2 by simp_all
  then have d: "(c + 2) * (1 - e) \<le> d" unfolding d_def using n32 by (intro rnd) simp
  have "real n * l + 11 \<le> 8 * d"
    using decode_size_real [OF _ _ l e_def a(1) L(1) b(1) c(1) d] n32 by simp
  then have nl: "real n * l + 3 \<le> 8 * real (nat \<lfloor>d\<rfloor>)" using l by linarith
  have "8 * (58 :: real) ^ n = 2 powr (real n * l + 3)"
    by (simp add: powr_add powr_mult l_def powr_realpow [symmetric] mult.commute [of "real n"] powr_powr [symmetric] del: powr_realpow)
  also have "\<dots> \<le> 2 powr (8 * real (nat \<lfloor>d\<rfloor>))" using nl by (intro powr_mono) simp_all
  also have "\<dots> = 256 ^ nat \<lfloor>d\<rfloor>" by (simp add: powr_powr [symmetric] powr_realpow)
  finally have "real (8 * 58 ^ n) \<le> real (256 ^ nat \<lfloor>d\<rfloor>)" by simp
  then show ?thesis unfolding of_nat_le_iff by (simp add: decode_size_def a_def b_def c_def d_def L_def)
qed

section \<open>The round trip\<close>

lemma count_zeros_correct:
  "count_zeros s i z f = (z + length (takeWhile (\<lambda>c. c = 0) s),
     if s \<noteq> [] \<and> hd s = 0 then i + length (takeWhile (\<lambda>c. c = 0) s) - 1 else f)"
proof (induction s arbitrary: i z f)
  case (Cons c s)
  then show ?case by (cases s) auto
qed simp

lemma skipped_zeros:
  "value_of B (rev (drop (snd (count_zeros s 0 0 0)) s)) = value_of B (rev s)"
proof -
  let ?t = "takeWhile (\<lambda>c. c = 0) s"
  have "take k s = replicate k 0" if "k \<le> length ?t" for k
  proof (rule nth_equalityI)
    show "length (take k s) = length (replicate k 0)" using that length_takeWhile_le [of "\<lambda>c. c = 0" s] by simp
    fix i assume "i < length (take k s)"
    then show "take k s ! i = replicate k 0 ! i"
      using that nth_mem [of i ?t] by (auto simp: takeWhile_nth dest!: set_takeWhileD)
  qed
  moreover have "snd (count_zeros s 0 0 0) \<le> length ?t" by (simp add: count_zeros_correct)
  ultimately have "take (snd (count_zeros s 0 0 0)) s = replicate (snd (count_zeros s 0 0 0)) 0" by blast
  then have "s = replicate (snd (count_zeros s 0 0 0)) 0 @ drop (snd (count_zeros s 0 0 0)) s"
    by (metis append_take_drop_id)
  then have "value_of B (rev s) = value_of B (rev (replicate (snd (count_zeros s 0 0 0)) 0
      @ drop (snd (count_zeros s 0 0 0)) s))" by simp
  then show ?thesis by (simp add: value_of_append value_of_replicate)
qed

definition digits58 :: "bytes \<Rightarrow> byte list" where
  "digits58 s = dropWhile (\<lambda>d. d = 0)
     (enc.steps (replicate (length s * 138 div 100 + 1) 0) (map unat (drop (snd (count_zeros s 0 0 0)) s)))"

lemma Encode_digits:
  "Encode s = replicate (length (takeWhile (\<lambda>c. c = 0) s)) 49 @ map (\<lambda>d. kBase58Dictionary ! unat d) (digits58 s)"
  by (simp add: Encode_def digits58_def enc.steps_def foldl_map count_zeros_correct Let_def)

lemma value_bytes_less: "value_of 256 (rev s) < 256 ^ length s"
proof -
  have "list_all (\<lambda>d. unat d < 256) (rev s)" 
  proof -
    have "unat (d :: byte) < 256" for d using unsigned_less [of d] by simp
    then show ?thesis by (simp add: list_all_iff)
  qed
  from value_of_less [OF this] show ?thesis by simp
qed

lemma digits58_value: "value_of 58 (rev (digits58 s)) = value_of 256 (rev s)"
proof -
  let ?t = "drop (snd (count_zeros s 0 0 0)) s"
  have v: "foldl (\<lambda>a c. c + 256 * a) 0 (map unat ?t) = value_of 256 (rev s)"
    by (simp add: foldl_value skipped_zeros)
  have "value_of 256 (rev s) < 58 ^ (length s * 138 div 100 + 1)"
    using value_bytes_less [of s] base58_size [of "length s"] by (rule less_le_trans)
  then show ?thesis
    using enc.steps_exact [of "map unat ?t" "length s * 138 div 100 + 1"] v
    by (simp add: digits58_def dropWhile_zero_value)
qed

lemma digits58_small: "list_all (\<lambda>d. unat d < 58) (digits58 s)"
proof -
  have "list_all (\<lambda>d. unat d < 58) (replicate (length s * 138 div 100 + 1) (0 :: byte))" by (simp add: list_all_iff)
  from enc.steps_digits [OF this] show ?thesis
    by (auto simp: digits58_def list_all_iff dest: set_dropWhileD)
qed

lemma dictionary58:
  "list_all (\<lambda>(d, c). base58_digit c = Inr d \<and> (c = 49 \<longleftrightarrow> d = 0)) (enumerate 0 kBase58Dictionary)"
  by (simp add: kBase58Dictionary_def lit_def base58_digit_def kBase58digits_def)

lemma dictionary58_digit:
  assumes "unat d < 58"
  shows "base58_digit (kBase58Dictionary ! unat d) = Inr (unat d) \<and> (kBase58Dictionary ! unat d = 49 \<longleftrightarrow> d = 0)"
proof -
  have "length kBase58Dictionary = 58" by (simp add: kBase58Dictionary_def lit_def)
  with dictionary58 assms show ?thesis
    by (auto simp: list_all_length nth_enumerate_eq unat_eq_0)
qed

lemma decode_loop_digits:
  "list_all (\<lambda>d. unat d < 58) ds \<Longrightarrow>
   decode_loop (map (\<lambda>d. kBase58Dictionary ! unat d) ds) v = Inr (dec.steps v (map unat ds))"
  by (induction ds arbitrary: v) (simp_all add: dictionary58_digit dec.steps_def)

text \<open>
  Every text: the value that \<^verbatim>\<open>Decode\<close> gives to a character, which is 255 outside of the alphabet, and the number
  that a text denotes with these values.
\<close>

definition char_digit :: "byte \<Rightarrow> nat" where
  "char_digit c = (if c \<in> set kBase58Dictionary then length (takeWhile (\<lambda>x. x \<noteq> c) kBase58Dictionary) else 255)"

definition text_value :: "bytes \<Rightarrow> nat" where
  "text_value s = foldl (\<lambda>a c. char_digit c + 58 * a) 0 s"

lemma dictionary58_distinct: "distinct kBase58Dictionary" "length kBase58Dictionary = 58"
  by (simp_all add: kBase58Dictionary_def lit_def)

lemma char_digit_nth: "d < 58 \<Longrightarrow> char_digit (kBase58Dictionary ! d) = d"
proof -
  assume d: "d < 58"
  let ?D = kBase58Dictionary
  have "takeWhile (\<lambda>x. x \<noteq> ?D ! d) ?D = take d ?D"
    using d dictionary58_distinct by (intro takeWhile_eq_take_P_nth) (simp_all add: nth_eq_iff_index_eq)
  then show ?thesis using d dictionary58_distinct(2) by (simp add: char_digit_def)
qed

lemma base58_table:
  "list_all (\<lambda>(n, d). d = 0xFF \<or> unat d < 58 \<and> kBase58Dictionary ! unat d = word_of_nat n) (enumerate 0 kBase58digits)"
  by (simp add: kBase58digits_def kBase58Dictionary_def lit_def)

lemma base58_digit_char: "base58_digit c = (if unat c < 128 then Inr (char_digit c) else Inl undefined_behaviour)"
proof (cases "unat c < 128")
  case True
  let ?d = "kBase58digits ! unat c"
  have "length kBase58digits = 128" by (simp add: kBase58digits_def)
  then have "\<forall>n < 128. kBase58digits ! n = 0xFF \<or> unat (kBase58digits ! n) < 58 \<and>
      kBase58Dictionary ! unat (kBase58digits ! n) = word_of_nat n"
    using base58_table by (simp add: list_all_length nth_enumerate_eq)
  from this [rule_format, OF True] have "?d = 0xFF \<or> unat ?d < 58 \<and> kBase58Dictionary ! unat ?d = c" by simp
  moreover have "unat ?d = char_digit c" if "unat ?d < 58" "kBase58Dictionary ! unat ?d = c"
    using char_digit_nth [OF that(1)] that(2) by simp
  moreover have "char_digit c = 255" if "?d = 0xFF"
  proof -
    have "c \<notin> set kBase58Dictionary"
    proof
      assume "c \<in> set kBase58Dictionary"
      then obtain k where k: "k < 58" "c = kBase58Dictionary ! k" using dictionary58_distinct(2) by (auto simp: in_set_conv_nth)
      then have "base58_digit c = Inr k"
        using dictionary58 dictionary58_distinct(2) by (auto simp: list_all_length nth_enumerate_eq)
      then show False using that True k(1) by (simp add: base58_digit_def)
    qed
    then show ?thesis by (simp add: char_digit_def)
  qed
  ultimately show ?thesis using True by (auto simp: base58_digit_def)
qed (simp add: base58_digit_def)

lemma char_digit_bounds: "char_digit c \<le> 255" "char_digit 49 = 0"
proof -
  have "length (takeWhile (\<lambda>x. x \<noteq> c) kBase58Dictionary) \<le> length kBase58Dictionary" by (rule length_takeWhile_le)
  then show "char_digit c \<le> 255" by (simp add: char_digit_def kBase58Dictionary_def lit_def)
  show "char_digit 49 = 0" by (simp add: char_digit_def kBase58Dictionary_def lit_def)
qed

lemma decode_loop_text:
  "decode_loop s v =
     (if \<exists>c \<in> set s. 128 \<le> unat c then Inl undefined_behaviour else Inr (dec.steps v (map char_digit s)))"
  by (induction s arbitrary: v) (auto simp: base58_digit_char dec.steps_def not_less)

lemma text_value_less: "foldl (\<lambda>a c. char_digit c + 58 * a) a s < 58 ^ length s * (a + 5)"
proof (induction s arbitrary: a)
  case (Cons c s)
  have "foldl (\<lambda>a c. char_digit c + 58 * a) a (c # s) < 58 ^ length s * (char_digit c + 58 * a + 5)"
    using Cons.IH [of "char_digit c + 58 * a"] by simp
  also have "\<dots> \<le> 58 ^ length s * (58 * (a + 5))" using char_digit_bounds(1) [of c] by (intro mult_le_mono2) simp
  finally show ?case by (simp add: algebra_simps)
qed simp

lemma text_value_ones: "text_value (replicate z 49 @ s) = text_value s"
  by (induction z) (simp_all add: text_value_def char_digit_bounds(2))

lemma text_value_fits:
  assumes "double_arith rnd log2_58" "length s < 2 ^ 32"
  shows "text_value s < 256 ^ decode_size rnd log2_58 (length s)"
proof -
  have "text_value s < 58 ^ length s * 5" using text_value_less [of 0 s] by (simp add: text_value_def)
  also have "\<dots> \<le> 8 * 58 ^ length s" by simp
  also have "\<dots> \<le> 256 ^ decode_size rnd log2_58 (length s)" by (rule decode_size_enough [OF assms])
  finally show ?thesis .
qed

lemma dictionary58_first: "kBase58Dictionary ! 0 = 49"
  by (simp add: kBase58Dictionary_def lit_def)

lemma text_ones: "t = replicate (length (takeWhile (\<lambda>c. c = x) t)) x @ dropWhile (\<lambda>c. c = x) t"
proof -
  have "takeWhile (\<lambda>c. c = x) t = replicate (length (takeWhile (\<lambda>c. c = x) t)) x"
    by (rule replicate_eqI [symmetric, THEN sym]) (auto dest: set_takeWhileD)
  then show ?thesis by (metis takeWhile_dropWhile_id)
qed

lemma Decode_text:
  assumes dbl: "double_arith rnd log2_58" and len: "length t < 2 ^ 32"
  shows "if \<exists>c \<in> set t. 128 \<le> unat c then Decode rnd log2_58 t = Inl undefined_behaviour
    else \<exists>w. Decode rnd log2_58 t = Inr (length (takeWhile (\<lambda>c. c = 49) t) + length w, replicate (length (takeWhile (\<lambda>c. c = 49) t)) 0 @ w) \<and>
           (w \<noteq> [] \<longrightarrow> hd w \<noteq> 0) \<and> value_of 256 (rev w) = text_value t"
proof -
  define z where "z = length (takeWhile (\<lambda>c. c = 49) t)"
  define u where "u = dropWhile (\<lambda>c. c = 49) t"
  have t: "t = replicate z 49 @ u" unfolding z_def u_def by (rule text_ones)
  define n where "n = decode_size rnd log2_58 (length u)"
  have u: "drop z t = u" "length t - z = length u" using t by simp_all
  have chars: "(\<exists>c \<in> set t. 128 \<le> unat c) \<longleftrightarrow> (\<exists>c \<in> set u. 128 \<le> unat c)" by (subst t) auto
  have D: "Decode rnd log2_58 t = map_sum id (\<lambda>tmp. let k = length (takeWhile (\<lambda>d. d = 0) tmp) in (z + length tmp - k, replicate z 0 @ drop k tmp))
      (decode_loop u (replicate n 0))"
    unfolding Decode_def Let_def dictionary58_first z_def [symmetric] u n_def ..
  show ?thesis
  proof (cases "\<exists>c \<in> set t. 128 \<le> unat c")
    case True
    then show ?thesis using chars by (simp add: D decode_loop_text)
  next
    case False
    define tmp where "tmp = dec.steps (replicate n 0) (map char_digit u)"
    define w where "w = dropWhile (\<lambda>d. d = 0) tmp"
    have "length u < 2 ^ 32" using len u(2) by simp
    then have "text_value u < 256 ^ n" unfolding n_def by (rule text_value_fits [OF dbl])
    then have "value_of 256 (rev tmp) = text_value u"
      using dec.steps_exact [of "map char_digit u" n] by (simp add: tmp_def text_value_def foldl_map)
    then have val: "value_of 256 (rev w) = text_value t"
      unfolding w_def dropWhile_zero_value by (subst t) (simp add: text_value_ones)
    have "length (takeWhile (\<lambda>d. d = 0) tmp) + length w = length tmp"
      unfolding w_def by (metis length_append takeWhile_dropWhile_id)
    moreover have "drop (length (takeWhile (\<lambda>d. d = 0) tmp)) tmp = w" by (simp add: w_def dropWhile_eq_drop)
    ultimately have "Decode rnd log2_58 t = Inr (z + length w, replicate z 0 @ w)"
      using False chars by (simp add: D decode_loop_text tmp_def [symmetric] Let_def)
    moreover have "w \<noteq> [] \<longrightarrow> hd w \<noteq> 0" using hd_dropWhile [of "\<lambda>d. d = 0" tmp] by (auto simp: w_def)
    ultimately show ?thesis using False val unfolding z_def by auto
  qed
qed

lemma Encode_text:
  obtains D where "Encode s = replicate (length (takeWhile (\<lambda>c. c = 0) s)) 49 @ map (\<lambda>d. kBase58Dictionary ! unat d) D"
    "list_all (\<lambda>d. unat d < 58) D" "value_of 58 (rev D) = value_of 256 (rev s)" "D \<noteq> [] \<longrightarrow> hd D \<noteq> 0"
    "length D \<le> length s * 138 div 100 + 1"
proof
  show "list_all (\<lambda>d. unat d < 58) (digits58 s)" by (rule digits58_small)
  show "value_of 58 (rev (digits58 s)) = value_of 256 (rev s)" by (rule digits58_value)
  show "digits58 s \<noteq> [] \<longrightarrow> hd (digits58 s) \<noteq> 0"
    using hd_dropWhile [of "\<lambda>d. d = 0"] unfolding digits58_def by (metis (mono_tags, lifting))
  show "length (digits58 s) \<le> length s * 138 div 100 + 1"
    unfolding digits58_def by (rule order_trans [OF length_dropWhile_le]) (simp add: enc.length_steps)
qed (rule Encode_digits)

lemma Decode_Encode:
  assumes dbl: "double_arith rnd log2_58" and len: "length s < 2 ^ 30"
  shows "Decode rnd log2_58 (Encode s) = Inr (length s, s)"
proof -
  let ?f = "\<lambda>d. kBase58Dictionary ! unat d"
  define z where "z = length (takeWhile (\<lambda>c. c = 0) s)"
  define r where "r = dropWhile (\<lambda>c. c = 0) s"
  have s: "s = replicate z 0 @ r" unfolding z_def r_def by (rule text_ones)
  obtain D where E: "Encode s = replicate z 49 @ map ?f D" and D: "list_all (\<lambda>d. unat d < 58) D"
      "value_of 58 (rev D) = value_of 256 (rev s)" "D \<noteq> [] \<longrightarrow> hd D \<noteq> 0" "length D \<le> length s * 138 div 100 + 1"
    unfolding z_def by (rule Encode_text)
  have digit: "char_digit (?f d) = unat d \<and> unat (?f d) < 128 \<and> (?f d = 49 \<longleftrightarrow> d = 0)" if "d \<in> set D" for d
  proof -
    have "unat d < 58" using that D(1) by (simp add: list_all_iff)
    from dictionary58_digit [OF this] show ?thesis by (simp add: base58_digit_char split: if_splits)
  qed
  have ones: "length (takeWhile (\<lambda>c. c = 49) (Encode s)) = z"
    using digit D(3) unfolding E by (cases D) (simp_all add: takeWhile_append)
  have "text_value (Encode s) = foldl (\<lambda>a c. c + 58 * a) 0 (map unat D)"
    using digit unfolding E text_value_ones by (simp add: text_value_def foldl_map cong: foldl_cong)
  then have val: "text_value (Encode s) = value_of 256 (rev r)"
    using D(2) by (simp add: foldl_value r_def dropWhile_zero_value)
  have "z \<le> length s" by (simp add: z_def length_takeWhile_le)
  then have "length (Encode s) < 2 ^ 32" using D(4) len unfolding E by simp
  moreover have "\<not> (\<exists>c \<in> set (Encode s). 128 \<le> unat c)" using digit unfolding E by (auto simp: not_le)
  ultimately obtain w where w: "Decode rnd log2_58 (Encode s) = Inr (z + length w, replicate z 0 @ w)"
      "w \<noteq> [] \<longrightarrow> hd w \<noteq> 0" "value_of 256 (rev w) = value_of 256 (rev r)"
    using Decode_text [OF dbl, of "Encode s"] val ones by auto
  have byte: "list_all (\<lambda>d. unat d < 256) xs" for xs :: bytes
  proof -
    have "unat (d :: byte) < 256" for d using unsigned_less [of d] by simp
    then show ?thesis by (simp add: list_all_iff)
  qed
  have "rev w = rev r"
  proof (rule value_of_normal [OF w(3) byte byte])
    show "rev r \<noteq> [] \<longrightarrow> last (rev r) \<noteq> 0" unfolding r_def by (rule dropWhile_zero_last)
    show "rev w \<noteq> [] \<longrightarrow> last (rev w) \<noteq> 0" using w(2) by (simp add: last_rev)
  qed simp
  then show ?thesis using w(1) s arg_cong [OF s, of length] by simp
qed

section \<open>Properties\<close>



end
