(* ===== verification/HashSpec.thy ===== *)
theory HashSpec
  imports Prelude
begin

text \<open>
  What the streaming hashes share. \<open>absorb\<close> is the reference: it feeds the 64 byte blocks of a message to
  a compression function and keeps the rest. The interface \<open>streaming_hash\<close> states what an
  implementation promises of its operations: a relation between a context and the message fed to it so far,
  kept by every update, and a final operation that returns the digest of that message. Its clients (hashing
  in one go, in pieces, from a file) are proved inside it, once for all hashes.
\<close>

section \<open>Blocks\<close>

function absorb :: "('s \<Rightarrow> bytes \<Rightarrow> 's) \<Rightarrow> 's \<Rightarrow> bytes \<Rightarrow> 's \<times> bytes" where
  "absorb f s m = (if length m < 64 then (s, m) else absorb f (f s (take 64 m)) (drop 64 m))"
  by pat_completeness auto
termination by (relation "measure (\<lambda>(f, s, m). length m)") auto

declare absorb.simps [simp del]

lemma absorb_short: "length m < 64 \<Longrightarrow> absorb f s m = (s, m)"
  by (subst absorb.simps) simp

lemma absorb_block: "length b = 64 \<Longrightarrow> absorb f s (b @ m) = absorb f (f s b) m"
  by (subst absorb.simps) simp

lemma absorb_append:
  "absorb f s m = (s', r) \<Longrightarrow> absorb f s (m @ x) = absorb f s' (r @ x)"
proof (induction f s m rule: absorb.induct)
  case (1 f s m)
  show ?case
  proof (cases "length m < 64")
    case True
    then show ?thesis using 1(2) by (simp add: absorb_short)
  next
    case False
    then have "absorb f (f s (take 64 m)) (drop 64 m) = (s', r)" using 1(2) by (subst (asm) absorb.simps) simp
    from 1(1) [OF False this] show ?thesis
      using absorb_block [of "take 64 m" f s "drop 64 m @ x"] False by (simp flip: append_assoc)
  qed
qed

lemma absorb_rest: "absorb f s m = (s', r) \<Longrightarrow> length r = length m mod 64"
proof (induction f s m rule: absorb.induct)
  case (1 f s m)
  show ?case
  proof (cases "length m < 64")
    case True
    then show ?thesis using 1(2) by (simp add: absorb_short)
  next
    case False
    then have "absorb f (f s (take 64 m)) (drop 64 m) = (s', r)" using 1(2) by (subst (asm) absorb.simps) simp
    from 1(1) [OF False this] False show ?thesis by (simp add: mod_if [of "length m"])
  qed
qed

section \<open>Writing into a buffer\<close>

definition memcpy :: "bytes \<Rightarrow> nat \<Rightarrow> bytes \<Rightarrow> bytes" where
  "memcpy buf pos src = take pos buf @ src @ drop (pos + length src) buf"

lemma length_memcpy [simp]: "pos + length src \<le> length buf \<Longrightarrow> length (memcpy buf pos src) = length buf"
  by (simp add: memcpy_def)

lemma take_memcpy: "pos \<le> length buf \<Longrightarrow> take (pos + length src) (memcpy buf pos src) = take pos buf @ src"
  by (simp add: memcpy_def)

lemma memcpy_full: "pos + length src = length buf \<Longrightarrow> memcpy buf pos src = take pos buf @ src"
  by (simp add: memcpy_def)

lemma absorb_hom:
  assumes "\<And>s b. f (h s) b = h (g s b)"
  shows "absorb f (h s) m = (case absorb g s m of (s', r) \<Rightarrow> (h s', r))"
  using assms
proof (induction g s m rule: absorb.induct)
  case (1 g s m)
  show ?case
  proof (cases "length m < 64")
    case True
    then show ?thesis by (simp add: absorb_short)
  next
    case False
    then show ?thesis
      using 1 by (simp add: absorb.simps [of f "h s"] absorb.simps [of g s])
  qed
qed

text \<open>
  The invariant of a context: \<open>buffered f iv m s buf\<close> says that \<open>s\<close> is the state after the complete blocks
  of \<open>m\<close> and that the 64 byte buffer starts with the rest.
\<close>

definition buffered :: "('s \<Rightarrow> bytes \<Rightarrow> 's) \<Rightarrow> 's \<Rightarrow> bytes \<Rightarrow> 's \<Rightarrow> bytes \<Rightarrow> bool" where
  "buffered f iv m s buf \<longleftrightarrow> absorb f iv m = (s, take (length m mod 64) buf) \<and> length buf = 64"

lemma buffered_init: "length buf = 64 \<Longrightarrow> buffered f iv [] iv buf"
  by (simp add: buffered_def absorb_short)

lemma buffered_absorb:
  assumes b: "buffered f iv m s buf" and a: "absorb f s (take (length m mod 64) buf @ x) = (s', r)"
    and len: "length buf' = 64" and buf': "take (length r) buf' = r"
  shows "buffered f iv (m @ x) s' buf'"
proof -
  have *: "absorb f iv (m @ x) = (s', r)"
    using b a by (simp add: buffered_def absorb_append)
  then show ?thesis using absorb_rest [OF *] len buf' by (simp add: buffered_def)
qed

lemma buffered_fits:
  assumes b: "buffered f iv m s buf" and fits: "length m mod 64 + length x < 64"
  shows "buffered f iv (m @ x) s (memcpy buf (length m mod 64) x)"
proof (rule buffered_absorb [OF b absorb_short])
  have [simp]: "length buf = 64" using b by (simp add: buffered_def)
  then show "length (take (length m mod 64) buf @ x) < 64" using fits by simp
  show "length (memcpy buf (length m mod 64) x) = 64" using fits by simp
  show "take (length (take (length m mod 64) buf @ x)) (memcpy buf (length m mod 64) x) = take (length m mod 64) buf @ x"
    by (simp add: memcpy_def)
qed

lemma buffered_fill:
  assumes b: "buffered f iv m s buf" and fill: "64 - length m mod 64 \<le> length x"
    and buf': "buf' = memcpy buf (length m mod 64) (take (64 - length m mod 64) x)"
    and rest: "absorb f (f s buf') (drop (64 - length m mod 64) x) = (s', r)"
  shows "buffered f iv (m @ x) s' (memcpy buf' 0 r)"
proof -
  let ?n = "64 - length m mod 64"
  have [simp]: "length buf = 64" using b by (simp add: buffered_def)
  have n: "length m mod 64 < 64" by simp
  have full: "buf' = take (length m mod 64) buf @ take ?n x"
    unfolding buf' by (rule memcpy_full) (use fill in simp)
  have [simp]: "length buf' = 64" unfolding full using fill n by simp
  have "take (length m mod 64) buf @ x = buf' @ drop ?n x" unfolding full by simp
  then have a: "absorb f s (take (length m mod 64) buf @ x) = (s', r)"
    using rest by (simp add: absorb_block)
  have "length r \<le> 64" using absorb_rest [OF rest] by (simp add: less_imp_le)
  then show ?thesis by (intro buffered_absorb [OF b a]) (simp_all add: memcpy_def)
qed

lemma buffered_blocks:
  assumes b: "buffered f iv m s buf" and z: "length m mod 64 = 0" and a: "absorb f s x = (s', r)"
  shows "buffered f iv (m @ x) s' (memcpy buf 0 r)"
proof -
  have [simp]: "length buf = 64" using b by (simp add: buffered_def)
  have "length r \<le> 64" using absorb_rest [OF a] by (simp add: less_imp_le)
  then show ?thesis
    by (intro buffered_absorb [OF b, of x s' r]) (use a z in \<open>simp_all add: memcpy_def\<close>)
qed

section \<open>Rotations\<close>

text \<open>A rotation of 32 bits as the macros of the hashes write it.\<close>

lemma rotl_or: "word_rotl m x = push_bit (m mod 32) x OR drop_bit ((32 - m mod 32) mod 32) x" for x :: u32
proof (rule bit_word_eqI)
  fix n
  assume "n < LENGTH(32)"
  then have n: "n < 32" by simp
  define k where "k = m mod 32"
  have k: "k < 32" by (simp add: k_def)
  have rot: "bit (word_rotl m x) n = bit x ((n + (32 - k)) mod 32)"
    using n unfolding k_def by (simp only: bit_word_rotl_iff len_bit0 len_num1) simp
  have "(n + (32 - k)) mod 32 = (if k \<le> n then n - k else n + (32 - k))"
    using n k mod_add_self2 [of "n - k" 32] by (cases "k \<le> n") simp_all
  moreover have "(32 - k) mod 32 = (if k = 0 then 0 else 32 - k)" using k by simp
  moreover have "\<not> bit x i" if "32 \<le> i" for i using that by (simp add: impossible_bit)
  ultimately show "bit (word_rotl m x) n = bit (push_bit (m mod 32) x OR drop_bit ((32 - m mod 32) mod 32) x) n"
    using n k unfolding rot k_def [symmetric]
    by (auto simp: bit_or_iff bit_push_bit_iff bit_drop_bit_eq add.commute)
qed

section \<open>Padding and lengths\<close>

text \<open>
  The padding of Merkle and Damgard: a one bit, zeros up to eight bytes short of a block, and
  the length of the message in bits as eight bytes, in the byte order of the hash.
\<close>

definition be_bytes :: "nat \<Rightarrow> nat \<Rightarrow> bytes" where
  "be_bytes k n = map (\<lambda>i. of_nat (n div 256 ^ (k - 1 - i))) [0..<k]"

definition le_bytes :: "nat \<Rightarrow> nat \<Rightarrow> bytes" where
  "le_bytes k n = map (\<lambda>i. of_nat (n div 256 ^ i)) [0..<k]"

definition pad_zeros :: "nat \<Rightarrow> nat" where
  "pad_zeros n = (119 - n mod 64) mod 64"

definition md_pad :: "(nat \<Rightarrow> bytes) \<Rightarrow> bytes \<Rightarrow> bytes" where
  "md_pad enc m = m @ 0x80 # replicate (pad_zeros (length m)) 0 @ enc (8 * length m)"

section \<open>Message authentication\<close>

text \<open>HMAC over a hash with 64 byte blocks.\<close>

definition hmac_key :: "(bytes \<Rightarrow> bytes) \<Rightarrow> bytes \<Rightarrow> bytes" where
  "hmac_key H key = (let k = (if 64 < length key then H key else key) in k @ replicate (64 - length k) 0)"

definition hmac :: "(bytes \<Rightarrow> bytes) \<Rightarrow> bytes \<Rightarrow> bytes \<Rightarrow> bytes" where
  "hmac H key m =
     H (map (\<lambda>b. 0x5C XOR b) (hmac_key H key) @ H (map (\<lambda>b. 0x36 XOR b) (hmac_key H key) @ m))"

section \<open>The interface of a streaming hash\<close>

locale streaming_hash =
  fixes init :: 'c
    and update :: "'c \<Rightarrow> bytes \<Rightarrow> 'c"
    and final :: "'c \<Rightarrow> bytes"
    and rep :: "'c \<Rightarrow> bytes \<Rightarrow> bool"
    and digest :: "bytes \<Rightarrow> bytes"
    and chunk :: "bytes \<Rightarrow> bool"
  assumes rep_init: "rep init []"
    and rep_update: "rep c m \<Longrightarrow> chunk x \<Longrightarrow> rep (update c x) (m @ x)"
    and final_digest: "rep c m \<Longrightarrow> final c = digest m"
begin

lemma rep_updates: "rep c m \<Longrightarrow> list_all chunk xs \<Longrightarrow> rep (foldl update c xs) (m @ concat xs)"
proof (induction xs arbitrary: c m)
  case (Cons x xs)
  then show ?case using Cons.IH [OF rep_update [of c m x]] by simp
qed simp

lemma one_shot: "chunk x \<Longrightarrow> final (update init x) = digest x"
  using rep_update [OF rep_init] final_digest by fastforce

lemma in_pieces: "list_all chunk xs \<Longrightarrow> final (foldl update init xs) = digest (concat xs)"
  using rep_updates [OF rep_init] final_digest by fastforce

end

end
