(* ===== verification/Sm3.thy ===== *)
theory Sm3
  imports HashSpec Base58 StringFacts
begin

text \<open>
  The SM3 hash and its HMAC, \<^verbatim>\<open>src/utils/sm3.h\<close> and \<^verbatim>\<open>src/utils/sm3.cpp\<close>. \<^verbatim>\<open>unsigned long\<close> has 64 bits. The
  arrays of an uninitialised context hold arbitrary bytes, the argument \<open>junk\<close>. A shift of a 32 bit
  value uses the low five bits of its count, as the processor does: the macro \<^verbatim>\<open>ROTL(T[j], j)\<close> shifts by
  0 and by 32 and more bits, which C++ leaves undefined.

  The reference is the hash of the standard: recursive message words, rotations, padding. The
  implementation is shown to compute it, in one piece or in many, through the interface
  \<open>streaming_hash\<close>.
\<close>

section \<open>The implementation\<close>

record sm3_context =
  total0 :: u64
  total1 :: u64
  sm3_state :: "u64 list"
  sm3_buffer :: bytes
  ipad :: bytes
  opad :: bytes

definition sm3_fresh :: "(nat \<Rightarrow> byte) \<Rightarrow> sm3_context" where
  "sm3_fresh junk =
     \<lparr>total0 = ucast (junk 0), total1 = ucast (junk 1), sm3_state = map (\<lambda>i. ucast (junk i)) [0..<8],
      sm3_buffer = map junk [0..<64], ipad = map junk [0..<64], opad = map junk [0..<64]\<rparr>"

definition GET_ULONG_BE :: "bytes \<Rightarrow> nat \<Rightarrow> u32" where
  "GET_ULONG_BE b i =
     push_bit 24 (ucast (b ! i)) OR push_bit 16 (ucast (b ! (i + 1)))
       OR push_bit 8 (ucast (b ! (i + 2))) OR ucast (b ! (i + 3))"

definition PUT_ULONG_BE :: "u64 \<Rightarrow> bytes" where
  "PUT_ULONG_BE n = [ucast (drop_bit 24 n), ucast (drop_bit 16 n), ucast (drop_bit 8 n), ucast n]"

definition SM3_IV :: "u64 list" where
  "SM3_IV = [0x7380166F, 0x4914B2B9, 0x172442D7, 0xDA8A0600,
             0xA96F30BC, 0x163138AA, 0xE38DEE4D, 0xB0FB0E4E]"

definition sm3_starts :: "sm3_context \<Rightarrow> sm3_context" where
  "sm3_starts ctx = ctx\<lparr>total0 := 0, total1 := 0, sm3_state := SM3_IV\<rparr>"

definition FF0 :: "u32 \<Rightarrow> u32 \<Rightarrow> u32 \<Rightarrow> u32" where
  "FF0 x y z = x XOR y XOR z"

definition FF1 :: "u32 \<Rightarrow> u32 \<Rightarrow> u32 \<Rightarrow> u32" where
  "FF1 x y z = (x AND y) OR (x AND z) OR (y AND z)"

definition GG0 :: "u32 \<Rightarrow> u32 \<Rightarrow> u32 \<Rightarrow> u32" where
  "GG0 x y z = x XOR y XOR z"

definition GG1 :: "u32 \<Rightarrow> u32 \<Rightarrow> u32 \<Rightarrow> u32" where
  "GG1 x y z = (x AND y) OR (NOT x AND z)"

definition SHL :: "u32 \<Rightarrow> int \<Rightarrow> u32" where
  "SHL x n = push_bit (nat (n mod 32)) (x AND 0xFFFFFFFF)"

definition ROTL :: "u32 \<Rightarrow> int \<Rightarrow> u32" where
  "ROTL x n = SHL x n OR drop_bit (nat ((32 - n) mod 32)) x"

definition P0 :: "u32 \<Rightarrow> u32" where
  "P0 x = x XOR ROTL x 9 XOR ROTL x 17"

definition P1 :: "u32 \<Rightarrow> u32" where
  "P1 x = x XOR ROTL x 15 XOR ROTL x 23"

definition sm3_T :: "nat \<Rightarrow> u32" where
  "sm3_T j = (if j < 16 then 0x79CC4519 else 0x7A879D8A)"

definition sm3_expand :: "bytes \<Rightarrow> u32 list" where
  "sm3_expand data =
     foldl (\<lambda>W j.
              let Temp1 = W ! (j - 16) XOR W ! (j - 9);
                  Temp2 = ROTL (W ! (j - 3)) 15;
                  Temp3 = Temp1 XOR Temp2;
                  Temp4 = P1 Temp3;
                  Temp5 = ROTL (W ! (j - 13)) 7 XOR W ! (j - 6)
              in W @ [Temp4 XOR Temp5])
           (map (\<lambda>i. GET_ULONG_BE data (4 * i)) [0..<16]) [16..<68]"

type_synonym sm3_regs = "u32 \<times> u32 \<times> u32 \<times> u32 \<times> u32 \<times> u32 \<times> u32 \<times> u32"

definition sm3_round :: "u32 list \<Rightarrow> u32 list \<Rightarrow> sm3_regs \<Rightarrow> nat \<Rightarrow> sm3_regs" where
  "sm3_round W W1 regs j =
     (let (A, B, C, D, E, F, G, H) = regs;
          SS1 = ROTL (ROTL A 12 + E + ROTL (sm3_T j) (int j)) 7;
          SS2 = SS1 XOR ROTL A 12;
          TT1 = (if j < 16 then FF0 A B C else FF1 A B C) + D + SS2 + W1 ! j;
          TT2 = (if j < 16 then GG0 E F G else GG1 E F G) + H + SS1 + W ! j
      in (TT1, A, ROTL B 9, C, P0 TT2, E, ROTL F 19, G))"

definition sm3_process :: "u64 list \<Rightarrow> bytes \<Rightarrow> u64 list" where
  "sm3_process state data =
     (let W = sm3_expand data;
          W1 = map (\<lambda>j. W ! j XOR W ! (j + 4)) [0..<64];
          (A, B, C, D, E, F, G, H) =
            foldl (sm3_round W W1)
              (ucast (state ! 0), ucast (state ! 1), ucast (state ! 2), ucast (state ! 3),
               ucast (state ! 4), ucast (state ! 5), ucast (state ! 6), ucast (state ! 7)) [0..<64]
      in [state ! 0 XOR ucast A, state ! 1 XOR ucast B, state ! 2 XOR ucast C, state ! 3 XOR ucast D,
          state ! 4 XOR ucast E, state ! 5 XOR ucast F, state ! 6 XOR ucast G, state ! 7 XOR ucast H])"

text \<open>The \<^verbatim>\<open>while (ilen >= 64)\<close> loop, on the \<open>ilen\<close> bytes at \<^verbatim>\<open>input\<close>.\<close>

function sm3_blocks :: "u64 list \<Rightarrow> bytes \<Rightarrow> u64 list \<times> bytes" where
  "sm3_blocks state input =
     (if length input \<ge> 64 then sm3_blocks (sm3_process state (take 64 input)) (drop 64 input)
      else (state, input))"
  by pat_completeness auto
termination by (relation "measure (\<lambda>(s, i). length i)") auto

declare sm3_blocks.simps [simp del]

definition sm3_update :: "sm3_context \<Rightarrow> bytes \<Rightarrow> int \<Rightarrow> sm3_context" where
  "sm3_update ctx input ilen =
     (if ilen \<le> 0 then ctx
      else
        let input = take (nat ilen) input;
            left = unat (total0 ctx AND 0x3F);
            fill = 64 - left;
            ctx = ctx\<lparr>total0 := (total0 ctx + of_int ilen) AND 0xFFFFFFFF\<rparr>;
            ctx = (if total0 ctx < ucast (of_int ilen :: u32) then ctx\<lparr>total1 := total1 ctx + 1\<rparr> else ctx);
            (ctx, input, left) =
              (if left \<noteq> 0 \<and> length input \<ge> fill then
                 let buf = memcpy (sm3_buffer ctx) left (take fill input)
                 in (ctx\<lparr>sm3_buffer := buf, sm3_state := sm3_process (sm3_state ctx) buf\<rparr>, drop fill input, 0)
               else (ctx, input, left));
            (state, input) = sm3_blocks (sm3_state ctx) input;
            ctx = ctx\<lparr>sm3_state := state\<rparr>
        in if length input > 0 then ctx\<lparr>sm3_buffer := memcpy (sm3_buffer ctx) left input\<rparr> else ctx)"

definition sm3_padding :: bytes where
  "sm3_padding = 0x80 # replicate 63 0"

definition sm3_finish :: "sm3_context \<Rightarrow> sm3_context \<times> bytes" where
  "sm3_finish ctx =
     (let high = ucast (drop_bit 29 (total0 ctx) OR push_bit 3 (total1 ctx)) :: u32;
          low = ucast (push_bit 3 (total0 ctx)) :: u32;
          msglen = PUT_ULONG_BE (ucast high) @ PUT_ULONG_BE (ucast low);
          last = ucast (total0 ctx AND 0x3F) :: u32;
          padn = (if last < 56 then 56 - last else 120 - last);
          ctx = sm3_update ctx sm3_padding (sint padn);
          ctx = sm3_update ctx msglen 8
      in (ctx, concat (map (\<lambda>i. PUT_ULONG_BE (sm3_state ctx ! i)) [0..<8])))"

text \<open>The class \<^verbatim>\<open>Sm3\<close>: the length of a string is converted to \<^verbatim>\<open>int\<close>.\<close>

definition Sm3_new :: "(nat \<Rightarrow> byte) \<Rightarrow> sm3_context" where
  "Sm3_new junk = sm3_starts (sm3_fresh junk)"

definition Sm3_Update :: "sm3_context \<Rightarrow> bytes \<Rightarrow> sm3_context" where
  "Sm3_Update ctx input = sm3_update ctx input (i32 (length input))"

definition Sm3_Final :: "sm3_context \<Rightarrow> bytes" where
  "Sm3_Final ctx = snd (sm3_finish ctx)"

definition Sm3_Crypto :: "(nat \<Rightarrow> byte) \<Rightarrow> bytes \<Rightarrow> bytes" where
  "Sm3_Crypto junk input =
     (let sm3 = sm3_starts (sm3_fresh junk);
          sm3 = sm3_update sm3 input (i32 (length input))
      in snd (sm3_finish sm3))"

definition Sm3_CryptoBase58 :: "(nat \<Rightarrow> byte) \<Rightarrow> bytes \<Rightarrow> bytes" where
  "Sm3_CryptoBase58 junk input = Encode (Sm3_Crypto junk input)"

definition sm3 :: "(nat \<Rightarrow> byte) \<Rightarrow> bytes \<Rightarrow> int \<Rightarrow> bytes" where
  "sm3 junk input ilen =
     (let ctx = sm3_starts (sm3_fresh junk); ctx = sm3_update ctx input ilen in snd (sm3_finish ctx))"

text \<open>
  \<^verbatim>\<open>sm3_file\<close>: the file is what \<^verbatim>\<open>fopen\<close> gives (\<open>None\<close> when it fails) as the list of the non-empty pieces
  the \<^verbatim>\<open>fread\<close> calls return and the \<^verbatim>\<open>ferror\<close> flag after the last one.
\<close>

definition sm3_file :: "(nat \<Rightarrow> byte) \<Rightarrow> (bytes list \<times> bool) option \<Rightarrow> bytes \<Rightarrow> int \<times> bytes" where
  "sm3_file junk f output =
     (case f of
        None \<Rightarrow> (1, output)
      | Some (bufs, err) \<Rightarrow>
          let ctx = sm3_starts (sm3_fresh junk);
              ctx = foldl (\<lambda>ctx buf. sm3_update ctx buf (i32 (length buf))) ctx bufs;
              output = snd (sm3_finish ctx)
          in (if err then 2 else 0, output))"

definition sm3_hmac_starts :: "(nat \<Rightarrow> byte) \<Rightarrow> sm3_context \<Rightarrow> bytes \<Rightarrow> int \<Rightarrow> sm3_context" where
  "sm3_hmac_starts junk ctx key keylen =
     (let (key, keylen) = (if keylen > 64 then (sm3 junk key keylen, 32) else (key, keylen));
          ctx = ctx\<lparr>ipad := replicate 64 0x36, opad := replicate 64 0x5C\<rparr>;
          ctx = foldl (\<lambda>ctx i. ctx\<lparr>ipad := (ipad ctx)[i := ipad ctx ! i XOR key ! i],
                                    opad := (opad ctx)[i := opad ctx ! i XOR key ! i]\<rparr>) ctx [0..<nat keylen];
          ctx = sm3_starts ctx
      in sm3_update ctx (ipad ctx) 64)"

definition sm3_hmac_update :: "sm3_context \<Rightarrow> bytes \<Rightarrow> int \<Rightarrow> sm3_context" where
  "sm3_hmac_update ctx input ilen = sm3_update ctx input ilen"

definition sm3_hmac_finish :: "sm3_context \<Rightarrow> sm3_context \<times> bytes" where
  "sm3_hmac_finish ctx =
     (let hlen = 32;
          (ctx, tmpbuf) = sm3_finish ctx;
          ctx = sm3_starts ctx;
          ctx = sm3_update ctx (opad ctx) 64;
          ctx = sm3_update ctx tmpbuf hlen
      in sm3_finish ctx)"

definition sm3_hmac :: "(nat \<Rightarrow> byte) \<Rightarrow> bytes \<Rightarrow> int \<Rightarrow> bytes \<Rightarrow> int \<Rightarrow> bytes" where
  "sm3_hmac junk key keylen input ilen =
     (let ctx = sm3_hmac_starts junk (sm3_fresh junk) key keylen;
          ctx = sm3_hmac_update ctx input ilen
      in snd (sm3_hmac_finish ctx))"

section \<open>The reference\<close>

text \<open>
  The compression function of the standard on eight 32 bit words: message words by recursion, rotations
  of the library, one equation per round.
\<close>

function sm3_W :: "bytes \<Rightarrow> nat \<Rightarrow> u32" where
  "sm3_W b j =
     (if j < 16 then GET_ULONG_BE b (4 * j)
      else
        let x = sm3_W b (j - 16) XOR sm3_W b (j - 9) XOR word_rotl 15 (sm3_W b (j - 3))
        in (x XOR word_rotl 15 x XOR word_rotl 23 x)
             XOR word_rotl 7 (sm3_W b (j - 13)) XOR sm3_W b (j - 6))"
  by pat_completeness auto
termination by (relation "measure snd") auto

declare sm3_W.simps [simp del]

primrec sm3_rounds :: "bytes \<Rightarrow> sm3_regs \<Rightarrow> nat \<Rightarrow> sm3_regs" where
  "sm3_rounds b V 0 = V"
| "sm3_rounds b V (Suc j) =
     (case sm3_rounds b V j of (A, B, C, D, E, F, G, H) \<Rightarrow>
        let SS1 = word_rotl 7 (word_rotl 12 A + E + word_rotl j (sm3_T j));
            SS2 = SS1 XOR word_rotl 12 A;
            TT1 = (if j < 16 then A XOR B XOR C else (A AND B) OR (A AND C) OR (B AND C))
                    + D + SS2 + (sm3_W b j XOR sm3_W b (j + 4));
            TT2 = (if j < 16 then E XOR F XOR G else (E AND F) OR (NOT E AND G)) + H + SS1 + sm3_W b j
        in (TT1, A, word_rotl 9 B, C, TT2 XOR word_rotl 9 TT2 XOR word_rotl 17 TT2, E, word_rotl 19 F, G))"

definition sm3_CF :: "sm3_regs \<Rightarrow> bytes \<Rightarrow> sm3_regs" where
  "sm3_CF V b =
     (case (V, sm3_rounds b V 64) of ((A, B, C, D, E, F, G, H), (A', B', C', D', E', F', G', H')) \<Rightarrow>
        (A XOR A', B XOR B', C XOR C', D XOR D', E XOR E', F XOR F', G XOR G', H XOR H'))"

definition sm3_V0 :: sm3_regs where
  "sm3_V0 = (0x7380166F, 0x4914B2B9, 0x172442D7, 0xDA8A0600, 0xA96F30BC, 0x163138AA, 0xE38DEE4D, 0xB0FB0E4E)"

definition regs_list :: "sm3_regs \<Rightarrow> u32 list" where
  "regs_list V = (case V of (A, B, C, D, E, F, G, H) \<Rightarrow> [A, B, C, D, E, F, G, H])"

definition sm3_digest :: "bytes \<Rightarrow> bytes" where
  "sm3_digest m =
     concat (map (be_bytes 4 \<circ> unat) (regs_list (fst (absorb sm3_CF sm3_V0 (md_pad (be_bytes 8) m)))))"

section \<open>The compression function\<close>


lemma ROTL_rotl: "0 \<le> n \<Longrightarrow> ROTL x n = word_rotl (nat n) x"
proof -
  assume n: "0 \<le> n"
  have "(0xFFFFFFFF :: u32) = - 1" by simp
  then have "x AND 0xFFFFFFFF = x" by (simp only: and.right_neutral)
  moreover have "nat (n mod 32) = nat n mod 32" using n by (simp add: nat_mod_distrib)
  moreover have "nat ((32 - n) mod 32) = (32 - nat n mod 32) mod 32"
  proof -
    have "int (nat n mod 32) = n mod 32" using n by (simp add: zmod_int)
    then have "int ((32 - nat n mod 32) mod 32) = (32 - n mod 32) mod 32"
      by (simp add: zmod_int)
    also have "\<dots> = (32 - n) mod 32" by (rule mod_diff_right_eq)
    finally show ?thesis by linarith
  qed
  ultimately show ?thesis by (simp add: ROTL_def SHL_def rotl_or)
qed


lemma foldl_extend:
  assumes "\<And>n. k \<le> n \<Longrightarrow> g (map w [0..<n]) n = map w [0..<n] @ [w n]"
  shows "foldl g (map w [0..<k]) [k..<k + n] = map w [0..<k + n]"
proof (induction n)
  case (Suc n)
  then show ?case using assms [of "k + n"] by simp
qed simp

lemma sm3_expand_W: "sm3_expand b = map (sm3_W b) [0..<68]"
proof -
  have start: "map (\<lambda>i. GET_ULONG_BE b (4 * i)) [0..<16] = map (sm3_W b) [0..<16]"
    by (rule map_cong [OF refl]) (subst sm3_W.simps, simp del: upt_Suc)
  have bounds: "[16..<68] = [16..<16 + (52 :: nat)]" "[0..<68] = [0..<16 + (52 :: nat)]"
    by (simp_all only: numeral_plus_numeral Num.add_num_simps)
  show ?thesis unfolding sm3_expand_def start bounds
  proof (rule foldl_extend)
    fix n :: nat
    assume "16 \<le> n"
    then show "(let Temp1 = map (sm3_W b) [0..<n] ! (n - 16) XOR map (sm3_W b) [0..<n] ! (n - 9);
                  Temp2 = ROTL (map (sm3_W b) [0..<n] ! (n - 3)) 15;
                  Temp3 = Temp1 XOR Temp2;
                  Temp4 = P1 Temp3;
                  Temp5 = ROTL (map (sm3_W b) [0..<n] ! (n - 13)) 7 XOR map (sm3_W b) [0..<n] ! (n - 6)
              in map (sm3_W b) [0..<n] @ [Temp4 XOR Temp5]) = map (sm3_W b) [0..<n] @ [sm3_W b n]"
      by (subst sm3_W.simps [of b n]) (simp add: Let_def ROTL_rotl P1_def ac_simps del: upt_Suc)
  qed
qed

lemma sm3_round_ref:
  assumes "j < 64"
  shows "sm3_round (map (sm3_W b) [0..<68]) (map (\<lambda>j. map (sm3_W b) [0..<68] ! j XOR map (sm3_W b) [0..<68] ! (j + 4)) [0..<64])
           (sm3_rounds b V j) j = sm3_rounds b V (Suc j)"
proof -
  obtain A B C D E F G H where V: "sm3_rounds b V j = (A, B, C, D, E, F, G, H)" by (metis surj_pair)
  show ?thesis
    using assms
    by (simp add: V sm3_round_def ROTL_rotl Let_def P0_def FF0_def FF1_def GG0_def GG1_def del: upt_Suc)
qed

lemma sm3_loop_ref:
  assumes "n \<le> 64"
  shows "foldl (sm3_round (map (sm3_W b) [0..<68]) (map (\<lambda>j. map (sm3_W b) [0..<68] ! j XOR map (sm3_W b) [0..<68] ! (j + 4)) [0..<64]))
           V [0..<n] = sm3_rounds b V n"
  using assms
proof (induction n)
  case (Suc n)
  then show ?case using sm3_round_ref [of n b V] by simp
qed simp

definition sm3_words :: "sm3_regs \<Rightarrow> u64 list" where
  "sm3_words V = map ucast (regs_list V)"

lemma sm3_process_CF: "sm3_process (sm3_words V) b = sm3_words (sm3_CF V b)"
proof -
  obtain A B C D E F G H where V: "V = (A, B, C, D, E, F, G, H)" by (metis surj_pair)
  obtain A' B' C' D' E' F' G' H' where R: "sm3_rounds b V 64 = (A', B', C', D', E', F', G', H')" by (metis surj_pair)
  have cast: "ucast (ucast x :: u64) = x" for x :: u32
    by (rule bit_word_eqI) (auto simp: bit_simps)
  have x: "ucast x XOR ucast y = (ucast (x XOR y) :: u64)" for x y :: u32
    by (rule bit_word_eqI) (auto simp: bit_simps)
  have "foldl (sm3_round (sm3_expand b) (map (\<lambda>j. sm3_expand b ! j XOR sm3_expand b ! (j + 4)) [0..<64])) V [0..<64]
      = (A', B', C', D', E', F', G', H')"
    unfolding sm3_expand_W using sm3_loop_ref [of 64 b V] R by simp
  then show ?thesis
    unfolding sm3_process_def sm3_CF_def R
    by (simp only: V sm3_words_def regs_list_def prod.case list.map nth_Cons_0 nth_Cons_numeral Let_def) (simp add: cast x)
qed

section \<open>Updating\<close>

lemma sm3_blocks_absorb: "sm3_blocks s m = absorb sm3_process s m"
proof (induction s m rule: sm3_blocks.induct)
  case (1 s m)
  then show ?case by (simp add: sm3_blocks.simps [of s m] absorb.simps [of _ s m])
qed

definition sm3_rep :: "sm3_context \<Rightarrow> bytes \<Rightarrow> bool" where
  "sm3_rep ctx m \<longleftrightarrow>
     buffered sm3_process SM3_IV m (sm3_state ctx) (sm3_buffer ctx) \<and>
     total0 ctx = of_nat (length m mod 2 ^ 32) \<and> total1 ctx = of_nat (length m div 2 ^ 32)"

lemma sm3_starts_rep: "length (sm3_buffer ctx) = 64 \<Longrightarrow> sm3_rep (sm3_starts ctx) []"
  by (simp add: sm3_rep_def sm3_starts_def buffered_init)

lemma sm3_left: "sm3_rep ctx m \<Longrightarrow> unat (total0 ctx AND 0x3F) = length m mod 64"
proof -
  assume r: "sm3_rep ctx m"
  have "total0 ctx AND 0x3F = take_bit 6 (total0 ctx)" by (simp add: take_bit_eq_mask mask_eq_exp_minus_1)
  also have "\<dots> = of_nat (length m mod 64)"
    using r unfolding sm3_rep_def
    by (simp add: take_bit_of_nat) (simp add: take_bit_eq_mod mod_mod_cancel)
  finally show ?thesis by (simp add: unsigned_of_nat take_bit_eq_mod mod_mod_cancel)
qed

lemma sm3_count:
  fixes n k :: nat
  assumes "k < 2 ^ 32"
  defines "t \<equiv> (of_nat (n mod 2 ^ 32) + of_nat k :: u64) AND 0xFFFFFFFF"
  shows "t = of_nat ((n + k) mod 2 ^ 32)"
    and "(if t < ucast (of_nat k :: u32) then of_nat (n div 2 ^ 32) + 1 else of_nat (n div 2 ^ 32)) = (of_nat ((n + k) div 2 ^ 32) :: u64)"
proof -
  have "t = take_bit 32 (of_nat (n mod 2 ^ 32 + k))" by (simp add: t_def take_bit_eq_mask mask_eq_exp_minus_1)
  also have "\<dots> = of_nat ((n mod 2 ^ 32 + k) mod 2 ^ 32)" by (subst take_bit_of_nat) (simp only: take_bit_eq_mod)
  finally show t: "t = of_nat ((n + k) mod 2 ^ 32)" by (simp only: mod_add_left_eq)
  have u: "unat t = (n mod 2 ^ 32 + k) mod 2 ^ 32"
    unfolding t by (simp add: unsigned_of_nat take_bit_eq_mod mod_mod_cancel mod_simps)
  have v: "unat (ucast (of_nat k :: u32) :: u64) = k"
    using assms(1) by (simp add: unsigned_ucast_eq unsigned_of_nat take_bit_eq_mod)
  have lt: "t < ucast (of_nat k :: u32) \<longleftrightarrow> 2 ^ 32 \<le> n mod 2 ^ 32 + k"
  proof -
    have "n mod 2 ^ 32 < 2 ^ 32" by simp
    then show ?thesis
      unfolding word_less_nat_alt u v using assms(1)
      by (cases "2 ^ 32 \<le> n mod 2 ^ 32 + k") (simp_all add: le_mod_geq)
  qed
  have "(n + k) div 2 ^ 32 = n div 2 ^ 32 + (n mod 2 ^ 32 + k) div 2 ^ 32"
    by (metis add.assoc div_mult_mod_eq div_mult_self4 mult.commute power_not_zero zero_neq_numeral)
  moreover have "(n mod 2 ^ 32 + k) div 2 ^ 32 = (if 2 ^ 32 \<le> n mod 2 ^ 32 + k then 1 else 0)"
    using assms(1) mod_less_divisor [of "2 ^ 32" n] by (simp add: div_if)
  ultimately show "(if t < ucast (of_nat k :: u32) then of_nat (n div 2 ^ 32) + 1 else of_nat (n div 2 ^ 32)) = (of_nat ((n + k) div 2 ^ 32) :: u64)"
    unfolding lt by simp
qed


lemma sm3_update_rep:
  assumes r: "sm3_rep ctx m" and n: "0 \<le> n" "n < 2 ^ 31" "n \<le> int (length input)"
  shows "sm3_rep (sm3_update ctx input n) (m @ take (nat n) input)"
proof (cases "n = 0")
  case True
  then show ?thesis using r by (simp add: sm3_update_def)
next
  case False
  define x where "x = take (nat n) input"
  have len: "length x = nat n" using n by (simp add: x_def)
  have b: "buffered sm3_process SM3_IV m (sm3_state ctx) (sm3_buffer ctx)"
    using r by (simp add: sm3_rep_def)
  let ?left = "length m mod 64" and ?fill = "64 - length m mod 64"
  have n': "of_int n = (of_nat (nat n) :: 'a :: len word)" using n(1) by simp
  have "nat n < 2 ^ 32" using n(1,2) by simp
  note c = sm3_count [OF this, of "length m"]
  have t0: "(total0 ctx + of_int n) AND 0xFFFFFFFF = of_nat (length (m @ x) mod 2 ^ 32)"
    using r unfolding sm3_rep_def n' length_append len c(1) [symmetric] by simp
  have t1: "(if (total0 ctx + of_int n) AND 0xFFFFFFFF < ucast (of_int n :: u32)
               then total1 ctx + 1 else total1 ctx) = of_nat (length (m @ x) div 2 ^ 32)"
    using r unfolding sm3_rep_def n' length_append len c(2) [symmetric] by simp
  have rep: "sm3_rep c (m @ x)"
    if "buffered sm3_process SM3_IV (m @ x) (sm3_state c) (sm3_buffer c)"
      "total0 c = (total0 ctx + of_int n) AND 0xFFFFFFFF"
      "total1 c = (if (total0 ctx + of_int n) AND 0xFFFFFFFF < ucast (of_int n :: u32)
                   then total1 ctx + 1 else total1 ctx)" for c
    using that(1) that(2) [unfolded t0] that(3) [unfolded t1] by (simp add: sm3_rep_def)
  have mc: "memcpy buf j [] = buf" for buf j by (simp add: memcpy_def)
  note upd' = sm3_update_def sm3_left [OF r] x_def [symmetric] sm3_blocks_absorb mc
  consider (aligned) "?left = 0" | (fill) "?left \<noteq> 0" "?fill \<le> length x" | (fits) "?left \<noteq> 0" "?left + length x < 64"
    by linarith
  then have "sm3_rep (sm3_update ctx input n) (m @ x)"
  proof cases
    case aligned
    obtain s' rest where a: "absorb sm3_process (sm3_state ctx) x = (s', rest)" by (metis surj_pair)
    from buffered_blocks [OF b aligned a] show ?thesis
      using False n aligned a by (intro rep) (auto simp: upd' Let_def)
  next
    case fill
    obtain s' rest where a: "absorb sm3_process (sm3_process (sm3_state ctx) (memcpy (sm3_buffer ctx) ?left (take ?fill x)))
        (drop ?fill x) = (s', rest)" by (metis surj_pair)
    from buffered_fill [OF b fill(2) refl a] show ?thesis
      using False n fill a by (intro rep) (auto simp: upd' Let_def)
  next
    case fits
    then have a: "absorb sm3_process (sm3_state ctx) x = (sm3_state ctx, x)" by (intro absorb_short) simp
    from buffered_fits [OF b fits(2)] show ?thesis
      using False n fits a by (intro rep) (auto simp: upd' Let_def)
  qed
  then show ?thesis by (simp add: x_def)
qed


section \<open>Finishing\<close>

lemma be_bytes_8: "be_bytes 8 n = be_bytes 4 (n div 2 ^ 32) @ be_bytes 4 n"
proof -
  have u: "[0..<8] = [0, 1, 2, 3, 4, 5, 6, 7 :: nat]" "[0..<4] = [0, 1, 2, 3 :: nat]" by (simp_all add: upt_rec)
  show ?thesis by (simp add: be_bytes_def u div_mult2_eq [symmetric])
qed

lemma be_bytes_u32: "be_bytes 4 (unat (of_nat n :: u32)) = be_bytes 4 n"
proof -
  have *: "of_nat (unat (of_nat n :: u32) div 256 ^ k) = (of_nat (n div 256 ^ k) :: byte)" if "k < 4" for k
  proof -
    have "(256 :: nat) ^ k = 2 ^ (8 * k)" by (simp add: power_mult)
    then show ?thesis using that
      by (intro bit_word_eqI) (auto simp: bit_simps simp flip: drop_bit_eq_div)
  qed
  show ?thesis unfolding be_bytes_def by (rule map_cong [OF refl]) (simp add: *)
qed

lemma PUT_ULONG_BE_bytes: "PUT_ULONG_BE (ucast w) = be_bytes 4 (unat w)" for w :: u32
proof -
  have *: "ucast (drop_bit k (ucast w :: u64)) = (of_nat (unat w div 2 ^ k) :: byte)" if "k < 32" for k
    using that by (intro bit_word_eqI) (auto simp: bit_simps simp flip: drop_bit_eq_div)
  have u: "[0..<4] = [0, 1, 2, 3 :: nat]" by (simp add: upt_rec)
  show ?thesis
    using * [of 24] * [of 16] * [of 8] * [of 0] by (simp add: PUT_ULONG_BE_def be_bytes_def u)
qed

lemma sm3_msglen:
  assumes "sm3_rep ctx m"
  shows "PUT_ULONG_BE (ucast (ucast (drop_bit 29 (total0 ctx) OR push_bit 3 (total1 ctx)) :: u32)) @
         PUT_ULONG_BE (ucast (ucast (push_bit 3 (total0 ctx)) :: u32)) = be_bytes 8 (8 * length m)"
proof -
  let ?L = "length m"
  have t0: "bit (total0 ctx) i \<longleftrightarrow> i < 32 \<and> bit ?L i" for i
    using assms unfolding sm3_rep_def take_bit_eq_mod [symmetric] by (auto simp: bit_simps)
  have t1: "bit (total1 ctx) i \<longleftrightarrow> i < 64 \<and> bit ?L (32 + i)" for i
    using assms unfolding sm3_rep_def drop_bit_eq_div [symmetric] by (auto simp: bit_simps)
  have shift: "8 * ?L = push_bit 3 ?L" by (simp add: push_bit_eq_mult)
  have len8: "8 * ?L div 2 ^ 32 = drop_bit 29 ?L"
    by (simp add: drop_bit_eq_div)
  have "ucast (drop_bit 29 (total0 ctx) OR push_bit 3 (total1 ctx)) = (of_nat (8 * ?L div 2 ^ 32) :: u32)"
    unfolding len8 by (rule bit_word_eqI) (auto simp: bit_simps t0 t1)
  moreover have "ucast (push_bit 3 (total0 ctx)) = (of_nat (8 * ?L) :: u32)"
    unfolding shift by (rule bit_word_eqI) (auto simp: bit_simps t0)
  ultimately show ?thesis by (simp only: be_bytes_8 PUT_ULONG_BE_bytes be_bytes_u32)
qed

lemma sm3_padn:
  assumes r: "sm3_rep ctx m"
  defines "rest \<equiv> ucast (total0 ctx AND 0x3F) :: u32"
  shows "sint (if rest < 56 then 56 - rest else 120 - rest) = int (Suc (pad_zeros (length m)))"
proof -
  let ?last = "length m mod 64"
  have rest: "unat rest = ?last"
    using sm3_left [OF r] by (simp add: rest_def unsigned_ucast_eq take_bit_eq_mod)
  have lt: "?last < 64" by simp
  have "unat (if rest < 56 then 56 - rest else 120 - rest) = Suc (pad_zeros (length m))"
  proof (cases "?last < 56")
    case True
    then show ?thesis using rest unfolding pad_zeros_def word_less_nat_alt
      by (simp add: unat_sub word_le_nat_alt le_mod_geq)
  next
    case False
    then show ?thesis using rest lt unfolding pad_zeros_def word_less_nat_alt
      by (simp add: unat_sub word_le_nat_alt)
  qed
  moreover have "Suc (pad_zeros (length m)) < 2 ^ 31" by (simp add: pad_zeros_def)
  ultimately show ?thesis by (subst sint_nonneg_eq) (simp_all add: sint_nonneg_iff)
qed

lemma sm3_finish_digest:
  assumes r: "sm3_rep ctx m"
  shows "snd (sm3_finish ctx) = sm3_digest m"
proof -
  have pad: "take (Suc (pad_zeros (length m))) sm3_padding = 0x80 # replicate (pad_zeros (length m)) 0"
    by (simp add: sm3_padding_def pad_zeros_def)
  define ctx1 where "ctx1 = sm3_update ctx sm3_padding (int (Suc (pad_zeros (length m))))"
  have "pad_zeros (length m) < 64" by (simp add: pad_zeros_def)
  then have r1: "sm3_rep ctx1 (m @ 0x80 # replicate (pad_zeros (length m)) 0)"
    using sm3_update_rep [OF r, of "int (Suc (pad_zeros (length m)))" sm3_padding]
    unfolding nat_int pad ctx1_def by (simp add: sm3_padding_def)
  define ctx2 where "ctx2 = sm3_update ctx1 (be_bytes 8 (8 * length m)) 8"
  have r2: "sm3_rep ctx2 (md_pad (be_bytes 8) m)"
    using sm3_update_rep [OF r1, of 8 "be_bytes 8 (8 * length m)"]
    by (simp add: ctx2_def be_bytes_def md_pad_def)
  obtain V where V: "fst (absorb sm3_CF sm3_V0 (md_pad (be_bytes 8) m)) = V" by simp
  have iv: "SM3_IV = sm3_words sm3_V0" by (simp add: SM3_IV_def sm3_words_def sm3_V0_def regs_list_def)
  have st: "sm3_state ctx2 = sm3_words V"
    using r2 V absorb_hom [of sm3_process sm3_words sm3_CF sm3_V0 "md_pad (be_bytes 8) m"] sm3_process_CF
    unfolding sm3_rep_def buffered_def iv by (auto split: prod.splits)
  have out8: "concat (map (\<lambda>i. PUT_ULONG_BE (sm3_words V ! i)) [0..<8]) = concat (map (be_bytes 4 \<circ> unat) (regs_list V))"
  proof -
    obtain A B C D E F G H where "V = (A, B, C, D, E, F, G, H)" by (metis surj_pair)
    moreover have "[0..<8] = [0, 1, 2, 3, 4, 5, 6, 7 :: nat]" by (simp add: upt_rec)
    ultimately show ?thesis by (simp add: sm3_words_def regs_list_def PUT_ULONG_BE_bytes)
  qed
  have "snd (sm3_finish ctx) = concat (map (\<lambda>i. PUT_ULONG_BE (sm3_state ctx2 ! i)) [0..<8])"
    unfolding sm3_finish_def Let_def sm3_msglen [OF r] sm3_padn [OF r] ctx1_def [symmetric] ctx2_def [symmetric] by simp
  then show ?thesis by (simp only: st out8 sm3_digest_def V)
qed

section \<open>The interface\<close>

lemma sm3_fresh_buffer [simp]: "length (sm3_buffer (sm3_fresh junk)) = 64"
  by (simp add: sm3_fresh_def)

interpretation sm3h: streaming_hash "Sm3_new junk" Sm3_Update Sm3_Final sm3_rep sm3_digest "\<lambda>x. length x < 2 ^ 31"
  for junk
proof
  show "sm3_rep (Sm3_new junk) []" by (simp add: Sm3_new_def sm3_starts_rep)
  show "sm3_rep (Sm3_Update c x) (m @ x)" if "sm3_rep c m" "length x < 2 ^ 31" for c m x
    using sm3_update_rep [OF that(1), of "int (length x)" x] that(2) by (simp add: Sm3_Update_def i32_small)
  show "Sm3_Final c = sm3_digest m" if "sm3_rep c m" for c m
    using sm3_finish_digest [OF that] by (simp add: Sm3_Final_def)
qed

lemma Sm3_Crypto_stream: "Sm3_Crypto junk x = Sm3_Final (Sm3_Update (Sm3_new junk) x)"
  by (simp add: Sm3_Crypto_def Sm3_Final_def Sm3_Update_def Sm3_new_def)

lemma sm3_file_stream:
  "sm3_file junk (Some (bufs, err)) old = (if err then 2 else 0, Sm3_Final (foldl Sm3_Update (Sm3_new junk) bufs))"
  by (simp add: sm3_file_def Sm3_Final_def Sm3_Update_def [abs_def] Sm3_new_def)

lemma Sm3_Crypto_digest: "length x < 2 ^ 31 \<Longrightarrow> Sm3_Crypto junk x = sm3_digest x"
  unfolding Sm3_Crypto_stream by (rule sm3h.one_shot)

text \<open>
  A string of $2^{31}$ to $2^{32} - 1$ bytes has a negative length as \<^verbatim>\<open>int\<close>, and the update ignores it.
\<close>

lemma Sm3_ignores_long:
  assumes "2 ^ 31 \<le> length x" "length x < 2 ^ 32"
  shows "Sm3_Crypto junk x = sm3_digest []"
proof -
  have "i32 (length x) \<le> 0"
  proof -
    have "unat (of_nat (length x) :: u32) = length x"
      using assms(2) by (simp add: unsigned_of_nat take_bit_eq_mod)
    then have "\<not> 0 \<le> sint (of_nat (length x) :: u32)" using assms(1) unfolding sint_nonneg_iff by simp
    then show ?thesis by (simp add: i32_def)
  qed
  then have "Sm3_Update (Sm3_new junk) x = Sm3_new junk" by (simp add: Sm3_Update_def sm3_update_def)
  then show ?thesis using sm3h.final_digest [OF sm3h.rep_init] by (simp add: Sm3_Crypto_stream)
qed

lemma sm3_prefix:
  assumes "0 \<le> n" "n < 2 ^ 31" "n \<le> int (length x)"
  shows "sm3 junk x n = sm3_digest (take (nat n) x)"
  using sm3_finish_digest [OF sm3_update_rep [OF sm3_starts_rep assms]] by (simp add: sm3_def)

lemma length_sm3_digest [simp]: "length (sm3_digest m) = 32"
proof -
  obtain A B C D E F G H where "fst (absorb sm3_CF sm3_V0 (md_pad (be_bytes 8) m)) = (A, B, C, D, E, F, G, H)"
    by (metis surj_pair)
  then show ?thesis by (simp add: sm3_digest_def regs_list_def be_bytes_def)
qed

section \<open>HMAC\<close>

lemma sm3_update_pads [simp]:
  "ipad (sm3_update ctx x n) = ipad ctx" "opad (sm3_update ctx x n) = opad ctx"
  by (simp_all add: sm3_update_def Let_def split: prod.split)

lemma sm3_finish_ctx:
  assumes "sm3_rep ctx m"
  shows "length (sm3_buffer (fst (sm3_finish ctx))) = 64 \<and> opad (fst (sm3_finish ctx)) = opad ctx"
proof -
  have "pad_zeros (length m) < 64" by (simp add: pad_zeros_def)
  define n where "n = sint (if ucast (total0 ctx AND 0x3F) < (56 :: u32) then 56 - ucast (total0 ctx AND 0x3F) else 120 - ucast (total0 ctx AND 0x3F :: u64) :: u32)"
  have n: "n = int (Suc (pad_zeros (length m)))" unfolding n_def by (rule sm3_padn [OF assms])
  have "sm3_rep (sm3_update ctx sm3_padding n) (m @ take (nat n) sm3_padding)"
    by (rule sm3_update_rep [OF assms]) (use \<open>pad_zeros (length m) < 64\<close> in \<open>simp_all add: n sm3_padding_def\<close>)
  from sm3_update_rep [OF this, of 8 "be_bytes 8 (8 * length m)"]
  have "buffered sm3_process SM3_IV (m @ take (nat n) sm3_padding @ be_bytes 8 (8 * length m))
    (sm3_state (sm3_update (sm3_update ctx sm3_padding n) (be_bytes 8 (8 * length m)) 8))
    (sm3_buffer (sm3_update (sm3_update ctx sm3_padding n) (be_bytes 8 (8 * length m)) 8))"
    by (simp add: sm3_rep_def be_bytes_def)
  then show ?thesis
    unfolding sm3_finish_def Let_def sm3_msglen [OF assms] n_def [symmetric] by (simp add: buffered_def)
qed

lemma xor_loop:
  assumes "n \<le> length key" "n \<le> 64"
  shows "foldl (\<lambda>ctx i. ctx\<lparr>ipad := (ipad ctx)[i := ipad ctx ! i XOR key ! i],
                                    opad := (opad ctx)[i := opad ctx ! i XOR key ! i]\<rparr>)
           (ctx\<lparr>ipad := replicate 64 a, opad := replicate 64 b\<rparr>) [0..<n]
       = ctx\<lparr>ipad := map ((XOR) a) (take n key @ replicate (64 - n) 0),
             opad := map ((XOR) b) (take n key @ replicate (64 - n) 0)\<rparr>"
  using assms
proof (induction n)
  case (Suc n)
  have step: "(map ((XOR) c) (take n key @ replicate (64 - n) 0))[n := map ((XOR) c) (take n key @ replicate (64 - n) 0) ! n XOR key ! n]
      = map ((XOR) c) (take (Suc n) key @ replicate (64 - Suc n) 0)" for c :: byte
    using Suc by (intro nth_equalityI) (auto simp: nth_append nth_list_update less_Suc_eq)
  have "n \<le> length key" "n \<le> 64" "[0..<Suc n] = [0..<n] @ [n]" using Suc.prems by simp_all
  then show ?case
    using step [of a] step [of b] Suc.IH by (simp only: foldl_append foldl_Cons foldl_Nil) simp
qed simp


lemma sm3_hmac_starts_rep:
  assumes b: "length (sm3_buffer ctx) = 64" and n: "length key < 2 ^ 31"
  shows "sm3_rep (sm3_hmac_starts junk ctx key (int (length key))) (map ((XOR) 0x36) (hmac_key sm3_digest key))"
    and "opad (sm3_hmac_starts junk ctx key (int (length key))) = map ((XOR) 0x5C) (hmac_key sm3_digest key)"
proof -
  define k where "k = (if 64 < length key then sm3_digest key else key)"
  have key: "(if 64 < int (length key) then (sm3 junk key (int (length key)), 32) else (key, int (length key)))
      = (k, int (length k))"
    using n by (simp add: k_def sm3_prefix)
  have k64: "length k \<le> 64" by (simp add: k_def)
  have hk: "hmac_key sm3_digest key = take (length k) k @ replicate (64 - length k) 0"
    by (simp add: hmac_key_def k_def)
  have len: "length (hmac_key sm3_digest key) = 64" using k64 by (simp add: hk)
  let ?c = "sm3_starts (ctx\<lparr>ipad := map ((XOR) 0x36) (hmac_key sm3_digest key), opad := map ((XOR) 0x5C) (hmac_key sm3_digest key)\<rparr>)"
  have eq: "sm3_hmac_starts junk ctx key (int (length key)) = sm3_update ?c (ipad ?c) 64"
    unfolding sm3_hmac_starts_def key Let_def prod.case nat_int xor_loop [OF order_refl k64] hk ..
  have "sm3_rep ?c []" by (rule sm3_starts_rep) (simp add: b)
  from sm3_update_rep [OF this, of 64 "ipad ?c"] len
  show "sm3_rep (sm3_hmac_starts junk ctx key (int (length key))) (map ((XOR) 0x36) (hmac_key sm3_digest key))"
    unfolding eq by (simp add: sm3_starts_def)
  show "opad (sm3_hmac_starts junk ctx key (int (length key))) = map ((XOR) 0x5C) (hmac_key sm3_digest key)"
    unfolding eq by (simp add: sm3_starts_def)
qed

lemma sm3_hmac_finish_digest:
  assumes r: "sm3_rep ctx m" and o: "length (opad ctx) = 64"
  shows "snd (sm3_hmac_finish ctx) = sm3_digest (opad ctx @ sm3_digest m)"
proof -
  obtain c t where f: "sm3_finish ctx = (c, t)" by fastforce
  have t: "t = sm3_digest m" "length (sm3_buffer c) = 64" "opad c = opad ctx"
    using sm3_finish_digest [OF r] sm3_finish_ctx [OF r] f by simp_all
  let ?c1 = "sm3_update (sm3_starts c) (opad (sm3_starts c)) 64"
  have op: "opad (sm3_starts c) = opad ctx" using t by (simp add: sm3_starts_def)
  have "sm3_rep ?c1 (opad ctx)"
    using sm3_update_rep [OF sm3_starts_rep [OF t(2)], of 64 "opad ctx"] o op by simp
  from sm3_update_rep [OF this, of 32 t] have "sm3_rep (sm3_update ?c1 t 32) (opad ctx @ t)" by (simp add: t)
  from sm3_finish_digest [OF this] show ?thesis by (simp add: sm3_hmac_finish_def f t Let_def)
qed

text \<open>
  Claim C1. Hashing with the class \<^verbatim>\<open>Sm3\<close> gives the SM3 digest of the standard, whatever the bytes of the
  uninitialised context: \<^verbatim>\<open>Crypto\<close> in one call, \<^verbatim>\<open>Update\<close> and \<^verbatim>\<open>Final\<close> on any division of the message into
  pieces of less than $2^{31}$ bytes, and \<^verbatim>\<open>sm3_file\<close> on a file that is read in such pieces, which also
  reports a read error; a file that cannot be opened leaves the output alone. A string of $2^{31}$ bytes or more, up to $2^{32} - 1$, is not hashed:
  it gets the digest of the empty string.
\<close>

theorem sm3_correct:
  assumes "list_all (\<lambda>x. length x < 2 ^ 31) bufs" and "length m < 2 ^ 31"
  shows "Sm3_Crypto junk m = sm3_digest m \<and>
         Sm3_Final (foldl Sm3_Update (Sm3_new junk) bufs) = sm3_digest (concat bufs) \<and>
         sm3_file junk (Some (bufs, err)) old = (if err then 2 else 0, sm3_digest (concat bufs)) \<and>
         sm3_file junk None old = (1, old) \<and>
         (2 ^ 31 \<le> length x \<and> length x < 2 ^ 32 \<longrightarrow> Sm3_Crypto junk x = sm3_digest [])"
  using sm3h.in_pieces [OF assms(1)] Sm3_Crypto_digest [OF assms(2)] sm3_file_stream Sm3_ignores_long [of x junk]
  by (simp add: sm3_file_def)

theorem sm3_correct_witness:
  "Sm3_Crypto (\<lambda>i. 7) (lit ''abc'') = sm3_digest (lit ''abc'') \<and>
   Sm3_Final (foldl Sm3_Update (Sm3_new (\<lambda>i. 7)) [lit ''a'', lit ''bc'']) = sm3_digest (lit ''abc'')"
  using sm3_correct [of "[lit ''a'', lit ''bc'']" "lit ''abc''" "\<lambda>i. 7" False "[]" "[]"] by (simp add: lit_def)

text \<open>
  Claim C23. \<^verbatim>\<open>sm3_hmac\<close> computes HMAC with SM3 as its hash: keys longer than a block are hashed first, shorter ones
  padded with zeros, and the digest is \<open>H ((K xor opad) || H ((K xor ipad) || m))\<close>.
\<close>

theorem sm3_hmac_correct:
  assumes "length key < 2 ^ 31" and "length m < 2 ^ 31"
  shows "sm3_hmac junk key (int (length key)) m (int (length m)) = hmac sm3_digest key m"
proof -
  let ?c = "sm3_hmac_starts junk (sm3_fresh junk) key (int (length key))"
  note s = sm3_hmac_starts_rep [OF sm3_fresh_buffer assms(1), where junk1 = junk and junk = junk]
  have len: "length (hmac_key sm3_digest key) = 64" by (simp add: hmac_key_def Let_def)
  have "sm3_rep (sm3_update ?c m (int (length m))) (map ((XOR) 0x36) (hmac_key sm3_digest key) @ m)"
    using sm3_update_rep [OF s(1), of "int (length m)" m] assms(2) by simp
  from sm3_hmac_finish_digest [OF this] show ?thesis
    by (simp add: sm3_hmac_def sm3_hmac_update_def s(2) len hmac_def)
qed

theorem sm3_hmac_correct_witness:
  "sm3_hmac (\<lambda>i. 7) (lit ''key'') 3 (lit ''abc'') 3 = hmac sm3_digest (lit ''key'') (lit ''abc'')"
  using sm3_hmac_correct [of "lit ''key''" "lit ''abc''" "\<lambda>i. 7"] by (simp add: lit_def)

end
