(* ===== verification/Sm2.thy ===== *)
theory Sm2
  imports Sm3
begin

text \<open>
  The SM2 signatures of \<^verbatim>\<open>src/ec/ecc_sm2.cpp\<close>: the class \<^verbatim>\<open>EccSm2\<close> with its keys, \<^verbatim>\<open>Sign\<close>, \<^verbatim>\<open>verify\<close> and the identity digest
  \<^verbatim>\<open>getZA\<close>, over the digest of \<open>Sm3\<close>. Curves and big numbers belong to OpenSSL: the operations on points, the texts and inverses of
  numbers and the primality test are parameters. Random numbers are a list of draws, where no number is a
  failed draw; no result is a list that ends too early. The theory shows that signatures verify, and which key has none.
\<close>

section \<open>The library\<close>

text \<open>
  Big numbers are natural numbers with their arithmetic; their texts, the inverse and the points of the curve are the library's. \<open>point_mul k None\<close>
  is $k$ times the generator, \<open>point_mul k (Some (P, t))\<close> adds $t$ times $P$. The coordinates are \<open>None\<close> for the point at infinity.
\<close>

record bn_library =
  BN_bin2bn :: "bytes \<Rightarrow> nat"
  BN_bn2bin :: "nat \<Rightarrow> bytes"
  BN_bn2hex :: "nat \<Rightarrow> bytes"

record 'p ec_group = bn_library +
  ec_order :: nat
  ec_a :: nat
  ec_b :: nat
  point_new :: 'p
  generator :: 'p
  point_mul :: "nat \<Rightarrow> ('p \<times> nat) option \<Rightarrow> 'p"
  get_affine :: "'p \<Rightarrow> (nat \<times> nat) option"
  set_affine :: "nat \<Rightarrow> nat \<Rightarrow> 'p"
  mod_inverse :: "nat \<Rightarrow> nat option"

definition BN_mod_sub :: "nat \<Rightarrow> nat \<Rightarrow> nat \<Rightarrow> nat" where
  "BN_mod_sub a b m = nat ((int a - int b) mod int m)"

definition BN_num_bytes :: "'z bn_library_scheme \<Rightarrow> nat \<Rightarrow> nat" where
  "BN_num_bytes L n = length (BN_bn2bin L n)"

definition Bn2FixedString :: "'z bn_library_scheme \<Rightarrow> nat \<Rightarrow> nat \<Rightarrow> bytes" where
  "Bn2FixedString L bn len =
     (let tmp = BN_bn2bin L bn; l = length tmp
      in if l \<le> len then replicate (len - l) 0 @ tmp else drop (l - len) tmp)"

text \<open>What is relied on: numbers are written in big endian bytes, leading zeros do not count; a group of prime order with coordinates of 256 bits.\<close>

definition bn_laws :: "'z bn_library_scheme \<Rightarrow> bool" where
  "bn_laws L \<longleftrightarrow>
     (\<forall>z n. BN_bin2bn L (replicate z 0 @ BN_bn2bin L n) = n) \<and> (\<forall>n. n < 2 ^ 256 \<longrightarrow> length (BN_bn2bin L n) \<le> 32)"

definition group_laws :: "'p ec_group \<Rightarrow> bool" where
  "group_laws g \<longleftrightarrow>
     bn_laws g \<and> 1 < ec_order g \<and> ec_order g \<le> 2 ^ 256 \<and>
     (\<forall>k. point_mul g k None = point_mul g (k mod ec_order g) None) \<and>
     (\<forall>k d t. point_mul g k (Some (point_mul g d None, t)) = point_mul g (k + d * t) None) \<and>
     (\<forall>k. get_affine g (point_mul g k None) = None \<longleftrightarrow> k mod ec_order g = 0) \<and>
     (\<forall>k x y. get_affine g (point_mul g k None) = Some (x, y) \<longrightarrow>
        x < 2 ^ 256 \<and> y < 2 ^ 256 \<and> set_affine g x y = point_mul g k None) \<and>
     mod_inverse g 0 = None \<and>
     (\<forall>a. 0 < a \<and> a < ec_order g \<longrightarrow> (\<exists>i. mod_inverse g a = Some i \<and> a * i mod ec_order g = 1))"

section \<open>The curve of CFCA\<close>

definition cfca_p :: nat where "cfca_p = 0xFFFFFFFEFFFFFFFFFFFFFFFFFFFFFFFFFFFFFFFF00000000FFFFFFFFFFFFFFFF"
definition cfca_a :: nat where "cfca_a = 0xFFFFFFFEFFFFFFFFFFFFFFFFFFFFFFFFFFFFFFFF00000000FFFFFFFFFFFFFFFC"
definition cfca_b :: nat where "cfca_b = 0x28E9FA9E9D9F5E344D5A9E4BCF6509A7F39789F515AB8F92DDBCBD414D940E93"
definition cfca_xG :: nat where "cfca_xG = 0x32C4AE2C1F1981195F9904466A39C9948FE30BBFF2660BE1715A4589334C74C7"
definition cfca_yG :: nat where "cfca_yG = 0xBC3736A2F4F6779C59BDCEE36B692153D0A9877CC62A474002DF32E52139F0A0"
definition cfca_n :: nat where "cfca_n = 0xFFFFFFFEFFFFFFFFFFFFFFFFFFFFFFFF7203DF6B21C6052B53BBF40939D54123"

text \<open>
  \<^verbatim>\<open>NewGroup\<close>: the error it finds and whether it returns a group. The results of the library's functions are arguments: the allocation of
  the group, primality, the calls that set the curve and the generator, $nG = O$, and the final check.
\<close>

datatype GROUP_TYPE = GFP | F2M

record group_tests =
  new_ok :: bool
  is_prime :: "nat \<Rightarrow> bool"
  set_curve_ok :: bool
  set_generator_ok :: bool
  order_ok :: bool
  check_ok :: bool

definition NewGroup :: "group_tests \<Rightarrow> GROUP_TYPE \<Rightarrow> nat \<Rightarrow> nat \<Rightarrow> nat \<Rightarrow> nat \<Rightarrow> nat \<Rightarrow> nat \<Rightarrow> string option \<times> bool" where
  "NewGroup T t p a b xG yG n =
     (case t of
        GFP \<Rightarrow>
          if n \<le> 0x400000000000000000000000000000000000000000000000 then (Some ''n is smaller than 2^191'', False)
          else if \<not> is_prime T p then (Some ''p is not a prime number'', False)
          else if \<not> odd p then (Some ''p is not a odd number'', False)
          else if \<not> new_ok T then (Some ''internel error'', False)
          else if \<not> set_curve_ok T then (Some ''internel error'', True)
          else if \<not> set_generator_ok T then (Some ''internel error'', True)
          else if (4 * (a * a * a) + 27 * (b * b)) mod p = 0 then (Some ''(4*a^3 + 27*b^2) mod p = 0'', True)
          else if yG * yG mod p \<noteq> (xG * xG * xG + (a * xG + b)) mod p then (Some ''y2!=x3+ax+b mod p'', True)
          else if \<not> is_prime T n then (Some ''n is not a prime number'', True)
          else if \<not> order_ok T then (Some ''nG != O'', True)
          else (None, check_ok T)
      | F2M \<Rightarrow>
          if \<not> new_ok T then (Some ''internel error'', False)
          else if \<not> set_curve_ok T then (Some ''internel error'', True)
          else if \<not> set_generator_ok T then (Some ''internel error'', True)
          else (None, check_ok T))"

text \<open>
  The constants of the CFCA curve pass every test that \<^verbatim>\<open>NewGroup\<close> computes itself; what remains are the tests of the library. A group whose
  generator is not on the curve is reported in a variable that nobody reads, and returned.
\<close>

lemma mod_by_quotient: "v = q * p + r \<Longrightarrow> r < p \<Longrightarrow> v mod p = r" for v :: nat
  by simp

lemma cfca_numbers:
  shows "(4 * (cfca_a * cfca_a * cfca_a) + 27 * (cfca_b * cfca_b)) mod cfca_p = 0xF89C89EB6FAAD12F002858081CC8F078CA97E4D18EC6EB4BE58DF32C83438294"
    "cfca_yG * cfca_yG mod cfca_p = 0xFBF2EDDD128CDEF06491287E877DA3674FBB9591CE6200A6B09D6E1D38D4C1E5"
    "(cfca_xG * cfca_xG * cfca_xG + (cfca_a * cfca_xG + cfca_b)) mod cfca_p = 0xFBF2EDDD128CDEF06491287E877DA3674FBB9591CE6200A6B09D6E1D38D4C1E5"
    "(cfca_yG + 1) * (cfca_yG + 1) mod cfca_p = 0x74615B24FC79CE29180CC6455E4FE60EF10EA48D5AB68F24B65BD3E77B48A328"
proof -
  note defs = cfca_p_def cfca_a_def cfca_b_def cfca_xG_def cfca_yG_def
  show "(4 * (cfca_a * cfca_a * cfca_a) + 27 * (cfca_b * cfca_b)) mod cfca_p = 0xF89C89EB6FAAD12F002858081CC8F078CA97E4D18EC6EB4BE58DF32C83438294"
    by (rule mod_by_quotient [where q = "0x3FFFFFFF800000003FFFFFFFFFFFFFFFFFFFFFFF80000000FFFFFFFF7FFFFFFD4B08CC0C972B72FC6698EA9F11D13649E7A3E6B4E370DCA84724CD8FBD5B48081"]; simp add: defs)
  show "cfca_yG * cfca_yG mod cfca_p = 0xFBF2EDDD128CDEF06491287E877DA3674FBB9591CE6200A6B09D6E1D38D4C1E5"
    by (rule mod_by_quotient [where q = "0x8A61242867D98CD05DA2FD4714105CA1E29E7DC53F0635C8E1E672B6EF685DE5"]; simp add: defs)
  show "(cfca_xG * cfca_xG * cfca_xG + (cfca_a * cfca_xG + cfca_b)) mod cfca_p = 0xFBF2EDDD128CDEF06491287E877DA3674FBB9591CE6200A6B09D6E1D38D4C1E5"
    by (rule mod_by_quotient [where q = "0x1FF231CB8DE202F6800E795420B806030333747296CF08AE9F5B2BA2FE5BA24BBCDDCD385EC65B7DB9974E8F5E2D75F0EDDA298879FEF13A0B40145233DAAD7"]; simp add: defs)
  show "(cfca_yG + 1) * (cfca_yG + 1) mod cfca_p = 0x74615B24FC79CE29180CC6455E4FE60EF10EA48D5AB68F24B65BD3E77B48A328"
    by (rule mod_by_quotient [where q = "0x8A61242867D98CD05DA2FD4714105CA1E29E7DC53F0635C8E1E672B6EF685DE7"]; simp add: defs)
qed

lemma cfca_bounds: "\<not> cfca_n \<le> 0x400000000000000000000000000000000000000000000000" "odd cfca_p"
  by (simp_all add: cfca_n_def cfca_p_def)

lemma NewGroup_cfca:
  assumes "new_ok T" "is_prime T cfca_p" "is_prime T cfca_n" "set_curve_ok T" "set_generator_ok T" "order_ok T"
  shows "NewGroup T GFP cfca_p cfca_a cfca_b cfca_xG cfca_yG cfca_n = (None, check_ok T)"
  unfolding NewGroup_def cfca_numbers using assms cfca_bounds by simp

lemma NewGroup_off_curve:
  assumes "new_ok T" "is_prime T cfca_p" "set_curve_ok T" "set_generator_ok T"
  shows "NewGroup T GFP cfca_p cfca_a cfca_b cfca_xG (cfca_yG + 1) cfca_n = (Some ''y2!=x3+ax+b mod p'', True)"
  unfolding NewGroup_def cfca_numbers using assms cfca_bounds by simp

section \<open>EccSm2\<close>

record 'p EccSm2 =
  dA :: nat
  pkey :: 'p
  skey_bin :: bytes
  sm2_valid :: bool
  sm2_error :: string

definition EccSm2_new :: "'p ec_group \<Rightarrow> 'p EccSm2" where
  "EccSm2_new g = \<lparr>dA = 0, pkey = point_new g, skey_bin = [], sm2_valid = False, sm2_error = ''''\<rparr>"

definition EccSm2_From :: "'p ec_group \<Rightarrow> bytes \<Rightarrow> 'p EccSm2 \<Rightarrow> bool \<times> 'p EccSm2" where
  "EccSm2_From g skey this =
     (let this = this\<lparr>sm2_valid := False, skey_bin := skey, dA := BN_bin2bn g skey\<rparr>
      in if dA this = ec_order g then (False, this\<lparr>sm2_error := ''dA must be less than order i.e. n ''\<rparr>)
         else
           let this = this\<lparr>pkey := point_mul g (dA this) None\<rparr>
           in case get_affine g (pkey this) of
                None \<Rightarrow> (False, this\<lparr>sm2_error := ''unknown error''\<rparr>)
              | Some xy \<Rightarrow> (True, this\<lparr>sm2_valid := True\<rparr>))"

fun NewRandom :: "'p ec_group \<Rightarrow> nat option list \<Rightarrow> 'p EccSm2 \<Rightarrow> 'p EccSm2 option" where
  "NewRandom g [] this = None"
| "NewRandom g (None # draws) this = NewRandom g draws this"
| "NewRandom g (Some d # draws) this =
     (let this = this\<lparr>dA := d\<rparr>
      in if d = ec_order g then NewRandom g draws this
         else
           let this = this\<lparr>pkey := point_mul g d None\<rparr>
           in case get_affine g (pkey this) of
                None \<Rightarrow> NewRandom g draws this
              | Some (x, y) \<Rightarrow>
                  if BN_num_bytes g (ec_order g) \<noteq> BN_num_bytes g x \<or> BN_num_bytes g (ec_order g) \<noteq> BN_num_bytes g y
                  then NewRandom g draws this
                  else Some (this\<lparr>sm2_valid := True\<rparr>))"

definition getSkeyHex :: "'p ec_group \<Rightarrow> 'p EccSm2 \<Rightarrow> bytes" where
  "getSkeyHex g this = BN_bn2hex g (dA this)"

definition getSkeyBin :: "'p ec_group \<Rightarrow> 'p EccSm2 \<Rightarrow> bytes" where
  "getSkeyBin g this = Bn2FixedString g (dA this) 32"

text \<open>Coordinates that cannot be read leave the numbers at 0. \<open>junk\<close> is the memory of the digest context.\<close>

definition coords :: "'p ec_group \<Rightarrow> 'p \<Rightarrow> nat \<times> nat" where
  "coords g P = (case get_affine g P of Some xy \<Rightarrow> xy | None \<Rightarrow> (0, 0))"

definition za_text :: "'p ec_group \<Rightarrow> bytes \<Rightarrow> 'p \<Rightarrow> bytes" where
  "za_text g uid P =
     (let (xA, yA) = coords g P; (xG, yG) = coords g (generator g);
          entla = of_nat (length uid * 8) :: u32
      in [ucast (drop_bit 8 entla), ucast (entla AND 0xFF)] @ uid @
         Bn2FixedString g (ec_a g) 32 @ Bn2FixedString g (ec_b g) 32 @ Bn2FixedString g xG 32 @ Bn2FixedString g yG 32 @
         Bn2FixedString g xA 32 @ Bn2FixedString g yA 32)"

definition getZA :: "(nat \<Rightarrow> byte) \<Rightarrow> 'p ec_group \<Rightarrow> bytes \<Rightarrow> 'p \<Rightarrow> bytes" where
  "getZA junk g uid P = Sm3_Crypto junk (za_text g uid P)"

definition sm2_e :: "(nat \<Rightarrow> byte) \<Rightarrow> 'p ec_group \<Rightarrow> bytes \<Rightarrow> bytes \<Rightarrow> 'p \<Rightarrow> nat" where
  "sm2_e junk g uid msg P = BN_bin2bn g (Sm3_Crypto junk (getZA junk g uid P @ msg))"

text \<open>
  The loop of \<^verbatim>\<open>Sign\<close>, with the values of $r$ and $s$ so far: it ends with a signature or, when a step fails, at the
  label \<^verbatim>\<open>end\<close> with what they are then.
\<close>

fun sign_loop :: "'p ec_group \<Rightarrow> nat \<Rightarrow> nat \<Rightarrow> nat option list \<Rightarrow> nat \<times> nat \<Rightarrow> (bool \<times> nat \<times> nat) option" where
  "sign_loop g d e [] rs = None"
| "sign_loop g d e (None # draws) rs = Some (False, rs)"
| "sign_loop g d e (Some k # draws) rs =
     (if k = 0 \<or> k = ec_order g then sign_loop g d e draws rs
      else case get_affine g (point_mul g k None) of
        None \<Rightarrow> Some (False, rs)
      | Some (x1, y1) \<Rightarrow>
          let n = ec_order g; x1 = x1 mod n
          in if x1 = 0 then sign_loop g d e draws rs
             else
               let r = (x1 + e) mod n; bn = (r + k) mod n
               in if r = 0 \<or> bn = 0 then sign_loop g d e draws (r, snd rs)
                  else
                    let s = (d + 1) mod n
                    in (case mod_inverse g s of
                         None \<Rightarrow> Some (False, (r, s))
                       | Some i \<Rightarrow>
                           let s = i * BN_mod_sub k (r * d mod n) n mod n
                           in if s = 0 then sign_loop g d e draws (r, s) else Some (True, (r, s))))"

definition EccSm2_Sign :: "(nat \<Rightarrow> byte) \<Rightarrow> 'p ec_group \<Rightarrow> bytes \<Rightarrow> bytes \<Rightarrow> nat option list \<Rightarrow> 'p EccSm2 \<Rightarrow> bytes option" where
  "EccSm2_Sign junk g uid msg draws this =
     (if \<not> sm2_valid this then Some []
      else map_option (\<lambda>(ok, r, s). Bn2FixedString g r 32 @ Bn2FixedString g s 32)
             (sign_loop g (dA this) (sm2_e junk g uid msg (pkey this)) draws (0, 0)))"

definition GetPublicKey :: "'p ec_group \<Rightarrow> 'p EccSm2 \<Rightarrow> bytes" where
  "GetPublicKey g this =
     (if \<not> sm2_valid this then []
      else let (bn_x, bn_y) = coords g (pkey this) in [4] @ Bn2FixedString g bn_x 32 @ Bn2FixedString g bn_y 32)"

definition sm2_verify :: "(nat \<Rightarrow> byte) \<Rightarrow> 'p ec_group \<Rightarrow> bytes \<Rightarrow> bytes \<Rightarrow> bytes \<Rightarrow> bytes \<Rightarrow> int outcome" where
  "sm2_verify junk g pk uid msg strsig =
     (if pk = [] then Inl out_of_range
      else
        let len = (length pk - 1) div 2;
            px = substr pk 1 len; py = substr pk (1 + len) len;
            sigr = substr strsig 0 (length strsig div 2); sigs = substr strsig (length strsig div 2) (length strsig div 2);
            pub_key = set_affine g (BN_bin2bn g px) (BN_bin2bn g py);
            r = BN_bin2bn g sigr; s = BN_bin2bn g sigs; n = ec_order g
        in if r = 0 \<or> r \<ge> n \<or> s = 0 \<or> s \<ge> n then Inr 0
           else
             let t = (r + s) mod n
             in if t = 0 then Inr 0
                else
                  let e = sm2_e junk g uid msg pub_key
                  in case get_affine g (point_mul g s (Some (pub_key, t))) of
                       None \<Rightarrow> Inr (-1)
                     | Some (x1, y1) \<Rightarrow> Inr (if (x1 mod n + e) mod n = r then 1 else 0))"

section \<open>Numbers as bytes\<close>

lemma fixed_string:
  assumes "bn_laws L" and "n < 2 ^ 256"
  shows "BN_bin2bn L (Bn2FixedString L n 32) = n"
proof -
  have "length (BN_bn2bin L n) \<le> 32" using assms unfolding bn_laws_def by blast
  then show ?thesis using assms(1) unfolding bn_laws_def by (simp add: Bn2FixedString_def Let_def)
qed

lemma length_fixed [simp]: "length (Bn2FixedString L n len) = len"
  by (simp add: Bn2FixedString_def Let_def)

section \<open>The digest\<close>

text \<open>The number $e$ does not depend on the memory of the digest contexts.\<close>

lemma length_za_text: "length (za_text g uid P) = length uid + 194"
  by (simp add: za_text_def Let_def split: prod.split)

lemma sm2_e_digest:
  assumes "length uid + 194 < 2 ^ 31" and "length msg + 32 < 2 ^ 31"
  shows "sm2_e junk g uid msg P = BN_bin2bn g (sm3_digest (sm3_digest (za_text g uid P) @ msg))"
proof -
  have "getZA junk g uid P = sm3_digest (za_text g uid P)"
    unfolding getZA_def using assms(1) by (intro Sm3_Crypto_digest) (simp add: length_za_text)
  moreover have "Sm3_Crypto junk (sm3_digest (za_text g uid P) @ msg) = sm3_digest (sm3_digest (za_text g uid P) @ msg)"
    using assms(2) by (intro Sm3_Crypto_digest) simp
  ultimately show ?thesis by (simp add: sm2_e_def)
qed

section \<open>Signatures\<close>

text \<open>What a signature from the loop satisfies.\<close>

definition signature_ok :: "'p ec_group \<Rightarrow> nat \<Rightarrow> nat \<Rightarrow> nat \<Rightarrow> nat \<Rightarrow> bool" where
  "signature_ok g d e r s \<longleftrightarrow>
     0 < r \<and> r < ec_order g \<and> 0 < s \<and> s < ec_order g \<and>
     (\<exists>k x y. get_affine g (point_mul g k None) = Some (x, y) \<and> r = (x mod ec_order g + e) mod ec_order g \<and>
        (r + k) mod ec_order g \<noteq> 0 \<and> (s * (d + 1) + r * d) mod ec_order g = k mod ec_order g)"

lemma signing_equation:
  fixes n :: nat
  assumes "1 < n" "(d + 1) mod n * i mod n = 1" and s: "s = i * BN_mod_sub k (r * d mod n) n mod n"
  shows "s < n" "(s * (d + 1) + r * d) mod n = k mod n"
proof -
  have si: "int s = int i * ((int k - int (r * d mod n)) mod int n) mod int n"
    unfolding s BN_mod_sub_def using assms(1) by (simp add: zmod_int)
  show "s < n" unfolding s using assms(1) by simp
  have "(d + 1) * i mod n = 1" using assms(2) by (simp add: mod_mult_left_eq)
  then have "int ((d + 1) * i mod n) = 1" by simp
  then have inv: "(int i * (int d + 1)) mod int n = 1" by (simp add: zmod_int algebra_simps)
  let ?c = "(int k - int r * int d) mod int n"
  have c: "int s = int i * ?c mod int n" unfolding si by (simp add: zmod_int mod_diff_right_eq)
  have "(int s * (int d + 1)) mod int n = (int i * ?c * (int d + 1)) mod int n" unfolding c by (rule mod_mult_left_eq)
  also have "\<dots> = ((int i * (int d + 1)) * ?c) mod int n" by (simp only: ac_simps)
  also have "\<dots> = ((int i * (int d + 1)) mod int n * ?c) mod int n" by (rule mod_mult_left_eq [symmetric])
  also have "\<dots> = ?c" using inv by simp
  finally have "(int s * (int d + 1) + int r * int d) mod int n = int k mod int n"
    by (metis (no_types) diff_add_cancel mod_add_left_eq)
  then have "int ((s * (d + 1) + r * d) mod n) = int (k mod n)" by (simp add: zmod_int algebra_simps)
  then show "(s * (d + 1) + r * d) mod n = k mod n" by simp
qed

text \<open>One draw: it is passed over, it ends the loop without a signature, or it gives one.\<close>

lemma sign_loop_draw:
  assumes laws: "group_laws g" and ret: "sign_loop g d e (Some k # draws) rs = Some (True, r, s)"
    and go_on: "\<And>rs. sign_loop g d e draws rs \<noteq> Some (True, r, s)"
  shows "signature_ok g d e r s" "(d + 1) mod ec_order g \<noteq> 0"
proof -
  let ?n = "ec_order g"
  obtain x y where xy: "get_affine g (point_mul g k None) = Some (x, y)"
    using ret go_on by (auto split: option.splits if_splits)
  note step = ret [unfolded sign_loop.simps xy option.case prod.case Let_def]
  have "k \<noteq> 0" "k \<noteq> ?n" "x mod ?n \<noteq> 0" using step go_on by (simp_all split: if_splits)
  then have r: "r = (x mod ?n + e) mod ?n" "r \<noteq> 0" "(r + k) mod ?n \<noteq> 0"
    and last: "\<exists>i. mod_inverse g ((d + 1) mod ?n) = Some i \<and> s = i * BN_mod_sub k (r * d mod ?n) ?n mod ?n \<and> s \<noteq> 0"
    using step go_on by (auto split: option.splits if_splits)
  obtain i where i: "mod_inverse g ((d + 1) mod ?n) = Some i" "s = i * BN_mod_sub k (r * d mod ?n) ?n mod ?n" "s \<noteq> 0"
    using last by blast
  have n: "1 < ?n" using laws unfolding group_laws_def by blast
  have "mod_inverse g 0 = None" using laws unfolding group_laws_def by blast
  then show unit: "(d + 1) mod ?n \<noteq> 0" using i(1) by (metis option.distinct(1))
  moreover have "(d + 1) mod ?n < ?n" using n by simp
  ultimately have inv: "(d + 1) mod ?n * i mod ?n = 1" using laws i(1) unfolding group_laws_def by (metis gr0I option.inject)
  note eq = signing_equation [OF n inv i(2)]
  have "r < ?n" using r(1) n by simp
  then show "signature_ok g d e r s" unfolding signature_ok_def using eq r i(3) xy by blast
qed

lemma sign_loop_ok:
  assumes "group_laws g"
  shows "sign_loop g d e draws rs = Some (True, r, s) \<Longrightarrow> signature_ok g d e r s \<and> (d + 1) mod ec_order g \<noteq> 0"
proof (induction draws arbitrary: rs)
  case (Cons draw draws)
  show ?case
  proof (cases "\<exists>rs. sign_loop g d e draws rs = Some (True, r, s)")
    case True
    then show ?thesis using Cons.IH by blast
  next
    case False
    then show ?thesis using Cons.prems sign_loop_draw [OF assms, of d e _ draws rs r s] by (cases draw) auto
  qed
qed simp

text \<open>A correct signature is accepted, since $sG + tP = kG$ for $P = dG$ and $t = r + s$.\<close>

lemma sum_is_k:
  fixes n :: nat
  assumes "(s * (d + 1) + r * d) mod n = k mod n"
  shows "(s + d * ((r + s) mod n)) mod n = k mod n"
proof -
  have "(s + d * ((r + s) mod n)) mod n = (s + d * (r + s)) mod n" by (metis mod_add_right_eq mod_mult_right_eq)
  also have "s + d * (r + s) = s * (d + 1) + r * d" by (simp add: algebra_simps)
  finally show ?thesis using assms by simp
qed

lemma sum_not_zero:
  fixes n :: nat
  assumes "(s * (d + 1) + r * d) mod n = k mod n" and "(r + k) mod n \<noteq> 0"
  shows "(r + s) mod n \<noteq> 0"
proof
  assume zero: "(r + s) mod n = 0"
  then have "s mod n = k mod n" using sum_is_k [OF assms(1)] by simp
  then have "(r + k) mod n = (r + s) mod n" by (metis mod_add_right_eq)
  then show False using zero assms(2) by simp
qed

lemma signature_accepted:
  assumes laws: "group_laws g" and ok: "signature_ok g d e r s" and key: "P = point_mul g d None"
  shows "(r + s) mod ec_order g \<noteq> 0"
    "\<exists>x y. get_affine g (point_mul g s (Some (P, (r + s) mod ec_order g))) = Some (x, y) \<and> (x mod ec_order g + e) mod ec_order g = r"
proof -
  let ?n = "ec_order g"
  obtain k x y where k: "get_affine g (point_mul g k None) = Some (x, y)" "r = (x mod ?n + e) mod ?n" "(r + k) mod ?n \<noteq> 0"
      "(s * (d + 1) + r * d) mod ?n = k mod ?n"
    using ok unfolding signature_ok_def by blast
  show "(r + s) mod ?n \<noteq> 0" by (rule sum_not_zero [OF k(4,3)])
  have "point_mul g s (Some (P, (r + s) mod ?n)) = point_mul g (s + d * ((r + s) mod ?n)) None"
    using laws unfolding key group_laws_def by blast
  also have "\<dots> = point_mul g ((s + d * ((r + s) mod ?n)) mod ?n) None" using laws unfolding group_laws_def by blast
  also have "\<dots> = point_mul g (k mod ?n) None" unfolding sum_is_k [OF k(4)] ..
  also have "\<dots> = point_mul g k None" using laws unfolding group_laws_def by metis
  finally show "\<exists>x y. get_affine g (point_mul g s (Some (P, (r + s) mod ?n))) = Some (x, y) \<and> (x mod ?n + e) mod ?n = r"
    using k(1,2) by auto
qed

lemma key_inverse:
  assumes laws: "group_laws g" and key: "(d + 1) mod ec_order g \<noteq> 0"
  obtains i where "mod_inverse g ((d + 1) mod ec_order g) = Some i" "(d + 1) mod ec_order g * i mod ec_order g = 1"
proof -
  have n: "1 < ec_order g"
    and inv: "\<forall>a. 0 < a \<and> a < ec_order g \<longrightarrow> (\<exists>i. mod_inverse g a = Some i \<and> a * i mod ec_order g = 1)"
    using laws unfolding group_laws_def by blast+
  have "0 < (d + 1) mod ec_order g" "(d + 1) mod ec_order g < ec_order g" using key n by simp_all
  then show thesis using inv that by blast
qed

text \<open>Without a signature, $s$ is 0; a number that gives a signature ends the loop with it.\<close>

lemma sign_loop_failed:
  assumes laws: "group_laws g"
  shows "sign_loop g d e draws (r0, 0) = Some (False, r, s) \<Longrightarrow> r0 < ec_order g \<Longrightarrow> s = 0 \<and> r < ec_order g"
proof (induction draws arbitrary: r0)
  case (Cons draw draws)
  show ?case
  proof (cases draw)
    case (Some k)
    have n: "1 < ec_order g" and zero: "mod_inverse g 0 = None" using laws unfolding group_laws_def by blast+
    have inv: "(d + 1) mod ec_order g \<noteq> 0 \<Longrightarrow> mod_inverse g ((d + 1) mod ec_order g) \<noteq> None"
      by (erule key_inverse [OF laws]) simp
    show ?thesis
    proof (cases "get_affine g (point_mul g k None)")
      case None
      then show ?thesis using Cons Some by (auto split: if_splits)
    next
      case (Some xy)
      then show ?thesis
        using Cons \<open>draw = Some k\<close> inv n
        by (cases xy; cases "mod_inverse g ((d + 1) mod ec_order g)") (auto simp: Let_def split: if_splits)
    qed
  qed (use Cons in simp)
qed simp

definition good_draw :: "'p ec_group \<Rightarrow> nat \<Rightarrow> nat \<Rightarrow> nat \<Rightarrow> bool" where
  "good_draw g d e k \<longleftrightarrow> k \<noteq> 0 \<and> k < ec_order g \<and>
     (\<exists>x y. get_affine g (point_mul g k None) = Some (x, y) \<and> x mod ec_order g \<noteq> 0 \<and>
        (let r = (x mod ec_order g + e) mod ec_order g
         in r \<noteq> 0 \<and> (r + k) mod ec_order g \<noteq> 0 \<and> BN_mod_sub k (r * d mod ec_order g) (ec_order g) \<noteq> 0))"

lemma inverse_product_nonzero:
  fixes n :: nat
  assumes "a * i mod n = 1" "c < n" "c \<noteq> 0"
  shows "i * c mod n \<noteq> 0"
proof
  assume "i * c mod n = 0"
  then have "a * (i * c) mod n = 0" by (metis mod_mult_right_eq mult_zero_right mod_0)
  then have "(a * i mod n) * c mod n = 0" by (metis mod_mult_left_eq mult.assoc)
  then show False using assms by simp
qed

lemma sign_loop_progress:
  assumes laws: "group_laws g" and key: "(d + 1) mod ec_order g \<noteq> 0" and good: "good_draw g d e k"
    and before: "\<And>draw. draw \<in> set before \<Longrightarrow> \<exists>j < ec_order g. draw = Some j"
  shows "\<exists>r s. sign_loop g d e (before @ Some k # after) rs = Some (True, r, s)"
  using before
proof (induction before arbitrary: rs)
  case Nil
  let ?n = "ec_order g"
  have n: "1 < ?n" using laws unfolding group_laws_def by blast
  obtain i where i: "mod_inverse g ((d + 1) mod ?n) = Some i" "(d + 1) mod ?n * i mod ?n = 1"
    by (rule key_inverse [OF laws key])
  obtain x y where xy: "get_affine g (point_mul g k None) = Some (x, y)" "x mod ?n \<noteq> 0" "(x mod ?n + e) mod ?n \<noteq> 0"
      "((x mod ?n + e) mod ?n + k) mod ?n \<noteq> 0" "BN_mod_sub k ((x mod ?n + e) mod ?n * d mod ?n) ?n \<noteq> 0" "k \<noteq> 0" "k < ?n"
    using good unfolding good_draw_def Let_def by blast
  let ?r = "(x mod ?n + e) mod ?n"
  have "BN_mod_sub k (?r * d mod ?n) ?n < ?n" using n by (simp add: BN_mod_sub_def nat_less_iff)
  then have "i * BN_mod_sub k (?r * d mod ?n) ?n mod ?n \<noteq> 0" by (rule inverse_product_nonzero [OF i(2) _ xy(5)])
  then show ?case using xy i(1) by (simp add: Let_def)
next
  case (Cons draw before)
  obtain j where j: "draw = Some j" "j < ec_order g" using Cons.prems [of draw] by auto
  have n: "1 < ec_order g" using laws unfolding group_laws_def by blast
  have later: "\<exists>r s. sign_loop g d e (before @ Some k # after) rs = Some (True, r, s)" for rs using Cons by simp
  show ?case
  proof (cases "j = 0")
    case True
    then show ?thesis using later j by simp
  next
    case False
    obtain i where i: "mod_inverse g ((d + 1) mod ec_order g) = Some i"
      by (rule key_inverse [OF laws key])
    have "get_affine g (point_mul g j None) \<noteq> None" using laws j False unfolding group_laws_def by simp
    then obtain x y where "get_affine g (point_mul g j None) = Some (x, y)" by auto
    then show ?thesis using later j False i by (simp add: Let_def)
  qed
qed

section \<open>Keys\<close>

definition key_ok :: "'p ec_group \<Rightarrow> 'p EccSm2 \<Rightarrow> bool" where
  "key_ok g key \<longleftrightarrow> sm2_valid key \<and> pkey key = point_mul g (dA key) None \<and> get_affine g (pkey key) \<noteq> None"

lemma From_key_ok: "EccSm2_From g skey this = (True, key) \<Longrightarrow> key_ok g key"
  by (auto simp: EccSm2_From_def key_ok_def Let_def split: if_splits option.splits)

lemma NewRandom_key_ok: "NewRandom g draws this = Some key \<Longrightarrow> key_ok g key"
proof (induction draws arbitrary: this)
  case (Cons draw draws)
  have "key_ok g (this\<lparr>dA := d, pkey := point_mul g d None, sm2_valid := True\<rparr>)"
    if "get_affine g (point_mul g d None) = Some xy" for d xy
    using that by (simp add: key_ok_def)
  then show ?case using Cons by (cases draw) (auto simp: Let_def split: if_splits option.splits)
qed simp

lemma GetPublicKey_parts:
  assumes laws: "group_laws g" and key: "key_ok g key"
  shows "GetPublicKey g key \<noteq> []" "length (GetPublicKey g key) = 65"
    "set_affine g (BN_bin2bn g (substr (GetPublicKey g key) 1 32)) (BN_bin2bn g (substr (GetPublicKey g key) 33 32)) = pkey key"
proof -
  obtain x y where xy: "get_affine g (pkey key) = Some (x, y)" using key unfolding key_ok_def by auto
  then have small: "x < 2 ^ 256" "y < 2 ^ 256" "set_affine g x y = pkey key"
    using laws key unfolding key_ok_def group_laws_def by metis+
  have bn: "bn_laws g" using laws unfolding group_laws_def by blast
  have pk: "GetPublicKey g key = [4] @ Bn2FixedString g x 32 @ Bn2FixedString g y 32"
    using xy key by (simp add: GetPublicKey_def key_ok_def coords_def)
  show "GetPublicKey g key \<noteq> []" "length (GetPublicKey g key) = 65" unfolding pk by simp_all
  have "substr (GetPublicKey g key) 1 32 = Bn2FixedString g x 32" "substr (GetPublicKey g key) 33 32 = Bn2FixedString g y 32"
    unfolding pk substr_def by (simp_all add: drop_Cons')
  then show "set_affine g (BN_bin2bn g (substr (GetPublicKey g key) 1 32)) (BN_bin2bn g (substr (GetPublicKey g key) 33 32)) = pkey key"
    using small fixed_string [OF bn] by simp
qed

text \<open>Verification of the 64 bytes of a signature under the text of a key.\<close>

lemma verify_fixed:
  assumes laws: "group_laws g" and key: "key_ok g key" and small: "r < 2 ^ 256" "s < 2 ^ 256"
  shows "sm2_verify junk g (GetPublicKey g key) uid msg (Bn2FixedString g r 32 @ Bn2FixedString g s 32) =
    (let n = ec_order g
     in if r = 0 \<or> r \<ge> n \<or> s = 0 \<or> s \<ge> n then Inr 0
        else if (r + s) mod n = 0 then Inr 0
        else case get_affine g (point_mul g s (Some (pkey key, (r + s) mod n))) of
               None \<Rightarrow> Inr (-1)
             | Some (x1, y1) \<Rightarrow> Inr (if (x1 mod n + sm2_e junk g uid msg (pkey key)) mod n = r then 1 else 0))"
proof -
  have bn: "bn_laws g" using laws unfolding group_laws_def by blast
  note pk = GetPublicKey_parts [OF laws key]
  have "substr (Bn2FixedString g r 32 @ Bn2FixedString g s 32) 0 32 = Bn2FixedString g r 32"
    "substr (Bn2FixedString g r 32 @ Bn2FixedString g s 32) 32 32 = Bn2FixedString g s 32" by (simp_all add: substr_def)
  then show ?thesis using pk small fixed_string [OF bn]
    unfolding sm2_verify_def by (simp add: Let_def split: option.split)
qed

section \<open>Properties\<close>

text \<open>
  Claim C3. SM2 signatures: for a key that \<^verbatim>\<open>From\<close> has read or \<^verbatim>\<open>NewRandom\<close> has drawn, \<^verbatim>\<open>Sign\<close> ends with the first suitable random
  number, and what it returns verifies under the text of the public key for the same identity and message, whatever the memory of the
  digest contexts holds. A run of \<^verbatim>\<open>Sign\<close> that fails also returns 64 bytes, which do not verify. The key $n - 1$, which both
  functions accept, has no signatures: every run of \<^verbatim>\<open>Sign\<close> fails.
\<close>

theorem sm2_sign_verifies:
  assumes laws: "group_laws g" and size: "length uid + 194 < 2 ^ 31" "length msg + 32 < 2 ^ 31"
    and key: "EccSm2_From g skey this = (True, key) \<or> NewRandom g key_draws this = Some key"
  shows "(\<forall>ok r s. sign_loop g (dA key) (sm2_e junk g uid msg (pkey key)) draws (0, 0) = Some (ok, r, s) \<longrightarrow>
            (\<exists>sig. EccSm2_Sign junk g uid msg draws key = Some sig \<and> length sig = 64 \<and>
               sm2_verify junk' g (GetPublicKey g key) uid msg sig = Inr (if ok then 1 else 0)) \<and>
            ((dA key + 1) mod ec_order g = 0 \<longrightarrow> \<not> ok)) \<and>
         ((dA key + 1) mod ec_order g \<noteq> 0 \<and> good_draw g (dA key) (sm2_e junk g uid msg (pkey key)) k \<and>
          (\<forall>draw \<in> set before. \<exists>j < ec_order g. draw = Some j) \<longrightarrow>
            (\<exists>sig. EccSm2_Sign junk g uid msg (before @ Some k # after) key = Some sig \<and>
               sm2_verify junk' g (GetPublicKey g key) uid msg sig = Inr 1))"
proof -
  let ?e = "sm2_e junk g uid msg (pkey key)" and ?n = "ec_order g"
  have ok_key: "key_ok g key" using key From_key_ok NewRandom_key_ok by blast
  have n: "1 < ?n" "?n \<le> 2 ^ 256" using laws unfolding group_laws_def by blast+
  have e: "sm2_e junk' g uid msg (pkey key) = ?e" by (simp only: sm2_e_digest [OF size])
  have signs: "EccSm2_Sign junk g uid msg ds key =
      map_option (\<lambda>(ok, r, s). Bn2FixedString g r 32 @ Bn2FixedString g s 32) (sign_loop g (dA key) ?e ds (0, 0))" for ds
    using ok_key by (simp add: EccSm2_Sign_def key_ok_def)
  have good: "sm2_verify junk' g (GetPublicKey g key) uid msg (Bn2FixedString g r 32 @ Bn2FixedString g s 32) = Inr 1"
      "(dA key + 1) mod ?n \<noteq> 0"
    if loop: "sign_loop g (dA key) ?e ds (0, 0) = Some (True, r, s)" for ds r s
  proof -
    have sig: "signature_ok g (dA key) ?e r s" using sign_loop_ok [OF laws loop] by blast
    have "pkey key = point_mul g (dA key) None" using ok_key unfolding key_ok_def by blast
    note acc = signature_accepted [OF laws sig this]
    have "0 < r" "r < ?n" "0 < s" "s < ?n" using sig unfolding signature_ok_def by blast+
    then show "sm2_verify junk' g (GetPublicKey g key) uid msg (Bn2FixedString g r 32 @ Bn2FixedString g s 32) = Inr 1"
      using verify_fixed [OF laws ok_key, of r s] acc n(2) e by (auto simp: Let_def)
    show "(dA key + 1) mod ?n \<noteq> 0" using sign_loop_ok [OF laws loop] by blast
  qed
  have bad: "sm2_verify junk' g (GetPublicKey g key) uid msg (Bn2FixedString g r 32 @ Bn2FixedString g s 32) = Inr 0"
    if loop: "sign_loop g (dA key) ?e ds (0, 0) = Some (False, r, s)" for ds r s
  proof -
    have "s = 0" "r < ?n" using sign_loop_failed [OF laws loop] n(1) by simp_all
    then show ?thesis using verify_fixed [OF laws ok_key, of r s] n(2) by (simp add: Let_def)
  qed
  show ?thesis
  proof (intro conjI allI impI)
    fix ok r s assume loop: "sign_loop g (dA key) ?e draws (0, 0) = Some (ok, r, s)"
    show "\<exists>sig. EccSm2_Sign junk g uid msg draws key = Some sig \<and> length sig = 64 \<and>
        sm2_verify junk' g (GetPublicKey g key) uid msg sig = Inr (if ok then 1 else 0)"
      using signs [of draws] loop good(1) bad by (cases ok) auto
    show "\<not> ok" if "(dA key + 1) mod ?n = 0" using good(2) loop that by (cases ok) auto
  next
    assume "(dA key + 1) mod ?n \<noteq> 0 \<and> good_draw g (dA key) ?e k \<and> (\<forall>draw \<in> set before. \<exists>j < ?n. draw = Some j)"
    then obtain r s where "sign_loop g (dA key) ?e (before @ Some k # after) (0, 0) = Some (True, r, s)"
      using sign_loop_progress [OF laws, of "dA key" ?e k before after "(0, 0)"] by blast
    then show "\<exists>sig. EccSm2_Sign junk g uid msg (before @ Some k # after) key = Some sig \<and>
        sm2_verify junk' g (GetPublicKey g key) uid msg sig = Inr 1"
      using signs [of "before @ Some k # after"] good(1) by auto
  qed
qed

text \<open>An instance: big endian numbers and the additive group of order 7.\<close>

definition be_value :: "bytes \<Rightarrow> nat" where
  "be_value bs = foldl (\<lambda>v b. v * 256 + unat b) 0 bs"

fun be_digits :: "nat \<Rightarrow> bytes" where
  "be_digits n = (if n = 0 then [] else be_digits (n div 256) @ [of_nat (n mod 256)])"

declare be_digits.simps [simp del]

lemma be_value_append: "be_value (xs @ ys) = be_value xs * 256 ^ length ys + be_value ys"
proof (induction ys rule: rev_induct)
  case (snoc y ys)
  have "be_value (xs @ ys @ [y]) = be_value (xs @ ys) * 256 + unat y" "be_value (ys @ [y]) = be_value ys * 256 + unat y"
    by (simp_all add: be_value_def)
  then show ?case using snoc.IH by (simp add: algebra_simps)
qed (simp add: be_value_def)

lemma be_value_zeros: "be_value (replicate n 0 @ xs) = be_value xs"
  by (induction n) (simp_all add: be_value_def)

lemma be_value_bytes: "be_value (be_digits n) = n"
proof (induction n rule: be_digits.induct)
  case (1 n)
  show ?case
  proof (cases "n = 0")
    case False
    have "unat (of_nat (n mod 256) :: byte) = n mod 256" by (simp add: unat_of_nat)
    then show ?thesis using 1 [OF False] False by (subst be_digits.simps) (simp add: be_value_append, simp add: be_value_def)
  qed (simp add: be_digits.simps be_value_def)
qed

lemma length_be_digits: "n < 256 ^ k \<Longrightarrow> length (be_digits n) \<le> k"
proof (induction n arbitrary: k rule: be_digits.induct)
  case (1 n)
  show ?case
  proof (cases "n = 0")
    case False
    then obtain j where j: "k = Suc j" using 1 by (cases k) simp_all
    then have "n div 256 < 256 ^ j" using 1 by (simp add: less_mult_imp_div_less mult.commute)
    then show ?thesis using 1(1) [OF False, of j] False j by (subst be_digits.simps) simp
  qed (simp add: be_digits.simps)
qed

definition group_7 :: "nat ec_group" where
  "group_7 = \<lparr>BN_bin2bn = be_value, BN_bn2bin = be_digits, BN_bn2hex = (\<lambda>n. ToUpper (BinToHexString (be_digits n))), ec_order = 7, ec_a = 2, ec_b = 5, point_new = 0, generator = 1,
     point_mul = (\<lambda>k add. case add of None \<Rightarrow> k mod 7 | Some (P, t) \<Rightarrow> (k + P * t) mod 7),
     get_affine = (\<lambda>P. if P = 0 then None else Some (P, P)), set_affine = (\<lambda>x y. x),
     mod_inverse = (\<lambda>a. List.find (\<lambda>i. a * i mod 7 = 1) [0..<7])\<rparr>"

lemma group_7_fields [simp]:
  "ec_order group_7 = 7" "point_mul group_7 k None = k mod 7" "point_mul group_7 k (Some (P, t)) = (k + P * t) mod 7"
  "get_affine group_7 P = (if P = 0 then None else Some (P, P))" "set_affine group_7 x y = x"
  "BN_bin2bn group_7 = be_value" "BN_bn2bin group_7 = be_digits" "mod_inverse group_7 a = List.find (\<lambda>i. a * i mod 7 = 1) [0..<7]"
  by (simp_all add: group_7_def)

lemma below_7: "(x :: nat) < 7 \<Longrightarrow> x \<in> {0, 1, 2, 3, 4, 5, 6}"
  by auto

lemma inverse_7: "0 < a \<and> a < 7 \<Longrightarrow> \<exists>i. List.find (\<lambda>i. a * i mod 7 = 1) [0..<7] = Some i \<and> a * i mod 7 = (1 :: nat)"
  using below_7 [of a] by (elim conjE) (simp, elim disjE; simp add: upt_rec)

lemma group_7_laws: "group_laws group_7"
proof -
  have "(k + (d mod 7) * t) mod 7 = (k + d * t) mod (7 :: nat)" for k d t
    by (metis mod_add_right_eq mod_mult_left_eq)
  moreover have "k mod 7 < 2 ^ 256" for k :: nat by (rule less_trans [of _ 7]) simp_all
  moreover have "List.find (\<lambda>i. 0 * i mod 7 = (1 :: nat)) [0..<7] = None" by (simp add: upt_rec)
  moreover have "bn_laws group_7"
    using be_value_zeros be_value_bytes length_be_digits [of _ 32] unfolding bn_laws_def by simp
  ultimately show ?thesis unfolding group_laws_def using inverse_7 by simp
qed

lemma good_draw_7: "\<exists>k. good_draw group_7 3 e k"
proof -
  have e: "e mod 7 \<in> {0, 1, 2, 3, 4, 5, 6}" by (rule below_7) simp
  have r: "(k + e) mod 7 = (k + e mod 7) mod 7" for k :: nat by (simp add: mod_simps)
  have "good_draw group_7 3 e (if e mod 7 = 5 then 4 else if e mod 7 = 4 \<or> e mod 7 = 6 then 2 else 1)"
    using e unfolding good_draw_def Let_def by (elim insertE emptyE; simp add: r BN_mod_sub_def)
  then show ?thesis by blast
qed

theorem sm2_sign_verifies_witness:
  "\<exists>k sig. EccSm2_Sign (\<lambda>_. 0) group_7 (lit ''ALICE'') (lit ''hello'') [Some k] (snd (EccSm2_From group_7 [3] (EccSm2_new group_7))) = Some sig \<and>
     sm2_verify (\<lambda>_. 1) group_7 (GetPublicKey group_7 (snd (EccSm2_From group_7 [3] (EccSm2_new group_7)))) (lit ''ALICE'') (lit ''hello'') sig = Inr 1"
proof -
  let ?key = "snd (EccSm2_From group_7 [3] (EccSm2_new group_7))"
  have key: "EccSm2_From group_7 [3] (EccSm2_new group_7) = (True, ?key)" "dA ?key = 3"
    by (simp_all add: EccSm2_From_def EccSm2_new_def be_value_def Let_def)
  obtain k where "good_draw group_7 (dA ?key) (sm2_e (\<lambda>_. 0) group_7 (lit ''ALICE'') (lit ''hello'') (pkey ?key)) k"
    unfolding key(2) using good_draw_7 by blast
  moreover have "length (lit ''ALICE'') + 194 < 2 ^ 31" "length (lit ''hello'') + 32 < 2 ^ 31" by (simp_all add: lit_def)
  ultimately show ?thesis
    using sm2_sign_verifies [OF group_7_laws, of "lit ''ALICE''" "lit ''hello''" "[3]" "EccSm2_new group_7" ?key "[]" "\<lambda>_. 0" "[]" "\<lambda>_. 1" k "[]" "[]"]
      key by auto
qed

end
