(* ===== verification/Md5.thy ===== *)
theory Md5
  imports HashSpec StringFacts
begin

text \<open>
  The MD5 digest of \<^verbatim>\<open>src/utils/crypto.cpp\<close> (the implementation used without \<^verbatim>\<open>HAVE_OPENSSL\<close>, which the build
  does not set) and the class \<^verbatim>\<open>MD5\<close>. The reference is the digest of RFC 1321: boolean functions, the 64
  steps by their index, rotations, padding. The context counts the bytes in 29 and 32 bits; the
  interpretation of \<open>streaming_hash\<close> shows that the implementation computes the reference on every
  division of the message.
\<close>

section \<open>The implementation\<close>

type_synonym md5_regs = "u32 \<times> u32 \<times> u32 \<times> u32"

definition F_md5 :: "u32 \<Rightarrow> u32 \<Rightarrow> u32 \<Rightarrow> u32" where
  "F_md5 x y z = z XOR (x AND (y XOR z))"

definition G_md5 :: "u32 \<Rightarrow> u32 \<Rightarrow> u32 \<Rightarrow> u32" where
  "G_md5 x y z = y XOR (z AND (x XOR y))"

definition H_md5 :: "u32 \<Rightarrow> u32 \<Rightarrow> u32 \<Rightarrow> u32" where
  "H_md5 x y z = x XOR y XOR z"

definition I_md5 :: "u32 \<Rightarrow> u32 \<Rightarrow> u32 \<Rightarrow> u32" where
  "I_md5 x y z = y XOR (x OR NOT z)"

text \<open>\<^verbatim>\<open>STEP\<close> returns the new value of its register \<^verbatim>\<open>a\<close>.\<close>

definition STEP :: "(u32 \<Rightarrow> u32 \<Rightarrow> u32 \<Rightarrow> u32) \<Rightarrow> u32 \<Rightarrow> u32 \<Rightarrow> u32 \<Rightarrow> u32 \<Rightarrow> u32 \<Rightarrow> u32 \<Rightarrow> nat \<Rightarrow> u32" where
  "STEP f a b c d x t s =
     (let a = a + (f b c d + x + t);
          a = push_bit s a OR drop_bit (32 - s) (a AND 0xFFFFFFFF)
      in a + b)"

text \<open>\<^verbatim>\<open>SET\<close> and \<^verbatim>\<open>GET\<close>: a little endian load.\<close>

definition GET_md5 :: "bytes \<Rightarrow> nat \<Rightarrow> u32" where
  "GET_md5 ptr n =
     ucast (ptr ! (n * 4)) OR push_bit 8 (ucast (ptr ! (n * 4 + 1)))
       OR push_bit 16 (ucast (ptr ! (n * 4 + 2))) OR push_bit 24 (ucast (ptr ! (n * 4 + 3)))"

record MD5_CTX =
  lo :: u32
  hi :: u32
  ctx_a :: u32
  ctx_b :: u32
  ctx_c :: u32
  ctx_d :: u32
  md5_buffer :: bytes
  md5_block :: "u32 list"

text \<open>
  The 64 calls of \<^verbatim>\<open>STEP\<close>, four a row: in every row the registers are \<^verbatim>\<open>(a, b, c, d)\<close>, \<^verbatim>\<open>(d, a, b, c)\<close>,
  \<^verbatim>\<open>(c, d, a, b)\<close> and \<^verbatim>\<open>(b, c, d, a)\<close>. An entry has the word, the constant and the rotation.
\<close>

type_synonym md5_entry = "nat \<times> u32 \<times> nat"
type_synonym md5_row = "(u32 \<Rightarrow> u32 \<Rightarrow> u32 \<Rightarrow> u32) \<times> md5_entry \<times> md5_entry \<times> md5_entry \<times> md5_entry"

definition md5_steps :: "md5_row list" where
  "md5_steps =
     [(F_md5, (0, 0xD76AA478, 7), (1, 0xE8C7B756, 12), (2, 0x242070DB, 17), (3, 0xC1BDCEEE, 22)),
      (F_md5, (4, 0xF57C0FAF, 7), (5, 0x4787C62A, 12), (6, 0xA8304613, 17), (7, 0xFD469501, 22)),
      (F_md5, (8, 0x698098D8, 7), (9, 0x8B44F7AF, 12), (10, 0xFFFF5BB1, 17), (11, 0x895CD7BE, 22)),
      (F_md5, (12, 0x6B901122, 7), (13, 0xFD987193, 12), (14, 0xA679438E, 17), (15, 0x49B40821, 22)),
      (G_md5, (1, 0xF61E2562, 5), (6, 0xC040B340, 9), (11, 0x265E5A51, 14), (0, 0xE9B6C7AA, 20)),
      (G_md5, (5, 0xD62F105D, 5), (10, 0x02441453, 9), (15, 0xD8A1E681, 14), (4, 0xE7D3FBC8, 20)),
      (G_md5, (9, 0x21E1CDE6, 5), (14, 0xC33707D6, 9), (3, 0xF4D50D87, 14), (8, 0x455A14ED, 20)),
      (G_md5, (13, 0xA9E3E905, 5), (2, 0xFCEFA3F8, 9), (7, 0x676F02D9, 14), (12, 0x8D2A4C8A, 20)),
      (H_md5, (5, 0xFFFA3942, 4), (8, 0x8771F681, 11), (11, 0x6D9D6122, 16), (14, 0xFDE5380C, 23)),
      (H_md5, (1, 0xA4BEEA44, 4), (4, 0x4BDECFA9, 11), (7, 0xF6BB4B60, 16), (10, 0xBEBFBC70, 23)),
      (H_md5, (13, 0x289B7EC6, 4), (0, 0xEAA127FA, 11), (3, 0xD4EF3085, 16), (6, 0x04881D05, 23)),
      (H_md5, (9, 0xD9D4D039, 4), (12, 0xE6DB99E5, 11), (15, 0x1FA27CF8, 16), (2, 0xC4AC5665, 23)),
      (I_md5, (0, 0xF4292244, 6), (7, 0x432AFF97, 10), (14, 0xAB9423A7, 15), (5, 0xFC93A039, 21)),
      (I_md5, (12, 0x655B59C3, 6), (3, 0x8F0CCC92, 10), (10, 0xFFEFF47D, 15), (1, 0x85845DD1, 21)),
      (I_md5, (8, 0x6FA87E4F, 6), (15, 0xFE2CE6E0, 10), (6, 0xA3014314, 15), (13, 0x4E0811A1, 21)),
      (I_md5, (4, 0xF7537E82, 6), (11, 0xBD3AF235, 10), (2, 0x2AD7D2BB, 15), (9, 0xEB86D391, 21))]"

definition md5_row_step :: "bytes \<Rightarrow> md5_regs \<Rightarrow> md5_row \<Rightarrow> md5_regs" where
  "md5_row_step ptr regs row =
     (let (a, b, c, d) = regs;
          (f, (x0, t0, s0), (x1, t1, s1), (x2, t2, s2), (x3, t3, s3)) = row;
          a = STEP f a b c d (GET_md5 ptr x0) t0 s0;
          d = STEP f d a b c (GET_md5 ptr x1) t1 s1;
          c = STEP f c d a b (GET_md5 ptr x2) t2 s2;
          b = STEP f b c d a (GET_md5 ptr x3) t3 s3
      in (a, b, c, d))"

text \<open>One pass of the loop of \<^verbatim>\<open>body\<close> and the loop, on a positive multiple of 64 bytes.\<close>

definition body_block :: "md5_regs \<Rightarrow> bytes \<Rightarrow> md5_regs" where
  "body_block regs ptr =
     (let (saved_a, saved_b, saved_c, saved_d) = regs;
          (a, b, c, d) = foldl (md5_row_step ptr) regs md5_steps
      in (a + saved_a, b + saved_b, c + saved_c, d + saved_d))"

function body_loop :: "md5_regs \<Rightarrow> bytes \<Rightarrow> md5_regs" where
  "body_loop regs ptr =
     (let regs = body_block regs (take 64 ptr); ptr = drop 64 ptr
      in if ptr = [] then regs else body_loop regs ptr)"
  by pat_completeness auto
termination by (relation "measure (\<lambda>(r, p). length p)") auto

declare body_loop.simps [simp del]

definition body :: "MD5_CTX \<Rightarrow> bytes \<Rightarrow> MD5_CTX" where
  "body ctx data =
     (let (a, b, c, d) = body_loop (ctx_a ctx, ctx_b ctx, ctx_c ctx, ctx_d ctx) data
      in ctx\<lparr>ctx_a := a, ctx_b := b, ctx_c := c, ctx_d := d\<rparr>)"

definition MD5_Init :: "MD5_CTX \<Rightarrow> MD5_CTX" where
  "MD5_Init ctx =
     ctx\<lparr>ctx_a := 0x67452301, ctx_b := 0xEFCDAB89, ctx_c := 0x98BADCFE, ctx_d := 0x10325476, lo := 0, hi := 0\<rparr>"

text \<open>
  \<^verbatim>\<open>MD5_Update\<close>: the \<open>sz\<close> bytes at \<^verbatim>\<open>data\<close> are the prefix of the list, and the size that remains is its
  length; \<^verbatim>\<open>size & ~0x3f\<close> is the largest multiple of 64. \<open>md5_blocks\<close> is the end of the function, from the test
  of \<^verbatim>\<open>size >= 64\<close> on.
\<close>

definition md5_blocks :: "MD5_CTX \<Rightarrow> bytes \<Rightarrow> MD5_CTX" where
  "md5_blocks ctx data =
     (let (ctx, data) =
            (if length data \<ge> 64 then
               (body ctx (take (64 * (length data div 64)) data), drop (64 * (length data div 64)) data)
             else (ctx, data))
      in ctx\<lparr>md5_buffer := memcpy (md5_buffer ctx) 0 data\<rparr>)"

definition MD5_Update :: "MD5_CTX \<Rightarrow> bytes \<Rightarrow> u64 \<Rightarrow> MD5_CTX" where
  "MD5_Update ctx data sz =
     (let data = take (unat sz) data;
          saved_lo = lo ctx;
          ctx = ctx\<lparr>lo := ucast ((ucast saved_lo + sz) AND 0x1FFFFFFF)\<rparr>;
          ctx = (if lo ctx < saved_lo then ctx\<lparr>hi := hi ctx + 1\<rparr> else ctx);
          ctx = ctx\<lparr>hi := hi ctx + ucast (drop_bit 29 sz)\<rparr>;
          used = unat (saved_lo AND 0x3F)
      in if used \<noteq> 0 then
           let free = 64 - used
           in if length data < free then ctx\<lparr>md5_buffer := memcpy (md5_buffer ctx) used data\<rparr>
              else
                let ctx = ctx\<lparr>md5_buffer := memcpy (md5_buffer ctx) used (take free data)\<rparr>;
                    data = drop free data;
                    ctx = body ctx (md5_buffer ctx)
                in md5_blocks ctx data
         else md5_blocks ctx data)"

definition md5_bytes :: "u32 \<Rightarrow> bytes" where
  "md5_bytes w = [ucast w, ucast (drop_bit 8 w), ucast (drop_bit 16 w), ucast (drop_bit 24 w)]"

definition md5_cleared :: MD5_CTX where
  "md5_cleared = \<lparr>lo = 0, hi = 0, ctx_a = 0, ctx_b = 0, ctx_c = 0, ctx_d = 0,
                 md5_buffer = replicate 64 0, md5_block = replicate 16 0\<rparr>"

text \<open>The end of \<^verbatim>\<open>MD5_Final\<close>, from the last \<^verbatim>\<open>memset\<close> of the buffer on, and the whole function.\<close>

definition md5_finish :: "MD5_CTX \<Rightarrow> nat \<Rightarrow> nat \<Rightarrow> bytes" where
  "md5_finish ctx used free =
     (let ctx = ctx\<lparr>md5_buffer := memcpy (md5_buffer ctx) used (replicate (free - 8) 0)\<rparr>;
          ctx = ctx\<lparr>lo := push_bit 3 (lo ctx)\<rparr>;
          ctx = ctx\<lparr>md5_buffer := memcpy (md5_buffer ctx) 56 (md5_bytes (lo ctx))\<rparr>;
          ctx = ctx\<lparr>md5_buffer := memcpy (md5_buffer ctx) 60 (md5_bytes (hi ctx))\<rparr>;
          ctx = body ctx (md5_buffer ctx)
      in md5_bytes (ctx_a ctx) @ md5_bytes (ctx_b ctx) @ md5_bytes (ctx_c ctx) @ md5_bytes (ctx_d ctx))"

definition MD5_Final :: "MD5_CTX \<Rightarrow> bytes \<times> MD5_CTX" where
  "MD5_Final ctx =
     (let used = unat (lo ctx AND 0x3F);
          ctx = ctx\<lparr>md5_buffer := memcpy (md5_buffer ctx) used [0x80]\<rparr>;
          used = used + 1;
          free = 64 - used;
          (ctx, used, free) =
            (if free < 8 then
               let ctx = ctx\<lparr>md5_buffer := memcpy (md5_buffer ctx) used (replicate free 0)\<rparr>
               in (body ctx (md5_buffer ctx), 0, 64)
             else (ctx, used, free))
      in (md5_finish ctx used free, md5_cleared))"

section \<open>The class \<open>MD5\<close>\<close>

text \<open>
  \<open>c0\<close> is the uninitialised context on the stack. A file is the list of the non-empty pieces that the \<^verbatim>\<open>fread\<close>
  calls return, \<open>None\<close> when \<^verbatim>\<open>fopen\<close> fails.
\<close>

definition md5bin :: "MD5_CTX \<Rightarrow> bytes \<Rightarrow> u64 \<Rightarrow> bytes" where
  "md5bin c0 dat len = fst (MD5_Final (MD5_Update (MD5_Init c0) dat len))"

definition hb2hex :: "byte \<Rightarrow> byte" where
  "hb2hex hb = (let hb = hb AND 0xF in if hb < 10 then 48 + hb else hb - 10 + 97)"

definition md5_hex :: "bytes \<Rightarrow> bytes" where
  "md5_hex out16 = concat (map (\<lambda>i. [hb2hex (drop_bit 4 (out16 ! i)), hb2hex (out16 ! i)]) [0..<16])"

definition GenerateMd5File :: "MD5_CTX \<Rightarrow> bytes list \<Rightarrow> bytes" where
  "GenerateMd5File c0 bufs =
     md5_hex (fst (MD5_Final (foldl (\<lambda>c buff. MD5_Update c buff (of_nat (length buff))) (MD5_Init c0) bufs)))"

definition GenerateMd5File_name :: "MD5_CTX \<Rightarrow> bytes list option \<Rightarrow> bytes" where
  "GenerateMd5File_name c0 file = (case file of None \<Rightarrow> [] | Some bufs \<Rightarrow> GenerateMd5File c0 bufs)"

definition GenerateMD5_ptr :: "MD5_CTX \<Rightarrow> bytes \<Rightarrow> u64 \<Rightarrow> bytes" where
  "GenerateMD5_ptr c0 dat len = md5_hex (md5bin c0 dat len)"

definition GenerateMD5 :: "MD5_CTX \<Rightarrow> bytes \<Rightarrow> bytes" where
  "GenerateMD5 c0 dat = GenerateMD5_ptr c0 dat (of_nat (length dat))"

definition GenerateMD5Sum6_ptr :: "MD5_CTX \<Rightarrow> bytes \<Rightarrow> u64 \<Rightarrow> bytes" where
  "GenerateMD5Sum6_ptr c0 dat len =
     (let tbl = lit ''0123456789abcdefghijklmnopqrstuvwxyzABCDEFGHIJKLMNOPQRSTUVWXYZ''; out16 = md5bin c0 dat len
      in map (\<lambda>i. tbl ! (unat (out16 ! i) mod 62)) [0..<6])"

definition GenerateMD5Sum6 :: "MD5_CTX \<Rightarrow> bytes \<Rightarrow> bytes" where
  "GenerateMD5Sum6 c0 dat = GenerateMD5Sum6_ptr c0 dat (of_nat (length dat))"

section \<open>The reference\<close>

definition md5_T :: "u32 list" where
  "md5_T =
     [0xD76AA478, 0xE8C7B756, 0x242070DB, 0xC1BDCEEE, 0xF57C0FAF, 0x4787C62A, 0xA8304613, 0xFD469501,
      0x698098D8, 0x8B44F7AF, 0xFFFF5BB1, 0x895CD7BE, 0x6B901122, 0xFD987193, 0xA679438E, 0x49B40821,
      0xF61E2562, 0xC040B340, 0x265E5A51, 0xE9B6C7AA, 0xD62F105D, 0x02441453, 0xD8A1E681, 0xE7D3FBC8,
      0x21E1CDE6, 0xC33707D6, 0xF4D50D87, 0x455A14ED, 0xA9E3E905, 0xFCEFA3F8, 0x676F02D9, 0x8D2A4C8A,
      0xFFFA3942, 0x8771F681, 0x6D9D6122, 0xFDE5380C, 0xA4BEEA44, 0x4BDECFA9, 0xF6BB4B60, 0xBEBFBC70,
      0x289B7EC6, 0xEAA127FA, 0xD4EF3085, 0x04881D05, 0xD9D4D039, 0xE6DB99E5, 0x1FA27CF8, 0xC4AC5665,
      0xF4292244, 0x432AFF97, 0xAB9423A7, 0xFC93A039, 0x655B59C3, 0x8F0CCC92, 0xFFEFF47D, 0x85845DD1,
      0x6FA87E4F, 0xFE2CE6E0, 0xA3014314, 0x4E0811A1, 0xF7537E82, 0xBD3AF235, 0x2AD7D2BB, 0xEB86D391]"

definition md5_fn :: "nat \<Rightarrow> u32 \<Rightarrow> u32 \<Rightarrow> u32 \<Rightarrow> u32" where
  "md5_fn i X Y Z =
     (if i < 16 then (X AND Y) OR (NOT X AND Z)
      else if i < 32 then (X AND Z) OR (Y AND NOT Z)
      else if i < 48 then X XOR Y XOR Z
      else Y XOR (X OR NOT Z))"

definition md5_k :: "nat \<Rightarrow> nat" where
  "md5_k i = (if i < 16 then i else if i < 32 then (5 * i + 1) mod 16 else if i < 48 then (3 * i + 5) mod 16
              else (7 * i) mod 16)"

definition md5_s :: "nat \<Rightarrow> nat" where
  "md5_s i = [[7, 12, 17, 22], [5, 9, 14, 20], [4, 11, 16, 23], [6, 10, 15, 21]] ! (i div 16) ! (i mod 4)"

definition md5_step :: "bytes \<Rightarrow> md5_regs \<Rightarrow> nat \<Rightarrow> md5_regs" where
  "md5_step b V i =
     (let (A, B, C, D) = V
      in (D, B + word_rotl (md5_s i) (A + md5_fn i B C D + GET_md5 b (md5_k i) + md5_T ! i), B, C))"

definition md5_compress :: "md5_regs \<Rightarrow> bytes \<Rightarrow> md5_regs" where
  "md5_compress V b =
     (let (A, B, C, D) = V; (A', B', C', D') = foldl (md5_step b) V [0..<64]
      in (A + A', B + B', C + C', D + D'))"

definition md5_V0 :: md5_regs where
  "md5_V0 = (0x67452301, 0xEFCDAB89, 0x98BADCFE, 0x10325476)"

definition md5_digest :: "bytes \<Rightarrow> bytes" where
  "md5_digest m =
     (let (A, B, C, D) = fst (absorb md5_compress md5_V0 (md_pad (le_bytes 8) m))
      in concat (map (le_bytes 4 \<circ> unat) [A, B, C, D]))"

section \<open>The compression function\<close>

lemma STEP_rotl: "0 < s \<Longrightarrow> s < 32 \<Longrightarrow> STEP f a b c d x t s = b + word_rotl s (a + f b c d + x + t)"
proof -
  assume s: "0 < s" "s < 32"
  have "(0xFFFFFFFF :: u32) = - 1" by simp
  then have m: "y AND 0xFFFFFFFF = y" for y :: u32 by (simp only: and.right_neutral)
  have "(32 - s) mod 32 = 32 - s" using s by simp
  then show ?thesis
    using s unfolding STEP_def Let_def m by (simp add: rotl_or ac_simps)
qed

lemma md5_functions:
  "F_md5 x y z = (x AND y) OR (NOT x AND z)" "G_md5 x y z = (x AND z) OR (y AND NOT z)"
  by (rule bit_word_eqI, auto simp: F_md5_def G_md5_def bit_simps)+

definition md5_row :: "nat \<Rightarrow> md5_row" where
  "md5_row r =
     ([F_md5, G_md5, H_md5, I_md5] ! (r div 4),
      (md5_k (4 * r), md5_T ! (4 * r), md5_s (4 * r)),
      (md5_k (4 * r + 1), md5_T ! (4 * r + 1), md5_s (4 * r + 1)),
      (md5_k (4 * r + 2), md5_T ! (4 * r + 2), md5_s (4 * r + 2)),
      (md5_k (4 * r + 3), md5_T ! (4 * r + 3), md5_s (4 * r + 3)))"

lemma md5_steps_rows: "md5_steps = map md5_row [0..<16]"
  by (simp add: md5_steps_def upt_rec md5_row_def md5_k_def md5_s_def md5_T_def)

lemma md5_fn_macro: "i < 64 \<Longrightarrow> md5_fn i = [F_md5, G_md5, H_md5, I_md5] ! (i div 16)"
proof -
  assume "i < 64"
  then have "i div 16 \<in> {0, 1, 2, 3}" by auto
  moreover have "i < 16 \<longleftrightarrow> i div 16 = 0" "i < 32 \<longleftrightarrow> i div 16 < 2" "i < 48 \<longleftrightarrow> i div 16 < 3" by auto
  ultimately show ?thesis by (intro ext) (auto simp: md5_fn_def md5_functions H_md5_def I_md5_def)
qed

lemma md5_s_bounds: "i < 64 \<Longrightarrow> 0 < md5_s i \<and> md5_s i < 32"
proof -
  assume "i < 64"
  then have "i div 16 \<in> {0, 1, 2, 3}" by auto
  moreover have "i mod 4 \<in> {0, 1, 2, 3}" by auto
  ultimately show ?thesis by (auto simp: md5_s_def)
qed

lemma md5_row_ref:
  assumes "r < 16"
  shows "md5_row_step b V (md5_row r) =
    md5_step b (md5_step b (md5_step b (md5_step b V (4 * r)) (4 * r + 1)) (4 * r + 2)) (4 * r + 3)"
proof -
  have f: "[F_md5, G_md5, H_md5, I_md5] ! (r div 4) = md5_fn (4 * r + j)" if "j < 4" for j
  proof -
    have "(4 * r + j) div 16 = r div 4" using that div_mult2_eq [of "4 * r + j" 4 4] by simp
    then show ?thesis using md5_fn_macro [of "4 * r + j"] assms that by simp
  qed
  have s: "0 < md5_s (4 * r + j) \<and> md5_s (4 * r + j) < 32" if "j < 4" for j
    using md5_s_bounds [of "4 * r + j"] assms that by simp
  obtain A B C D where V: "V = (A, B, C, D)" by (metis surj_pair)
  have st: "STEP ([F_md5, G_md5, H_md5, I_md5] ! (r div 4)) a b' c d x t (md5_s (4 * r + j))
      = b' + word_rotl (md5_s (4 * r + j)) (a + md5_fn (4 * r + j) b' c d + x + t)" if "j < 4" for j a b' c d x t
    using STEP_rotl s [OF that] f [OF that] by simp
  show ?thesis
    unfolding V md5_row_step_def md5_row_def md5_step_def Let_def prod.case
    using st [of 0] st [of 1] st [of 2] st [of 3] by simp
qed

lemma foldl_by_four:
  "foldl g s [0..<4 * n] = foldl (\<lambda>s r. g (g (g (g s (4 * r)) (4 * r + 1)) (4 * r + 2)) (4 * r + 3)) s [0..<n]"
proof (induction n)
  case (Suc n)
  have "[0..<4 * Suc n] = [0..<4 * n] @ [4 * n, 4 * n + 1, 4 * n + 2, 4 * n + 3]"
    by (simp add: numeral_eq_Suc)
  then show ?case using Suc by (simp del: upt_Suc) simp
qed simp

lemma body_block_ref: "body_block V b = md5_compress V b"
proof -
  obtain A B C D where V: "V = (A, B, C, D)" by (metis surj_pair)
  have "foldl (md5_row_step b) V (map md5_row [0..<n]) = foldl (md5_step b) V [0..<4 * n]" if "n \<le> 16" for n
    unfolding foldl_by_four foldl_map using that by (intro foldl_cong) (auto simp: md5_row_ref)
  from this [of 16] have "foldl (md5_row_step b) V md5_steps = foldl (md5_step b) V [0..<64]"
    unfolding md5_steps_rows by (simp only: numeral_times_numeral Num.mult_num_simps Num.add_num_simps order_refl)
  then show ?thesis
    by (simp add: body_block_def md5_compress_def V ac_simps split: prod.split)
qed

lemma word_eqI_unat: "unat x = unat y \<Longrightarrow> x = y" for x y :: "'a :: len word"
  by (simp add: word_eq_iff_unsigned [where 'a = nat])

section \<open>Updating\<close>

definition md5_regs_of :: "MD5_CTX \<Rightarrow> md5_regs" where
  "md5_regs_of ctx = (ctx_a ctx, ctx_b ctx, ctx_c ctx, ctx_d ctx)"

lemma md5_regs_of_simps [simp]:
  "md5_regs_of (ctx\<lparr>lo := x\<rparr>) = md5_regs_of ctx" "md5_regs_of (ctx\<lparr>hi := x\<rparr>) = md5_regs_of ctx"
  "md5_regs_of (ctx\<lparr>md5_buffer := y\<rparr>) = md5_regs_of ctx"
  by (simp_all add: md5_regs_of_def)

lemma body_fields [simp]:
  "lo (body ctx x) = lo ctx" "hi (body ctx x) = hi ctx" "md5_buffer (body ctx x) = md5_buffer ctx"
  "md5_regs_of (body ctx x) = body_loop (md5_regs_of ctx) x"
  by (simp_all add: body_def md5_regs_of_def split: prod.split)

lemma body_loop_absorb:
  "x \<noteq> [] \<Longrightarrow> 64 dvd length x \<Longrightarrow> absorb body_block V x = (body_loop V x, [])"
proof (induction V x rule: body_loop.induct)
  case (1 V x)
  then have len: "64 \<le> length x" by (auto dest: dvd_imp_le)
  show ?case
  proof (cases "drop 64 x = []")
    case True
    then show ?thesis using len
      by (subst body_loop.simps, subst absorb.simps) (simp add: absorb_short)
  next
    case False
    then show ?thesis using 1 len
      by (subst body_loop.simps, subst absorb.simps) (simp add: dvd_diff_nat)
  qed
qed

lemma body_loop_block: "length b = 64 \<Longrightarrow> body_loop V b = body_block V b"
  by (subst body_loop.simps) simp

lemma body_loop_blocks:
  assumes "64 \<le> length x"
  shows "absorb body_block V x = (body_loop V (take (64 * (length x div 64)) x), drop (64 * (length x div 64)) x)"
proof -
  let ?n = "64 * (length x div 64)"
  have n: "0 < ?n" "?n \<le> length x" using assms by (simp_all add: div_greater_zero_iff)
  have "absorb body_block V (take ?n x) = (body_loop V (take ?n x), [])"
    by (rule body_loop_absorb) (use n in \<open>auto simp: min_absorb2\<close>)
  from absorb_append [OF this, of "drop ?n x"]
  have "absorb body_block V x = absorb body_block (body_loop V (take ?n x)) (drop ?n x)" by simp
  also have "\<dots> = (body_loop V (take ?n x), drop ?n x)"
    by (rule absorb_short) (simp add: minus_mult_div_eq_mod)
  finally show ?thesis .
qed

definition md5_rep :: "MD5_CTX \<Rightarrow> bytes \<Rightarrow> bool" where
  "md5_rep ctx m \<longleftrightarrow>
     buffered body_block md5_V0 m (md5_regs_of ctx) (md5_buffer ctx) \<and>
     lo ctx = of_nat (length m mod 2 ^ 29) \<and> hi ctx = of_nat (length m div 2 ^ 29)"

lemma md5_used: "md5_rep ctx m \<Longrightarrow> unat (lo ctx AND 0x3F) = length m mod 64"
proof -
  assume r: "md5_rep ctx m"
  have "lo ctx AND 0x3F = take_bit 6 (lo ctx)" by (simp add: take_bit_eq_mask mask_eq_exp_minus_1)
  also have "\<dots> = of_nat (length m mod 64)"
    using r unfolding md5_rep_def
    by (simp add: take_bit_of_nat) (simp add: take_bit_eq_mod mod_mod_cancel)
  finally show ?thesis by (simp add: unsigned_of_nat take_bit_eq_mod mod_mod_cancel)
qed

lemma md5_count:
  fixes n :: nat and sz :: u64
  defines "t \<equiv> (ucast ((ucast (of_nat (n mod 2 ^ 29) :: u32) + sz) AND 0x1FFFFFFF) :: u32)"
  shows "t = of_nat ((n + unat sz) mod 2 ^ 29)"
    and "(if t < of_nat (n mod 2 ^ 29) then of_nat (n div 2 ^ 29) + 1 else of_nat (n div 2 ^ 29)) + ucast (drop_bit 29 sz)
         = (of_nat ((n + unat sz) div 2 ^ 29) :: u32)"
proof -
  let ?k = "unat sz" and ?N = "(2 :: nat) ^ 29"
  have "ucast (of_nat (n mod ?N) :: u32) + sz = of_nat (n mod ?N + ?k)"
  proof -
    have "ucast (of_nat (n mod ?N) :: u32) = (of_nat (n mod ?N) :: u64)"
      by (rule word_eqI_unat) (simp add: unsigned_ucast_eq unsigned_of_nat take_bit_eq_mod mod_mod_cancel)
    then show ?thesis by simp
  qed
  then have "(ucast (of_nat (n mod ?N) :: u32) + sz) AND 0x1FFFFFFF = take_bit 29 (of_nat (n mod ?N + ?k) :: u64)"
    by (simp add: take_bit_eq_mask mask_eq_exp_minus_1)
  also have "\<dots> = of_nat ((n mod ?N + ?k) mod ?N)" by (subst take_bit_of_nat) (simp only: take_bit_eq_mod)
  finally have "(ucast (of_nat (n mod ?N) :: u32) + sz) AND 0x1FFFFFFF = of_nat ((n + ?k) mod ?N)"
    by (simp only: mod_add_left_eq)
  then have "t = ucast (of_nat ((n + ?k) mod ?N) :: u64)" by (simp only: t_def)
  also have "\<dots> = of_nat ((n + ?k) mod ?N)"
    by (rule word_eqI_unat) (simp add: unsigned_ucast_eq unsigned_of_nat take_bit_eq_mod mod_mod_cancel)
  finally show t: "t = of_nat ((n + ?k) mod ?N)" .
  have u: "unat t = (n mod ?N + ?k mod ?N) mod ?N" 
    unfolding t by (simp add: unsigned_of_nat take_bit_eq_mod mod_mod_cancel mod_simps)
  have v: "unat (of_nat (n mod ?N) :: u32) = n mod ?N"
    by (simp add: unsigned_of_nat take_bit_eq_mod mod_mod_cancel)
  have nk: "n mod ?N < ?N" "?k mod ?N < ?N" by simp_all
  have lt: "t < of_nat (n mod ?N) \<longleftrightarrow> ?N \<le> n mod ?N + ?k mod ?N"
    unfolding word_less_nat_alt u v using nk
    by (cases "?N \<le> n mod ?N + ?k mod ?N") (simp_all add: le_mod_geq)
  have d: "ucast (drop_bit 29 sz) = (of_nat (?k div ?N) :: u32)"
    unfolding drop_bit_eq_div [symmetric] by (rule bit_word_eqI) (auto simp: bit_simps)
  have "(n + ?k) div ?N = n div ?N + ?k div ?N + (n mod ?N + ?k mod ?N) div ?N" by (rule div_add1_eq)
  moreover have "(n mod ?N + ?k mod ?N) div ?N = (if ?N \<le> n mod ?N + ?k mod ?N then 1 else 0)"
    using nk by (simp add: div_if)
  ultimately show "(if t < of_nat (n mod 2 ^ 29) then of_nat (n div 2 ^ 29) + 1 else of_nat (n div 2 ^ 29)) + ucast (drop_bit 29 sz)
         = (of_nat ((n + unat sz) div 2 ^ 29) :: u32)"
    unfolding lt d by simp
qed

lemma memcpy_nil [simp]: "memcpy buf j [] = buf"
  by (simp add: memcpy_def)

lemma md5_blocks_fields:
  assumes "absorb body_block (md5_regs_of c) y = (V, rest)"
  shows "lo (md5_blocks c y) = lo c" "hi (md5_blocks c y) = hi c" "md5_regs_of (md5_blocks c y) = V"
    "md5_buffer (md5_blocks c y) = memcpy (md5_buffer c) 0 rest"
  using assms body_loop_blocks [of y "md5_regs_of c"] absorb_short [of y body_block "md5_regs_of c"]
  by (simp_all add: md5_blocks_def not_le split: if_splits)

text \<open>The context after the counters are updated.\<close>

definition md5_counted :: "MD5_CTX \<Rightarrow> u64 \<Rightarrow> MD5_CTX" where
  "md5_counted ctx sz =
     (let t = ucast ((ucast (lo ctx) + sz) AND 0x1FFFFFFF)
      in ctx\<lparr>lo := t, hi := (if t < lo ctx then hi ctx + 1 else hi ctx) + ucast (drop_bit 29 sz)\<rparr>)"

lemma md5_counted_buffer [simp]: "md5_buffer (md5_counted ctx sz) = md5_buffer ctx" "md5_regs_of (md5_counted ctx sz) = md5_regs_of ctx"
  by (simp_all add: md5_counted_def Let_def)

lemma md5_counted_counts:
  assumes "lo ctx = of_nat (n mod 2 ^ 29)" "hi ctx = of_nat (n div 2 ^ 29)"
  shows "lo (md5_counted ctx sz) = of_nat ((n + unat sz) mod 2 ^ 29)" "hi (md5_counted ctx sz) = of_nat ((n + unat sz) div 2 ^ 29)"
proof -
  show "lo (md5_counted ctx sz) = of_nat ((n + unat sz) mod 2 ^ 29)"
    unfolding md5_counted_def Let_def assms md5_count(1) by simp
  have "hi (md5_counted ctx sz) = (if ucast ((ucast (lo ctx) + sz) AND 0x1FFFFFFF) < lo ctx then hi ctx + 1 else hi ctx) + ucast (drop_bit 29 sz)"
    by (simp add: md5_counted_def Let_def)
  then show "hi (md5_counted ctx sz) = of_nat ((n + unat sz) div 2 ^ 29)"
    unfolding assms md5_count(2) .
qed

lemma MD5_Update_counted:
  assumes "unat (lo ctx AND 0x3F) = u" "unat sz = length x"
  shows "MD5_Update ctx x sz =
    (let c = md5_counted ctx sz
     in if u \<noteq> 0 then
          if length x < 64 - u then c\<lparr>md5_buffer := memcpy (md5_buffer c) u x\<rparr>
          else let b = memcpy (md5_buffer c) u (take (64 - u) x)
               in md5_blocks (body (c\<lparr>md5_buffer := b\<rparr>) b) (drop (64 - u) x)
        else md5_blocks c x)"
  unfolding MD5_Update_def Let_def assms md5_counted_def by (simp del: One_nat_def)

lemma MD5_Update_rep:
  assumes r: "md5_rep ctx m" and len: "unat sz = length x"
  shows "md5_rep (MD5_Update ctx x sz) (m @ x)"
proof -
  let ?u = "length m mod 64" and ?c = "md5_counted ctx sz"
  have b: "buffered body_block md5_V0 m (md5_regs_of ctx) (md5_buffer ctx)"
    and n: "lo ctx = of_nat (length m mod 2 ^ 29)" "hi ctx = of_nat (length m div 2 ^ 29)"
    using r by (simp_all only: md5_rep_def)
  note cnt = md5_counted_counts [OF n, of sz, unfolded len, folded length_append]
  have rep: "md5_rep c (m @ x)"
    if "buffered body_block md5_V0 (m @ x) (md5_regs_of c) (md5_buffer c)" "lo c = lo ?c" "hi c = hi ?c" for c
    using that unfolding md5_rep_def cnt by blast
  note upd = MD5_Update_counted [OF md5_used [OF r] len]
  have blen: "length (md5_buffer ctx) = 64" using b by (simp add: buffered_def)
  consider (aligned) "?u = 0" | (fill) "?u \<noteq> 0" "64 - ?u \<le> length x" | (fits) "?u \<noteq> 0" "?u + length x < 64"
    by linarith
  then show ?thesis
  proof cases
    case aligned
    obtain V rest where a: "absorb body_block (md5_regs_of ctx) x = (V, rest)" by fastforce
    have u: "MD5_Update ctx x sz = md5_blocks ?c x" using aligned unfolding upd by simp
    note f = md5_blocks_fields [of ?c x V rest, unfolded md5_counted_buffer, OF a]
    show ?thesis unfolding u
      by (rule rep) (use buffered_blocks [OF b aligned a] in \<open>simp_all only: f\<close>)
  next
    case fill
    define buf where "buf = memcpy (md5_buffer ctx) ?u (take (64 - ?u) x)"
    define c where "c = body (?c\<lparr>md5_buffer := buf\<rparr>) buf"
    obtain V rest where a: "absorb body_block (body_block (md5_regs_of ctx) buf) (drop (64 - ?u) x) = (V, rest)" by fastforce
    have u: "MD5_Update ctx x sz = md5_blocks c (drop (64 - ?u) x)"
      using fill unfolding upd by (simp add: c_def buf_def Let_def)
    have "length buf = 64" using fill blen by (simp add: buf_def)
    then have c: "md5_regs_of c = body_block (md5_regs_of ctx) buf" "md5_buffer c = buf" "lo c = lo ?c" "hi c = hi ?c"
      by (simp_all add: c_def body_loop_block)
    note f = md5_blocks_fields [of c "drop (64 - ?u) x" V rest, unfolded c, OF a]
    show ?thesis unfolding u
      by (rule rep) (use buffered_fill [OF b fill(2) buf_def a] in \<open>simp_all only: f\<close>)
  next
    case fits
    have u: "MD5_Update ctx x sz = ?c\<lparr>md5_buffer := memcpy (md5_buffer ctx) ?u x\<rparr>"
      using fits unfolding upd by (simp add: Let_def less_diff_conv add.commute)
    show ?thesis unfolding u
      by (rule rep) (use buffered_fits [OF b fits(2)] in simp_all)
  qed
qed

section \<open>Finishing\<close>

lemma le_bytes_8: "le_bytes 8 n = le_bytes 4 n @ le_bytes 4 (n div 2 ^ 32)"
proof -
  have u: "[0..<8] = [0, 1, 2, 3, 4, 5, 6, 7 :: nat]" "[0..<4] = [0, 1, 2, 3 :: nat]" by (simp_all add: upt_rec)
  show ?thesis by (simp add: le_bytes_def u div_mult2_eq [symmetric])
qed

lemma md5_bytes_le: "md5_bytes w = le_bytes 4 (unat w)"
proof -
  have *: "ucast (drop_bit k w) = (of_nat (unat w div 2 ^ k) :: byte)" for k
    by (rule bit_word_eqI) (auto simp: bit_simps simp flip: drop_bit_eq_div)
  have u: "[0..<4] = [0, 1, 2, 3 :: nat]" by (simp add: upt_rec)
  show ?thesis
    using * [of 24] * [of 16] * [of 8] * [of 0] by (simp add: md5_bytes_def le_bytes_def u)
qed

lemma le_bytes_u32: "le_bytes 4 (unat (of_nat n :: u32)) = le_bytes 4 n"
proof -
  have *: "of_nat (unat (of_nat n :: u32) div 256 ^ k) = (of_nat (n div 256 ^ k) :: byte)" if "k < 4" for k
  proof -
    have "(256 :: nat) ^ k = 2 ^ (8 * k)" by (simp add: power_mult)
    then show ?thesis using that
      by (intro bit_word_eqI) (auto simp: bit_simps simp flip: drop_bit_eq_div)
  qed
  show ?thesis unfolding le_bytes_def by (rule map_cong [OF refl]) (simp add: *)
qed

lemma md5_length_bytes:
  assumes "md5_rep ctx m"
  shows "md5_bytes (push_bit 3 (lo ctx)) @ md5_bytes (hi ctx) = le_bytes 8 (8 * length m)"
proof -
  have c: "lo ctx = of_nat (take_bit 29 (length m))" "hi ctx = of_nat (length m div 2 ^ 29)"
    using assms by (simp_all only: md5_rep_def take_bit_eq_mod)
  have "push_bit 3 (lo ctx) = of_nat (push_bit 3 (length m))"
    unfolding c by (rule bit_word_eqI) (auto simp: bit_simps)
  moreover have "8 * length m div 2 ^ 32 = length m div 2 ^ 29" by simp
  ultimately show ?thesis
    using le_bytes_u32 [of "push_bit 3 (length m)"]
    by (simp add: le_bytes_8 md5_bytes_le c(2) le_bytes_u32 push_bit_eq_mult mult.commute)
qed

lemma length_le_bytes [simp]: "length (le_bytes k n) = k"
  by (simp add: le_bytes_def)

lemma length_md5_bytes [simp]: "length (md5_bytes w) = 4"
  by (simp add: md5_bytes_def)

lemma memcpy_memcpy: "memcpy (memcpy buf p xs) (p + length xs) ys = memcpy buf p (xs @ ys)"
  if "p + length xs \<le> length buf"
  using that by (simp add: memcpy_def ac_simps)

lemma memcpy_last_block:
  assumes "length B = 64" "length z = 56" "length l = 4" "length h = 4"
  shows "memcpy (memcpy (memcpy B 0 z) 56 l) 60 h = z @ l @ h"
proof -
  have "memcpy (memcpy B 0 z) 56 l = memcpy B 0 (z @ l)" using memcpy_memcpy [of 0 z B l] assms by simp
  moreover have "memcpy (memcpy B 0 (z @ l)) 60 h = memcpy B 0 ((z @ l) @ h)"
    using memcpy_memcpy [of 0 "z @ l" B h] assms by simp
  moreover have "memcpy B 0 ((z @ l) @ h) = (z @ l) @ h" using memcpy_full [of 0 "(z @ l) @ h" B] assms by simp
  ultimately show ?thesis by simp
qed

text \<open>The last one or two blocks of the padded message.\<close>

lemma md5_last_blocks:
  assumes b: "buffered body_block md5_V0 m V buf" and L: "length L = 8"
  defines "u \<equiv> length m mod 64"
  shows "fst (absorb body_block md5_V0 (m @ 0x80 # replicate (pad_zeros (length m)) 0 @ L)) =
    (if u < 56 then body_block V (take u buf @ 0x80 # replicate (55 - u) 0 @ L)
     else body_block (body_block V (take u buf @ 0x80 # replicate (63 - u) 0)) (replicate 56 0 @ L))"
proof -
  have u: "u < 64" and blen: "length buf = 64" using b by (simp_all add: u_def buffered_def)
  have *: "absorb body_block md5_V0 (m @ y) = absorb body_block V (take u buf @ y)" for y
    using b by (auto simp: buffered_def u_def intro: absorb_append)
  show ?thesis
  proof (cases "u < 56")
    case True
    then have z: "pad_zeros (length m) = 55 - u" by (simp add: pad_zeros_def u_def le_mod_geq)
    show ?thesis using True L blen absorb_block [of "take u buf @ 0x80 # replicate (55 - u) 0 @ L" body_block V "[]"]
      by (simp add: * z absorb_short)
  next
    case False
    then have z: "pad_zeros (length m) = (63 - u) + 56" using u by (simp add: pad_zeros_def u_def)
    have one: "length (take u buf @ 0x80 # replicate (63 - u) 0) = 64" using False u blen by simp
    have two: "length (replicate 56 0 @ L) = 64" using L by simp
    show ?thesis
      using False absorb_block [OF one, of body_block V "replicate 56 0 @ L"] absorb_block [OF two, of body_block _ "[]"]
      by (simp add: * z replicate_add absorb_short)
  qed
qed

definition md5_result :: "md5_regs \<Rightarrow> bytes" where
  "md5_result V = (case V of (A, B, C, D) \<Rightarrow> md5_bytes A @ md5_bytes B @ md5_bytes C @ md5_bytes D)"

lemma md5_finish_result:
  "md5_finish ctx used free = md5_result (body_loop (md5_regs_of ctx)
     (memcpy (memcpy (memcpy (md5_buffer ctx) used (replicate (free - 8) 0)) 56 (md5_bytes (push_bit 3 (lo ctx)))) 60 (md5_bytes (hi ctx))))"
proof -
  have "md5_bytes (ctx_a c) @ md5_bytes (ctx_b c) @ md5_bytes (ctx_c c) @ md5_bytes (ctx_d c) = md5_result (md5_regs_of c)" for c
    by (simp add: md5_regs_of_def md5_result_def)
  then show ?thesis by (simp add: md5_finish_def Let_def)
qed

lemma MD5_Final_cases:
  assumes "unat (lo ctx AND 0x3F) = u"
  shows "fst (MD5_Final ctx) =
    (if u < 56 then md5_finish (ctx\<lparr>md5_buffer := memcpy (md5_buffer ctx) u [0x80]\<rparr>) (u + 1) (63 - u)
     else let b = memcpy (memcpy (md5_buffer ctx) u [0x80]) (u + 1) (replicate (63 - u) 0)
          in md5_finish (body (ctx\<lparr>md5_buffer := b\<rparr>) b) 0 64)"
proof -
  have "64 - (u + 1) < 8 \<longleftrightarrow> \<not> u < 56" "64 - (u + 1) = 63 - u" by arith+
  then show ?thesis unfolding MD5_Final_def Let_def assms by simp
qed

lemma MD5_Final_digest:
  assumes r: "md5_rep ctx m"
  shows "fst (MD5_Final ctx) = md5_digest m"
proof -
  let ?u = "length m mod 64" and ?L = "le_bytes 8 (8 * length m)"
  have b: "buffered body_block md5_V0 m (md5_regs_of ctx) (md5_buffer ctx)"
    using r by (simp add: md5_rep_def)
  have u: "?u < 64" and blen: "length (md5_buffer ctx) = 64" using b by (simp_all add: buffered_def)
  have "fst (MD5_Final ctx) = md5_result (fst (absorb body_block md5_V0 (md_pad (le_bytes 8) m)))"
  proof (cases "?u < 56")
    case True
    let ?B = "memcpy (memcpy (memcpy (memcpy (md5_buffer ctx) ?u [0x80]) (?u + 1) (replicate (63 - ?u - 8) 0)) 56 (md5_bytes (push_bit 3 (lo ctx)))) 60 (md5_bytes (hi ctx))"
    have "?B = memcpy (md5_buffer ctx) ?u ([0x80] @ replicate (55 - ?u) 0 @ md5_bytes (push_bit 3 (lo ctx)) @ md5_bytes (hi ctx))"
    proof -
      let ?z = "0x80 # replicate (55 - ?u) (0 :: byte)" and ?l = "md5_bytes (push_bit 3 (lo ctx))"
      have p: "?u + length ?z = 56" "?u + length (?z @ ?l) = 60" using True by simp_all
      have 1: "memcpy (memcpy (md5_buffer ctx) ?u [0x80]) (?u + 1) (replicate (63 - ?u - 8) 0) = memcpy (md5_buffer ctx) ?u ?z"
        using memcpy_memcpy [of ?u "[0x80]" "md5_buffer ctx" "replicate (55 - ?u) 0"] True blen by simp
      have 2: "memcpy (memcpy (md5_buffer ctx) ?u ?z) 56 ?l = memcpy (md5_buffer ctx) ?u (?z @ ?l)"
        using memcpy_memcpy [of ?u ?z "md5_buffer ctx" ?l] unfolding p blen by simp
      have 3: "memcpy (memcpy (md5_buffer ctx) ?u (?z @ ?l)) 60 h = memcpy (md5_buffer ctx) ?u ((?z @ ?l) @ h)" for h
        using memcpy_memcpy [of ?u "?z @ ?l" "md5_buffer ctx" h] unfolding p blen by simp
      show ?thesis unfolding 1 2 3 by simp
    qed
    also have "\<dots> = take ?u (md5_buffer ctx) @ 0x80 # replicate (55 - ?u) 0 @ ?L"
      unfolding md5_length_bytes [OF r] by (subst memcpy_full) (use True blen in simp_all)
    finally have B: "?B = take ?u (md5_buffer ctx) @ 0x80 # replicate (55 - ?u) 0 @ ?L" .
    have "length ?B = 64" unfolding B using True blen by simp
    note blk = body_loop_block [OF this]
    have "fst (MD5_Final ctx) = md5_result (body_block (md5_regs_of ctx) ?B)"
      unfolding blk [symmetric] MD5_Final_cases [OF md5_used [OF r]] if_P [OF True] md5_finish_result by simp
    then show ?thesis
      using True md5_last_blocks [OF b, of ?L] by (simp only: B md_pad_def length_le_bytes if_True append_Cons)
  next
    case False
    let ?B1 = "memcpy (memcpy (md5_buffer ctx) ?u [0x80]) (?u + 1) (replicate (63 - ?u) 0)"
    let ?B2 = "memcpy (memcpy (memcpy ?B1 0 (replicate 56 0)) 56 (md5_bytes (push_bit 3 (lo ctx)))) 60 (md5_bytes (hi ctx))"
    have B1: "?B1 = take ?u (md5_buffer ctx) @ 0x80 # replicate (63 - ?u) 0"
      using u blen by (simp add: memcpy_def)
    then have len1: "length ?B1 = 64" using u blen by simp
    have "?B2 = replicate 56 0 @ md5_bytes (push_bit 3 (lo ctx)) @ md5_bytes (hi ctx)"
      by (rule memcpy_last_block [OF len1]) simp_all
    then have B2: "?B2 = replicate 56 0 @ ?L" unfolding md5_length_bytes [OF r] .
    then have len2: "length ?B2 = 64" by simp
    note blk = body_loop_block [OF len1] body_loop_block [OF len2]
    have "fst (MD5_Final ctx) = md5_result (body_block (body_block (md5_regs_of ctx) ?B1) ?B2)"
      unfolding blk [symmetric] MD5_Final_cases [OF md5_used [OF r]] if_not_P [OF False] Let_def md5_finish_result
        body_fields by (simp only: md5_regs_of_simps MD5_CTX.simps diff_numeral_simps) simp
    then show ?thesis
      unfolding B2 unfolding B1
      using False md5_last_blocks [OF b, of ?L] by (simp only: md_pad_def length_le_bytes if_False append_Cons)
  qed
  also have "body_block = md5_compress" by (intro ext) (rule body_block_ref)
  finally show ?thesis
    by (simp add: md5_digest_def md5_result_def md5_bytes_le split: prod.split)
qed

section \<open>The interface\<close>

text \<open>A context of the C type: its buffer has 64 bytes.\<close>

definition md5_ctx :: "MD5_CTX \<Rightarrow> bool" where
  "md5_ctx c \<longleftrightarrow> length (md5_buffer c) = 64"

lemma MD5_Init_rep: "md5_ctx c \<Longrightarrow> md5_rep (MD5_Init c) []"
  by (simp add: md5_rep_def MD5_Init_def md5_ctx_def md5_regs_of_def md5_V0_def buffered_init)

interpretation md5h: streaming_hash "MD5_Init (c0\<lparr>md5_buffer := map junk [0..<64]\<rparr>)"
    "\<lambda>c x. MD5_Update c x (of_nat (length x))" "fst \<circ> MD5_Final" md5_rep md5_digest "\<lambda>x. length x < 2 ^ 64"
  for c0 junk
proof
  show "md5_rep (MD5_Init (c0\<lparr>md5_buffer := map junk [0..<64]\<rparr>)) []"
    by (rule MD5_Init_rep) (simp add: md5_ctx_def)
  show "md5_rep (MD5_Update c x (of_nat (length x))) (m @ x)" if "md5_rep c m" "length x < 2 ^ 64" for c m x
    by (rule MD5_Update_rep [OF that(1)]) (use that(2) in \<open>simp add: unsigned_of_nat take_bit_eq_mod\<close>)
  show "(fst \<circ> MD5_Final) c = md5_digest m" if "md5_rep c m" for c m
    using MD5_Final_digest [OF that] by simp
qed

lemma md5_ctx_junk: "md5_ctx c \<Longrightarrow> c = c\<lparr>md5_buffer := map (\<lambda>i. md5_buffer c ! i) [0..<64]\<rparr>"
  using map_nth [of "md5_buffer c"] by (simp add: md5_ctx_def)

lemma length_md5_digest [simp]: "length (md5_digest m) = 16"
  by (simp add: md5_digest_def split: prod.split)

lemma hb2hex_digit: "hb2hex (drop_bit 4 b) = hex_digit (drop_bit 4 b)" "hb2hex b = hex_digit (b AND 0x0F)"
  by (rule all_bytes [of _ b], code_simp)+

lemma BinToHexString_concat: "BinToHexString v = concat (map (\<lambda>b. [hex_digit (drop_bit 4 b), hex_digit (b AND 0x0F)]) v)"
  by (induction v) (simp_all add: Let_def)

lemma md5_hex_BinToHexString: "length x = 16 \<Longrightarrow> md5_hex x = BinToHexString x"
proof -
  assume "length x = 16"
  then have "map ((!) x) [0..<16] = x" using map_nth [of x] by simp
  then have "md5_hex x = concat (map (\<lambda>b. [hb2hex (drop_bit 4 b), hb2hex b]) x)"
    unfolding md5_hex_def using map_map [of "\<lambda>b. [hb2hex (drop_bit 4 b), hb2hex b]" "(!) x" "[0..<16]"]
    by (simp only: comp_def)
  then show ?thesis unfolding BinToHexString_concat hb2hex_digit(1) by (simp only: hb2hex_digit(2))
qed

section \<open>Properties\<close>

text \<open>
  Claim C16. The class \<^verbatim>\<open>MD5\<close> computes the digest of RFC 1321, whatever the context on the stack holds: \<^verbatim>\<open>GenerateMD5\<close>
  is its text as \<^verbatim>\<open>BinToHexString\<close> prints it, \<^verbatim>\<open>GenerateMd5File\<close> gives the same text for a file read in any
  pieces and the empty string when the file cannot be opened, and \<^verbatim>\<open>GenerateMD5Sum6\<close> reads its table at
  the first six bytes modulo 62.
\<close>

theorem md5_correct:
  assumes "md5_ctx c0" and "length dat < 2 ^ 64" and "list_all (\<lambda>x. length x < 2 ^ 64) bufs"
  shows "GenerateMD5 c0 dat = BinToHexString (md5_digest dat) \<and>
         GenerateMd5File_name c0 (Some bufs) = BinToHexString (md5_digest (concat bufs)) \<and>
         GenerateMd5File_name c0 None = [] \<and>
         GenerateMD5Sum6 c0 dat =
           map (\<lambda>b. (map of_nat [48..<58] @ map of_nat [97..<123] @ map of_nat [65..<91]) ! (unat b mod 62))
             (take 6 (md5_digest dat))"
proof -
  define junk where "junk = (\<lambda>i. md5_buffer c0 ! i)"
  have c0: "c0\<lparr>md5_buffer := map junk [0..<64]\<rparr> = c0"
    unfolding junk_def by (rule md5_ctx_junk [OF assms(1), symmetric])
  have bin: "md5bin c0 dat (of_nat (length dat)) = md5_digest dat"
    using md5h.one_shot [OF assms(2), of junk c0] by (simp only: c0 md5bin_def o_def)
  have fil: "fst (MD5_Final (foldl (\<lambda>c buff. MD5_Update c buff (of_nat (length buff))) (MD5_Init c0) bufs))
      = md5_digest (concat bufs)"
    using md5h.in_pieces [OF assms(3), of junk c0] by (simp only: c0 o_def)
  have tbl: "lit ''0123456789abcdefghijklmnopqrstuvwxyzABCDEFGHIJKLMNOPQRSTUVWXYZ''
      = map of_nat [48..<58] @ map of_nat [97..<123] @ map of_nat [65..<91]"
    by code_simp
  have six: "map (\<lambda>i. t ! (unat (md5_digest dat ! i) mod 62)) [0..<6]
      = map (\<lambda>b. t ! (unat b mod 62)) (take 6 (md5_digest dat))" for t :: bytes
    by (rule nth_equalityI) simp_all
  show ?thesis
    by (simp only: GenerateMD5_def GenerateMD5_ptr_def GenerateMd5File_name_def GenerateMd5File_def option.case
        GenerateMD5Sum6_def GenerateMD5Sum6_ptr_def bin fil tbl six Let_def
        md5_hex_BinToHexString length_md5_digest simp_thms)
qed

theorem md5_correct_witness:
  "GenerateMD5 md5_cleared (lit ''abc'') = BinToHexString (md5_digest (lit ''abc'')) \<and>
   GenerateMd5File_name md5_cleared (Some [lit ''a'', lit ''bc'']) = BinToHexString (md5_digest (lit ''abc''))"
  using md5_correct [of md5_cleared "lit ''abc''" "[lit ''a'', lit ''bc'']"]
  by (simp add: md5_ctx_def md5_cleared_def lit_def)

end
