(* ===== verification/Crypto.thy ===== *)
theory Crypto
  imports HashSpec StringFacts Base58
begin

text \<open>
  The rest of \<^verbatim>\<open>src/utils/crypto.cpp\<close>: \<^verbatim>\<open>Char2Hex\<close>, the class \<^verbatim>\<open>Sha256\<close> over OpenSSL's \<^verbatim>\<open>SHA256_*\<close> functions
  and the class \<^verbatim>\<open>Aes\<close> over \<^verbatim>\<open>AES_cbc_encrypt\<close>. The OpenSSL functions are records of parameters. What is used of
  them: feeding a hash context in two calls is feeding the concatenation; CBC decryption inverts CBC
  encryption of the data filled up with zeros, and works block by block.
\<close>

section \<open>Hexadecimal text\<close>

definition Char2Hex :: "bytes \<Rightarrow> bytes" where
  "Char2Hex blob = foldl (\<lambda>str i. str @ fmt_02 65 (scast (blob ! i))) [] [0..<length blob]"

section \<open>\<open>Sha256\<close>\<close>

record 'c sha256_lib =
  SHA256_Init :: 'c
  SHA256_Update :: "'c \<Rightarrow> bytes \<Rightarrow> 'c"
  SHA256_Final :: "'c \<Rightarrow> bytes"

text \<open>The object is its context \<^verbatim>\<open>ctx_\<close>; \<^verbatim>\<open>Final\<close> resizes its string to 32 bytes, which the digest overwrites.\<close>

definition Sha256_new :: "'c sha256_lib \<Rightarrow> 'c" where
  "Sha256_new L = SHA256_Init L"

definition Sha256_Update :: "'c sha256_lib \<Rightarrow> 'c \<Rightarrow> bytes \<Rightarrow> 'c" where
  "Sha256_Update L ctx input = SHA256_Update L ctx input"

definition Sha256_Update_ptr :: "'c sha256_lib \<Rightarrow> 'c \<Rightarrow> bytes \<Rightarrow> nat \<Rightarrow> 'c" where
  "Sha256_Update_ptr L ctx buffer len = SHA256_Update L ctx (take len buffer)"

definition Sha256_Final :: "'c sha256_lib \<Rightarrow> 'c \<Rightarrow> bytes" where
  "Sha256_Final L ctx = memcpy (replicate 32 0) 0 (SHA256_Final L ctx)"

definition Sha256_Crypto :: "'c sha256_lib \<Rightarrow> bytes \<Rightarrow> bytes" where
  "Sha256_Crypto L input =
     (let str_out = replicate 32 0;
          sha256 = SHA256_Init L;
          sha256 = SHA256_Update L sha256 input
      in memcpy str_out 0 (SHA256_Final L sha256))"

definition Sha256_CryptoBase58 :: "'c sha256_lib \<Rightarrow> bytes \<Rightarrow> bytes" where
  "Sha256_CryptoBase58 L input = Encode (Sha256_Crypto L input)"

section \<open>\<open>Aes\<close>\<close>

text \<open>
  \<open>AES_encrypt key iv data\<close> and \<open>AES_decrypt key iv data\<close> are \<^verbatim>\<open>AES_set_encrypt_key\<close>, \<^verbatim>\<open>AES_set_decrypt_key\<close> and
  \<^verbatim>\<open>AES_cbc_encrypt\<close> with \<^verbatim>\<open>AES_ENCRYPT\<close> and \<^verbatim>\<open>AES_DECRYPT\<close>: the bytes written to the output, whole blocks
  when encrypting.
\<close>

record aes_lib =
  AES_encrypt :: "bytes \<Rightarrow> bytes \<Rightarrow> bytes \<Rightarrow> bytes"
  AES_decrypt :: "bytes \<Rightarrow> bytes \<Rightarrow> bytes \<Rightarrow> bytes"

definition AES_BLOCK_SIZE :: nat where
  "AES_BLOCK_SIZE = 16"

definition aes_key_ok :: "bytes \<Rightarrow> bool" where
  "aes_key_ok key \<longleftrightarrow> \<not> (length key \<noteq> 16 \<and> length key \<noteq> 24 \<and> length key \<noteq> 32)"

definition Aes_Decrypto :: "aes_lib \<Rightarrow> bytes \<Rightarrow> bytes \<Rightarrow> bytes" where
  "Aes_Decrypto A input key =
     (if \<not> aes_key_ok key then []
      else
        let iv = replicate AES_BLOCK_SIZE 0;
            enc_out = replicate (length input) 0;
            enc_out = memcpy enc_out 0 (take (length enc_out) (AES_decrypt A key iv input))
        in takeWhile (\<lambda>c. c \<noteq> 0) enc_out)"

text \<open>
  \<^verbatim>\<open>Crypto\<close>: \<open>alloc\<close> tells whether \<^verbatim>\<open>calloc\<close> succeeds. The padded copy \<^verbatim>\<open>input_string\<close> is built and freed without
  being used: the bytes of \<^verbatim>\<open>input\<close> are encrypted, into a string that is sized for the copy.
\<close>

definition Aes_Crypto :: "aes_lib \<Rightarrow> bool \<Rightarrow> bytes \<Rightarrow> bytes \<Rightarrow> bytes" where
  "Aes_Crypto A alloc input key =
     (if \<not> aes_key_ok key then lit ''key error''
      else
        let len = (if (length input + 1) mod AES_BLOCK_SIZE = 0 then length input + 1
                   else ((length input + 1) div AES_BLOCK_SIZE + 1) * AES_BLOCK_SIZE)
        in if \<not> alloc then []
           else
             let iv = replicate AES_BLOCK_SIZE 0;
                 enc_out = replicate len 0
             in memcpy enc_out 0 (AES_encrypt A key iv input))"

definition Aes_CryptoHex :: "aes_lib \<Rightarrow> bool \<Rightarrow> bytes \<Rightarrow> bytes \<Rightarrow> bytes" where
  "Aes_CryptoHex A alloc input key = BinToHexString (Aes_Crypto A alloc input key)"

definition Aes_HexDecrypto :: "aes_lib \<Rightarrow> bytes \<Rightarrow> bytes \<Rightarrow> bytes" where
  "Aes_HexDecrypto A input key = Aes_Decrypto A (HexStringToBin input False) key"

section \<open>What is used of the libraries\<close>

text \<open>The laws of CBC mode on data filled up with zeros to whole blocks.\<close>

definition zero_filled :: "bytes \<Rightarrow> bytes" where
  "zero_filled x = x @ replicate ((16 - length x mod 16) mod 16) 0"

definition cbc_laws :: "aes_lib \<Rightarrow> bool" where
  "cbc_laws A \<longleftrightarrow>
     (\<forall>key iv x. length (AES_encrypt A key iv x) = length (zero_filled x)) \<and>
     (\<forall>key iv x. AES_decrypt A key iv (AES_encrypt A key iv x) = zero_filled x) \<and>
     (\<forall>key iv x y. 16 dvd length x \<longrightarrow> (\<exists>z. AES_decrypt A key iv (x @ y) = AES_decrypt A key iv x @ z \<and> length z = length y))"

definition sha256_law :: "'c sha256_lib \<Rightarrow> bool" where
  "sha256_law L \<longleftrightarrow>
     (\<forall>c. SHA256_Update L c [] = c) \<and>
     (\<forall>c x y. SHA256_Update L (SHA256_Update L c x) y = SHA256_Update L c (x @ y)) \<and>
     (\<forall>c. length (SHA256_Final L c) = 32)"

section \<open>The hash interface\<close>

lemma sha256_streaming:
  assumes "sha256_law L"
  shows "streaming_hash (Sha256_new L) (Sha256_Update L) (Sha256_Final L) (\<lambda>c m. c = SHA256_Update L (SHA256_Init L) m)
           (\<lambda>m. SHA256_Final L (SHA256_Update L (SHA256_Init L) m)) (\<lambda>x. True)"
  using assms by unfold_locales (simp_all add: sha256_law_def Sha256_new_def Sha256_Update_def Sha256_Final_def memcpy_def)

section \<open>Encrypted texts\<close>

lemma takeWhile_zeros: "0 \<notin> set x \<Longrightarrow> takeWhile (\<lambda>c. c \<noteq> 0) (x @ y) = x @ takeWhile (\<lambda>c. c \<noteq> 0) y"
  for x :: bytes
  by (rule takeWhile_append2) auto


lemma Aes_Crypto_eq:
  assumes laws: "cbc_laws A" and key: "aes_key_ok key"
  shows "Aes_Crypto A True x key =
    AES_encrypt A key (replicate 16 0) x @ (if 16 dvd length x then replicate 16 0 else [])"
proof -
  let ?E = "AES_encrypt A key (replicate 16 0) x" and ?n = "length x"
  have E: "length ?E = length (zero_filled x)" using laws by (simp add: cbc_laws_def)
  define q r where "q = ?n div 16" and "r = ?n mod 16"
  have n: "?n = 16 * q + r" and r: "r < 16" by (simp_all add: q_def r_def)
  have len: "(if (?n + 1) mod 16 = 0 then ?n + 1 else ((?n + 1) div 16 + 1) * 16) = 16 * q + 16"
  proof (cases "r = 15")
    case True
    then show ?thesis by (simp add: n)
  next
    case False
    then have "(?n + 1) mod 16 = r + 1" "(?n + 1) div 16 = q" using r by (simp_all add: n)
    then show ?thesis by simp
  qed
  have "length ?E = (if r = 0 then 16 * q else 16 * q + 16)" using r n E by (simp add: zero_filled_def)
  then have "memcpy (replicate (16 * q + 16) 0) 0 ?E = ?E @ (if r = 0 then replicate 16 0 else [])"
    by (auto simp: memcpy_def)
  then show ?thesis
    using key unfolding Aes_Crypto_def AES_BLOCK_SIZE_def Let_def len by (simp add: dvd_eq_mod_eq_0 r_def)
qed

lemma Aes_Decrypto_eq:
  assumes "aes_key_ok key" and "length (AES_decrypt A key (replicate 16 0) y) = length y"
  shows "Aes_Decrypto A y key = takeWhile (\<lambda>c. c \<noteq> 0) (AES_decrypt A key (replicate 16 0) y)"
  using assms by (simp add: Aes_Decrypto_def AES_BLOCK_SIZE_def memcpy_def Let_def)

lemma aes_exact:
  assumes laws: "cbc_laws A" and key: "aes_key_ok key" and nz: "0 \<notin> set x" and len: "\<not> 16 dvd length x"
  shows "Aes_Decrypto A (Aes_Crypto A True x key) key = x"
proof -
  have "length x mod 16 \<noteq> 0" "length x mod 16 < 16" using len by (simp_all add: dvd_eq_mod_eq_0)
  then obtain k where k: "zero_filled x = x @ 0 # replicate k 0"
    by (cases "(16 - length x mod 16) mod 16") (auto simp: zero_filled_def)
  have "AES_decrypt A key (replicate 16 0) (AES_encrypt A key (replicate 16 0) x) = zero_filled x"
    "length (AES_encrypt A key (replicate 16 0) x) = length (zero_filled x)"
    using laws by (simp_all add: cbc_laws_def)
  then show ?thesis
    using len by (simp add: Aes_Crypto_eq [OF laws key] Aes_Decrypto_eq [OF key] k takeWhile_zeros [OF nz])
qed

lemma aes_garbage:
  assumes laws: "cbc_laws A" and key: "aes_key_ok key" and nz: "0 \<notin> set x" and len: "16 dvd length x"
  shows "\<exists>z. length z = 16 \<and>
    AES_decrypt A key (replicate 16 0) (AES_encrypt A key (replicate 16 0) x @ replicate 16 0) = x @ z \<and>
    Aes_Decrypto A (Aes_Crypto A True x key) key = x @ takeWhile (\<lambda>c. c \<noteq> 0) z"
proof -
  let ?E = "AES_encrypt A key (replicate 16 0) x"
  have x: "zero_filled x = x" using len by (simp add: zero_filled_def dvd_eq_mod_eq_0)
  then have E: "length ?E = length x" "AES_decrypt A key (replicate 16 0) ?E = x"
    using laws by (simp_all add: cbc_laws_def)
  have "16 dvd length ?E" using len E by simp
  then obtain z where z: "AES_decrypt A key (replicate 16 0) (?E @ replicate 16 0) = x @ z" "length z = 16"
    using laws E(2) unfolding cbc_laws_def by (metis length_replicate)
  then have "Aes_Decrypto A (?E @ replicate 16 0) key = x @ takeWhile (\<lambda>c. c \<noteq> 0) z"
    by (subst Aes_Decrypto_eq [OF key]) (simp_all add: E takeWhile_zeros [OF nz])
  then show ?thesis
    using z len by (intro exI [of _ z] conjI) (simp_all only: Aes_Crypto_eq [OF laws key] if_True)
qed

lemma aes_hex: "aes_key_ok key \<Longrightarrow> Aes_HexDecrypto A (Aes_CryptoHex A alloc x key) key = Aes_Decrypto A (Aes_Crypto A alloc x key) key"
  by (simp add: Aes_HexDecrypto_def Aes_CryptoHex_def HexStringToBin_BinToHexString)

section \<open>Properties\<close>

text \<open>
  Hashing in pieces with \<^verbatim>\<open>Sha256\<close> gives the digest of one call of \<^verbatim>\<open>Crypto\<close> on the whole message, 32 bytes
  long, for a library that hashes the concatenation of what it is fed.
\<close>

theorem sha256_pieces:
  assumes "sha256_law L"
  shows "Sha256_Final L (foldl (Sha256_Update L) (Sha256_new L) xs) = Sha256_Crypto L (concat xs) \<and>
         length (Sha256_Crypto L m) = 32"
proof -
  have "Sha256_Crypto L m = SHA256_Final L (SHA256_Update L (SHA256_Init L) m)" for m
    using assms by (simp add: Sha256_Crypto_def sha256_law_def memcpy_def)
  then show ?thesis
    using streaming_hash.in_pieces [OF sha256_streaming [OF assms], of xs] assms
    by (simp add: list_all_iff sha256_law_def)
qed

definition sum_sha256 :: "byte sha256_lib" where
  "sum_sha256 = \<lparr>SHA256_Init = 0, SHA256_Update = (\<lambda>c x. c + sum_list x), SHA256_Final = (\<lambda>c. replicate 32 c)\<rparr>"

theorem sha256_pieces_witness:
  "sha256_law sum_sha256 \<and>
   Sha256_Final sum_sha256 (foldl (Sha256_Update sum_sha256) (Sha256_new sum_sha256) [[1, 2], [3]]) = Sha256_Crypto sum_sha256 [1, 2, 3]"
proof -
  have "sha256_law sum_sha256" by (simp add: sha256_law_def sum_sha256_def add.assoc)
  then show ?thesis using sha256_pieces [of sum_sha256 "[[1, 2], [3]]"] by simp
qed

text \<open>
  Claim C33. \<^verbatim>\<open>HexDecrypto\<close> of \<^verbatim>\<open>CryptoHex\<close> returns a text without zero bytes when its length is not a multiple of 16.
  When it is a multiple of 16, the last block of the ciphertext is left zero, and the result is
  the text followed by what that block decrypts to, up to its first zero byte. A key that has not 16,
  24 or 32 bytes gives the texts \<open>key error\<close> and the empty string.
\<close>

theorem aes_roundtrip:
  assumes "cbc_laws A" and "aes_key_ok key" and "0 \<notin> set x"
  shows "(\<not> 16 dvd length x \<longrightarrow> Aes_HexDecrypto A (Aes_CryptoHex A True x key) key = x) \<and>
         (16 dvd length x \<longrightarrow>
            (\<exists>z. length z = 16 \<and>
               AES_decrypt A key (replicate 16 0) (AES_encrypt A key (replicate 16 0) x @ replicate 16 0) = x @ z \<and>
               Aes_HexDecrypto A (Aes_CryptoHex A True x key) key = x @ takeWhile (\<lambda>c. c \<noteq> 0) z)) \<and>
         (\<not> aes_key_ok bad \<longrightarrow> Aes_Crypto A alloc y bad = lit ''key error'' \<and> Aes_Decrypto A y bad = [])"
  using aes_exact [OF assms] aes_garbage [OF assms] by (simp add: aes_hex assms(2) Aes_Crypto_def Aes_Decrypto_def)

definition xor_aes :: aes_lib where
  "xor_aes = \<lparr>AES_encrypt = (\<lambda>key iv x. map ((XOR) 0xAA) (zero_filled x)), AES_decrypt = (\<lambda>key iv x. map ((XOR) 0xAA) x)\<rparr>"

theorem aes_roundtrip_witness:
  "cbc_laws xor_aes \<and>
   Aes_HexDecrypto xor_aes (Aes_CryptoHex xor_aes True (lit ''hello'') (replicate 16 1)) (replicate 16 1) = lit ''hello'' \<and>
   Aes_HexDecrypto xor_aes (Aes_CryptoHex xor_aes True (lit ''0123456789abcdef'') (replicate 16 1)) (replicate 16 1)
     = lit ''0123456789abcdef'' @ replicate 16 0xAA"
proof -
  have [simp]: "0xAA XOR (0xAA XOR b) = (b :: byte)" for b by (simp flip: xor.assoc)
  have laws: "cbc_laws xor_aes" by (simp add: cbc_laws_def xor_aes_def o_def)
  have key: "aes_key_ok (replicate 16 1)" by (simp add: aes_key_ok_def)
  have one: "0 \<notin> set (lit ''hello'')" "\<not> 16 dvd length (lit ''hello'')"
    by (simp_all add: lit_def dvd_eq_mod_eq_0)
  have two: "0 \<notin> set (lit ''0123456789abcdef'')" "16 dvd length (lit ''0123456789abcdef'')"
    by (simp_all add: lit_def dvd_eq_mod_eq_0)
  from aes_roundtrip [OF laws key two(1)] two(2) obtain z where z:
    "AES_decrypt xor_aes (replicate 16 1) (replicate 16 0) (AES_encrypt xor_aes (replicate 16 1) (replicate 16 0) (lit ''0123456789abcdef'') @ replicate 16 0)
       = lit ''0123456789abcdef'' @ z"
    "Aes_HexDecrypto xor_aes (Aes_CryptoHex xor_aes True (lit ''0123456789abcdef'') (replicate 16 1)) (replicate 16 1)
       = lit ''0123456789abcdef'' @ takeWhile (\<lambda>c. c \<noteq> 0) z" by blast
  have "z = replicate 16 0xAA" using z(1) by (simp add: xor_aes_def lit_def zero_filled_def o_def)
  then show ?thesis using z(2) laws aes_roundtrip [OF laws key one(1)] one(2) by simp
qed

end
