(* ===== verification/Keys.thy ===== *)
theory Keys
  imports Crc Sm3 Crypto
begin

text \<open>
  The keys of \<^verbatim>\<open>src/common/private_key.h\<close> and \<^verbatim>\<open>src/common/private_key.cpp\<close>: the text form of addresses, public and
  private keys (a prefix, the signature type, the data and a check byte, in hexadecimal), the classes
  \<^verbatim>\<open>PublicKey\<close> and \<^verbatim>\<open>PrivateKey\<close>, signing and verification. The enumerations are their byte values, as the
  casts in the code use them. The signature schemes (ed25519-donna, OpenSSL's RSA, the CFCA
  library) and the random source are parameters; uninitialised members are arguments.
\<close>

section \<open>Key texts\<close>

type_synonym SignatureType = byte
type_synonym PrivateKeyPrefix = byte

definition SIGNTYPE_NONE :: SignatureType where "SIGNTYPE_NONE = 0"
definition SIGNTYPE_ED25519 :: SignatureType where "SIGNTYPE_ED25519 = 1"
definition SIGNTYPE_CFCASM2 :: SignatureType where "SIGNTYPE_CFCASM2 = 2"
definition SIGNTYPE_RSA :: SignatureType where "SIGNTYPE_RSA = 3"
definition SIGNTYPE_CFCA :: SignatureType where "SIGNTYPE_CFCA = 4"

definition ADDRESS_PREFIX :: PrivateKeyPrefix where "ADDRESS_PREFIX = 0xEA"
definition PUBLICKEY_PREFIX :: PrivateKeyPrefix where "PUBLICKEY_PREFIX = 0xEB"
definition PRIVATEKEY_PREFIX :: PrivateKeyPrefix where "PRIVATEKEY_PREFIX = 0xEC"

definition ED25519_ADDRESS_LENGTH :: nat where "ED25519_ADDRESS_LENGTH = 20"
definition ED25519_PUBLICKEY_LENGTH :: nat where "ED25519_PUBLICKEY_LENGTH = 32"
definition ED25519_PRIVATEKEY_LENGTH :: nat where "ED25519_PRIVATEKEY_LENGTH = 32"
definition SM2_ADDRESS_LENGTH :: nat where "SM2_ADDRESS_LENGTH = 20"
definition SM2_PUBLICKEY_LENGTH :: nat where "SM2_PUBLICKEY_LENGTH = 65"
definition SM2_PRIVATEKEY_LENGTH :: nat where "SM2_PRIVATEKEY_LENGTH = 32"

definition length_switch :: "nat \<Rightarrow> nat \<Rightarrow> SignatureType \<Rightarrow> nat \<Rightarrow> bool" where
  "length_switch ed25519_length sm2_length sign_type datalen =
     (if sign_type = SIGNTYPE_ED25519 then ed25519_length = datalen
      else if sign_type = SIGNTYPE_CFCASM2 then sm2_length = datalen
      else if sign_type = SIGNTYPE_RSA then True
      else if sign_type = SIGNTYPE_CFCA then True
      else False)"

text \<open>\<^verbatim>\<open>GetKeyElement\<close>: the three outputs are written only when it returns true.\<close>

definition GetKeyElement :: "bytes \<Rightarrow> (PrivateKeyPrefix \<times> SignatureType \<times> bytes) option" where
  "GetKeyElement base16_pub_key =
     (let buff = HexStringToBin base16_pub_key False
      in if length buff < 3 then None
         else
           let prefix_tmp = buff ! 0;
               sign_type_tmp = buff ! 1;
               datalen = length buff - 3;
               checksum = last buff;
               calc_checksum = Crc8_ptr buff (of_nat (length buff - 1))
           in if checksum \<noteq> calc_checksum then None
              else
                let ret = (if prefix_tmp = ADDRESS_PREFIX then
                             length_switch ED25519_ADDRESS_LENGTH SM2_ADDRESS_LENGTH sign_type_tmp datalen
                           else if prefix_tmp = PUBLICKEY_PREFIX then
                             length_switch ED25519_PUBLICKEY_LENGTH SM2_PUBLICKEY_LENGTH sign_type_tmp datalen
                           else if prefix_tmp = PRIVATEKEY_PREFIX then
                             length_switch ED25519_PRIVATEKEY_LENGTH SM2_PRIVATEKEY_LENGTH sign_type_tmp datalen
                           else False)
                in if ret then Some (prefix_tmp, sign_type_tmp, take (length buff - 3) (drop 2 buff)) else None)"

definition GetSignTypeDesc :: "SignatureType \<Rightarrow> bytes" where
  "GetSignTypeDesc t =
     (if t = SIGNTYPE_CFCA then lit ''cfca'' else if t = SIGNTYPE_CFCASM2 then lit ''sm2''
      else if t = SIGNTYPE_RSA then lit ''rsa'' else if t = SIGNTYPE_ED25519 then lit ''ed25519'' else [])"

definition GetSignTypeByDesc :: "bytes \<Rightarrow> SignatureType" where
  "GetSignTypeByDesc desc =
     (if desc = lit ''cfca'' then SIGNTYPE_CFCA else if desc = lit ''sm2'' then SIGNTYPE_CFCASM2
      else if desc = lit ''rsa'' then SIGNTYPE_RSA else if desc = lit ''ed25519'' then SIGNTYPE_ED25519
      else SIGNTYPE_NONE)"

section \<open>The libraries\<close>

text \<open>
  \<open>d2i_*\<close> return no key on malformed input; \<^verbatim>\<open>i2d_*\<close> return the encoding; \<open>RSA_sign\<close> is the signature of a SHA-1 hash,
  empty when it fails; \<open>RSA_verify\<close> takes the hash and the signature and is positive on success.
\<close>

record ('c, 'rsa) key_lib =
  sha256 :: "'c sha256_lib"
  ed25519_publickey :: "bytes \<Rightarrow> bytes"
  ed25519_sign :: "bytes \<Rightarrow> bytes \<Rightarrow> bytes \<Rightarrow> bytes"
  ed25519_sign_open :: "bytes \<Rightarrow> bytes \<Rightarrow> bytes \<Rightarrow> int"
  d2i_RSA_PUBKEY :: "bytes \<Rightarrow> 'rsa option"
  d2i_RSAPrivateKey :: "bytes \<Rightarrow> 'rsa option"
  i2d_RSA_PUBKEY :: "'rsa \<Rightarrow> bytes"
  i2d_RSAPrivateKey :: "'rsa \<Rightarrow> bytes"
  SHA1 :: "bytes \<Rightarrow> bytes"
  RSA_sign :: "bytes \<Rightarrow> 'rsa \<Rightarrow> bytes"
  RSA_verify :: "bytes \<Rightarrow> bytes \<Rightarrow> 'rsa \<Rightarrow> int"
  CFCA_Verify :: "bytes \<Rightarrow> bytes \<Rightarrow> bytes \<Rightarrow> bool"

section \<open>\<open>PublicKey\<close>\<close>

record PublicKey =
  raw_pub_key :: bytes
  pub_valid :: bool
  pub_type :: SignatureType

definition PublicKey_default :: PublicKey where
  "PublicKey_default = \<lparr>raw_pub_key = [], pub_valid = False, pub_type = SIGNTYPE_RSA\<rparr>"

text \<open>The constructor from a text: \<^verbatim>\<open>prefix\<close> and \<^verbatim>\<open>type_\<close> are not initialised.\<close>

definition PublicKey_new :: "PrivateKeyPrefix \<Rightarrow> SignatureType \<Rightarrow> bytes \<Rightarrow> PublicKey" where
  "PublicKey_new prefix0 type0 base16_pub_key =
     (case GetKeyElement base16_pub_key of
        Some (prefix, t, raw) \<Rightarrow> \<lparr>raw_pub_key = raw, pub_valid = (prefix = PUBLICKEY_PREFIX), pub_type = t\<rparr>
      | None \<Rightarrow> \<lparr>raw_pub_key = [], pub_valid = (prefix0 = PUBLICKEY_PREFIX), pub_type = type0\<rparr>)"

definition PublicKey_Init :: "PublicKey \<Rightarrow> bytes \<Rightarrow> PublicKey" where
  "PublicKey_Init this rawpkey = this\<lparr>raw_pub_key := rawpkey\<rparr>"

definition IsAddressValid :: "bytes \<Rightarrow> bool" where
  "IsAddressValid address_base16 =
     (let address = HexStringToBin address_base16 True
      in if length address \<noteq> 23 then False
         else if address ! 0 \<noteq> ADDRESS_PREFIX then False
         else if Crc8 (take (length address - 1) address) \<noteq> last address then False
         else True)"

definition PublicKey_CalcHash :: "('c, 'rsa) key_lib \<Rightarrow> (nat \<Rightarrow> byte) \<Rightarrow> PublicKey \<Rightarrow> bytes \<Rightarrow> bytes" where
  "PublicKey_CalcHash L junk this value =
     (if pub_type this = SIGNTYPE_CFCASM2 then Sm3_Crypto junk (raw_pub_key this)
      else Sha256_Crypto (sha256 L) (raw_pub_key this))"

definition PublicKey_GetBase16Address :: "('c, 'rsa) key_lib \<Rightarrow> (nat \<Rightarrow> byte) \<Rightarrow> PublicKey \<Rightarrow> bytes" where
  "PublicKey_GetBase16Address L junk this =
     (let str_result = [ADDRESS_PREFIX];
          str_result = str_result @ [pub_type this];
          hash = PublicKey_CalcHash L junk this (raw_pub_key this);
          str_result = str_result @ drop 12 hash;
          str_result = str_result @ [Crc8 str_result]
      in BinToHexString str_result)"

definition PublicKey_GetRawPublicKey :: "PublicKey \<Rightarrow> bytes" where
  "PublicKey_GetRawPublicKey this = raw_pub_key this"

definition PublicKey_GetBase16PublicKey :: "PublicKey \<Rightarrow> bytes" where
  "PublicKey_GetBase16PublicKey this =
     (let str_result = [PUBLICKEY_PREFIX];
          str_result = str_result @ [pub_type this];
          str_result = str_result @ raw_pub_key this;
          str_result = str_result @ [Crc8 str_result]
      in BinToHexString str_result)"

text \<open>
  \<^verbatim>\<open>Verify\<close>: the RSA branch copies the signature into an array of 256 bytes. A longer signature writes past
  it, which C++ leaves undefined.
\<close>

definition Verify :: "('c, 'rsa) key_lib \<Rightarrow> bytes \<Rightarrow> bytes \<Rightarrow> bytes \<Rightarrow> bool outcome" where
  "Verify L data signature public_key_base16 =
     (case GetKeyElement public_key_base16 of
        None \<Rightarrow> Inr False
      | Some (prefix, sign_type, raw_pubkey) \<Rightarrow>
          if prefix \<noteq> PUBLICKEY_PREFIX then Inr False
          else if sign_type = SIGNTYPE_ED25519 then Inr (ed25519_sign_open L data raw_pubkey signature = 0)
          else if sign_type = SIGNTYPE_CFCASM2 then Inr False
          else if sign_type = SIGNTYPE_RSA then
            (case d2i_RSA_PUBKEY L raw_pubkey of
               None \<Rightarrow> Inr False
             | Some p_rsa \<Rightarrow>
                 if length signature > 256 then Inl undefined_behaviour
                 else
                   let hash = SHA1 L data;
                       sign_cstr = memcpy (replicate 256 0) 0 signature;
                       r = RSA_verify L hash (take (length signature) sign_cstr) p_rsa
                   in Inr (r > 0))
          else if sign_type = SIGNTYPE_CFCA then Inr (CFCA_Verify L data signature raw_pubkey)
          else Inr False)"

section \<open>\<open>PrivateKey\<close>\<close>

record PrivateKey =
  raw_priv_key :: bytes
  priv_valid :: bool
  priv_type :: SignatureType
  pub_key :: PublicKey

text \<open>
  The constructor from a type: \<open>rnd\<close> are the random bytes and \<open>rsa\<close> the generated RSA key, none when the
  generation fails.
\<close>

definition PrivateKey_gen :: "('c, 'rsa) key_lib \<Rightarrow> bytes \<Rightarrow> 'rsa option \<Rightarrow> SignatureType \<Rightarrow> PrivateKey outcome" where
  "PrivateKey_gen L rnd rsa t =
     (let finish = (\<lambda>raw tmp. Inr \<lparr>raw_priv_key = raw, priv_valid = True, priv_type = t,
                      pub_key = (PublicKey_Init PublicKey_default tmp)\<lparr>pub_type := t, pub_valid := True\<rparr>\<rparr>)
      in if t = SIGNTYPE_ED25519 then
           let raw = memcpy (replicate 32 0) 0 (take 32 rnd)
           in finish raw (memcpy (replicate 32 0) 0 (ed25519_publickey L raw))
         else if t = SIGNTYPE_CFCASM2 then finish [] []
         else if t = SIGNTYPE_RSA then
           (case rsa of
              None \<Rightarrow> Inl assertion_failed
            | Some r \<Rightarrow> finish (i2d_RSAPrivateKey L r) (i2d_RSA_PUBKEY L r))
         else finish [] [])"

text \<open>
  \<^verbatim>\<open>From\<close>. When the RSA key does not parse, \<^verbatim>\<open>rsa\<close> stays \<^verbatim>\<open>NULL\<close>, whose encoding is empty.
\<close>

definition From :: "('c, 'rsa) key_lib \<Rightarrow> PrivateKey \<Rightarrow> bytes \<Rightarrow> bool \<times> PrivateKey" where
  "From L this base16_private_key =
     (case GetKeyElement base16_private_key of
        None \<Rightarrow> (False, this\<lparr>priv_valid := False\<rparr>)
      | Some (prefix, t, raw) \<Rightarrow>
          let this = this\<lparr>priv_valid := True, priv_type := t, raw_priv_key := raw\<rparr>
          in if prefix \<noteq> PRIVATEKEY_PREFIX then (False, this)
             else
               let tmp = (if t = SIGNTYPE_ED25519 then memcpy (replicate 32 0) 0 (ed25519_publickey L raw)
                          else if t = SIGNTYPE_CFCASM2 then []
                          else if t = SIGNTYPE_RSA then
                            (case d2i_RSAPrivateKey L raw of None \<Rightarrow> [] | Some rsa \<Rightarrow> i2d_RSA_PUBKEY L rsa)
                          else []);
                   pk = PublicKey_Init ((pub_key this)\<lparr>pub_type := t\<rparr>) tmp;
                   pk = pk\<lparr>pub_valid := True\<rparr>
               in (True, this\<lparr>pub_key := pk, priv_valid := True\<rparr>))"

definition PrivateKey_new :: "('c, 'rsa) key_lib \<Rightarrow> SignatureType \<Rightarrow> bytes \<Rightarrow> PrivateKey" where
  "PrivateKey_new L type0 base58_private_key =
     snd (From L \<lparr>raw_priv_key = [], priv_valid = False, priv_type = type0, pub_key = PublicKey_default\<rparr>
            base58_private_key)"

definition PrivateKey_CalcHash :: "('c, 'rsa) key_lib \<Rightarrow> (nat \<Rightarrow> byte) \<Rightarrow> PrivateKey \<Rightarrow> bytes \<Rightarrow> bytes" where
  "PrivateKey_CalcHash L junk this value =
     (if priv_type this = SIGNTYPE_ED25519 then Sha256_Crypto (sha256 L) value else Sm3_Crypto junk value)"

definition Sign :: "('c, 'rsa) key_lib \<Rightarrow> PrivateKey \<Rightarrow> bytes \<Rightarrow> bytes" where
  "Sign L this input =
     (if priv_type this = SIGNTYPE_ED25519 then
        take 64 (ed25519_sign L input (raw_priv_key this) (PublicKey_GetRawPublicKey (pub_key this)))
      else if priv_type this = SIGNTYPE_CFCASM2 then []
      else if priv_type this = SIGNTYPE_RSA then
        (case d2i_RSAPrivateKey L (raw_priv_key this) of
           None \<Rightarrow> []
         | Some p_rsa \<Rightarrow> RSA_sign L (SHA1 L input) p_rsa)
      else [])"

definition GetBase16PrivateKey :: "PrivateKey \<Rightarrow> bytes" where
  "GetBase16PrivateKey this =
     (let str_result = [PRIVATEKEY_PREFIX];
          str_result = str_result @ [priv_type this];
          str_result = str_result @ raw_priv_key this;
          str_result = str_result @ [Crc8 str_result]
      in BinToHexString str_result)"

definition GetBase16Address :: "('c, 'rsa) key_lib \<Rightarrow> (nat \<Rightarrow> byte) \<Rightarrow> PrivateKey \<Rightarrow> bytes" where
  "GetBase16Address L junk this = PublicKey_GetBase16Address L junk (pub_key this)"

definition GetBase16PublicKey :: "PrivateKey \<Rightarrow> bytes" where
  "GetBase16PublicKey this = PublicKey_GetBase16PublicKey (pub_key this)"

definition GetRawPublicKey :: "PrivateKey \<Rightarrow> bytes" where
  "GetRawPublicKey this = PublicKey_GetRawPublicKey (pub_key this)"

definition GetRawPrivateKey :: "PrivateKey \<Rightarrow> bytes" where
  "GetRawPrivateKey this = BinToHexString (raw_priv_key this)"

section \<open>Text forms\<close>

text \<open>
  The contract of a text form: what is shown is read back. It makes the form injective.
\<close>

locale text_form =
  fixes show_text :: "'a \<Rightarrow> bytes"
    and read_text :: "bytes \<Rightarrow> 'a option"
    and shown :: "'a \<Rightarrow> bool"
  assumes read_show: "shown x \<Longrightarrow> read_text (show_text x) = Some x"
begin

lemma show_inj: "shown x \<Longrightarrow> shown y \<Longrightarrow> show_text x = show_text y \<Longrightarrow> x = y"
  by (metis read_show option.inject)

end

lemmas key_consts = SIGNTYPE_NONE_def SIGNTYPE_ED25519_def SIGNTYPE_CFCASM2_def SIGNTYPE_RSA_def SIGNTYPE_CFCA_def
  ADDRESS_PREFIX_def PUBLICKEY_PREFIX_def PRIVATEKEY_PREFIX_def
  ED25519_ADDRESS_LENGTH_def ED25519_PUBLICKEY_LENGTH_def ED25519_PRIVATEKEY_LENGTH_def
  SM2_ADDRESS_LENGTH_def SM2_PUBLICKEY_LENGTH_def SM2_PRIVATEKEY_LENGTH_def

text \<open>The bytes behind a key text, and the lengths that \<^verbatim>\<open>GetKeyElement\<close> accepts.\<close>

definition key_bytes :: "PrivateKeyPrefix \<times> SignatureType \<times> bytes \<Rightarrow> bytes" where
  "key_bytes e = (case e of (p, t, raw) \<Rightarrow> p # t # raw @ [Crc8 (p # t # raw)])"

definition key_length_ok :: "PrivateKeyPrefix \<Rightarrow> SignatureType \<Rightarrow> nat \<Rightarrow> bool" where
  "key_length_ok p t n =
     (if p = 0xEA then t = 1 \<and> n = 20 \<or> t = 2 \<and> n = 20 \<or> t = 3 \<or> t = 4
      else if p = 0xEB then t = 1 \<and> n = 32 \<or> t = 2 \<and> n = 65 \<or> t = 3 \<or> t = 4
      else if p = 0xEC then t = 1 \<and> n = 32 \<or> t = 2 \<and> n = 32 \<or> t = 3 \<or> t = 4
      else False)"

definition key_element_ok :: "PrivateKeyPrefix \<times> SignatureType \<times> bytes \<Rightarrow> bool" where
  "key_element_ok e \<longleftrightarrow> (case e of (p, t, raw) \<Rightarrow> key_length_ok p t (length raw) \<and> length raw + 2 < 65536)"

lemma Crc8_loop: "length x < 65536 \<Longrightarrow> Crc8 x = crc8_loop 0 x"
  by (simp add: Crc8_def Crc8_ptr_def unsigned_of_nat take_bit_eq_mod)

lemma Crc8_ptr_prefix: "length x < 65536 \<Longrightarrow> Crc8_ptr (x @ y) (of_nat (length x)) = Crc8 x"
  by (simp add: Crc8_def Crc8_ptr_def unsigned_of_nat take_bit_eq_mod)

text \<open>\<^verbatim>\<open>GetKeyElement\<close> on the text of a byte string \<open>x @ [c]\<close>.\<close>

lemma GetKeyElement_bytes:
  assumes "length x < 65536"
  shows "GetKeyElement (BinToHexString (x @ [c])) =
    (if 2 \<le> length x \<and> c = Crc8 x \<and> key_length_ok (x ! 0) (x ! 1) (length x - 2)
     then Some (x ! 0, x ! 1, drop 2 x) else None)"
proof (cases "2 \<le> length x")
  case True
  then have nth: "(x @ [c]) ! 0 = x ! 0" "(x @ [c]) ! 1 = x ! 1" by (auto simp: nth_append)
  have ret: "(if p = ADDRESS_PREFIX then length_switch ED25519_ADDRESS_LENGTH SM2_ADDRESS_LENGTH t n
      else if p = PUBLICKEY_PREFIX then length_switch ED25519_PUBLICKEY_LENGTH SM2_PUBLICKEY_LENGTH t n
      else if p = PRIVATEKEY_PREFIX then length_switch ED25519_PRIVATEKEY_LENGTH SM2_PRIVATEKEY_LENGTH t n
      else False) = key_length_ok p t n" for p t n
    by (auto simp: key_length_ok_def length_switch_def key_consts)
  have "take (length x - 2) (drop 2 x @ [c]) = drop 2 x" using True by simp
  then show ?thesis
    using True assms
    unfolding GetKeyElement_def HexStringToBin_BinToHexString Let_def nth ret
    by (simp add: Crc8_ptr_prefix [OF assms] Suc_diff_le numeral_3_eq_3 numeral_2_eq_2)
next
  case False
  then show ?thesis by (simp add: GetKeyElement_def HexStringToBin_BinToHexString)
qed

lemma GetKeyElement_key_bytes: "key_element_ok e \<Longrightarrow> GetKeyElement (BinToHexString (key_bytes e)) = Some e"
proof -
  assume ok: "key_element_ok e"
  obtain p t raw where e: "e = (p, t, raw)" by (metis surj_pair)
  show ?thesis
    using ok GetKeyElement_bytes [of "p # t # raw" "Crc8 (p # t # raw)"]
    by (simp add: e key_element_ok_def key_bytes_def)
qed

interpretation keyt: text_form "\<lambda>e. BinToHexString (key_bytes e)" GetKeyElement key_element_ok
  by unfold_locales (rule GetKeyElement_key_bytes)

lemma public_key_bytes: "PublicKey_GetBase16PublicKey pk = BinToHexString (key_bytes (PUBLICKEY_PREFIX, pub_type pk, raw_pub_key pk))"
  by (simp add: PublicKey_GetBase16PublicKey_def key_bytes_def Let_def)

lemma private_key_bytes: "GetBase16PrivateKey k = BinToHexString (key_bytes (PRIVATEKEY_PREFIX, priv_type k, raw_priv_key k))"
  by (simp add: GetBase16PrivateKey_def key_bytes_def Let_def)

lemma address_bytes:
  "PublicKey_GetBase16Address L junk pk =
   BinToHexString (key_bytes (ADDRESS_PREFIX, pub_type pk, drop 12 (PublicKey_CalcHash L junk pk (raw_pub_key pk))))"
  by (simp add: PublicKey_GetBase16Address_def key_bytes_def Let_def)

section \<open>One changed byte\<close>

lemma last_byte: "z \<noteq> [] \<Longrightarrow> \<exists>x c. z = x @ [c]" for z :: bytes
  by (metis append_butlast_last_id)

lemma key_change_detected:
  assumes len: "length (s @ x # t) \<le> 65536" and ok: "GetKeyElement (BinToHexString (s @ x # t)) = Some e" and neq: "x \<noteq> y"
  shows "GetKeyElement (BinToHexString (s @ y # t)) = None"
proof (cases "t = []")
  case True
  then show ?thesis
    using len ok neq GetKeyElement_bytes [of s x] GetKeyElement_bytes [of s y] by (auto split: if_splits)
next
  case False
  then obtain u c where t: "t = u @ [c]" using last_byte by blast
  have "Crc8 (s @ x # u) \<noteq> Crc8 (s @ y # u)"
    using len crc8_loop_one [OF neq, of 0 s u] by (simp add: t Crc8_loop)
  then show ?thesis
    using len ok GetKeyElement_bytes [of "s @ x # u" c] GetKeyElement_bytes [of "s @ y # u" c]
    by (auto simp: t split: if_splits)
qed

section \<open>Generated keys\<close>

text \<open>
  The laws of the libraries: ed25519 keys and signatures have 32 and 64 bytes and a signature verifies under
  the public key of its secret key; RSA keys survive their encodings, whose size fits a key text, and a
  signature of at most 256 bytes verifies under the encoded public key.
\<close>

definition ed25519_laws :: "('c, 'rsa) key_lib \<Rightarrow> bool" where
  "ed25519_laws L \<longleftrightarrow>
     (\<forall>sk. length (ed25519_publickey L sk) = 32) \<and>
     (\<forall>m sk. length (ed25519_sign L m sk (ed25519_publickey L sk)) = 64) \<and>
     (\<forall>m sk. length sk = 32 \<longrightarrow> ed25519_sign_open L m (ed25519_publickey L sk) (ed25519_sign L m sk (ed25519_publickey L sk)) = 0)"

definition rsa_laws :: "('c, 'rsa) key_lib \<Rightarrow> 'rsa \<Rightarrow> bool" where
  "rsa_laws L r \<longleftrightarrow>
     d2i_RSAPrivateKey L (i2d_RSAPrivateKey L r) = Some r \<and>
     length (i2d_RSAPrivateKey L r) + 2 < 65536 \<and> length (i2d_RSA_PUBKEY L r) + 2 < 65536 \<and>
     (\<exists>pub. d2i_RSA_PUBKEY L (i2d_RSA_PUBKEY L r) = Some pub \<and>
        (\<forall>h. length (RSA_sign L h r) \<le> 256 \<and> 0 < RSA_verify L h (RSA_sign L h r) pub))"

text \<open>What a generated or restored key is.\<close>

definition key_of :: "SignatureType \<Rightarrow> bytes \<Rightarrow> bytes \<Rightarrow> PrivateKey" where
  "key_of t raw pub =
     \<lparr>raw_priv_key = raw, priv_valid = True, priv_type = t,
      pub_key = \<lparr>raw_pub_key = pub, pub_valid = True, pub_type = t\<rparr>\<rparr>"

lemma gen_ed25519:
  assumes "ed25519_laws L" "length rnd = 32"
  shows "PrivateKey_gen L rnd rsa SIGNTYPE_ED25519 = Inr (key_of SIGNTYPE_ED25519 rnd (ed25519_publickey L rnd))"
  using assms
  by (simp add: PrivateKey_gen_def ed25519_laws_def memcpy_def key_of_def PublicKey_Init_def PublicKey_default_def)

lemma gen_rsa:
  "PrivateKey_gen L rnd (Some r) SIGNTYPE_RSA = Inr (key_of SIGNTYPE_RSA (i2d_RSAPrivateKey L r) (i2d_RSA_PUBKEY L r))"
  by (simp add: PrivateKey_gen_def key_of_def PublicKey_Init_def PublicKey_default_def key_consts)

lemma From_text:
  assumes "key_element_ok (PRIVATEKEY_PREFIX, t, raw)"
  shows "From L k0 (GetBase16PrivateKey (key_of t raw pub)) =
    (True, key_of t raw
       (if t = SIGNTYPE_ED25519 then memcpy (replicate 32 0) 0 (ed25519_publickey L raw)
        else if t = SIGNTYPE_RSA then (case d2i_RSAPrivateKey L raw of None \<Rightarrow> [] | Some rsa \<Rightarrow> i2d_RSA_PUBKEY L rsa)
        else []))"
  using keyt.read_show [OF assms]
  by (simp add: From_def private_key_bytes key_of_def PublicKey_Init_def key_consts)

lemma key_element_ed25519: "length raw = 32 \<Longrightarrow> p \<in> {PUBLICKEY_PREFIX, PRIVATEKEY_PREFIX} \<Longrightarrow> key_element_ok (p, SIGNTYPE_ED25519, raw)"
  by (auto simp: key_element_ok_def key_length_ok_def key_consts)

lemma key_element_rsa: "length raw + 2 < 65536 \<Longrightarrow> p \<in> {PUBLICKEY_PREFIX, PRIVATEKEY_PREFIX} \<Longrightarrow> key_element_ok (p, SIGNTYPE_RSA, raw)"
  by (auto simp: key_element_ok_def key_length_ok_def key_consts)

lemma Verify_text:
  assumes "key_element_ok (PUBLICKEY_PREFIX, t, pub)"
  shows "Verify L data sig (GetBase16PublicKey (key_of t raw pub)) =
    (if t = SIGNTYPE_ED25519 then Inr (ed25519_sign_open L data pub sig = 0)
     else if t = SIGNTYPE_CFCASM2 then Inr False
     else if t = SIGNTYPE_RSA then
       (case d2i_RSA_PUBKEY L pub of None \<Rightarrow> Inr False
        | Some p_rsa \<Rightarrow> if length sig > 256 then Inl undefined_behaviour else Inr (RSA_verify L (SHA1 L data) sig p_rsa > 0))
     else if t = SIGNTYPE_CFCA then Inr (CFCA_Verify L data sig pub) else Inr False)"
  using keyt.read_show [OF assms]
  by (simp add: Verify_def GetBase16PublicKey_def public_key_bytes key_of_def memcpy_def split: option.split)

lemma key_of_fields [simp]:
  "raw_priv_key (key_of t raw pub) = raw" "priv_type (key_of t raw pub) = t"
  "raw_pub_key (pub_key (key_of t raw pub)) = pub"
  by (simp_all add: key_of_def)

lemma ed25519_sign_verify:
  assumes "ed25519_laws L" "length rnd = 32"
  defines "k \<equiv> key_of SIGNTYPE_ED25519 rnd (ed25519_publickey L rnd)"
  shows "Verify L data (Sign L k data) (GetBase16PublicKey k) = Inr True"
  using assms(1,2) key_element_ed25519 [of "ed25519_publickey L rnd" PUBLICKEY_PREFIX]
  by (simp add: k_def Verify_text Sign_def ed25519_laws_def PublicKey_GetRawPublicKey_def)

lemma rsa_sign_verify:
  assumes "rsa_laws L r"
  defines "k \<equiv> key_of SIGNTYPE_RSA (i2d_RSAPrivateKey L r) (i2d_RSA_PUBKEY L r)"
  shows "Verify L data (Sign L k data) (GetBase16PublicKey k) = Inr True"
proof -
  obtain pub where "d2i_RSA_PUBKEY L (i2d_RSA_PUBKEY L r) = Some pub"
    "\<And>h. length (RSA_sign L h r) \<le> 256" "\<And>h. 0 < RSA_verify L h (RSA_sign L h r) pub"
    using assms(1) unfolding rsa_laws_def by blast
  moreover have "key_element_ok (PUBLICKEY_PREFIX, SIGNTYPE_RSA, i2d_RSA_PUBKEY L r)"
    using assms(1) by (intro key_element_rsa) (simp_all add: rsa_laws_def)
  ultimately show ?thesis
    using assms(1) by (simp add: k_def Verify_text Sign_def rsa_laws_def key_consts not_less)
qed

lemma length_PUT: "length (concat (map (\<lambda>i. PUT_ULONG_BE (f i)) [0..<8])) = 32"
  by (simp add: PUT_ULONG_BE_def length_concat o_def sum_list_triv)

lemma length_Sm3_Crypto [simp]: "length (Sm3_Crypto junk x) = 32"
  unfolding Sm3_Crypto_def sm3_finish_def Let_def snd_conv by (rule length_PUT)

lemma length_Sha256_Crypto: "sha256_law L \<Longrightarrow> length (Sha256_Crypto L x) = 32"
  by (simp add: Sha256_Crypto_def sha256_law_def memcpy_def)

lemma IsAddressValid_bytes:
  "length raw = 20 \<Longrightarrow> IsAddressValid (BinToHexString (key_bytes (ADDRESS_PREFIX, t, raw)))"
  unfolding IsAddressValid_def HexStringToBin_BinToHexString Let_def by (simp add: key_bytes_def)

section \<open>A library for the witnesses\<close>

definition toy_lib :: "(byte, bytes) key_lib" where
  "toy_lib =
     \<lparr>sha256 = sum_sha256, ed25519_publickey = (\<lambda>sk. map ((XOR) 1) (take 32 (sk @ replicate 32 0))),
      ed25519_sign = (\<lambda>m sk pk. pk @ replicate 32 (sum_list m)),
      ed25519_sign_open = (\<lambda>m pk sig. if sig = pk @ replicate 32 (sum_list m) then 0 else - 1),
      d2i_RSA_PUBKEY = Some, d2i_RSAPrivateKey = Some, i2d_RSA_PUBKEY = id, i2d_RSAPrivateKey = id,
      SHA1 = (\<lambda>m. [sum_list m]), RSA_sign = (\<lambda>h r. take 256 (h @ replicate 256 0)),
      RSA_verify = (\<lambda>h sig r. if sig = take 256 (h @ replicate 256 0) then 1 else 0),
      CFCA_Verify = (\<lambda>d s p. False)\<rparr>"

lemma toy_laws:
  "ed25519_laws toy_lib" "rsa_laws toy_lib (replicate 9 4)" "sha256_law (sha256 toy_lib)"
proof -
  show "ed25519_laws toy_lib" by (simp add: ed25519_laws_def toy_lib_def min_def)
  show "rsa_laws toy_lib (replicate 9 4)" by (simp add: rsa_laws_def toy_lib_def min_def)
  show "sha256_law (sha256 toy_lib)" by (simp add: sha256_law_def toy_lib_def sum_sha256_def add.assoc)
qed

section \<open>Properties\<close>

text \<open>
  Key texts read back: \<^verbatim>\<open>GetKeyElement\<close> returns the prefix, the type and the raw data of the text of a public or
  private key of an admissible length, the public key is reconstructed from its text as a valid key,
  and different keys have different texts.
\<close>

theorem key_text_roundtrip:
  assumes "key_element_ok (PUBLICKEY_PREFIX, pub_type pk, raw_pub_key pk)"
    and "key_element_ok (PRIVATEKEY_PREFIX, priv_type k, raw_priv_key k)"
  shows "GetKeyElement (PublicKey_GetBase16PublicKey pk) = Some (PUBLICKEY_PREFIX, pub_type pk, raw_pub_key pk) \<and>
         GetKeyElement (GetBase16PrivateKey k) = Some (PRIVATEKEY_PREFIX, priv_type k, raw_priv_key k) \<and>
         PublicKey_new p0 t0 (PublicKey_GetBase16PublicKey pk) = pk\<lparr>pub_valid := True\<rparr> \<and>
         (key_element_ok (PUBLICKEY_PREFIX, pub_type pk', raw_pub_key pk') \<and>
          PublicKey_GetBase16PublicKey pk' = PublicKey_GetBase16PublicKey pk \<longrightarrow>
            pub_type pk' = pub_type pk \<and> raw_pub_key pk' = raw_pub_key pk)"
  using keyt.read_show [OF assms(1)] keyt.read_show [OF assms(2)] keyt.show_inj [OF _ assms(1)]
  by (auto simp: public_key_bytes private_key_bytes PublicKey_new_def)

theorem key_text_roundtrip_witness:
  "GetKeyElement (GetBase16PrivateKey \<lparr>raw_priv_key = replicate 32 7, priv_valid = True, priv_type = 1, pub_key = PublicKey_default\<rparr>)
     = Some (PRIVATEKEY_PREFIX, 1, replicate 32 7)"
  using key_text_roundtrip [of "\<lparr>raw_pub_key = replicate 32 5, pub_valid = True, pub_type = 1\<rparr>"
      "\<lparr>raw_priv_key = replicate 32 7, priv_valid = True, priv_type = 1, pub_key = PublicKey_default\<rparr>"]
  by (simp add: key_element_ok_def key_length_ok_def key_consts)

text \<open>
  Claim C9. Saving and restoring a key: \<^verbatim>\<open>From\<close> on the text of a generated ed25519 or RSA private key succeeds on any object
  and gives exactly the generated key, with the same public key.
\<close>

theorem private_key_restored:
  assumes "ed25519_laws L" and "length rnd = 32" and "rsa_laws L r"
  shows "\<forall>t \<in> {SIGNTYPE_ED25519, SIGNTYPE_RSA}.
           \<exists>k. PrivateKey_gen L rnd (Some r) t = Inr k \<and> From L k0 (GetBase16PrivateKey k) = (True, k)"
proof -
  have "From L k0 (GetBase16PrivateKey (key_of SIGNTYPE_ED25519 rnd (ed25519_publickey L rnd)))
      = (True, key_of SIGNTYPE_ED25519 rnd (ed25519_publickey L rnd))"
    using assms by (simp add: From_text key_element_ed25519 ed25519_laws_def memcpy_def)
  moreover have "From L k0 (GetBase16PrivateKey (key_of SIGNTYPE_RSA (i2d_RSAPrivateKey L r) (i2d_RSA_PUBKEY L r)))
      = (True, key_of SIGNTYPE_RSA (i2d_RSAPrivateKey L r) (i2d_RSA_PUBKEY L r))"
  proof -
    have "key_element_ok (PRIVATEKEY_PREFIX, SIGNTYPE_RSA, i2d_RSAPrivateKey L r)"
      by (rule key_element_rsa) (use assms(3) in \<open>simp_all add: rsa_laws_def\<close>)
    then show ?thesis using assms(3) by (simp add: From_text rsa_laws_def key_consts)
  qed
  ultimately show ?thesis using gen_ed25519 [OF assms(1,2), of "Some r"] gen_rsa [of L rnd r] by auto
qed

theorem private_key_restored_witness:
  "\<exists>k. PrivateKey_gen toy_lib (replicate 32 9) (Some (replicate 9 4)) SIGNTYPE_ED25519 = Inr k \<and>
       From toy_lib (PrivateKey_new toy_lib 0 []) (GetBase16PrivateKey k) = (True, k)"
proof -
  have len: "length (replicate 32 (9 :: byte)) = 32" by simp
  show ?thesis using private_key_restored [OF toy_laws(1) len toy_laws(2)] by blast
qed

text \<open>
  Claim C21. What a generated ed25519 or RSA key signs verifies under the text of its public key; an SM2 key signs with the
  empty string, and verification under an SM2 public key always fails.
\<close>

theorem signatures_verify:
  assumes "ed25519_laws L" and "length rnd = 32" and "rsa_laws L r"
  shows "(\<forall>t \<in> {SIGNTYPE_ED25519, SIGNTYPE_RSA}.
            \<exists>k. PrivateKey_gen L rnd (Some r) t = Inr k \<and> Verify L data (Sign L k data) (GetBase16PublicKey k) = Inr True) \<and>
         (priv_type k2 = SIGNTYPE_CFCASM2 \<longrightarrow> Sign L k2 data = []) \<and>
         (GetKeyElement text = Some (PUBLICKEY_PREFIX, SIGNTYPE_CFCASM2, raw) \<longrightarrow> Verify L data sig text = Inr False)"
proof (intro conjI)
  show "\<forall>t \<in> {SIGNTYPE_ED25519, SIGNTYPE_RSA}.
    \<exists>k. PrivateKey_gen L rnd (Some r) t = Inr k \<and> Verify L data (Sign L k data) (GetBase16PublicKey k) = Inr True"
    using gen_ed25519 [OF assms(1,2), of "Some r"] gen_rsa [of L rnd r]
      ed25519_sign_verify [OF assms(1,2), of data] rsa_sign_verify [OF assms(3), of data] by simp
qed (simp_all add: Sign_def Verify_def key_consts)

theorem signatures_verify_witness:
  "\<exists>k. PrivateKey_gen toy_lib (replicate 32 9) (Some (replicate 9 4)) SIGNTYPE_RSA = Inr k \<and>
       Verify toy_lib [1, 2, 3] (Sign toy_lib k [1, 2, 3]) (GetBase16PublicKey k) = Inr True"
proof -
  have len: "length (replicate 32 (9 :: byte)) = 32" by simp
  show ?thesis using signatures_verify [OF toy_laws(1) len toy_laws(2)] by blast
qed

text \<open>
  Claim C34. The address of a public key, whatever its type, is a valid address, and \<^verbatim>\<open>GetKeyElement\<close> splits it into the type and the last
  20 bytes of the hash of the key.
\<close>

theorem address_accepted:
  assumes "sha256_law (sha256 L)"
  shows "IsAddressValid (PublicKey_GetBase16Address L junk pk) \<and>
         (pub_type pk \<in> {SIGNTYPE_ED25519, SIGNTYPE_CFCASM2, SIGNTYPE_RSA, SIGNTYPE_CFCA} \<longrightarrow>
            GetKeyElement (PublicKey_GetBase16Address L junk pk) =
              Some (ADDRESS_PREFIX, pub_type pk, drop 12 (PublicKey_CalcHash L junk pk (raw_pub_key pk))))"
proof -
  let ?a = "drop 12 (PublicKey_CalcHash L junk pk (raw_pub_key pk))"
  have len: "length ?a = 20" using length_Sha256_Crypto [OF assms] by (simp add: PublicKey_CalcHash_def)
  then have "key_element_ok (ADDRESS_PREFIX, pub_type pk, ?a)"
    if "pub_type pk \<in> {SIGNTYPE_ED25519, SIGNTYPE_CFCASM2, SIGNTYPE_RSA, SIGNTYPE_CFCA}"
    using that by (auto simp: key_element_ok_def key_length_ok_def key_consts)
  then show ?thesis using IsAddressValid_bytes [OF len] keyt.read_show unfolding address_bytes by blast
qed

theorem address_accepted_witness:
  "IsAddressValid (PublicKey_GetBase16Address toy_lib (\<lambda>i. 0) \<lparr>raw_pub_key = [1, 2, 3], pub_valid = True, pub_type = 1\<rparr>)"
  using address_accepted [OF toy_laws(3)] by blast

text \<open>
  Claim C17. The check byte protects key texts: when one byte of the data behind an accepted text of at most 65536 bytes is changed, the
  text is rejected, so that an object is neither restored from it nor a signature verified under it.
\<close>

theorem key_tampering_detected:
  assumes "length (s @ x # t) \<le> 65536" and "GetKeyElement (BinToHexString (s @ x # t)) = Some e" and "x \<noteq> y"
  shows "GetKeyElement (BinToHexString (s @ y # t)) = None \<and>
         fst (From L k (BinToHexString (s @ y # t))) = False \<and>
         Verify L data sig (BinToHexString (s @ y # t)) = Inr False"
  using key_change_detected [OF assms] by (simp add: From_def Verify_def)

theorem key_tampering_detected_witness:
  "GetKeyElement (BinToHexString [0xEB, 3, 1, 2, Crc8 [0xEB, 3, 1, 2]]) = Some (0xEB, 3, [1, 2]) \<and>
   GetKeyElement (BinToHexString [0xEB, 3, 1, 7, Crc8 [0xEB, 3, 1, 2]]) = None"
proof -
  have ok: "GetKeyElement (BinToHexString ([0xEB, 3, 1] @ 2 # [Crc8 [0xEB, 3, 1, 2]])) = Some (0xEB, 3, [1, 2])"
    using GetKeyElement_bytes [of "[0xEB, 3, 1, 2]" "Crc8 [0xEB, 3, 1, 2]"] by (simp add: key_length_ok_def)
  show ?thesis using ok key_tampering_detected [OF _ ok, of 7 toy_lib "PrivateKey_new toy_lib 0 []"] by (simp del: BinToHexString.simps)
qed

end
