(* ===== verification/EntryCache.thy ===== *)
theory EntryCache
  imports Prelude
begin

text \<open>
  The layered cache of \<^verbatim>\<open>src/utils/entry_cache.h\<close>. A cache keeps records in a \<^verbatim>\<open>std::map\<close> (here a list of pairs sorted
  by the key), each with a shared pointer to a value and what happened to it; it reads through to its parent
  cache, and the last one to \<^verbatim>\<open>LoadValue\<close>, a parameter. Values are cells of a heap, since the pointers that are handed out
  may be used to change them. A cache and its ancestors are a list of maps, the cache first.

  \<open>view\<close> is the abstract map that a cache shows. Every operation is related to it, and a merge of a branch into
  its parent refines the replacement of the view.
\<close>

section \<open>The cache\<close>

datatype ChangeAction = KEEP | ADD | MOD | DEL

type_synonym ptr = nat

record Record =
  record_value :: ptr
  record_action :: ChangeAction

type_synonym 'k entries = "('k \<times> Record) list"

text \<open>\<^verbatim>\<open>std::map\<close>: \<^verbatim>\<open>find\<close>, \<^verbatim>\<open>insert\<close> (which keeps an entry that is there), assignment through an iterator, \<^verbatim>\<open>erase\<close>.\<close>

definition map_find :: "'k entries \<Rightarrow> 'k \<Rightarrow> Record option" where
  "map_find es k = map_of es k"

fun map_insert :: "'k :: linorder \<Rightarrow> Record \<Rightarrow> 'k entries \<Rightarrow> 'k entries" where
  "map_insert k r [] = [(k, r)]"
| "map_insert k r ((k', r') # es) =
     (if k < k' then (k, r) # (k', r') # es else if k = k' then (k', r') # es else (k', r') # map_insert k r es)"

definition map_assign :: "'k \<Rightarrow> Record \<Rightarrow> 'k entries \<Rightarrow> 'k entries" where
  "map_assign k r es = map (\<lambda>(k', r'). (k', if k' = k then r else r')) es"

definition map_erase :: "'k \<Rightarrow> 'k entries \<Rightarrow> 'k entries" where
  "map_erase k es = filter (\<lambda>(k', r'). k' \<noteq> k) es"

text \<open>
  \<^verbatim>\<open>GetRecord\<close> on a cache and its ancestors. \<open>load\<close> is \<^verbatim>\<open>LoadValue\<close> of the last one, which creates the value; it leaves the
  action of the record \<open>r\<close> as it is.
\<close>

fun GetRecord :: "('k \<Rightarrow> 'v option) \<Rightarrow> 'v list \<Rightarrow> 'k entries list \<Rightarrow> 'k \<Rightarrow> Record \<Rightarrow> bool \<times> Record \<times> 'v list" where
  "GetRecord load h [] key r = (False, r, h)"
| "GetRecord load h (es # parents) key r =
     (case map_find es key of
        Some r' \<Rightarrow> (True, r', h)
      | None \<Rightarrow>
          if parents \<noteq> [] then GetRecord load h parents key r
          else (case load key of
                  Some v \<Rightarrow> (True, r\<lparr>record_value := length h\<rparr>, h @ [v])
                | None \<Rightarrow> (False, r, h)))"

text \<open>
  \<^verbatim>\<open>GetEntry\<close> returns whether it succeeds, the pointer, the heap and the entries of this cache. \<open>junk\<close> is the
  action of an uninitialised \<^verbatim>\<open>Record\<close>; \<open>clone\<close> is the constructor of \<^verbatim>\<open>Value\<close> that \<^verbatim>\<open>make_shared\<close> calls.
\<close>

definition GetEntry ::
  "('k :: linorder \<Rightarrow> 'v option) \<Rightarrow> ('v \<Rightarrow> 'v) \<Rightarrow> ChangeAction \<Rightarrow> 'v list \<Rightarrow> 'k entries \<Rightarrow> 'k entries list \<Rightarrow> 'k \<Rightarrow> ptr
     \<Rightarrow> bool \<times> ptr \<times> 'v list \<times> 'k entries" where
  "GetEntry load clone junk h es parents key pval =
     (case map_find es key of
        Some r \<Rightarrow> if record_action r \<noteq> DEL then (True, record_value r, h, es) else (False, pval, h, es)
      | None \<Rightarrow>
          if parents \<noteq> [] then
            let (found, r, h) = GetRecord load h parents key \<lparr>record_value = 0, record_action = junk\<rparr>
            in if found \<and> record_action r \<noteq> DEL then
                 let pval = length h; h = h @ [clone (h ! record_value r)]
                 in (True, pval, h, map_insert key \<lparr>record_value = pval, record_action = MOD\<rparr> es)
               else (False, pval, h, es)
          else (case load key of
                  Some v \<Rightarrow>
                    let pval = length h
                    in (True, pval, h @ [v], map_insert key \<lparr>record_value = pval, record_action = MOD\<rparr> es)
                | None \<Rightarrow> (False, pval, h, es)))"

definition AddEntry ::
  "('k :: linorder \<Rightarrow> 'v option) \<Rightarrow> ChangeAction \<Rightarrow> 'v list \<Rightarrow> 'k entries \<Rightarrow> 'k entries list \<Rightarrow> 'k \<Rightarrow> ptr
     \<Rightarrow> bool \<times> 'v list \<times> 'k entries" where
  "AddEntry load junk h es parents key pval =
     (case map_find es key of
        Some r \<Rightarrow>
          if record_action r = DEL then (True, h, map_assign key \<lparr>record_value = pval, record_action = MOD\<rparr> es)
          else (False, h, es)
      | None \<Rightarrow>
          if parents \<noteq> [] then
            let (found, r, h) = GetRecord load h parents key \<lparr>record_value = 0, record_action = junk\<rparr>
            in if found \<and> record_action r \<noteq> DEL then (False, h, es)
               else (True, h, map_insert key \<lparr>record_value = pval, record_action = ADD\<rparr> es)
          else (case load key of
                  None \<Rightarrow> (True, h, map_insert key \<lparr>record_value = pval, record_action = ADD\<rparr> es)
                | Some v \<Rightarrow> (False, h @ [v], es)))"

definition DeleteEntry ::
  "('k :: linorder \<Rightarrow> 'v option) \<Rightarrow> ChangeAction \<Rightarrow> 'v list \<Rightarrow> 'k entries \<Rightarrow> 'k entries list \<Rightarrow> 'k
     \<Rightarrow> bool \<times> 'v list \<times> 'k entries" where
  "DeleteEntry load junk h es parents key =
     (let rest = (\<lambda>es.
            let (found, r, h) = GetRecord load h (es # parents) key \<lparr>record_value = 0, record_action = junk\<rparr>
            in if found \<and> record_action r \<noteq> DEL then (True, h, map_insert key (r\<lparr>record_action := DEL\<rparr>) es)
               else (False, h, es))
      in case map_find es key of
           Some r \<Rightarrow> if record_action r = DEL then (False, h, es) else rest (map_assign key (r\<lparr>record_action := DEL\<rparr>) es)
         | None \<Rightarrow> rest es)"

text \<open>
  \<^verbatim>\<open>MergeFromBranch\<close>: the loop over the entries of the branch. The case of \<open>ADD\<close> has no \<^verbatim>\<open>break\<close> and runs into the one of \<open>KEEP\<close>,
  which does nothing. A conflict returns false at once and keeps what was merged so far.
\<close>

fun MergeFromBranch :: "'k :: linorder entries \<Rightarrow> 'k entries \<Rightarrow> bool \<times> 'k entries" where
  "MergeFromBranch es [] = (True, es)"
| "MergeFromBranch es ((k, it) # branch) =
     (case record_action it of
        ADD \<Rightarrow>
          (case map_find es k of
             Some x \<Rightarrow>
               if record_action x = DEL then MergeFromBranch (map_assign k (it\<lparr>record_action := MOD\<rparr>) es) branch
               else (False, es)
           | None \<Rightarrow> MergeFromBranch (map_insert k it es) branch)
      | KEEP \<Rightarrow> MergeFromBranch es branch
      | MOD \<Rightarrow>
          (case map_find es k of
             Some x \<Rightarrow> MergeFromBranch (map_assign k it es) branch
           | None \<Rightarrow> MergeFromBranch (map_insert k it es) branch)
      | DEL \<Rightarrow>
          (case map_find es k of
             Some x \<Rightarrow>
               (case record_action x of
                  ADD \<Rightarrow> MergeFromBranch (map_erase k es) branch
                | MOD \<Rightarrow> MergeFromBranch (map_assign k (x\<lparr>record_action := DEL\<rparr>) es) branch
                | KEEP \<Rightarrow> MergeFromBranch (map_assign k (x\<lparr>record_action := DEL\<rparr>) es) branch
                | DEL \<Rightarrow> (False, es))
           | None \<Rightarrow> MergeFromBranch (map_insert k it es) branch))"

definition GetEntries :: "'k entries \<Rightarrow> 'k entries" where
  "GetEntries es = es"

section \<open>The map that a cache shows\<close>

fun view :: "('k \<Rightarrow> 'v option) \<Rightarrow> 'v list \<Rightarrow> 'k entries list \<Rightarrow> 'k \<Rightarrow> 'v option" where
  "view load h [] k = load k"
| "view load h (es # parents) k =
     (case map_of es k of
        Some r \<Rightarrow> if record_action r = DEL then None else Some (h ! record_value r)
      | None \<Rightarrow> view load h parents k)"

section \<open>The map\<close>

text \<open>
  What the cache relies on of \<^verbatim>\<open>std::map\<close>: every operation keeps the representation and has its effect on the
  function from keys to records.
\<close>

locale std_map =
  fixes find :: "'m \<Rightarrow> 'k \<Rightarrow> 'r option"
    and insert :: "'k \<Rightarrow> 'r \<Rightarrow> 'm \<Rightarrow> 'm"
    and assign :: "'k \<Rightarrow> 'r \<Rightarrow> 'm \<Rightarrow> 'm"
    and erase :: "'k \<Rightarrow> 'm \<Rightarrow> 'm"
    and inv :: "'m \<Rightarrow> bool"
  assumes inv_insert: "inv m \<Longrightarrow> inv (insert k r m)"
    and inv_assign: "inv m \<Longrightarrow> inv (assign k r m)"
    and inv_erase: "inv m \<Longrightarrow> inv (erase k m)"
    and find_insert: "inv m \<Longrightarrow> find (insert k r m) = (if find m k = None then (find m)(k \<mapsto> r) else find m)"
    and find_assign: "inv m \<Longrightarrow> find (assign k r m) = (if find m k = None then find m else (find m)(k \<mapsto> r))"
    and find_erase: "inv m \<Longrightarrow> find (erase k m) = (find m)(k := None)"
begin

lemma find_assign_there: "inv m \<Longrightarrow> find m k = Some r' \<Longrightarrow> find (assign k r m) = (find m)(k \<mapsto> r)"
  by (simp add: find_assign)

lemma find_insert_new: "inv m \<Longrightarrow> find m k = None \<Longrightarrow> find (insert k r m) = (find m)(k \<mapsto> r)"
  by (simp add: find_insert)

end

definition map_inv :: "'k :: linorder entries \<Rightarrow> bool" where
  "map_inv es \<longleftrightarrow> sorted_wrt (<) (map fst es)"

lemma map_inv_Nil [simp]: "map_inv []"
  by (simp add: map_inv_def)

lemma set_map_insert: "fst ` set (map_insert k r es) = Set.insert k (fst ` set es)"
  by (induction k r es rule: map_insert.induct) auto

lemma map_inv_insert: "map_inv es \<Longrightarrow> map_inv (map_insert k r es)"
proof (induction es)
  case (Cons e es)
  obtain k' r' where e: "e = (k', r')" by fastforce
  show ?case
    using Cons set_map_insert [of k r es] by (auto simp: e map_inv_def image_iff)
qed (simp add: map_inv_def)

lemma map_fst_assign: "map fst (map_assign k r es) = map fst es"
  by (induction es) (auto simp: map_assign_def)

lemma find_map_insert:
  "map_inv es \<Longrightarrow> map_find (map_insert k r es) = (if map_find es k = None then (map_find es)(k \<mapsto> r) else map_find es)"
proof (induction es)
  case (Cons e es)
  obtain k' r' where e: "e = (k', r')" by fastforce
  have "map_inv es" and lt: "\<And>x. x \<in> fst ` set es \<Longrightarrow> k' < x" using Cons.prems by (auto simp: e map_inv_def)
  moreover have "map_of es k = None" if "k < k'"
    using lt that by (auto simp: map_of_eq_None_iff dest: order.strict_trans)
  ultimately show ?case
    using Cons.IH by (auto simp: e map_find_def fun_eq_iff)
qed (simp add: map_find_def fun_eq_iff)

interpretation em: std_map map_find map_insert map_assign map_erase map_inv
proof
  fix m :: "'k :: linorder entries" and k :: 'k and r :: Record
  assume m: "map_inv m"
  show "map_inv (map_insert k r m)" using m by (rule map_inv_insert)
  show "map_inv (map_assign k r m)" using m by (simp add: map_inv_def map_fst_assign)
  show "map_inv (map_erase k m)"
    using m unfolding map_inv_def map_erase_def by (induction m) auto
  show "map_find (map_insert k r m) = (if map_find m k = None then (map_find m)(k \<mapsto> r) else map_find m)"
    using m by (rule find_map_insert)
  show "map_find (map_assign k r m) = (if map_find m k = None then map_find m else (map_find m)(k \<mapsto> r))"
    by (induction m) (auto simp: map_find_def map_assign_def fun_eq_iff)
  show "map_find (map_erase k m) = (map_find m)(k := None)"
    by (induction m) (auto simp: map_find_def map_erase_def fun_eq_iff)
qed

section \<open>Views\<close>

definition valid_entries :: "'v list \<Rightarrow> 'k entries \<Rightarrow> bool" where
  "valid_entries h es \<longleftrightarrow> (\<forall>k r. map_find es k = Some r \<longrightarrow> record_value r < length h)"

definition chain_ok :: "'v list \<Rightarrow> 'k :: linorder entries list \<Rightarrow> bool" where
  "chain_ok h chain \<longleftrightarrow> (\<forall>es \<in> set chain. map_inv es \<and> valid_entries h es)"

lemma chain_ok_Cons [simp]: "chain_ok h (es # ps) \<longleftrightarrow> map_inv es \<and> valid_entries h es \<and> chain_ok h ps"
  by (auto simp: chain_ok_def)

lemma view_Cons: "view load h (es # ps) k =
    (case map_find es k of Some r \<Rightarrow> if record_action r = DEL then None else Some (h ! record_value r) | None \<Rightarrow> view load h ps k)"
  by (simp add: map_find_def)

declare view.simps(2) [simp del]

lemma valid_append: "valid_entries h es \<Longrightarrow> valid_entries (h @ x) es"
  by (auto simp: valid_entries_def trans_less_add1)

lemma chain_ok_append: "chain_ok h ps \<Longrightarrow> chain_ok (h @ x) ps"
  by (auto simp: chain_ok_def valid_append)

lemma view_append: "chain_ok h ps \<Longrightarrow> view load (h @ x) ps = view load h ps"
proof (induction ps)
  case (Cons es ps)
  then have "valid_entries h es" and IH: "view load (h @ x) ps = view load h ps" by simp_all
  then show ?case
    by (auto simp: fun_eq_iff view_Cons valid_entries_def nth_append split: option.split)
qed (simp add: fun_eq_iff)

text \<open>\<^verbatim>\<open>GetRecord\<close> finds what the view shows, when the action of the record it is given is not \<open>DEL\<close>.\<close>

lemma GetRecord_view:
  assumes "chain_ok h ps" "ps \<noteq> []" "GetRecord load h ps k r0 = (found, r, h')"
  shows "\<exists>x. h' = h @ x" "found \<Longrightarrow> record_value r < length h'"
    "found \<Longrightarrow> record_action r \<noteq> DEL \<Longrightarrow> view load h ps k = Some (h' ! record_value r)"
    "record_action r0 \<noteq> DEL \<Longrightarrow> \<not> (found \<and> record_action r \<noteq> DEL) \<Longrightarrow> view load h ps k = None"
proof -
  have "(\<exists>x. h' = h @ x) \<and> (found \<longrightarrow> record_value r < length h') \<and>
    (found \<and> record_action r \<noteq> DEL \<longrightarrow> view load h ps k = Some (h' ! record_value r)) \<and>
    (record_action r0 \<noteq> DEL \<and> \<not> (found \<and> record_action r \<noteq> DEL) \<longrightarrow> view load h ps k = None)"
    using assms
  proof (induction ps)
    case (Cons es ps)
    show ?case
    proof (cases "map_find es k")
      case None
      then show ?thesis
        using Cons by (cases "ps = []") (auto simp: view_Cons split: option.splits)
    next
      case (Some r')
      then show ?thesis
        using Cons.prems by (auto simp: view_Cons valid_entries_def)
    qed
  qed simp
  then show "\<exists>x. h' = h @ x" "found \<Longrightarrow> record_value r < length h'"
    "found \<Longrightarrow> record_action r \<noteq> DEL \<Longrightarrow> view load h ps k = Some (h' ! record_value r)"
    "record_action r0 \<noteq> DEL \<Longrightarrow> \<not> (found \<and> record_action r \<noteq> DEL) \<Longrightarrow> view load h ps k = None"
    by blast+
qed

section \<open>The operations\<close>

lemma valid_entries_upd:
  "valid_entries h es \<Longrightarrow> map_find es' = (map_find es)(k \<mapsto> r) \<Longrightarrow> record_value r < length h \<Longrightarrow> valid_entries h es'"
  by (auto simp: valid_entries_def)

lemma view_upd:
  "map_find es' = (map_find es)(k \<mapsto> r) \<Longrightarrow>
   view load h (es' # ps) = (view load h (es # ps))(k := if record_action r = DEL then None else Some (h ! record_value r))"
  by (auto simp: fun_eq_iff view_Cons)

text \<open>\<^verbatim>\<open>GetEntry\<close>: the value that the cache shows, and nothing changes in the view.\<close>

lemma GetEntry_view:
  assumes ok: "chain_ok h (es # ps)" and clone: "\<And>v. clone v = v" and junk: "junk \<noteq> DEL"
    and get: "GetEntry load clone junk h es ps k p0 = (found, p, h', es')"
  shows "(found \<longleftrightarrow> view load h (es # ps) k \<noteq> None) \<and> (found \<longrightarrow> p < length h' \<and> view load h (es # ps) k = Some (h' ! p)) \<and>
    view load h' (es' # ps) = view load h (es # ps) \<and> chain_ok h' (es' # ps)"
proof (cases "map_find es k")
  case (Some r)
  then show ?thesis
    using get ok by (auto simp: GetEntry_def view_Cons valid_entries_def split: if_splits)
next
  case None
  have ins: "map_find (map_insert k r es) = (map_find es)(k \<mapsto> r)" for r
    using ok None by (simp add: em.find_insert_new)
  have ok': "chain_ok (h @ x) (es # ps)" for x using chain_ok_append [OF ok] by simp
  have v: "view load h (es # ps) k = view load h ps k" using None by (simp add: view_Cons)
  have new: "view load (h @ x) (map_insert k \<lparr>record_value = q, record_action = MOD\<rparr> es # ps) = view load h (es # ps) \<and>
      chain_ok (h @ x) (map_insert k \<lparr>record_value = q, record_action = MOD\<rparr> es # ps)"
    if "q < length (h @ x)" "view load h ps k = Some ((h @ x) ! q)" for q x
    using that ok' [of x] v view_append [OF ok, of load x]
    by (auto simp: view_upd [OF ins] em.inv_insert fun_upd_idem intro: valid_entries_upd [OF _ ins])
  show ?thesis
  proof (cases "ps = []")
    case True
    then show ?thesis
      using get None v new [of "length h" "[the (load k)]"] ok
      by (auto simp: GetEntry_def Let_def split: option.splits)
  next
    case False
    obtain fd r h1 where g: "GetRecord load h ps k \<lparr>record_value = 0, record_action = junk\<rparr> = (fd, r, h1)" by (metis surj_pair)
    have ps: "chain_ok h ps" using ok by simp
    note gr = GetRecord_view [OF ps False g]
    obtain x where x: "h1 = h @ x" using gr(1) by blast
    show ?thesis
    proof (cases "fd \<and> record_action r \<noteq> DEL")
      case True
      then have "view load h ps k = Some (h1 ! record_value r)" using gr(3) by blast
      then show ?thesis
        using get None False g True v new [of "length h1" "x @ [h1 ! record_value r]"]
        by (auto simp: GetEntry_def clone x Let_def nth_append)
    next
      case no: False
      then have "view load h ps k = None" using gr(4) junk by simp
      then show ?thesis
        using get None False g no v view_append [OF ok, of load x] ok' [of x]
        by (auto simp: GetEntry_def x)
    qed
  qed
qed

text \<open>\<^verbatim>\<open>AddEntry\<close>: succeeds on keys that the cache does not show, and then shows the new value.\<close>

lemma AddEntry_view:
  assumes ok: "chain_ok h (es # ps)" and p: "p < length h" and junk: "junk \<noteq> DEL"
    and add: "AddEntry load junk h es ps k p = (added, h', es')"
  shows "(added \<longleftrightarrow> view load h (es # ps) k = None) \<and>
    view load h' (es' # ps) = (if added then (view load h (es # ps))(k \<mapsto> h ! p) else view load h (es # ps)) \<and>
    chain_ok h' (es' # ps)"
proof (cases "map_find es k")
  case (Some r)
  have as: "map_find (map_assign k r' es) = (map_find es)(k \<mapsto> r')" for r'
    using ok Some by (simp add: em.find_assign_there)
  show ?thesis
    using add ok Some p
    by (auto simp: AddEntry_def view_Cons [of _ _ es ps k] view_upd [OF as] em.inv_assign
        intro: valid_entries_upd [OF _ as] split: if_splits)
next
  case None
  have ins: "map_find (map_insert k r es) = (map_find es)(k \<mapsto> r)" for r
    using ok None by (simp add: em.find_insert_new)
  have v: "view load h (es # ps) k = view load h ps k" using None by (simp add: view_Cons)
  have new: "view load (h @ x) (map_insert k \<lparr>record_value = p, record_action = ADD\<rparr> es # ps) = (view load h (es # ps))(k \<mapsto> h ! p) \<and>
      chain_ok (h @ x) (map_insert k \<lparr>record_value = p, record_action = ADD\<rparr> es # ps)" for x
    using p chain_ok_append [OF ok, of x] view_append [OF ok, of load x]
    by (auto simp: view_upd [OF ins] em.inv_insert nth_append intro: valid_entries_upd [OF _ ins])
  have old: "view load (h @ x) (es # ps) = view load h (es # ps) \<and> chain_ok (h @ x) (es # ps)" for x
    using chain_ok_append [OF ok, of x] view_append [OF ok, of load x] by simp
  show ?thesis
  proof (cases "ps = []")
    case True
    then show ?thesis
      using add None v new [of "[]"] old by (auto simp: AddEntry_def split: option.splits)
  next
    case False
    obtain fd r h1 where g: "GetRecord load h ps k \<lparr>record_value = 0, record_action = junk\<rparr> = (fd, r, h1)" by (metis surj_pair)
    have ps: "chain_ok h ps" using ok by simp
    note gr = GetRecord_view [OF ps False g]
    obtain x where x: "h1 = h @ x" using gr(1) by blast
    show ?thesis
      using add None False g v gr(3,4) junk new [of x] old [of x]
      by (auto simp: AddEntry_def x split: if_splits)
  qed
qed

text \<open>\<^verbatim>\<open>DeleteEntry\<close>: the key is not shown any more. It returns true only when the cache has no record of its own for a key that it shows.\<close>

lemma DeleteEntry_view:
  assumes ok: "chain_ok h (es # ps)" and junk: "junk \<noteq> DEL"
    and del: "DeleteEntry load junk h es ps k = (deleted, h', es')"
  shows "(deleted \<longleftrightarrow> view load h (es # ps) k \<noteq> None \<and> map_find es k = None) \<and>
    view load h' (es' # ps) = (view load h (es # ps))(k := None) \<and> chain_ok h' (es' # ps)"
proof (cases "map_find es k")
  case (Some r)
  have as: "map_find (map_assign k r' es) = (map_find es)(k \<mapsto> r')" for r'
    using ok Some by (simp add: em.find_assign_there)
  have "record_value r < length h" using ok Some by (auto simp: valid_entries_def)
  then show ?thesis
    using del ok Some
    by (cases "record_action r = DEL")
      (auto simp: DeleteEntry_def view_Cons view_upd [OF as] as em.inv_assign fun_eq_iff intro: valid_entries_upd [OF _ as])
next
  case None
  have ins: "map_find (map_insert k r es) = (map_find es)(k \<mapsto> r)" for r
    using ok None by (simp add: em.find_insert_new)
  obtain fd r h1 where g: "GetRecord load h (es # ps) k \<lparr>record_value = 0, record_action = junk\<rparr> = (fd, r, h1)" by (metis surj_pair)
  note gr = GetRecord_view [OF ok _ g]
  obtain x where x: "h1 = h @ x" using gr(1) by blast
  have old: "view load (h @ x) (es # ps) = view load h (es # ps) \<and> chain_ok (h @ x) (es # ps)"
    using chain_ok_append [OF ok, of x] view_append [OF ok, of load x] by simp
  show ?thesis
  proof (cases "fd \<and> record_action r \<noteq> DEL")
    case True
    then show ?thesis
      using del None g gr(2,3) old
      by (auto simp: DeleteEntry_def x view_upd [OF ins] em.inv_insert simp del: GetRecord.simps
          intro: valid_entries_upd [OF _ ins])
  next
    case False
    then have "view load h (es # ps) k = None" using gr(4) junk by simp
    then show ?thesis
      using del None g False old
      by (auto simp: DeleteEntry_def x fun_eq_iff simp del: GetRecord.simps)
  qed
qed

section \<open>Merging\<close>

text \<open>Records marked \<open>ADD\<close> are of keys that the ancestors do not show; there are no records marked \<open>KEEP\<close>.\<close>

definition add_fresh :: "('k \<Rightarrow> 'v option) \<Rightarrow> 'v list \<Rightarrow> 'k entries \<Rightarrow> 'k entries list \<Rightarrow> bool" where
  "add_fresh load h es ps \<longleftrightarrow> (\<forall>k r. map_find es k = Some r \<and> record_action r = ADD \<longrightarrow> view load h ps k = None)"

definition no_keep :: "'k entries \<Rightarrow> bool" where
  "no_keep es \<longleftrightarrow> (\<forall>k r. map_find es k = Some r \<longrightarrow> record_action r \<noteq> KEEP)"

text \<open>What one entry of the branch does to the parent.\<close>

definition merge_one :: "'k :: linorder \<Rightarrow> Record \<Rightarrow> 'k entries \<Rightarrow> 'k entries option" where
  "merge_one k it es =
     (case (record_action it, map_find es k) of
        (ADD, Some x) \<Rightarrow> if record_action x = DEL then Some (map_assign k (it\<lparr>record_action := MOD\<rparr>) es) else None
      | (ADD, None) \<Rightarrow> Some (map_insert k it es)
      | (KEEP, _) \<Rightarrow> Some es
      | (MOD, Some x) \<Rightarrow> Some (map_assign k it es)
      | (MOD, None) \<Rightarrow> Some (map_insert k it es)
      | (DEL, Some x) \<Rightarrow>
          if record_action x = ADD then Some (map_erase k es)
          else if record_action x = DEL then None
          else Some (map_assign k (x\<lparr>record_action := DEL\<rparr>) es)
      | (DEL, None) \<Rightarrow> Some (map_insert k it es))"

lemma MergeFromBranch_one:
  "MergeFromBranch es ((k, it) # br) = (case merge_one k it es of None \<Rightarrow> (False, es) | Some es1 \<Rightarrow> MergeFromBranch es1 br)"
  by (auto simp: merge_one_def split: ChangeAction.split option.split)

lemma merge_one_view:
  assumes ok: "chain_ok h (es # ps)" and fresh: "add_fresh load h es ps" and it: "record_value it < length h"
    and keep: "record_action it \<noteq> KEEP" and add: "record_action it = ADD \<Longrightarrow> view load h (es # ps) k = None"
    and one: "merge_one k it es = Some es1"
  shows "view load h (es1 # ps) = (view load h (es # ps))(k := if record_action it = DEL then None else Some (h ! record_value it))"
    and "chain_ok h (es1 # ps)" and "add_fresh load h es1 ps" and "\<And>k'. k' \<noteq> k \<Longrightarrow> map_find es1 k' = map_find es k'"
proof -
  have inv: "map_inv es" and val: "valid_entries h es" using ok by simp_all
  have upd: "view load h (e # ps) = (view load h (es # ps))(k := if record_action r = DEL then None else Some (h ! record_value r)) \<and>
      chain_ok h (e # ps) \<and> add_fresh load h e ps \<and> (\<forall>k'. k' \<noteq> k \<longrightarrow> map_find e k' = map_find es k')"
    if "map_find e = (map_find es)(k \<mapsto> r)" "map_inv e" "record_value r < length h" "record_action r = ADD \<Longrightarrow> view load h ps k = None" for e r
    using that ok fresh valid_entries_upd [OF val that(1,3)] view_upd [OF that(1), of load h ps]
    by (auto simp: add_fresh_def)
  have "view load h (es1 # ps) = (view load h (es # ps))(k := if record_action it = DEL then None else Some (h ! record_value it)) \<and>
      chain_ok h (es1 # ps) \<and> add_fresh load h es1 ps \<and> (\<forall>k'. k' \<noteq> k \<longrightarrow> map_find es1 k' = map_find es k')"
  proof (cases "map_find es k")
    case None
    then have "es1 = map_insert k it es" using one keep by (auto simp: merge_one_def split: ChangeAction.splits)
    moreover have "view load h ps k = None" if "record_action it = ADD" using add [OF that] None by (simp add: view_Cons)
    ultimately show ?thesis
      using upd [of "map_insert k it es" it] inv None it by (simp add: em.find_insert_new em.inv_insert)
  next
    case (Some x)
    have x: "record_value x < length h" using val Some by (auto simp: valid_entries_def)
    have as: "map_find (map_assign k r es) = (map_find es)(k \<mapsto> r)" "map_inv (map_assign k r es)" for r
      using inv Some by (simp_all add: em.find_assign_there em.inv_assign)
    note assign = upd [OF as]
    show ?thesis
    proof (cases "record_action it = DEL \<and> record_action x = ADD")
      case True
      then have e: "es1 = map_erase k es" using one Some by (simp add: merge_one_def)
      have "view load h ps k = None" using fresh Some True by (auto simp: add_fresh_def)
      then show ?thesis
        using True ok fresh val unfolding e
        by (auto simp: fun_eq_iff view_Cons em.find_erase em.inv_erase inv valid_entries_def add_fresh_def split: if_splits)
    next
      case False
      then show ?thesis
        using one Some keep it x assign [of "it\<lparr>record_action := MOD\<rparr>"] assign [of it] assign [of "x\<lparr>record_action := DEL\<rparr>"]
        by (cases "record_action it") (auto simp: merge_one_def split: if_splits)
    qed
  qed
  then show "view load h (es1 # ps) = (view load h (es # ps))(k := if record_action it = DEL then None else Some (h ! record_value it))"
    "chain_ok h (es1 # ps)" "add_fresh load h es1 ps" "\<And>k'. k' \<noteq> k \<Longrightarrow> map_find es1 k' = map_find es k'"
    by blast+
qed

lemma MergeFromBranch_view:
  assumes "chain_ok h (es # ps)" "add_fresh load h es ps" "map_inv br" "valid_entries h br" "no_keep br"
    "add_fresh load h br (es # ps)" "MergeFromBranch es br = (True, es')"
  shows "view load h (es' # ps) = view load h (br # es # ps) \<and> chain_ok h (es' # ps) \<and> add_fresh load h es' ps"
  using assms
proof (induction br arbitrary: es)
  case Nil
  then show ?case by (simp add: fun_eq_iff view_Cons map_find_def)
next
  case (Cons b br)
  obtain k it where b: "b = (k, it)" by fastforce
  obtain es1 where one: "merge_one k it es = Some es1" and rest: "MergeFromBranch es1 br = (True, es')"
    using Cons.prems(7) by (auto simp: b MergeFromBranch_one simp del: MergeFromBranch.simps split: option.splits)
  have k: "map_find br k = None" using Cons.prems(3) by (auto simp: b map_inv_def map_find_def map_of_eq_None_iff)
  have find: "map_find (b # br) = (map_find br)(k \<mapsto> it)" by (auto simp: b map_find_def)
  have here: "map_find (b # br) k = Some it" and other: "\<And>k' r. map_find br k' = Some r \<Longrightarrow> map_find (b # br) k' = Some r"
    using find k by auto
  have it: "record_value it < length h" "record_action it \<noteq> KEEP" "record_action it = ADD \<Longrightarrow> view load h (es # ps) k = None"
    using Cons.prems(4,5,6) here unfolding valid_entries_def no_keep_def add_fresh_def by blast+
  note m = merge_one_view [OF Cons.prems(1,2) it one]
  have br: "map_inv br" "valid_entries h br" "no_keep br"
  proof -
    show "map_inv br" using Cons.prems(3) by (simp add: b map_inv_def)
    show "valid_entries h br" "no_keep br"
      using Cons.prems(4,5) other unfolding valid_entries_def no_keep_def by blast+
  qed
  have "add_fresh load h br (es1 # ps)"
    unfolding add_fresh_def
  proof (intro allI impI, elim conjE)
    fix k' r
    assume r: "map_find br k' = Some r" "record_action r = ADD"
    then have "view load h (es # ps) k' = None" using Cons.prems(6) other unfolding add_fresh_def by blast
    moreover have "k' \<noteq> k" using r(1) k by auto
    ultimately show "view load h (es1 # ps) k' = None" using m(1) by simp
  qed
  from Cons.IH [OF m(2,3) br this rest]
  have "view load h (es' # ps) = view load h (br # es1 # ps)" "chain_ok h (es' # ps)" "add_fresh load h es' ps" by simp_all
  moreover have "view load h (br # es1 # ps) = view load h ((b # br) # es # ps)"
  proof
    fix x
    have "view load h (es1 # ps) x = (if x = k then if record_action it = DEL then None else Some (h ! record_value it) else view load h (es # ps) x)"
      using m(1) by simp
    then show "view load h (br # es1 # ps) x = view load h ((b # br) # es # ps) x"
      unfolding view_Cons [of _ _ br] view_Cons [of _ _ "b # br"] find
      using k by (cases "x = k") (simp_all split: option.split)
  qed
  ultimately show ?case by simp
qed

section \<open>Branches\<close>

text \<open>
  What a client does with a cache over its ancestors \<open>ps\<close>: the operations, with a value of its own for \<^verbatim>\<open>AddEntry\<close>, and changing a value
  through the pointer of a record that is not deleted.
\<close>

inductive cache_step ::
  "('k :: linorder \<Rightarrow> 'v option) \<Rightarrow> ('v \<Rightarrow> 'v) \<Rightarrow> ChangeAction \<Rightarrow> 'k entries list \<Rightarrow> 'v list \<times> 'k entries \<Rightarrow> 'v list \<times> 'k entries \<Rightarrow> bool"
  for load clone junk ps where
  step_get: "GetEntry load clone junk h es ps k p0 = (found, p, h', es') \<Longrightarrow> cache_step load clone junk ps (h, es) (h', es')"
| step_add: "AddEntry load junk (h @ [v]) es ps k (length h) = (added, h', es') \<Longrightarrow> cache_step load clone junk ps (h, es) (h', es')"
| step_delete: "DeleteEntry load junk h es ps k = (deleted, h', es') \<Longrightarrow> cache_step load clone junk ps (h, es) (h', es')"
| step_write: "map_find es k = Some r \<Longrightarrow> record_action r \<noteq> DEL \<Longrightarrow> cache_step load clone junk ps (h, es) (h[record_value r := v], es)"

inductive_cases cache_stepE: "cache_step load clone junk ps (h, es) (h', es')"

text \<open>The pointers of the ancestors, which no record of the branch that is not deleted shares.\<close>

definition chain_ptrs :: "'k entries list \<Rightarrow> ptr set" where
  "chain_ptrs ps = {record_value r | es k r. es \<in> set ps \<and> map_find es k = Some r}"

definition branch_inv :: "('k :: linorder \<Rightarrow> 'v option) \<Rightarrow> 'k entries list \<Rightarrow> 'v list \<Rightarrow> 'k entries \<Rightarrow> bool" where
  "branch_inv load ps h es \<longleftrightarrow>
     chain_ok h (es # ps) \<and> add_fresh load h es ps \<and> no_keep es \<and>
     (\<forall>k r. map_find es k = Some r \<and> record_action r \<noteq> DEL \<longrightarrow> record_value r \<notin> chain_ptrs ps)"

lemma chain_ptrs_bound: "chain_ok h ps \<Longrightarrow> p \<in> chain_ptrs ps \<Longrightarrow> p < length h"
  by (auto simp: chain_ok_def chain_ptrs_def valid_entries_def)

lemma view_write: "chain_ptrs qs \<subseteq> P \<Longrightarrow> p \<notin> P \<Longrightarrow> view load (h[p := v]) qs = view load h qs"
proof (induction qs)
  case (Cons es qs)
  have "h[p := v] ! record_value r = h ! record_value r" if "map_find es k = Some r" for k r
    using Cons.prems that by (subst nth_list_update_neq) (fastforce simp: chain_ptrs_def)+
  moreover have "view load (h[p := v]) qs = view load h qs"
    using Cons by (force simp: chain_ptrs_def)
  ultimately show ?case by (auto simp: fun_eq_iff view_Cons split: option.split)
qed (simp add: fun_eq_iff)

text \<open>
  The effect of an operation on a branch: cells are only added, and at most one record changes. A record that is not deleted
  points to a new cell, and a record is marked \<open>ADD\<close> only when the ancestors do not show its key.
\<close>

definition effect ::
  "('k \<Rightarrow> 'v option) \<Rightarrow> 'k :: linorder entries list \<Rightarrow> 'v list \<Rightarrow> 'k entries \<Rightarrow> 'v list \<Rightarrow> 'k entries \<Rightarrow> bool" where
  "effect load ps h es h' es' \<longleftrightarrow>
     (\<exists>x. h' = h @ x) \<and>
     (es' = es \<or>
      (\<exists>k r. map_find es' = (map_find es)(k \<mapsto> r) \<and> map_inv es' \<and> record_value r < length h' \<and> record_action r \<noteq> KEEP \<and>
             (record_action r \<noteq> DEL \<longrightarrow> length h \<le> record_value r) \<and> (record_action r = ADD \<longrightarrow> view load h ps k = None)))"

lemma effect_same: "effect load ps h es (h @ x) es"
  by (auto simp: effect_def)

lemma effect_upd:
  assumes "map_find es' = (map_find es)(k \<mapsto> r)" "map_inv es'" "record_value r < length (h @ x)" "record_action r \<noteq> KEEP"
    "record_action r \<noteq> DEL \<Longrightarrow> length h \<le> record_value r" "record_action r = ADD \<Longrightarrow> view load h ps k = None"
  shows "effect load ps h es (h @ x) es'"
  using assms unfolding effect_def by blast

lemma branch_inv_effect:
  assumes inv: "branch_inv load ps h es" and eff: "effect load ps h es h' es'"
  shows "branch_inv load ps h' es' \<and> (\<exists>x. h' = h @ x)"
proof -
  obtain x where x: "h' = h @ x" using eff unfolding effect_def by blast
  have ok: "chain_ok h (es # ps)" "chain_ok h ps" using inv by (simp_all add: branch_inv_def)
  note ok' = chain_ok_append [OF ok(1), of x] and v = view_append [OF ok(2), of load x]
  consider (same) "es' = es"
    | (upd) k r where "map_find es' = (map_find es)(k \<mapsto> r)" "map_inv es'" "record_value r < length h'" "record_action r \<noteq> KEEP"
        "record_action r \<noteq> DEL \<longrightarrow> length h \<le> record_value r" "record_action r = ADD \<longrightarrow> view load h ps k = None"
    using eff unfolding effect_def by blast
  then show ?thesis
  proof cases
    case same
    then show ?thesis using inv ok' v x by (auto simp: branch_inv_def add_fresh_def)
  next
    case upd
    have new: "record_value r \<notin> chain_ptrs ps" if "record_action r \<noteq> DEL"
      using chain_ptrs_bound [OF ok(2)] upd(5) that by (metis leD)
    have "valid_entries h' es'" using valid_entries_upd [OF _ upd(1,3)] ok' x by simp
    then show ?thesis
      using inv ok' v x upd new by (auto simp: branch_inv_def add_fresh_def no_keep_def split: if_splits)
  qed
qed

lemma GetEntry_effect:
  assumes ok: "chain_ok h (es # ps)" and get: "GetEntry load clone junk h es ps k p0 = (found, p, h', es')"
  shows "effect load ps h es h' es'"
proof (cases "map_find es k")
  case (Some r)
  then have "h' = h" "es' = es" using get by (auto simp: GetEntry_def split: if_splits)
  then show ?thesis using effect_same [of load ps h es "[]"] by simp
next
  case None
  have ins: "map_find (map_insert k r es) = (map_find es)(k \<mapsto> r)" "map_inv (map_insert k r es)" for r
    using ok None by (simp_all add: em.find_insert_new em.inv_insert)
  have new: "effect load ps h es (h @ x) (map_insert k \<lparr>record_value = q, record_action = MOD\<rparr> es)"
    if "length h \<le> q" "q < length (h @ x)" for q x
    by (rule effect_upd [OF ins]) (use that in simp_all)
  show ?thesis
  proof (cases "ps = []")
    case True
    then show ?thesis
      using get None new [of "length h" "[the (load k)]"] effect_same [of load ps h es "[]"]
      by (auto simp: GetEntry_def Let_def split: option.splits)
  next
    case False
    obtain fd r h1 where g: "GetRecord load h ps k \<lparr>record_value = 0, record_action = junk\<rparr> = (fd, r, h1)" by (metis surj_pair)
    have "chain_ok h ps" using ok by simp
    then obtain x where x: "h1 = h @ x" using GetRecord_view(1) [OF _ False g] by blast
    show ?thesis
      using get None False g new [of "length h1" "x @ [clone (h1 ! record_value r)]"] effect_same [of load ps h es x]
      by (auto simp: GetEntry_def x Let_def split: if_splits)
  qed
qed

lemma AddEntry_effect:
  assumes ok: "chain_ok h (es # ps)" and junk: "junk \<noteq> DEL"
    and add: "AddEntry load junk (h @ [v]) es ps k (length h) = (added, h', es')"
  shows "effect load ps h es h' es'"
proof -
  have ok': "chain_ok (h @ [v]) (es # ps)" using chain_ok_append [OF ok] by simp
  have ps: "chain_ok h ps" using ok by simp
  show ?thesis
  proof (cases "map_find es k")
    case (Some r)
    have as: "map_find (map_assign k r' es) = (map_find es)(k \<mapsto> r')" "map_inv (map_assign k r' es)" for r'
      using ok Some by (simp_all add: em.find_assign_there em.inv_assign)
    have "effect load ps h es (h @ [v]) (map_assign k \<lparr>record_value = length h, record_action = MOD\<rparr> es)"
      by (rule effect_upd [OF as]) simp_all
    then show ?thesis using add Some effect_same [of load ps h es "[v]"] by (auto simp: AddEntry_def split: if_splits)
  next
    case None
    have ins: "map_find (map_insert k r es) = (map_find es)(k \<mapsto> r)" "map_inv (map_insert k r es)" for r
      using ok None by (simp_all add: em.find_insert_new em.inv_insert)
    have new: "effect load ps h es (h @ v # x) (map_insert k \<lparr>record_value = length h, record_action = ADD\<rparr> es)"
      if "view load h ps k = None" for x
      by (rule effect_upd [OF ins]) (use that in simp_all)
    show ?thesis
    proof (cases "ps = []")
      case True
      then show ?thesis
        using add None new [of "[]"] effect_same [of load ps h es "[v, the (load k)]"]
        by (auto simp: AddEntry_def split: option.splits)
    next
      case False
      obtain fd r h1 where g: "GetRecord load (h @ [v]) ps k \<lparr>record_value = 0, record_action = junk\<rparr> = (fd, r, h1)" by (metis surj_pair)
      have "chain_ok (h @ [v]) ps" using ok' by simp
      note gr = GetRecord_view [OF this False g]
      obtain x where x: "h1 = (h @ [v]) @ x" using gr(1) by blast
      have "view load h ps k = None" if "\<not> (fd \<and> record_action r \<noteq> DEL)"
        using gr(4) that junk view_append [OF ps, of load "[v]"] by simp
      then show ?thesis
        using add None False g new [of x] effect_same [of load ps h es "v # x"]
        by (auto simp: AddEntry_def x split: if_splits)
    qed
  qed
qed

lemma DeleteEntry_effect:
  assumes ok: "chain_ok h (es # ps)" and del: "DeleteEntry load junk h es ps k = (deleted, h', es')"
  shows "effect load ps h es h' es'"
proof (cases "map_find es k")
  case (Some r)
  have as: "map_find (map_assign k r' es) = (map_find es)(k \<mapsto> r')" "map_inv (map_assign k r' es)" for r'
    using ok Some by (simp_all add: em.find_assign_there em.inv_assign)
  have "record_value r < length h" using ok Some by (auto simp: valid_entries_def)
  then have "effect load ps h es (h @ []) (map_assign k (r\<lparr>record_action := DEL\<rparr>) es)"
    by (intro effect_upd [OF as]) simp_all
  then show ?thesis
    using del Some effect_same [of load ps h es "[]"] by (auto simp: DeleteEntry_def as split: if_splits)
next
  case None
  have ins: "map_find (map_insert k r es) = (map_find es)(k \<mapsto> r)" "map_inv (map_insert k r es)" for r
    using ok None by (simp_all add: em.find_insert_new em.inv_insert)
  obtain fd r h1 where g: "GetRecord load h (es # ps) k \<lparr>record_value = 0, record_action = junk\<rparr> = (fd, r, h1)" by (metis surj_pair)
  note gr = GetRecord_view [OF ok _ g]
  obtain x where x: "h1 = h @ x" using gr(1) by blast
  have "effect load ps h es (h @ x) (map_insert k (r\<lparr>record_action := DEL\<rparr>) es)" if fd
    using gr(2) that x by (intro effect_upd [OF ins]) simp_all
  then show ?thesis
    using del None g effect_same [of load ps h es x]
    by (auto simp: DeleteEntry_def x simp del: GetRecord.simps split: if_splits)
qed

text \<open>A step of a branch keeps its invariant and does not change what the ancestors show.\<close>

lemma chain_ptrs_Cons: "chain_ptrs (es # ps) = {record_value r | k r. map_find es k = Some r} \<union> chain_ptrs ps"
  by (auto simp: chain_ptrs_def)

lemma chain_ok_write: "chain_ok h qs \<Longrightarrow> chain_ok (h[p := v]) qs"
  by (simp add: chain_ok_def valid_entries_def)

lemma cache_step_inv:
  assumes step: "cache_step load clone junk ps (h, es) (h', es')" and junk: "junk \<noteq> DEL" and inv: "branch_inv load ps h es"
  shows "branch_inv load ps h' es' \<and> (\<forall>qs. chain_ok h qs \<and> chain_ptrs qs \<subseteq> chain_ptrs ps \<longrightarrow> view load h' qs = view load h qs \<and> chain_ok h' qs)"
proof -
  have ok: "chain_ok h (es # ps)" using inv by (simp add: branch_inv_def)
  have eff: ?thesis if "effect load ps h es h' es'"
    using branch_inv_effect [OF inv that] view_append chain_ok_append by blast
  from step show ?thesis
  proof (rule cache_stepE)
    fix k p0 found p
    assume "GetEntry load clone junk h es ps k p0 = (found, p, h', es')"
    then show ?thesis by (rule eff [OF GetEntry_effect [OF ok]])
  next
    fix v k added
    assume "AddEntry load junk (h @ [v]) es ps k (length h) = (added, h', es')"
    then show ?thesis by (rule eff [OF AddEntry_effect [OF ok junk]])
  next
    fix k deleted
    assume "DeleteEntry load junk h es ps k = (deleted, h', es')"
    then show ?thesis by (rule eff [OF DeleteEntry_effect [OF ok]])
  next
    fix k r v
    assume w: "es = es'" "h' = h[record_value r := v]" and r: "map_find es' k = Some r" "record_action r \<noteq> DEL"
    then have new: "record_value r \<notin> chain_ptrs ps" using inv unfolding branch_inv_def by blast
    have v: "view load h' qs = view load h qs" if "chain_ptrs qs \<subseteq> chain_ptrs ps" for qs
      using view_write [OF that new] w by simp
    show ?thesis
      using inv v [of ps] v w unfolding branch_inv_def add_fresh_def by (simp add: chain_ok_write del: chain_ok_Cons) blast
  qed
qed

lemma branch_reachable:
  assumes "(cache_step load clone junk ps)\<^sup>*\<^sup>* (h, es) (h', es')" and "junk \<noteq> DEL" and "branch_inv load ps h es"
  shows "branch_inv load ps h' es' \<and> (\<forall>qs. chain_ok h qs \<and> chain_ptrs qs \<subseteq> chain_ptrs ps \<longrightarrow> view load h' qs = view load h qs \<and> chain_ok h' qs)"
  using assms(1)
proof (induction rule: rtranclp_induct2)
  case refl
  then show ?case using assms(3) by simp
next
  case (step h1 es1 h2 es2)
  then have "branch_inv load ps h1 es1" by blast
  from cache_step_inv [OF step(2) assms(2) this] show ?case using step.IH by metis
qed

lemma branch_inv_new: "chain_ok h ps \<Longrightarrow> branch_inv load ps h []"
  by (simp add: branch_inv_def add_fresh_def no_keep_def map_find_def valid_entries_def)

section \<open>Properties\<close>

text \<open>
  Claim C24. Every operation of a cache has its effect on the map that the cache shows: \<^verbatim>\<open>GetEntry\<close> returns a pointer to the value
  shown and changes nothing, \<^verbatim>\<open>AddEntry\<close> succeeds exactly on keys that are not shown and then shows the new value,
  after \<^verbatim>\<open>DeleteEntry\<close> the key is not shown. \<^verbatim>\<open>DeleteEntry\<close> returns false, although it deletes, for a key that the cache has a
  record of. This holds when the action of an uninitialised record is not \<open>DEL\<close>.
\<close>

theorem cache_operations:
  assumes "chain_ok h (es # ps)" and "\<And>v. clone v = v" and "junk \<noteq> DEL" and "p < length h"
  shows "(case GetEntry load clone junk h es ps k p0 of (found, q, h', es') \<Rightarrow>
            found = (view load h (es # ps) k \<noteq> None) \<and> (found \<longrightarrow> view load h (es # ps) k = Some (h' ! q)) \<and>
            view load h' (es' # ps) = view load h (es # ps) \<and> chain_ok h' (es' # ps)) \<and>
         (case AddEntry load junk h es ps k p of (added, h', es') \<Rightarrow>
            added = (view load h (es # ps) k = None) \<and>
            view load h' (es' # ps) = (if added then (view load h (es # ps))(k \<mapsto> h ! p) else view load h (es # ps)) \<and>
            chain_ok h' (es' # ps)) \<and>
         (case DeleteEntry load junk h es ps k of (deleted, h', es') \<Rightarrow>
            deleted = (view load h (es # ps) k \<noteq> None \<and> map_find es k = None) \<and>
            view load h' (es' # ps) = (view load h (es # ps))(k := None) \<and> chain_ok h' (es' # ps))"
proof -
  obtain f q hg eg where g: "GetEntry load clone junk h es ps k p0 = (f, q, hg, eg)" by (metis surj_pair)
  obtain a ha ea where a: "AddEntry load junk h es ps k p = (a, ha, ea)" by (metis surj_pair)
  obtain d hd ed where d: "DeleteEntry load junk h es ps k = (d, hd, ed)" by (metis surj_pair)
  from GetEntry_view [OF assms(1,2,3) g] AddEntry_view [OF assms(1,4,3) a] DeleteEntry_view [OF assms(1,3) d]
  show ?thesis unfolding g a d prod.case by blast
qed

theorem cache_operations_witness:
  "(case AddEntry (\<lambda>k :: nat. None) ADD [7 :: nat] [(5, \<lparr>record_value = 0, record_action = MOD\<rparr>)] [[]] 5 0 of
      (added, h', es') \<Rightarrow> \<not> added) \<and>
   (case DeleteEntry (\<lambda>k :: nat. None) ADD [7 :: nat] [(5, \<lparr>record_value = 0, record_action = MOD\<rparr>)] [[]] 5 of
      (deleted, h', es') \<Rightarrow> \<not> deleted \<and> view (\<lambda>k. None) h' [es', []] 5 = None)"
proof -
  have ok: "chain_ok [7 :: nat] [[(5 :: nat, \<lparr>record_value = 0, record_action = MOD\<rparr>)], []]"
    by (simp add: chain_ok_def map_inv_def valid_entries_def map_find_def)
  have "view (\<lambda>k :: nat. None) [7 :: nat] [[(5, \<lparr>record_value = 0, record_action = MOD\<rparr>)], []] 5 = Some 7"
    "map_find [(5 :: nat, \<lparr>record_value = 0, record_action = MOD\<rparr>)] 5 \<noteq> None"
    by (simp_all add: view_Cons map_find_def)
  then show ?thesis
    using cache_operations [OF ok, of id ADD 0 "\<lambda>k. None" 5 0] by (auto split: prod.splits)
qed

text \<open>A key of which no cache of the chain has a record is loaded, and the action of the record that is given is returned.\<close>

lemma GetRecord_load:
  assumes "ps \<noteq> []" and "\<forall>e \<in> set ps. map_find e k = None"
  shows "GetRecord load h ps k r =
    (case load k of Some v \<Rightarrow> (True, r\<lparr>record_value := length h\<rparr>, h @ [v]) | None \<Rightarrow> (False, r, h))"
  using assms by (induction ps) (auto split: option.split)

lemma view_load: "\<forall>e \<in> set chain. map_find e k = None \<Longrightarrow> view load h chain k = load k"
  by (induction chain) (simp_all add: view_Cons)

text \<open>
  Claim C39. The action of a record that \<^verbatim>\<open>GetEntry\<close>, \<^verbatim>\<open>AddEntry\<close> and \<^verbatim>\<open>DeleteEntry\<close> leave uninitialised decides about the keys that only
  \<^verbatim>\<open>LoadValue\<close> of the last ancestor provides, in every chain of at least two caches none of which has a record of the key: such a key is found,
  cannot be added and can be deleted exactly when the action does not happen to be \<open>DEL\<close>. When it does, a key that can be loaded is
  not found, a second value is added over it, and it cannot be deleted. On keys that cannot be loaded the action has no influence.
\<close>

theorem cache_uninitialised_action:
  assumes "chain_ok h (es # ps)" and "ps \<noteq> []" and "\<forall>e \<in> set (es # ps). map_find e k = None" and "p < length h"
  shows "view load h (es # ps) k = load k \<and>
    (case GetEntry load clone junk h es ps k p0 of (found, q, h', es') \<Rightarrow>
       (found \<longleftrightarrow> load k \<noteq> None \<and> junk \<noteq> DEL) \<and> (found \<longrightarrow> map_option clone (load k) = Some (h' ! q)) \<and> (\<not> found \<longrightarrow> q = p0 \<and> es' = es)) \<and>
    (case AddEntry load junk h es ps k p of (added, h', es') \<Rightarrow>
       (added \<longleftrightarrow> load k = None \<or> junk = DEL) \<and>
       view load h' (es' # ps) = (if added then (view load h (es # ps))(k \<mapsto> h ! p) else view load h (es # ps))) \<and>
    (case DeleteEntry load junk h es ps k of (deleted, h', es') \<Rightarrow>
       (deleted \<longleftrightarrow> load k \<noteq> None \<and> junk \<noteq> DEL) \<and>
       view load h' (es' # ps) = (if deleted then (view load h (es # ps))(k := None) else view load h (es # ps)))"
proof -
  have here: "map_find es k = None" and there: "\<forall>e \<in> set ps. map_find e k = None" using assms(3) by simp_all
  have ins: "map_find (map_insert k r es) = (map_find es)(k \<mapsto> r)" for r
    using assms(1) here by (simp add: em.find_insert_new)
  have old: "view load (h @ x) (es # ps) = view load h (es # ps)" for x by (rule view_append [OF assms(1)])
  note rec = GetRecord_load [OF assms(2) there] GetRecord_load [OF _ assms(3)]
  have add: "view load (h @ x) (map_insert k \<lparr>record_value = p, record_action = ADD\<rparr> es # ps) = (view load h (es # ps))(k \<mapsto> h ! p)" for x
    using assms(4) by (simp add: view_upd [OF ins] old nth_append)
  have del: "view load (h @ x) (map_insert k \<lparr>record_value = q, record_action = DEL\<rparr> es # ps) = (view load h (es # ps))(k := None)" for x q
    by (simp add: view_upd [OF ins] old)
  show ?thesis
  proof (cases "load k")
    case None
    then show ?thesis
      using here assms(2) add [of "[]"] view_load [OF assms(3), of load h]
      by (simp add: GetEntry_def AddEntry_def DeleteEntry_def rec Let_def del: GetRecord.simps)
  next
    case (Some v)
    then show ?thesis
      using here assms(2) add old del view_load [OF assms(3), of load h]
      by (simp add: GetEntry_def AddEntry_def DeleteEntry_def rec Let_def nth_append del: GetRecord.simps)
  qed
qed

text \<open>A cache over two empty ancestors and the values 3, 4, 5, ... of the keys 2, 3, 4, ..., with both actions.\<close>

theorem cache_uninitialised_action_witness:
  "fst (GetEntry (\<lambda>k :: nat. Some (k + 1)) id DEL [9] [] [[], []] 3 0) = False \<and>
   fst (GetEntry (\<lambda>k :: nat. Some (k + 1)) id KEEP [9] [] [[], []] 3 0) = True \<and>
   fst (AddEntry (\<lambda>k :: nat. Some (k + 1)) DEL [9] [] [[], []] 3 0) = True"
proof -
  have ok: "chain_ok [9 :: nat] [[] :: nat entries, [], []]" by (simp add: chain_ok_def valid_entries_def map_find_def)
  have none: "\<forall>e \<in> set [[] :: nat entries, [], []]. map_find e 3 = None" by (simp add: map_find_def)
  note act = cache_uninitialised_action [OF ok _ none, where p = 0 and load = "\<lambda>k. Some (k + 1)" and clone = id and ?p0.0 = 0]
  show ?thesis using act [where junk = DEL] act [where junk = KEEP] by (auto split: prod.splits)
qed

text \<open>
  Claim C2. A branch is isolated and a merge refines replacing the view: whatever operations and changes through pointers are done on a
  branch, its parent shows the same map, and when \<^verbatim>\<open>MergeFromBranch\<close> returns true the parent shows what the
  branch showed.
\<close>

theorem branch_commit:
  assumes "chain_ok h (es # ps)" and "add_fresh load h es ps" and "junk \<noteq> DEL"
    and "(cache_step load clone junk (es # ps))\<^sup>*\<^sup>* (h, []) (h', br)"
  shows "view load h' (es # ps) = view load h (es # ps) \<and>
         (MergeFromBranch es br = (True, es') \<longrightarrow> view load h' (es' # ps) = view load h' (br # es # ps) \<and>
            chain_ok h' (es' # ps) \<and> add_fresh load h' es' ps)"
proof -
  note reach = branch_reachable [OF assms(4,3) branch_inv_new [OF assms(1)]]
  then have inv: "branch_inv load (es # ps) h' br" by blast
  have v: "view load h' (es # ps) = view load h (es # ps)" "chain_ok h' (es # ps)"
    using reach assms(1) by blast+
  have "chain_ok h ps" "chain_ptrs ps \<subseteq> chain_ptrs (es # ps)" using assms(1) by (auto simp: chain_ptrs_Cons)
  then have "view load h' ps = view load h ps" using reach by blast
  then have "add_fresh load h' es ps" using assms(2) by (simp add: add_fresh_def)
  moreover have "map_inv br" "valid_entries h' br" "no_keep br" "add_fresh load h' br (es # ps)"
    using inv by (simp_all add: branch_inv_def)
  ultimately show ?thesis using v MergeFromBranch_view by blast
qed

theorem branch_commit_witness:
  "view (\<lambda>k :: nat. None) [9 :: nat] [[(4, \<lparr>record_value = 0, record_action = ADD\<rparr>)]] 4 = Some 9"
proof -
  let ?load = "\<lambda>k :: nat. None :: nat option" and ?br = "[(4 :: nat, \<lparr>record_value = 0, record_action = ADD\<rparr>)]"
  have "cache_step ?load id MOD [[]] ([], []) ([9], ?br)"
    by (rule step_add [where v = 9 and k = 4 and added = True]) (simp add: AddEntry_def map_find_def)
  then have steps: "(cache_step ?load id MOD [[]])\<^sup>*\<^sup>* ([], []) ([9], ?br)" by blast
  have ok: "chain_ok ([] :: nat list) [[] :: nat entries]" "add_fresh ?load [] [] []"
    by (simp_all add: chain_ok_def valid_entries_def map_find_def add_fresh_def)
  have "MergeFromBranch [] ?br = (True, ?br)" by (simp add: map_find_def)
  moreover have "view ?load [9] [?br, []] 4 = Some 9" by (simp add: view_Cons map_find_def)
  ultimately show ?thesis using branch_commit [OF ok _ steps, of ?br] by simp
qed

end
