(* ===== verification/Timer.thy ===== *)
theory Timer
  imports Prelude
begin

text \<open>
  The timer queue of \<^verbatim>\<open>src/utils/timer.h\<close> and \<^verbatim>\<open>src/utils/timer.cpp\<close>, with the clock of \<^verbatim>\<open>src/utils/timestamp.cpp\<close>. Times and identifiers are \<^verbatim>\<open>int64_t\<close>:
  integers, with the wrap-around of the additions written out. The queue is a \<^verbatim>\<open>std::multimap\<close>, here a list sorted by the expiry time with
  the insertion order kept among equal times. The functions that a timer calls are code of the client: a parameter that
  acts on the timer and on a world of its own, since a function may add and delete timers. Each public operation holds the lock,
  so that operations of several threads are sequences of these steps.
\<close>

section \<open>The clock\<close>

definition i64 :: "int \<Rightarrow> int" where
  "i64 x = sint (word_of_int x :: u64)"

definition kMicroSecondsPerSecond :: int where
  "kMicroSecondsPerSecond = 1000 * 1000"

definition NANO_UNITS_PER_MICRO :: int where
  "NANO_UNITS_PER_MICRO = 1000"

text \<open>\<^verbatim>\<open>Now\<close> on what \<^verbatim>\<open>gettimeofday\<close> returns.\<close>

definition Timestamp_Now :: "int \<Rightarrow> int \<Rightarrow> int" where
  "Timestamp_Now tv_sec tv_usec = i64 (i64 (tv_sec * kMicroSecondsPerSecond) + tv_usec)"

text \<open>
  \<^verbatim>\<open>HighResolution\<close>: \<open>pref\<close> is the static \<^verbatim>\<open>uprefertime\<close>, returned updated; \<open>(sec, nsec)\<close> is what \<^verbatim>\<open>clock_gettime\<close> returns and \<open>now\<close> is
  \<^verbatim>\<open>Now().timestamp()\<close>. The division truncates, on a non-negative number.
\<close>

definition HighResolution :: "int \<Rightarrow> int \<times> int \<Rightarrow> int \<Rightarrow> int \<times> int" where
  "HighResolution now clock pref =
     (let uptime = i64 (i64 (fst clock * kMicroSecondsPerSecond) + snd clock div NANO_UNITS_PER_MICRO);
          pref = (if pref = 0 then i64 (now - uptime) else pref)
      in (i64 (uptime + pref), pref))"

section \<open>The timer\<close>

record 'f TimerElement =
  te_func :: 'f
  te_id :: int
  te_data :: int
  te_expire_time :: int

definition GetIndex :: "'f TimerElement \<Rightarrow> int" where
  "GetIndex e = te_id e"

text \<open>\<open>call f data\<close> is the effect of the function on the timer and on the world.\<close>

record 'f Timer =
  time_ele :: "(int \<times> 'f TimerElement) list"
  exeute_list :: "'f TimerElement list"
  global_element_id :: int
  check_interval :: int
  last_check_time :: int

type_synonym ('f, 'w) calls = "'f \<Rightarrow> int \<Rightarrow> 'f Timer \<times> 'w \<Rightarrow> 'f Timer \<times> 'w"

definition Excute :: "('f, 'w) calls \<Rightarrow> 'f TimerElement \<Rightarrow> 'f Timer \<times> 'w \<Rightarrow> 'f Timer \<times> 'w" where
  "Excute call e st = call (te_func e) (te_data e) st"

definition Timer_new :: "'f Timer" where
  "Timer_new = \<lparr>time_ele = [], exeute_list = [], global_element_id = 1, check_interval = 100 * 1000, last_check_time = 0\<rparr>"

definition Timer_Initialize :: "'f Timer \<Rightarrow> bool" where
  "Timer_Initialize t = True"

definition Timer_Exit :: "'f Timer \<Rightarrow> bool" where
  "Timer_Exit t = True"

text \<open>\<^verbatim>\<open>multimap::insert\<close>: behind the elements with the same key.\<close>

fun multimap_insert :: "int \<Rightarrow> 'e \<Rightarrow> (int \<times> 'e) list \<Rightarrow> (int \<times> 'e) list" where
  "multimap_insert k e [] = [(k, e)]"
| "multimap_insert k e ((k', e') # m) = (if k < k' then (k, e) # (k', e') # m else (k', e') # multimap_insert k e m)"

text \<open>\<open>now\<close> is the value of \<^verbatim>\<open>HighResolution()\<close>.\<close>

definition AddTimer :: "int \<Rightarrow> int \<Rightarrow> int \<Rightarrow> 'f \<Rightarrow> 'f Timer \<Rightarrow> int \<times> 'f Timer" where
  "AddTimer now micro_time data func t =
     (let expire_time = i64 (now + micro_time);
          element = \<lparr>te_func = func, te_id = global_element_id t, te_data = data, te_expire_time = expire_time\<rparr>;
          t = t\<lparr>global_element_id := i64 (global_element_id t + 1)\<rparr>;
          t = t\<lparr>time_ele := multimap_insert expire_time element (time_ele t)\<rparr>
      in (GetIndex element, t))"

fun del_loop :: "int \<Rightarrow> (int \<times> 'f TimerElement) list \<Rightarrow> bool \<times> (int \<times> 'f TimerElement) list" where
  "del_loop index [] = (False, [])"
| "del_loop index ((k, ele) # m) =
     (if GetIndex ele = index then (True, m) else (case del_loop index m of (b, m') \<Rightarrow> (b, (k, ele) # m')))"

definition DelTimer :: "int \<Rightarrow> 'f Timer \<Rightarrow> bool \<times> 'f Timer" where
  "DelTimer index t = (case del_loop index (time_ele t) of (b, m) \<Rightarrow> (b, t\<lparr>time_ele := m\<rparr>))"

fun expire_loop :: "int \<Rightarrow> (int \<times> 'f TimerElement) list \<Rightarrow> 'f TimerElement list \<Rightarrow> (int \<times> 'f TimerElement) list \<times> 'f TimerElement list" where
  "expire_loop cur_time [] run = ([], run)"
| "expire_loop cur_time ((k, ele) # m) run =
     (if k > cur_time then ((k, ele) # m, run) else expire_loop cur_time m (run @ [ele]))"

definition CheckExpire :: "int \<Rightarrow> 'f Timer \<Rightarrow> 'f Timer" where
  "CheckExpire cur_time t =
     (case expire_loop cur_time (time_ele t) (exeute_list t) of (m, run) \<Rightarrow> t\<lparr>time_ele := m, exeute_list := run\<rparr>)"

text \<open>
  The loop of \<^verbatim>\<open>OnTimer\<close> goes through \<^verbatim>\<open>exeute_list_\<close> itself. The functions that it calls may add and delete timers, which leaves this
  private list alone: only \<^verbatim>\<open>OnTimer\<close> and \<^verbatim>\<open>CheckExpire\<close> change it. The model goes through the list as it is at the start of the loop, which
  is the same list for all functions that do not call these two again on the same timer; such calls are not modelled.
\<close>

definition OnTimer :: "('f, 'w) calls \<Rightarrow> int \<Rightarrow> 'f Timer \<times> 'w \<Rightarrow> 'f Timer \<times> 'w" where
  "OnTimer call current_time st =
     (case st of (t, w) \<Rightarrow>
        if current_time > i64 (last_check_time t + check_interval t) then
          let t = CheckExpire current_time t;
              (t, w) = foldl (\<lambda>st e. Excute call e st) (t, w) (exeute_list t)
          in (t\<lparr>exeute_list := [], last_check_time := current_time\<rparr>, w)
        else (t, w))"

section \<open>The queue\<close>

text \<open>
  The invariant: sorted by expiry, each key is the expiry time of its element, identifiers are distinct and below the next one,
  nothing waits in the execution list.
\<close>

definition queue_ok :: "'f Timer \<Rightarrow> bool" where
  "queue_ok t \<longleftrightarrow>
     sorted (map fst (time_ele t)) \<and>
     (\<forall>(k, e) \<in> set (time_ele t). k = te_expire_time e \<and> te_id e < global_element_id t) \<and>
     distinct (map (te_id \<circ> snd) (time_ele t))"

definition timer_inv :: "'f Timer \<Rightarrow> bool" where
  "timer_inv t \<longleftrightarrow> queue_ok t \<and> exeute_list t = []"

text \<open>The timers that wait, as the set of their elements.\<close>

definition pending :: "'f Timer \<Rightarrow> 'f TimerElement set" where
  "pending t = snd ` set (time_ele t)"

lemma set_multimap_insert [simp]: "set (multimap_insert k e m) = insert (k, e) (set m)"
  by (induction k e m rule: multimap_insert.induct) auto

lemma multimap_insert_order:
  "\<exists>a b. m = a @ b \<and> multimap_insert k e m = a @ (k, e) # b \<and> (\<forall>x \<in> set b. sorted (map fst m) \<longrightarrow> k < fst x) \<and> (\<forall>x \<in> set a. fst x \<le> k)"
proof (induction m)
  case (Cons x m)
  obtain k' e' where x: "x = (k', e')" by fastforce
  show ?case
  proof (cases "k < k'")
    case True
    then show ?thesis by (intro exI [of _ "[]"] exI [of _ "x # m"]) (auto simp: x)
  next
    case False
    obtain a b where "m = a @ b" "multimap_insert k e m = a @ (k, e) # b"
      "\<forall>x \<in> set b. sorted (map fst m) \<longrightarrow> k < fst x" "\<forall>x \<in> set a. fst x \<le> k" using Cons.IH by blast
    then show ?thesis using False by (intro exI [of _ "x # a"] exI [of _ b]) (auto simp: x)
  qed
qed simp

lemma i64_id: "- (2 ^ 63) \<le> x \<Longrightarrow> x < 2 ^ 63 \<Longrightarrow> i64 x = x"
  using signed_take_bit_int_eq_self [of 63 x] by (simp add: i64_def signed_of_int)

lemma AddTimer_queue:
  assumes ok: "queue_ok t" and id: "0 < global_element_id t" "global_element_id t + 1 < 2 ^ 63"
    and add: "AddTimer now us data f t = (i, t')"
  shows "queue_ok t' \<and> i = global_element_id t \<and> i \<notin> te_id ` pending t \<and>
    pending t' = insert \<lparr>te_func = f, te_id = i, te_data = data, te_expire_time = i64 (now + us)\<rparr> (pending t) \<and>
    global_element_id t' = global_element_id t + 1 \<and> exeute_list t' = exeute_list t \<and> last_check_time t' = last_check_time t"
proof -
  let ?e = "\<lparr>te_func = f, te_id = global_element_id t, te_data = data, te_expire_time = i64 (now + us)\<rparr>"
  let ?k = "i64 (now + us)"
  have n: "i64 (global_element_id t + 1) = global_element_id t + 1" using id by (intro i64_id) simp_all
  have t': "t' = t\<lparr>global_element_id := global_element_id t + 1, time_ele := multimap_insert ?k ?e (time_ele t)\<rparr>" "i = global_element_id t"
    using add n by (auto simp: AddTimer_def GetIndex_def Let_def)
  have fresh: "te_id x \<noteq> global_element_id t" if "(k, x) \<in> set (time_ele t)" for k x
    using ok that by (auto simp: queue_ok_def)
  obtain a b where ab: "time_ele t = a @ b" "multimap_insert ?k ?e (time_ele t) = a @ (?k, ?e) # b"
    "\<forall>x \<in> set b. ?k < fst x" "\<forall>x \<in> set a. fst x \<le> ?k"
    using multimap_insert_order [of "time_ele t" ?k ?e] ok unfolding queue_ok_def by blast
  have "sorted (map fst (a @ (?k, ?e) # b))"
    using ok ab unfolding queue_ok_def by (auto simp: sorted_append less_imp_le)
  moreover have "distinct (map (te_id \<circ> snd) (a @ (?k, ?e) # b))"
  proof -
    have "global_element_id t \<notin> (te_id \<circ> snd) ` (set a \<union> set b)" using fresh ab(1) by force
    then show ?thesis using ok ab(1) unfolding queue_ok_def by (simp add: image_Un)
  qed
  moreover have "\<forall>(k, e) \<in> set (time_ele t'). k = te_expire_time e \<and> te_id e < global_element_id t'"
    using ok unfolding queue_ok_def t'(1) by fastforce
  moreover have "time_ele t' = a @ (?k, ?e) # b" using t'(1) ab(2) by simp
  ultimately have "queue_ok t'" unfolding queue_ok_def by simp
  moreover have "global_element_id t \<notin> te_id ` pending t" using fresh by (auto simp: pending_def) metis
  ultimately show ?thesis using t' by (simp add: pending_def)
qed

lemma del_loop_spec:
  "distinct (map (te_id \<circ> snd) m) \<Longrightarrow>
   del_loop i m = (i \<in> te_id ` snd ` set m, filter (\<lambda>(k, e). te_id e \<noteq> i) m)"
proof (induction m)
  case (Cons x m)
  obtain k e where x: "x = (k, e)" by fastforce
  show ?case
  proof (cases "te_id e = i")
    case True
    then have "filter (\<lambda>(k, e). te_id e \<noteq> i) m = m" using Cons.prems by (intro filter_True) (force simp: x)
    then show ?thesis using True by (simp add: x GetIndex_def)
  next
    case False
    then show ?thesis using Cons by (auto simp: x GetIndex_def)
  qed
qed simp

lemma DelTimer_queue:
  assumes ok: "queue_ok t"
  shows "DelTimer i t = (i \<in> te_id ` pending t, t\<lparr>time_ele := filter (\<lambda>(k, e). te_id e \<noteq> i) (time_ele t)\<rparr>)"
    and "queue_ok (t\<lparr>time_ele := filter (\<lambda>(k, e). te_id e \<noteq> i) (time_ele t)\<rparr>)"
proof -
  show "DelTimer i t = (i \<in> te_id ` pending t, t\<lparr>time_ele := filter (\<lambda>(k, e). te_id e \<noteq> i) (time_ele t)\<rparr>)"
    using ok del_loop_spec [of "time_ele t" i] by (simp add: DelTimer_def queue_ok_def pending_def)
  show "queue_ok (t\<lparr>time_ele := filter (\<lambda>(k, e). te_id e \<noteq> i) (time_ele t)\<rparr>)"
    using ok by (auto simp: queue_ok_def sorted_filter distinct_map_filter)
qed

text \<open>\<^verbatim>\<open>CheckExpire\<close> moves exactly the elements whose time has come, in the order of their times.\<close>

lemma expire_loop_spec:
  "sorted (map fst m) \<Longrightarrow>
   expire_loop now m run = (filter (\<lambda>(k, e). now < k) m, run @ map snd (filter (\<lambda>(k, e). k \<le> now) m))"
proof (induction m arbitrary: run)
  case (Cons x m)
  obtain k e where x: "x = (k, e)" by fastforce
  show ?case
  proof (cases "now < k")
    case True
    then have "now < k'" if "(k', e') \<in> set m" for k' e' using Cons.prems that by (fastforce simp: x)
    then have "filter (\<lambda>(k, e). now < k) m = m" "filter (\<lambda>(k, e). k \<le> now) m = []"
      by (auto simp: filter_empty_conv intro!: filter_True) (force simp: not_le)
    then show ?thesis using True by (simp add: x)
  next
    case False
    then show ?thesis using Cons by (simp add: x)
  qed
qed simp

definition due :: "int \<Rightarrow> 'f Timer \<Rightarrow> 'f TimerElement list" where
  "due now t = map snd (filter (\<lambda>(k, e). k \<le> now) (time_ele t))"

definition later :: "int \<Rightarrow> 'f Timer \<Rightarrow> (int \<times> 'f TimerElement) list" where
  "later now t = filter (\<lambda>(k, e). now < k) (time_ele t)"

lemma CheckExpire_queue:
  "timer_inv t \<Longrightarrow> CheckExpire now t = t\<lparr>time_ele := later now t, exeute_list := due now t\<rparr>"
  by (simp add: timer_inv_def queue_ok_def CheckExpire_def expire_loop_spec due_def later_def)

lemma queue_ok_later: "queue_ok t \<Longrightarrow> queue_ok (t\<lparr>time_ele := later now t, exeute_list := x, last_check_time := y\<rparr>)"
  by (auto simp: queue_ok_def later_def sorted_filter distinct_map_filter)

lemma due_spec:
  assumes "queue_ok t"
  shows "set (due now t) = {e \<in> pending t. te_expire_time e \<le> now}" "sorted (map te_expire_time (due now t))"
    "distinct (map te_id (due now t))"
proof -
  have k: "k = te_expire_time e" if "(k, e) \<in> set (time_ele t)" for k e using assms that by (auto simp: queue_ok_def)
  show "set (due now t) = {e \<in> pending t. te_expire_time e \<le> now}"
    using k by (force simp: due_def pending_def image_iff)
  have "map te_expire_time (due now t) = map fst (filter (\<lambda>(k, e). k \<le> now) (time_ele t))"
    using k by (auto simp: due_def)
  then show "sorted (map te_expire_time (due now t))"
    using assms by (simp add: queue_ok_def sorted_filter)
  show "distinct (map te_id (due now t))"
    using assms distinct_map_filter [of "te_id \<circ> snd" "time_ele t" "\<lambda>(k, e). k \<le> now"] by (simp add: queue_ok_def due_def o_def)
qed

section \<open>Traces\<close>

text \<open>
  Runs of the timer with the log of what fired, with its time, and the identifiers that were deleted. A tick is \<^verbatim>\<open>OnTimer\<close> up to the calls; the timers
  that the called functions add and delete are steps that follow.
\<close>

type_synonym 'f timer_run = "'f Timer \<times> (int \<times> 'f TimerElement) list \<times> int set"

inductive timer_step :: "'f timer_run \<Rightarrow> 'f timer_run \<Rightarrow> bool" where
  run_add: "AddTimer now us data f t = (i, t') \<Longrightarrow> global_element_id t + 1 < 2 ^ 63 \<Longrightarrow> timer_step (t, fired, dels) (t', fired, dels)"
| run_del: "DelTimer i t = (b, t') \<Longrightarrow> timer_step (t, fired, dels) (t', fired, if b then insert i dels else dels)"
| run_tick: "i64 (last_check_time t + check_interval t) < now \<Longrightarrow> c = CheckExpire now t \<Longrightarrow>
    timer_step (t, fired, dels)
      (c\<lparr>exeute_list := [], last_check_time := now\<rparr>, fired @ map (\<lambda>e. (now, e)) (exeute_list c), dels)"

definition fired_ids :: "(int \<times> 'f TimerElement) list \<Rightarrow> int list" where
  "fired_ids fired = map (te_id \<circ> snd) fired"

definition run_inv :: "'f timer_run \<Rightarrow> bool" where
  "run_inv r \<longleftrightarrow>
     (case r of (t, fired, dels) \<Rightarrow>
        timer_inv t \<and> 0 < global_element_id t \<and>
        (\<forall>(now, e) \<in> set fired. te_expire_time e \<le> now) \<and>
        distinct (fired_ids fired) \<and>
        {1..<global_element_id t} = te_id ` pending t \<union> set (fired_ids fired) \<union> dels \<and>
        te_id ` pending t \<inter> set (fired_ids fired) = {} \<and> te_id ` pending t \<inter> dels = {} \<and> set (fired_ids fired) \<inter> dels = {})"

lemma run_inv_new: "run_inv (Timer_new, [], {})"
  by (simp add: run_inv_def timer_inv_def queue_ok_def Timer_new_def pending_def fired_ids_def)

lemma run_inv_add:
  assumes inv: "run_inv (t, fired, dels)" and add: "AddTimer now us data f t = (i, t')" and n: "global_element_id t + 1 < 2 ^ 63"
  shows "run_inv (t', fired, dels)"
proof -
  have ok: "queue_ok t" "0 < global_element_id t" "exeute_list t = []" using inv by (simp_all add: run_inv_def timer_inv_def)
  note a = AddTimer_queue [OF ok(1,2) n add]
  have "{1..<global_element_id t'} = insert (global_element_id t) {1..<global_element_id t}" using a ok(2) by auto
  moreover have "global_element_id t \<notin> {1..<global_element_id t}" by simp
  ultimately show ?thesis using inv a by (auto simp: run_inv_def timer_inv_def)
qed

lemma run_inv_del:
  assumes inv: "run_inv (t, fired, dels)" and del: "DelTimer i t = (b, t')"
  shows "run_inv (t', fired, if b then insert i dels else dels)"
proof -
  have ok: "queue_ok t" using inv by (simp add: run_inv_def timer_inv_def)
  have t': "t' = t\<lparr>time_ele := filter (\<lambda>(k, e). te_id e \<noteq> i) (time_ele t)\<rparr>" "b = (i \<in> te_id ` pending t)"
    using del DelTimer_queue(1) [OF ok, of i] by auto
  have p: "te_id ` pending t' = te_id ` pending t - {i}" by (force simp: pending_def t'(1))
  have "timer_inv t'" "global_element_id t' = global_element_id t"
    using inv DelTimer_queue(2) [OF ok, of i] by (simp_all add: run_inv_def timer_inv_def t'(1))
  then show ?thesis
    using inv unfolding run_inv_def prod.case p t'(2) by (cases "i \<in> te_id ` pending t") (simp_all, blast+)
qed

lemma run_inv_tick:
  assumes inv: "run_inv (t, fired, dels)" and c: "c = CheckExpire now t"
  shows "run_inv (c\<lparr>exeute_list := [], last_check_time := now\<rparr>, fired @ map (\<lambda>e. (now, e)) (exeute_list c), dels)"
proof -
  have ti: "timer_inv t" and ok: "queue_ok t" using inv by (simp_all add: run_inv_def timer_inv_def)
  have c': "c = t\<lparr>time_ele := later now t, exeute_list := due now t\<rparr>" unfolding c by (rule CheckExpire_queue [OF ti])
  let ?t = "c\<lparr>exeute_list := [], last_check_time := now\<rparr>"
  have q: "queue_ok ?t" using queue_ok_later [OF ok, of now "[]" now] by (simp add: c')
  note d = due_spec [OF ok, of now]
  have k: "k = te_expire_time e" if "(k, e) \<in> set (time_ele t)" for k e using ok that by (auto simp: queue_ok_def)
  have pend: "pending ?t = {e \<in> pending t. now < te_expire_time e}"
    using k by (force simp: c' later_def pending_def image_iff)
  have ids: "fired_ids (fired @ map (\<lambda>e. (now, e)) (exeute_list c)) = fired_ids fired @ map te_id (due now t)"
    by (simp add: fired_ids_def c' o_def)
  have inj: "e = e'" if e: "e \<in> pending t" "e' \<in> pending t" "te_id e = te_id e'" for e e'
  proof -
    obtain a a' where "(a, e) \<in> set (time_ele t)" "(a', e') \<in> set (time_ele t)" using e(1,2) by (auto simp: pending_def)
    moreover have "inj_on (te_id \<circ> snd) (set (time_ele t))" using ok by (simp add: queue_ok_def distinct_map)
    ultimately have "(a, e) = (a', e')" using e(3) by (intro inj_onD [of "te_id \<circ> snd"]) simp_all
    then show ?thesis by simp
  qed
  have split: "te_id ` pending t = te_id ` pending ?t \<union> set (map te_id (due now t))" 
    by (simp add: pend d(1) flip: image_Un) (rule arg_cong [of _ _ "(`) te_id"], auto)
  have disj: "te_id ` pending ?t \<inter> set (map te_id (due now t)) = {}"
  proof -
    have "te_id e \<noteq> te_id e'" if "e \<in> pending ?t" "e' \<in> set (due now t)" for e e'
      using that inj [of e e'] unfolding pend d(1) by auto
    then show ?thesis by auto
  qed
  show ?thesis
    unfolding run_inv_def prod.case ids
  proof (intro conjI)
    show "timer_inv ?t" using q by (simp add: timer_inv_def c')
    show "\<forall>(n, e) \<in> set (fired @ map (\<lambda>e. (now, e)) (exeute_list c)). te_expire_time e \<le> n"
      using inv d(1) by (auto simp: run_inv_def c')
    show "distinct (fired_ids fired @ map te_id (due now t))"
      using inv d(3) split by (auto simp: run_inv_def)
    show "{1..<global_element_id ?t} = te_id ` pending ?t \<union> set (fired_ids fired @ map te_id (due now t)) \<union> dels"
      using inv split by (auto simp: run_inv_def c')
  qed (use inv split disj in \<open>auto simp: run_inv_def c'\<close>)
qed

lemma run_inv_reachable: "timer_step\<^sup>*\<^sup>* (Timer_new, [], {}) r \<Longrightarrow> run_inv r"
proof (induction rule: rtranclp_induct)
  case (step r1 r2)
  from step(2,3) show ?case
    by (cases rule: timer_step.cases) (auto intro: run_inv_add run_inv_tick dest: run_inv_del)
qed (rule run_inv_new)

section \<open>Properties\<close>

text \<open>
  Claim C25. \<^verbatim>\<open>OnTimer\<close>, when the interval has passed, calls the functions of exactly the timers whose time has come, in the order of their expiry
  times, each with its data, and leaves the others in the queue; before the interval has passed it does nothing.
\<close>

theorem OnTimer_fires_due:
  assumes "timer_inv t"
  shows "(i64 (last_check_time t + check_interval t) < now \<longrightarrow>
            OnTimer call now (t, w) =
              (case foldl (\<lambda>st e. call (te_func e) (te_data e) st) (t\<lparr>time_ele := later now t, exeute_list := due now t\<rparr>, w) (due now t)
               of (t', w') \<Rightarrow> (t'\<lparr>exeute_list := [], last_check_time := now\<rparr>, w'))) \<and>
         (\<not> i64 (last_check_time t + check_interval t) < now \<longrightarrow> OnTimer call now (t, w) = (t, w)) \<and>
         set (due now t) = {e \<in> pending t. te_expire_time e \<le> now} \<and> sorted (map te_expire_time (due now t)) \<and>
         distinct (map te_id (due now t)) \<and> snd ` set (later now t) = {e \<in> pending t. now < te_expire_time e}"
proof -
  have ok: "queue_ok t" using assms by (simp add: timer_inv_def)
  have k: "k = te_expire_time e" if "(k, e) \<in> set (time_ele t)" for k e using ok that by (auto simp: queue_ok_def)
  have "snd ` set (later now t) = {e \<in> pending t. now < te_expire_time e}"
    using k by (force simp: later_def pending_def image_iff)
  then show ?thesis
    using due_spec [OF ok, of now] by (simp add: OnTimer_def Excute_def CheckExpire_queue [OF assms])
qed

definition one_timer :: "unit Timer" where
  "one_timer = \<lparr>time_ele = [(5, \<lparr>te_func = (), te_id = 1, te_data = 7, te_expire_time = 5\<rparr>)], exeute_list = [],
                global_element_id = 2, check_interval = 100000, last_check_time = 0\<rparr>"

theorem OnTimer_fires_due_witness:
  "snd (OnTimer (\<lambda>f d (t, w). (t, w @ [d])) 200000 (one_timer, [])) = [7]"
proof -
  have inv: "timer_inv one_timer" by (simp add: timer_inv_def queue_ok_def one_timer_def)
  have "i64 (last_check_time one_timer + check_interval one_timer) = 100000" by (simp add: one_timer_def i64_id)
  moreover have "due 200000 one_timer = [\<lparr>te_func = (), te_id = 1, te_data = 7, te_expire_time = 5\<rparr>]"
    by (simp add: due_def one_timer_def)
  ultimately show ?thesis
    using OnTimer_fires_due [OF inv, of 200000 "\<lambda>f d (t, w). (t, w @ [d])" "[]"] by simp
qed

text \<open>
  Claim C8. No timer is lost and none fires twice or early: in every run from the new timer, every identifier that was given out belongs to exactly one
  timer that waits, fired or was deleted, and what fired did so at or after its expiry time.
\<close>

theorem timers_never_lost:
  assumes "timer_step\<^sup>*\<^sup>* (Timer_new, [], {}) (t, fired, dels)"
  shows "timer_inv t \<and> (\<forall>(now, e) \<in> set fired. te_expire_time e \<le> now) \<and>
         distinct (map (te_id \<circ> snd) fired) \<and>
         {1..<global_element_id t} = te_id ` pending t \<union> te_id ` snd ` set fired \<union> dels \<and>
         te_id ` pending t \<inter> te_id ` snd ` set fired = {} \<and> te_id ` pending t \<inter> dels = {} \<and> te_id ` snd ` set fired \<inter> dels = {}"
  using run_inv_reachable [OF assms] by (simp add: run_inv_def fired_ids_def image_comp o_def)

theorem timers_never_lost_witness:
  "timer_inv one_timer \<and> {1..<global_element_id one_timer} = te_id ` pending one_timer"
proof -
  have "AddTimer 0 5 7 () Timer_new = (1, one_timer)"
    by (simp add: AddTimer_def Timer_new_def one_timer_def GetIndex_def i64_id)
  then have "timer_step (Timer_new, [], {}) (one_timer, [], {})" by (rule run_add) (simp add: Timer_new_def)
  then have "timer_step\<^sup>*\<^sup>* (Timer_new, [], {}) (one_timer, [], {})" by (rule r_into_rtranclp)
  from timers_never_lost [OF this] show ?thesis by simp
qed

end
