(* ===== verification/LruCache.thy ===== *)
theory LruCache
  imports Prelude "HOL-Library.AList"
begin

text \<open>
  The class \<^verbatim>\<open>cache::lru_cache\<close> of \<^verbatim>\<open>src/utils/lrucache.hpp\<close>: a doubly linked list of the cached pairs, the
  most recently used first, and a hash map from the keys to iterators into the list. The theory shows that no
  iterator in the map ever dangles and that the class refines a list of pairs cut to its maximal length.
\<close>

section \<open>The class\<close>

text \<open>
  A node of the \<^verbatim>\<open>std::list\<close> is named by the number it got at its allocation; an iterator is such a number. The
  order of the \<^verbatim>\<open>std::unordered_map\<close> is never observed, so an association list stands for it.
\<close>

type_synonym list_iterator_t = nat

record ('k, 'v) lru_cache =
  cache_items_list :: "(list_iterator_t \<times> 'k \<times> 'v) list"
  cache_items_map :: "('k \<times> list_iterator_t) list"
  max_size :: nat
  next_node :: list_iterator_t

definition lru_new :: "nat \<Rightarrow> ('k, 'v) lru_cache" where
  "lru_new n = \<lparr>cache_items_list = [], cache_items_map = [], max_size = n, next_node = 0\<rparr>"

text \<open>
  The operations of \<^verbatim>\<open>std::list\<close>. Reading through an iterator that points to no node is undefined in C++; here
  it has no result.
\<close>

definition list_erase :: "list_iterator_t \<Rightarrow> (list_iterator_t \<times> 'a) list \<Rightarrow> (list_iterator_t \<times> 'a) list" where
  "list_erase it xs = filter (\<lambda>e. fst e \<noteq> it) xs"

definition splice_front :: "list_iterator_t \<Rightarrow> (list_iterator_t \<times> 'a) list \<Rightarrow> (list_iterator_t \<times> 'a) list" where
  "splice_front it xs = filter (\<lambda>e. fst e = it) xs @ filter (\<lambda>e. fst e \<noteq> it) xs"

definition deref :: "list_iterator_t \<Rightarrow> (list_iterator_t \<times> 'a) list \<Rightarrow> 'a outcome" where
  "deref it xs = (case map_of xs it of Some e \<Rightarrow> Inr e | None \<Rightarrow> Inl undefined_behaviour)"

definition erase_if_exists :: "'k \<Rightarrow> ('k, 'v) lru_cache \<Rightarrow> ('k, 'v) lru_cache" where
  "erase_if_exists key c =
     (case map_of (cache_items_map c) key of
        Some it \<Rightarrow>
          c\<lparr>cache_items_list := list_erase it (cache_items_list c),
            cache_items_map := AList.delete key (cache_items_map c)\<rparr>
      | None \<Rightarrow> c)"

text \<open>\<^verbatim>\<open>put\<close> begins with the statements of \<^verbatim>\<open>erase_if_exists\<close>.\<close>

definition push_front :: "'k \<Rightarrow> 'v \<Rightarrow> ('k, 'v) lru_cache \<Rightarrow> ('k, 'v) lru_cache" where
  "push_front key val c =
     c\<lparr>cache_items_list := (next_node c, key, val) # cache_items_list c,
       cache_items_map := AList.update key (next_node c) (cache_items_map c),
       next_node := next_node c + 1\<rparr>"

definition put :: "'k \<Rightarrow> 'v \<Rightarrow> ('k, 'v) lru_cache \<Rightarrow> ('k, 'v) lru_cache" where
  "put key val c =
     (let c = (case map_of (cache_items_map c) key of
                 Some it \<Rightarrow>
                   c\<lparr>cache_items_list := list_erase it (cache_items_list c),
                     cache_items_map := AList.delete key (cache_items_map c)\<rparr>
               | None \<Rightarrow> c);
          c = push_front key val c
      in if length (cache_items_map c) > max_size c then
           let l = last (cache_items_list c)
           in c\<lparr>cache_items_map := AList.delete (fst (snd l)) (cache_items_map c),
                cache_items_list := butlast (cache_items_list c)\<rparr>
         else c)"

definition get :: "'k \<Rightarrow> ('k, 'v) lru_cache \<Rightarrow> 'v outcome \<times> ('k, 'v) lru_cache" where
  "get key c =
     (case map_of (cache_items_map c) key of
        None \<Rightarrow> (Inl (range_error ''There is no such key in cache''), c)
      | Some it \<Rightarrow>
          let c = c\<lparr>cache_items_list := splice_front it (cache_items_list c)\<rparr>
          in (map_sum id snd (deref it (cache_items_list c)), c))"

text \<open>The version without exceptions: the second component is the variable of the caller.\<close>

definition get_value :: "'k \<Rightarrow> 'v \<Rightarrow> ('k, 'v) lru_cache \<Rightarrow> (bool \<times> 'v) outcome \<times> ('k, 'v) lru_cache" where
  "get_value key val c =
     (case map_of (cache_items_map c) key of
        None \<Rightarrow> (Inr (False, val), c)
      | Some it \<Rightarrow>
          let c = c\<lparr>cache_items_list := splice_front it (cache_items_list c)\<rparr>
          in (map_sum id (\<lambda>e. (True, snd e)) (deref it (cache_items_list c)), c))"

definition clear :: "('k, 'v) lru_cache \<Rightarrow> ('k, 'v) lru_cache" where
  "clear c = c\<lparr>cache_items_map := [], cache_items_list := []\<rparr>"

definition exists_key :: "'k \<Rightarrow> ('k, 'v) lru_cache \<Rightarrow> bool" where
  "exists_key key c \<longleftrightarrow> map_of (cache_items_map c) key \<noteq> None"

definition lru_size :: "('k, 'v) lru_cache \<Rightarrow> nat" where
  "lru_size c = length (cache_items_map c)"

definition GetList :: "('k, 'v) lru_cache \<Rightarrow> ('k \<times> 'v) list" where
  "GetList c = map snd (cache_items_list c)"

section \<open>The list of recently used pairs\<close>

definition drop_key :: "'k \<Rightarrow> ('k \<times> 'v) list \<Rightarrow> ('k \<times> 'v) list" where
  "drop_key key l = filter (\<lambda>p. fst p \<noteq> key) l"

definition recent_put :: "nat \<Rightarrow> 'k \<Rightarrow> 'v \<Rightarrow> ('k \<times> 'v) list \<Rightarrow> ('k \<times> 'v) list" where
  "recent_put n key val l = take n ((key, val) # drop_key key l)"

definition recent_use :: "'k \<Rightarrow> ('k \<times> 'v) list \<Rightarrow> ('k \<times> 'v) list" where
  "recent_use key l = (case map_of l key of Some v \<Rightarrow> (key, v) # drop_key key l | None \<Rightarrow> l)"

text \<open>
  The invariant: the iterators of the map are exactly the nodes of the list, under the key of the node. It holds
  inside of \<^verbatim>\<open>put\<close> too; the bound on the length holds between the operations.
\<close>

definition lru_nodes :: "('k, 'v) lru_cache \<Rightarrow> bool" where
  "lru_nodes c \<longleftrightarrow>
     distinct (map fst (cache_items_list c)) \<and> distinct (map fst (GetList c)) \<and>
     distinct (map fst (cache_items_map c)) \<and>
     set (cache_items_map c) = (\<lambda>e. (fst (snd e), fst e)) ` set (cache_items_list c) \<and>
     (\<forall>e \<in> set (cache_items_list c). fst e < next_node c)"

definition lru_inv :: "('k, 'v) lru_cache \<Rightarrow> bool" where
  "lru_inv c \<longleftrightarrow> lru_nodes c \<and> length (GetList c) \<le> max_size c"

lemma map_find_iff:
  assumes "lru_nodes c"
  shows "map_of (cache_items_map c) key = Some it \<longleftrightarrow> (\<exists>v. (it, key, v) \<in> set (cache_items_list c))"
proof -
  have "map_of (cache_items_map c) key = Some it \<longleftrightarrow> (key, it) \<in> set (cache_items_map c)"
    using assms by (simp add: lru_nodes_def)
  also have "\<dots> \<longleftrightarrow> (\<exists>e \<in> set (cache_items_list c). fst (snd e) = key \<and> fst e = it)"
    using assms by (auto simp: lru_nodes_def simp del: map_of_eq_Some_iff)
  finally show ?thesis by force
qed

lemma map_keys:
  assumes "lru_nodes c"
  shows "fst ` set (cache_items_map c) = fst ` set (GetList c)"
  using assms by (simp add: lru_nodes_def GetList_def image_comp o_def)

lemma map_none_iff:
  assumes "lru_nodes c"
  shows "map_of (cache_items_map c) key = None \<longleftrightarrow> key \<notin> fst ` set (GetList c)"
  using map_keys [OF assms] by (simp add: map_of_eq_None_iff)

lemma exists_key_iff: "lru_nodes c \<Longrightarrow> exists_key key c \<longleftrightarrow> key \<in> fst ` set (GetList c)"
  by (simp only: exists_key_def map_none_iff not_not)

lemma lru_size_list:
  assumes "lru_nodes c"
  shows "lru_size c = length (GetList c)"
proof -
  have "card (fst ` set (cache_items_map c)) = card (fst ` set (GetList c))" using map_keys [OF assms] by simp
  then show ?thesis
    using assms distinct_card [of "map fst (cache_items_map c)"] distinct_card [of "map fst (GetList c)"]
    by (simp add: lru_size_def lru_nodes_def)
qed

text \<open>In a list of nodes with distinct keys, removing the node of a key removes the key.\<close>

lemma node_of_key:
  assumes "lru_nodes c" "(it, key, v) \<in> set (cache_items_list c)" "e \<in> set (cache_items_list c)"
  shows "fst e = it \<longleftrightarrow> fst (snd e) = key"
proof -
  have "fst e = fst (it, key, v) \<longleftrightarrow> e = (it, key, v)"
    using assms unfolding lru_nodes_def by (meson eq_key_imp_eq_value inj_onD distinct_map)
  moreover have "(fst \<circ> snd) e = (fst \<circ> snd) (it, key, v) \<longleftrightarrow> e = (it, key, v)"
  proof
    have "inj_on (fst \<circ> snd) (set (cache_items_list c))"
      using assms(1) by (simp add: lru_nodes_def GetList_def distinct_map comp_inj_on)
    then show "(fst \<circ> snd) e = (fst \<circ> snd) (it, key, v) \<Longrightarrow> e = (it, key, v)"
      using assms(2,3) by (meson inj_onD)
  qed auto
  ultimately show ?thesis by auto
qed

lemma drop_key_nodes:
  "map snd (filter (\<lambda>e. fst (snd e) \<noteq> key) xs) = drop_key key (map snd xs)"
  by (induction xs) (auto simp: drop_key_def)

lemma drop_key_absent: "key \<notin> fst ` set l \<Longrightarrow> drop_key key l = l"
  unfolding drop_key_def by (rule filter_True) force

lemma set_AList_delete: "set (AList.delete k xs) = {p \<in> set xs. fst p \<noteq> k}"
  by (auto simp: AList.delete_eq)

lemma set_AList_update_new: "k \<notin> fst ` set xs \<Longrightarrow> set (AList.update k v xs) = insert (k, v) (set xs)"
  by (induction xs) auto

lemma erase_if_exists_nodes:
  assumes "lru_nodes c"
  shows "lru_nodes (erase_if_exists key c) \<and> GetList (erase_if_exists key c) = drop_key key (GetList c) \<and>
         max_size (erase_if_exists key c) = max_size c"
proof (cases "map_of (cache_items_map c) key")
  case None
  then have "erase_if_exists key c = c" by (simp add: erase_if_exists_def)
  then show ?thesis using assms None by (simp add: map_none_iff drop_key_absent)
next
  case (Some it)
  then obtain v where v: "(it, key, v) \<in> set (cache_items_list c)" using map_find_iff [OF assms] by blast
  have erase: "list_erase it (cache_items_list c) = filter (\<lambda>e. fst (snd e) \<noteq> key) (cache_items_list c)"
    unfolding list_erase_def using node_of_key [OF assms v] by (intro filter_cong) auto
  have gl: "GetList (erase_if_exists key c) = drop_key key (GetList c)"
    by (simp add: erase_if_exists_def Some GetList_def erase drop_key_nodes)
  show ?thesis
    using assms gl by (auto simp: lru_nodes_def erase_if_exists_def Some erase distinct_map_filter AList.distinct_delete
        drop_key_def set_AList_delete)
qed

lemma push_front_nodes:
  assumes "lru_nodes c" and "key \<notin> fst ` set (GetList c)"
  shows "lru_nodes (push_front key val c)" and "GetList (push_front key val c) = (key, val) # GetList c"
    and "max_size (push_front key val c) = max_size c"
proof -
  show gl: "GetList (push_front key val c) = (key, val) # GetList c" by (simp add: push_front_def GetList_def)
  have "key \<notin> fst ` set (cache_items_map c)" using assms map_keys by blast
  then have "set (AList.update key n (cache_items_map c)) = insert (key, n) (set (cache_items_map c))" for n
    by (rule set_AList_update_new)
  then show "lru_nodes (push_front key val c)"
    using assms gl by (auto simp: lru_nodes_def push_front_def AList.distinct_update less_Suc_eq)
qed (simp add: push_front_def)

lemma pop_back_nodes:
  assumes "lru_nodes c" and "cache_items_list c = xs @ [e]"
  defines "c' \<equiv> c\<lparr>cache_items_map := AList.delete (fst (snd e)) (cache_items_map c), cache_items_list := xs\<rparr>"
  shows "lru_nodes c' \<and> GetList c' = butlast (GetList c)"
proof -
  have gl: "GetList c' = butlast (GetList c)" by (simp add: c'_def GetList_def assms(2))
  have other: "fst (snd x) \<noteq> fst (snd e)" if "x \<in> set xs" for x
  proof -
    have "distinct (map (fst \<circ> snd) (xs @ [e]))" using assms(1) by (simp add: lru_nodes_def GetList_def assms(2))
    then have "(fst \<circ> snd) e \<notin> (fst \<circ> snd) ` set xs" by simp
    then show ?thesis using that by (metis comp_apply image_eqI)
  qed
  have "set (cache_items_map c') = {p \<in> set (cache_items_map c). fst p \<noteq> fst (snd e)}"
    by (simp add: c'_def set_AList_delete)
  also have "\<dots> = (\<lambda>e. (fst (snd e), fst e)) ` set xs"
    using assms(1) other by (auto simp: lru_nodes_def assms(2))
  finally show ?thesis
    using assms(1) gl by (auto simp: lru_nodes_def c'_def AList.distinct_delete map_butlast assms(2) GetList_def)
qed

lemma put_steps:
  "put key val c =
     (let c = push_front key val (erase_if_exists key c)
      in if lru_size c > max_size c then
           c\<lparr>cache_items_map := AList.delete (fst (snd (last (cache_items_list c)))) (cache_items_map c),
             cache_items_list := butlast (cache_items_list c)\<rparr>
         else c)"
  by (simp add: put_def erase_if_exists_def lru_size_def Let_def)

lemma put_refines:
  assumes "lru_inv c"
  shows "lru_inv (put key val c) \<and> GetList (put key val c) = recent_put (max_size c) key val (GetList c) \<and>
         max_size (put key val c) = max_size c"
proof -
  define c1 where "c1 = push_front key val (erase_if_exists key c)"
  have "key \<notin> fst ` set (drop_key key (GetList c))" by (auto simp: drop_key_def)
  then have c1: "lru_nodes c1" "GetList c1 = (key, val) # drop_key key (GetList c)" "max_size c1 = max_size c"
    using assms erase_if_exists_nodes [of c key] push_front_nodes [of "erase_if_exists key c" key val]
    by (simp_all add: lru_inv_def c1_def)
  have len: "length (drop_key key (GetList c)) \<le> max_size c"
    using assms length_filter_le [of "\<lambda>p. fst p \<noteq> key" "GetList c"] unfolding lru_inv_def drop_key_def by linarith
  show ?thesis
  proof (cases "lru_size c1 > max_size c1")
    case False
    then have "put key val c = c1" by (simp add: put_steps c1_def Let_def)
    then show ?thesis using c1 False by (simp add: lru_inv_def lru_size_list recent_put_def)
  next
    case True
    obtain xs e where xs: "cache_items_list c1 = xs @ [e]"
      using c1(2) by (cases "cache_items_list c1" rule: rev_cases) (auto simp: GetList_def)
    have "put key val c = c1\<lparr>cache_items_map := AList.delete (fst (snd e)) (cache_items_map c1), cache_items_list := xs\<rparr>"
      using True xs by (simp add: put_steps c1_def [symmetric] Let_def)
    then have "lru_nodes (put key val c) \<and> GetList (put key val c) = butlast (GetList c1) \<and>
        max_size (put key val c) = max_size c"
      using pop_back_nodes [OF c1(1) xs] c1(3) by simp
    then show ?thesis
      using True len c1 by (simp add: lru_inv_def lru_size_list recent_put_def butlast_conv_take less_Suc_eq_le)
  qed
qed

lemma filter_same_image: "distinct (map f xs) \<Longrightarrow> x \<in> set xs \<Longrightarrow> filter (\<lambda>e. f e = f x) xs = [x]"
  by (induction xs) (auto simp: filter_empty_conv image_iff)

lemma splice_refines:
  assumes "lru_inv c" and "(it, key, v) \<in> set (cache_items_list c)"
  defines "c' \<equiv> c\<lparr>cache_items_list := splice_front it (cache_items_list c)\<rparr>"
  shows "lru_inv c'" and "GetList c' = (key, v) # drop_key key (GetList c)" and "deref it (cache_items_list c') = Inr (key, v)"
proof -
  have nodes: "lru_nodes c" using assms(1) by (simp add: lru_inv_def)
  then have "filter (\<lambda>e. fst e = it) (cache_items_list c) = [(it, key, v)]"
    using filter_same_image [of fst "cache_items_list c" "(it, key, v)"] assms(2) by (simp add: lru_nodes_def)
  then have l: "cache_items_list c' = (it, key, v) # filter (\<lambda>e. fst (snd e) \<noteq> key) (cache_items_list c)"
    using node_of_key [OF nodes assms(2)] by (auto simp: c'_def splice_front_def intro!: filter_cong)
  then show gl: "GetList c' = (key, v) # drop_key key (GetList c)" and "deref it (cache_items_list c') = Inr (key, v)"
    by (simp_all add: GetList_def drop_key_nodes deref_def)
  have s: "set (cache_items_list c') = set (cache_items_list c)"
    by (auto simp: c'_def splice_front_def)
  have "distinct (cache_items_list c) \<Longrightarrow> distinct (cache_items_list c')"
    by (auto simp: c'_def splice_front_def)
  moreover have "length (cache_items_list c') = length (cache_items_list c)"
    using sum_length_filter_compl [of "\<lambda>e. fst e = it" "cache_items_list c"] by (simp add: c'_def splice_front_def)
  ultimately show "lru_inv c'"
    using assms(1) s by (auto simp: lru_inv_def lru_nodes_def c'_def GetList_def distinct_map)
qed

section \<open>Runs\<close>

datatype ('k, 'v) lru_op = Put 'k 'v | Get 'k | Get_value 'k 'v | Erase 'k | Clear

datatype 'v lru_result = Done | Got "'v outcome" | Found "(bool \<times> 'v) outcome"

fun lru_step :: "('k, 'v) lru_op \<Rightarrow> ('k, 'v) lru_cache \<Rightarrow> 'v lru_result \<times> ('k, 'v) lru_cache" where
  "lru_step (Put key val) c = (Done, put key val c)"
| "lru_step (Get key) c = map_prod Got id (get key c)"
| "lru_step (Get_value key val) c = map_prod Found id (get_value key val c)"
| "lru_step (Erase key) c = (Done, erase_if_exists key c)"
| "lru_step Clear c = (Done, clear c)"

fun recent_step :: "nat \<Rightarrow> ('k, 'v) lru_op \<Rightarrow> ('k \<times> 'v) list \<Rightarrow> 'v lru_result \<times> ('k \<times> 'v) list" where
  "recent_step n (Put key val) l = (Done, recent_put n key val l)"
| "recent_step n (Get key) l =
     (Got (case map_of l key of Some v \<Rightarrow> Inr v | None \<Rightarrow> Inl (range_error ''There is no such key in cache'')),
      recent_use key l)"
| "recent_step n (Get_value key val) l =
     (Found (Inr (case map_of l key of Some v \<Rightarrow> (True, v) | None \<Rightarrow> (False, val))), recent_use key l)"
| "recent_step n (Erase key) l = (Done, drop_key key l)"
| "recent_step n Clear l = (Done, [])"

lemma find_cases:
  assumes "lru_inv c"
  obtains "map_of (cache_items_map c) key = None" "map_of (GetList c) key = None"
  | it v where "map_of (cache_items_map c) key = Some it" "(it, key, v) \<in> set (cache_items_list c)"
      "map_of (GetList c) key = Some v"
proof (cases "map_of (cache_items_map c) key")
  case None
  then show ?thesis using that(1) assms map_none_iff [of c key] by (simp add: lru_inv_def map_of_eq_None_iff)
next
  case (Some it)
  then obtain v where v: "(it, key, v) \<in> set (cache_items_list c)" using map_find_iff assms by (metis lru_inv_def)
  then have "(key, v) \<in> set (GetList c)" by (force simp: GetList_def)
  then show ?thesis using that(2) Some v assms by (simp add: lru_inv_def lru_nodes_def)
qed

lemma lru_step_refines:
  assumes "lru_inv c"
  shows "lru_inv (snd (lru_step oper c)) \<and> max_size (snd (lru_step oper c)) = max_size c \<and>
         map_prod id GetList (lru_step oper c) = recent_step (max_size c) oper (GetList c)"
proof (cases oper)
  case (Put key val)
  then show ?thesis using put_refines [OF assms] by simp
next
  case (Get key)
  show ?thesis using assms
    by (rule find_cases [of c key])
      (use Get assms splice_refines [OF assms] in \<open>auto simp: get_def recent_use_def Let_def\<close>)
next
  case (Get_value key val)
  show ?thesis using assms
    by (rule find_cases [of c key])
      (use Get_value assms splice_refines [OF assms] in \<open>auto simp: get_value_def recent_use_def Let_def\<close>)
next
  case (Erase key)
  have "length (drop_key key (GetList c)) \<le> length (GetList c)" by (simp add: drop_key_def)
  then show ?thesis using Erase assms erase_if_exists_nodes [of c key] by (simp add: lru_inv_def)
next
  case Clear
  then show ?thesis by (simp add: clear_def lru_inv_def lru_nodes_def GetList_def)
qed

text \<open>
  A simulation between two machines that run the same operations: when every step of one keeps its invariant and
  does what the other does on the abstract state, whole runs give the same results.
\<close>

fun run :: "('o \<Rightarrow> 's \<Rightarrow> 'r \<times> 's) \<Rightarrow> 'o list \<Rightarrow> 's \<Rightarrow> 'r list \<times> 's" where
  "run step [] s = ([], s)"
| "run step (oper # opers) s =
     (case step oper s of (r, s) \<Rightarrow> (case run step opers s of (rs, s) \<Rightarrow> (r # rs, s)))"

locale simulation =
  fixes step :: "'o \<Rightarrow> 's \<Rightarrow> 'r \<times> 's"
    and spec :: "'o \<Rightarrow> 'a \<Rightarrow> 'r \<times> 'a"
    and abs :: "'s \<Rightarrow> 'a"
    and inv :: "'s \<Rightarrow> bool"
  assumes step_inv: "inv s \<Longrightarrow> inv (snd (step oper s))"
    and step_spec: "inv s \<Longrightarrow> map_prod id abs (step oper s) = spec oper (abs s)"
begin

lemma run_simulates:
  "inv s \<Longrightarrow> inv (snd (run step opers s)) \<and> map_prod id abs (run step opers s) = run spec opers (abs s)"
proof (induction opers arbitrary: s)
  case (Cons oper opers)
  obtain r s' where s': "step oper s = (r, s')" by fastforce
  then have "inv s'" "spec oper (abs s) = (r, abs s')"
    using step_inv [OF Cons.prems] step_spec [OF Cons.prems] by (metis snd_conv, metis map_prod_simp id_apply)
  then show ?case using Cons.IH [of s'] s' by (auto split: prod.splits)
qed simp

end

interpretation lru: simulation lru_step "recent_step n" GetList "\<lambda>c. lru_inv c \<and> max_size c = n"
  using lru_step_refines by unfold_locales auto

lemma lru_inv_new: "lru_inv (lru_new n)" "max_size (lru_new n) = n" "GetList (lru_new n) = []"
  by (simp_all add: lru_inv_def lru_nodes_def lru_new_def GetList_def)

section \<open>What is cached\<close>

text \<open>The pairs of a history, the newest first, with the older pairs of the same key left out.\<close>

fun newest :: "('k \<times> 'v) list \<Rightarrow> ('k \<times> 'v) list" where
  "newest [] = []"
| "newest (p # ps) = p # drop_key (fst p) (newest ps)"

lemma drop_key_distinct: "distinct (map fst l) \<Longrightarrow> distinct (map fst (drop_key k l))"
  by (simp add: drop_key_def distinct_map_filter)

lemma newest_distinct: "distinct (map fst (newest ps))"
proof (induction ps)
  case (Cons p ps)
  have "fst p \<notin> fst ` set (drop_key (fst p) (newest ps))" by (auto simp: drop_key_def)
  then show ?case using drop_key_distinct [OF Cons] by simp
qed simp

lemma take_drop_key:
  assumes "distinct (map fst l)"
  shows "take n (drop_key k (take (Suc n) l)) = take n (drop_key k l)"
  using assms
proof (induction l arbitrary: n)
  case (Cons p l)
  show ?case
  proof (cases "fst p = k")
    case True
    then have "k \<notin> fst ` set l" using Cons.prems by auto
    then have "drop_key k l = l" "drop_key k (take n l) = take n l"
      by (auto intro!: drop_key_absent dest: in_set_takeD)
    then show ?thesis using True by (simp add: drop_key_def)
  next
    case False
    then show ?thesis using Cons by (cases n) (simp_all add: drop_key_def)
  qed
qed (simp add: drop_key_def)

lemma recent_put_newest:
  "foldr (\<lambda>p. recent_put n (fst p) (snd p)) ps [] = take n (newest ps)"
proof (induction ps)
  case (Cons p ps)
  show ?case
    using take_drop_key [OF newest_distinct, of "n - 1" "fst p" ps] Cons by (cases n) (simp_all add: recent_put_def)
qed simp

lemma put_history:
  "lru_inv (foldr (\<lambda>p. put (fst p) (snd p)) ps (lru_new n)) \<and>
   max_size (foldr (\<lambda>p. put (fst p) (snd p)) ps (lru_new n)) = n \<and>
   GetList (foldr (\<lambda>p. put (fst p) (snd p)) ps (lru_new n)) = take n (newest ps)"
proof (induction ps)
  case (Cons p ps)
  then show ?case
    using put_refines [of "foldr (\<lambda>p. put (fst p) (snd p)) ps (lru_new n)" "fst p" "snd p"]
      recent_put_newest [of n "p # ps"] recent_put_newest [of n ps] by simp
qed (simp add: lru_inv_new)

section \<open>Property\<close>

text \<open>
  Claim C5. The LRU cache refines the list of the recently used pairs: on every sequence of operations it gives the
  results of the list, no iterator dangles, the size is the length of the list and never above the maximum,
  \<^verbatim>\<open>exists\<close> tells membership, and after a history of \<^verbatim>\<open>put\<close>s it holds exactly the newest pairs of the last
  \<^verbatim>\<open>max_size\<close> different keys.
\<close>

theorem lru_refines_recent:
  "let c = snd (run lru_step opers (lru_new n)) in
     fst (run lru_step opers (lru_new n)) = fst (run (recent_step n) opers []) \<and>
     GetList c = snd (run (recent_step n) opers []) \<and>
     lru_inv c \<and> lru_size c = length (GetList c) \<and> lru_size c \<le> n \<and>
     exists_key key c = (key \<in> fst ` set (GetList c)) \<and>
     GetList (foldr (\<lambda>p. put (fst p) (snd p)) ps (lru_new n)) = take n (newest ps)"
proof -
  define c where "c = snd (run lru_step opers (lru_new n))"
  have "lru_inv (lru_new n) \<and> max_size (lru_new n) = n" by (simp add: lru_inv_new)
  note sim = lru.run_simulates [OF this, of opers]
  then have c: "lru_inv c" "max_size c = n" by (simp_all add: c_def)
  have "map_prod id GetList (run lru_step opers (lru_new n)) = run (recent_step n) opers []"
    using sim by (simp add: lru_inv_new)
  then have "GetList c = snd (run (recent_step n) opers [])"
    "fst (run lru_step opers (lru_new n)) = fst (run (recent_step n) opers [])"
    unfolding c_def by (metis snd_map_prod, metis fst_map_prod id_apply)
  then show ?thesis
    using c exists_key_iff [of c key] lru_size_list [of c] put_history [of ps n]
    by (simp add: lru_inv_def c_def Let_def)
qed

end
