(* ===== verification/ExprValue.thy ===== *)
theory ExprValue
  imports StringFacts
begin

text \<open>
  The class \<^verbatim>\<open>ExprValue\<close> of \<^verbatim>\<open>src/utils/exprparser.h\<close> and \<^verbatim>\<open>exprparser.cpp\<close>: the values of the expression
  evaluator, a tagged record whose fields of the other types keep what they held before. Double precision numbers
  are a type parameter \<open>'d\<close> with the operations that the sources use as a record \<open>expr_lib\<close>.
\<close>

section \<open>Types\<close>

datatype TokenType =
    NONE | NAME | NUMBER | INTEGER64 | STRING | BOOL | UNSURE | END
  | PLUS | MINUS | MULTIPLY | DIVIDE | ASSIGN | LHPAREN | RHPAREN | COMMA | TOK_NOT
  | LT | GT | LE | GE | EQ | NE | TOK_AND | TOK_OR
  | ASSIGN_ADD | ASSIGN_SUB | ASSIGN_MUL | ASSIGN_DIV

record 'd ExprValue =
  v_type :: TokenType
  b_value :: bool
  d_value :: 'd
  i_value :: u64
  s_value :: bytes

type_synonym ('d, 'w) env = "(bytes \<rightharpoonup> 'd ExprValue) \<times> 'w"

text \<open>
  What the evaluator takes from the C and C++ libraries: the conversions between integers and \<^verbatim>\<open>double\<close>, its
  arithmetic and its comparisons (\<^verbatim>\<open>>\<close> and \<^verbatim>\<open>>=\<close> are \<^verbatim>\<open><\<close> and \<^verbatim>\<open><=\<close> with the operands exchanged, and \<^verbatim>\<open>!=\<close>
  is the negation of \<^verbatim>\<open>==\<close>, also for NaN), the functions of \<^verbatim>\<open>cmath\<close> by name, reading through an
  \<^verbatim>\<open>istringstream\<close> (the value, \<^verbatim>\<open>fail()\<close> and \<^verbatim>\<open>eof()\<close>), printing, and \<^verbatim>\<open>rand()\<close> on the state \<open>'w\<close> of the
  process. \<open>junk_b\<close>, \<open>junk_d\<close> and \<open>junk_i\<close> are what a constructor leaves in members it does not initialise. The
  last two fields are the maps of user functions, which may change the symbol table of the parser they are given.
\<close>

record ('d, 'w) expr_lib =
  d_of_int :: "int \<Rightarrow> 'd"
  d_add :: "'d \<Rightarrow> 'd \<Rightarrow> 'd"
  d_sub :: "'d \<Rightarrow> 'd \<Rightarrow> 'd"
  d_mul :: "'d \<Rightarrow> 'd \<Rightarrow> 'd"
  d_div :: "'d \<Rightarrow> 'd \<Rightarrow> 'd"
  d_eq :: "'d \<Rightarrow> 'd \<Rightarrow> bool"
  d_lt :: "'d \<Rightarrow> 'd \<Rightarrow> bool"
  d_le :: "'d \<Rightarrow> 'd \<Rightarrow> bool"
  d_fmod :: "'d \<Rightarrow> 'd \<Rightarrow> 'd"
  d_pow :: "'d \<Rightarrow> 'd \<Rightarrow> 'd"
  cmath :: "string \<Rightarrow> 'd \<Rightarrow> 'd"
  d_to_int :: "'d \<Rightarrow> int"
  d_to_int64 :: "'d \<Rightarrow> int"
  d_read :: "bytes \<Rightarrow> 'd \<times> bool \<times> bool"
  d_print :: "'d \<Rightarrow> bytes"
  d_pi :: 'd
  d_e :: 'd
  c_rand :: "'w \<Rightarrow> int \<times> 'w"
  junk_b :: bool
  junk_d :: 'd
  junk_i :: u64
  one_common :: "bytes \<Rightarrow> ('d ExprValue \<Rightarrow> ('d, 'w) env \<Rightarrow> 'd ExprValue outcome \<times> ('d, 'w) env) option"
  two_common ::
    "bytes \<Rightarrow> ('d ExprValue \<Rightarrow> 'd ExprValue \<Rightarrow> ('d, 'w) env \<Rightarrow> 'd ExprValue outcome \<times> ('d, 'w) env) option"

definition d_zero :: "('d, 'w) expr_lib \<Rightarrow> 'd" where
  "d_zero L = d_of_int L 0"

definition i_double :: "('d, 'w) expr_lib \<Rightarrow> 'd ExprValue \<Rightarrow> 'd" where
  "i_double L v = d_of_int L (sint (i_value v))"

section \<open>Constructors and assignments\<close>

definition ExprValue_of_type :: "('d, 'w) expr_lib \<Rightarrow> TokenType \<Rightarrow> 'd ExprValue" where
  "ExprValue_of_type L type0 =
     \<lparr>v_type = type0, b_value = junk_b L, d_value = junk_d L, i_value = junk_i L, s_value = []\<rparr>"

definition ExprValue_default :: "('d, 'w) expr_lib \<Rightarrow> 'd ExprValue" where
  "ExprValue_default L = \<lparr>v_type = INTEGER64, b_value = False, d_value = d_zero L, i_value = 0, s_value = []\<rparr>"

definition ExprValue_bool :: "('d, 'w) expr_lib \<Rightarrow> bool \<Rightarrow> 'd ExprValue" where
  "ExprValue_bool L b = \<lparr>v_type = BOOL, b_value = b, d_value = d_zero L, i_value = 0, s_value = []\<rparr>"

definition ExprValue_int64 :: "('d, 'w) expr_lib \<Rightarrow> u64 \<Rightarrow> 'd ExprValue" where
  "ExprValue_int64 L i = \<lparr>v_type = INTEGER64, b_value = False, d_value = d_zero L, i_value = i, s_value = []\<rparr>"

definition ExprValue_double :: "'d \<Rightarrow> 'd ExprValue" where
  "ExprValue_double d = \<lparr>v_type = NUMBER, b_value = False, d_value = d, i_value = 0, s_value = []\<rparr>"

definition ExprValue_string :: "('d, 'w) expr_lib \<Rightarrow> bytes \<Rightarrow> 'd ExprValue" where
  "ExprValue_string L s = \<lparr>v_type = STRING, b_value = False, d_value = d_zero L, i_value = 0, s_value = s\<rparr>"

definition assign_bool :: "bool \<Rightarrow> 'd ExprValue \<Rightarrow> 'd ExprValue" where
  "assign_bool b this = this\<lparr>v_type := BOOL, b_value := b\<rparr>"

definition assign_int64 :: "u64 \<Rightarrow> 'd ExprValue \<Rightarrow> 'd ExprValue" where
  "assign_int64 i this = this\<lparr>v_type := INTEGER64, i_value := i\<rparr>"

definition assign_double :: "'d \<Rightarrow> 'd ExprValue \<Rightarrow> 'd ExprValue" where
  "assign_double d this = this\<lparr>v_type := NUMBER, d_value := d\<rparr>"

definition assign_string :: "bytes \<Rightarrow> 'd ExprValue \<Rightarrow> 'd ExprValue" where
  "assign_string s this = this\<lparr>v_type := STRING, s_value := s\<rparr>"

section \<open>Comparisons\<close>

text \<open>
  The six comparison operators are the same text with another operator; \<open>compare_values\<close> takes it for doubles, for
  \<^verbatim>\<open>int64_t\<close> and for strings. \<^verbatim>\<open>std::string::compare\<close> orders bytes as unsigned.
\<close>

definition compare_values ::
  "('d, 'w) expr_lib \<Rightarrow> ('d \<Rightarrow> 'd \<Rightarrow> bool) \<Rightarrow> (int \<Rightarrow> int \<Rightarrow> bool) \<Rightarrow> (bytes \<Rightarrow> bytes \<Rightarrow> bool) \<Rightarrow>
   'd ExprValue \<Rightarrow> 'd ExprValue \<Rightarrow> 'd ExprValue outcome" where
  "compare_values L dop iop sop this value =
     (if v_type this = UNSURE \<or> v_type value = UNSURE then Inr (ExprValue_of_type L UNSURE)
      else if v_type this = NUMBER \<and> v_type value = INTEGER64 then
        Inr (ExprValue_bool L (dop (d_value this) (i_double L value)))
      else if v_type this = INTEGER64 \<and> v_type value = NUMBER then
        Inr (ExprValue_bool L (dop (i_double L this) (d_value value)))
      else if v_type this \<noteq> v_type value then Inl (runtime_error ''type not compatible'')
      else
        (case v_type this of
           NUMBER \<Rightarrow> Inr (ExprValue_bool L (dop (d_value this) (d_value value)))
         | INTEGER64 \<Rightarrow> Inr (ExprValue_bool L (iop (sint (i_value this)) (sint (i_value value))))
         | STRING \<Rightarrow> Inr (ExprValue_bool L (sop (s_value this) (s_value value)))
         | _ \<Rightarrow> Inl (runtime_error ''type is unknown'')))"

fun str_less :: "bytes \<Rightarrow> bytes \<Rightarrow> bool" where
  "str_less s [] = False"
| "str_less [] (d # t) = True"
| "str_less (c # s) (d # t) = (c < d \<or> c = d \<and> str_less s t)"

definition ev_eq :: "('d, 'w) expr_lib \<Rightarrow> 'd ExprValue \<Rightarrow> 'd ExprValue \<Rightarrow> 'd ExprValue outcome" where
  "ev_eq L = compare_values L (d_eq L) (=) (=)"

definition ev_lt :: "('d, 'w) expr_lib \<Rightarrow> 'd ExprValue \<Rightarrow> 'd ExprValue \<Rightarrow> 'd ExprValue outcome" where
  "ev_lt L = compare_values L (d_lt L) (<) str_less"

definition ev_gt :: "('d, 'w) expr_lib \<Rightarrow> 'd ExprValue \<Rightarrow> 'd ExprValue \<Rightarrow> 'd ExprValue outcome" where
  "ev_gt L = compare_values L (\<lambda>x y. d_lt L y x) (>) (\<lambda>s t. str_less t s)"

definition ev_le :: "('d, 'w) expr_lib \<Rightarrow> 'd ExprValue \<Rightarrow> 'd ExprValue \<Rightarrow> 'd ExprValue outcome" where
  "ev_le L = compare_values L (d_le L) (\<le>) (\<lambda>s t. \<not> str_less t s)"

definition ev_ge :: "('d, 'w) expr_lib \<Rightarrow> 'd ExprValue \<Rightarrow> 'd ExprValue \<Rightarrow> 'd ExprValue outcome" where
  "ev_ge L = compare_values L (\<lambda>x y. d_le L y x) (\<ge>) (\<lambda>s t. \<not> str_less s t)"

definition ev_ne :: "('d, 'w) expr_lib \<Rightarrow> 'd ExprValue \<Rightarrow> 'd ExprValue \<Rightarrow> 'd ExprValue outcome" where
  "ev_ne L = compare_values L (\<lambda>x y. \<not> d_eq L x y) (\<noteq>) (\<noteq>)"

definition ev_bool :: "('d, 'w) expr_lib \<Rightarrow> 'd ExprValue \<Rightarrow> bool outcome" where
  "ev_bool L this =
     (case v_type this of
        BOOL \<Rightarrow> Inr (b_value this)
      | NUMBER \<Rightarrow> Inr (\<not> d_eq L (d_value this) (d_zero L))
      | INTEGER64 \<Rightarrow> Inr (i_value this \<noteq> 0)
      | STRING \<Rightarrow> Inr (s_value this \<noteq> [])
      | _ \<Rightarrow> Inl (runtime_error ''type is unknown''))"

section \<open>Arithmetic\<close>

text \<open>
  The assignment operators return a value and change the object: the result is the pair. An operand of type
  \<open>UNSURE\<close> leaves the object as it is. Overflow of an \<^verbatim>\<open>int64_t\<close> wraps around.
\<close>

definition arith_assign ::
  "('d, 'w) expr_lib \<Rightarrow> ('d \<Rightarrow> 'd \<Rightarrow> 'd) \<Rightarrow>
   ('d ExprValue \<Rightarrow> 'd ExprValue \<Rightarrow> 'd ExprValue) \<Rightarrow> ('d ExprValue \<Rightarrow> 'd ExprValue \<Rightarrow> 'd ExprValue) option \<Rightarrow>
   'd ExprValue \<Rightarrow> 'd ExprValue \<Rightarrow> ('d ExprValue \<times> 'd ExprValue) outcome" where
  "arith_assign L dop iop sop this value =
     (let self = (\<lambda>this. Inr (this, this)) in
      if v_type this = UNSURE \<or> v_type value = UNSURE then Inr (ExprValue_of_type L UNSURE, this)
      else if v_type this = NUMBER \<and> v_type value = INTEGER64 then
        self (this\<lparr>v_type := NUMBER, d_value := dop (d_value this) (i_double L value)\<rparr>)
      else if v_type this = INTEGER64 \<and> v_type value = NUMBER then
        self (this\<lparr>v_type := NUMBER, d_value := dop (i_double L this) (d_value value)\<rparr>)
      else if v_type this \<noteq> v_type value then Inl (runtime_error ''type not compatible'')
      else
        (case v_type this of
           NUMBER \<Rightarrow> self (this\<lparr>d_value := dop (d_value this) (d_value value)\<rparr>)
         | INTEGER64 \<Rightarrow> self (iop this value)
         | STRING \<Rightarrow>
             (case sop of Some f \<Rightarrow> self (f this value) | None \<Rightarrow> Inl (runtime_error ''type is support''))
         | _ \<Rightarrow> Inl (runtime_error ''type is support'')))"

definition mul_assign :: "('d, 'w) expr_lib \<Rightarrow> 'd ExprValue \<Rightarrow> 'd ExprValue \<Rightarrow> ('d ExprValue \<times> 'd ExprValue) outcome" where
  "mul_assign L =
     arith_assign L (d_mul L) (\<lambda>this value. this\<lparr>i_value := i_value this * i_value value\<rparr>) None"

definition div_assign :: "('d, 'w) expr_lib \<Rightarrow> 'd ExprValue \<Rightarrow> 'd ExprValue \<Rightarrow> ('d ExprValue \<times> 'd ExprValue) outcome" where
  "div_assign L =
     arith_assign L (d_div L)
       (\<lambda>this value. this\<lparr>v_type := NUMBER, d_value := d_div L (i_double L this) (i_double L value)\<rparr>) None"

definition add_assign :: "('d, 'w) expr_lib \<Rightarrow> 'd ExprValue \<Rightarrow> 'd ExprValue \<Rightarrow> ('d ExprValue \<times> 'd ExprValue) outcome" where
  "add_assign L =
     arith_assign L (d_add L) (\<lambda>this value. this\<lparr>i_value := i_value this + i_value value\<rparr>)
       (Some (\<lambda>this value. this\<lparr>s_value := s_value this @ s_value value\<rparr>))"

definition sub_assign :: "('d, 'w) expr_lib \<Rightarrow> 'd ExprValue \<Rightarrow> 'd ExprValue \<Rightarrow> ('d ExprValue \<times> 'd ExprValue) outcome" where
  "sub_assign L =
     arith_assign L (d_sub L) (\<lambda>this value. this\<lparr>i_value := i_value this - i_value value\<rparr>) None"

text \<open>\<^verbatim>\<open>operator+\<close> and \<^verbatim>\<open>operator-\<close>: for mixed number types they compute a sum and return the left operand.\<close>

definition ev_plus :: "('d, 'w) expr_lib \<Rightarrow> 'd ExprValue \<Rightarrow> 'd ExprValue \<Rightarrow> 'd ExprValue outcome" where
  "ev_plus L this value =
     (if v_type this = UNSURE \<or> v_type value = UNSURE then Inr (ExprValue_of_type L UNSURE)
      else
        let v = ExprValue_default L
        in if v_type this = NUMBER \<and> v_type value = INTEGER64 then Inr this
           else if v_type this = INTEGER64 \<and> v_type value = NUMBER then Inr this
           else if v_type this \<noteq> v_type value then Inl (runtime_error ''type not compatible'')
           else
             let v = v\<lparr>v_type := v_type this\<rparr>
             in (case v_type this of
                   NUMBER \<Rightarrow> Inr (v\<lparr>d_value := d_add L (d_value this) (d_value value)\<rparr>)
                 | INTEGER64 \<Rightarrow> Inr (v\<lparr>i_value := i_value this + i_value value\<rparr>)
                 | STRING \<Rightarrow> Inr (v\<lparr>s_value := s_value this @ s_value value\<rparr>)
                 | _ \<Rightarrow> Inl (runtime_error ''type is support'')))"

definition ev_minus :: "('d, 'w) expr_lib \<Rightarrow> 'd ExprValue \<Rightarrow> 'd ExprValue \<Rightarrow> 'd ExprValue outcome" where
  "ev_minus L this value =
     (if v_type this = UNSURE \<or> v_type value = UNSURE then Inr (ExprValue_of_type L UNSURE)
      else
        let v = ExprValue_default L
        in if v_type this = NUMBER \<and> v_type value = INTEGER64 then Inr this
           else if v_type this = INTEGER64 \<and> v_type value = NUMBER then Inr this
           else if v_type this \<noteq> v_type value then Inl (runtime_error ''type not compatible'')
           else
             let v = v\<lparr>v_type := v_type this\<rparr>
             in (case v_type this of
                   NUMBER \<Rightarrow> Inr (v\<lparr>d_value := d_sub L (d_value this) (d_value value)\<rparr>)
                 | INTEGER64 \<Rightarrow> Inr (v\<lparr>i_value := i_value this - i_value value\<rparr>)
                 | _ \<Rightarrow> Inl (runtime_error ''type is support'')))"

section \<open>Observers\<close>

definition Print :: "('d, 'w) expr_lib \<Rightarrow> 'd ExprValue \<Rightarrow> bytes" where
  "Print L this =
     (if v_type this = NUMBER then d_print L (d_value this)
      else if v_type this = INTEGER64 then ToString_int64 (i_value this)
      else if v_type this = BOOL then (if b_value this then lit ''true'' else lit ''false'')
      else s_value this)"

definition GetTypeDesc :: "TokenType \<Rightarrow> bytes" where
  "GetTypeDesc type0 =
     (case type0 of
        NUMBER \<Rightarrow> lit ''NUMBER''
      | STRING \<Rightarrow> lit ''STRING''
      | BOOL \<Rightarrow> lit ''BOOL''
      | INTEGER64 \<Rightarrow> lit ''INTEGER64''
      | UNSURE \<Rightarrow> lit ''UNSURE''
      | _ \<Rightarrow> lit ''OTHER'')"

definition IsNumber :: "'d ExprValue \<Rightarrow> bool" where
  "IsNumber this \<longleftrightarrow> v_type this = NUMBER"

definition IsString :: "'d ExprValue \<Rightarrow> bool" where
  "IsString this \<longleftrightarrow> v_type this = STRING"

definition IsBool :: "'d ExprValue \<Rightarrow> bool" where
  "IsBool this \<longleftrightarrow> v_type this = BOOL"

definition IsInteger64 :: "'d ExprValue \<Rightarrow> bool" where
  "IsInteger64 this \<longleftrightarrow> v_type this = INTEGER64"

definition IsSuccess :: "('d, 'w) expr_lib \<Rightarrow> 'd ExprValue \<Rightarrow> bool" where
  "IsSuccess L this \<longleftrightarrow>
     (if IsBool this then b_value this
      else if IsNumber this then d_lt L (d_zero L) (d_value this)
      else if IsInteger64 this then sint (i_value this) > 0
      else False)"

section \<open>The built-in functions\<close>

definition RAND_MAX :: int where
  "RAND_MAX = 2147483647"

definition getrandom :: "('d, 'w) expr_lib \<Rightarrow> int \<Rightarrow> 'w \<Rightarrow> int \<times> 'w" where
  "getrandom L x w =
     (if x \<le> 0 then (0, w)
      else
        let (n, w) = c_rand L w;
            r = d_div L (d_of_int L (n mod RAND_MAX)) (d_add L (d_of_int L RAND_MAX) (d_of_int L 1))
        in (d_to_int64 L (cmath L ''floor'' (d_mul L r (d_of_int L x))), w))"

text \<open>\<^verbatim>\<open>roll\<close>: \<open>k\<close> counts the rounds that are left.\<close>

fun roll_loop :: "('d, 'w) expr_lib \<Rightarrow> nat \<Rightarrow> int \<Rightarrow> u64 \<Rightarrow> 'w \<Rightarrow> u64 \<times> 'w" where
  "roll_loop L 0 die acc w = (acc, w)"
| "roll_loop L (Suc k) die acc w =
     (let (r, w) = getrandom L die w in roll_loop L k die (acc + (word_of_int r + 1)) w)"

definition roll :: "('d, 'w) expr_lib \<Rightarrow> int \<Rightarrow> int \<Rightarrow> 'w \<Rightarrow> u64 \<times> 'w" where
  "roll L howmany die w = roll_loop L (nat howmany) die 0 w"

definition percent :: "('d, 'w) expr_lib \<Rightarrow> int \<Rightarrow> 'w \<Rightarrow> bool \<times> 'w" where
  "percent L prob w =
     (if prob \<le> 0 then (False, w)
      else if prob \<ge> 100 then (True, w)
      else let (r, w) = getrandom L 100 w in (r > 100 - prob, w))"

definition DoInt :: "('d, 'w) expr_lib \<Rightarrow> 'd \<Rightarrow> 'd" where
  "DoInt L arg = d_of_int L (d_to_int L arg)"

definition DoRandom :: "('d, 'w) expr_lib \<Rightarrow> 'd \<Rightarrow> 'w \<Rightarrow> 'd \<times> 'w" where
  "DoRandom L arg w = map_prod (d_of_int L) id (getrandom L (d_to_int L arg) w)"

definition DoPercent :: "('d, 'w) expr_lib \<Rightarrow> 'd \<Rightarrow> 'w \<Rightarrow> 'd \<times> 'w" where
  "DoPercent L arg w =
     map_prod (\<lambda>b. if b then d_of_int L 1 else d_zero L) id (percent L (d_to_int L arg) w)"

definition DoMin :: "('d, 'w) expr_lib \<Rightarrow> 'd ExprValue \<Rightarrow> 'd ExprValue \<Rightarrow> 'd ExprValue outcome" where
  "DoMin L arg1 arg2 =
     (case ev_lt L arg1 arg2 of
        Inl e \<Rightarrow> Inl e
      | Inr c \<Rightarrow> map_sum id (\<lambda>b. if b then arg1 else arg2) (ev_bool L c))"

definition DoMax :: "('d, 'w) expr_lib \<Rightarrow> 'd ExprValue \<Rightarrow> 'd ExprValue \<Rightarrow> 'd ExprValue outcome" where
  "DoMax L arg1 arg2 =
     (case ev_gt L arg1 arg2 of
        Inl e \<Rightarrow> Inl e
      | Inr c \<Rightarrow> map_sum id (\<lambda>b. if b then arg1 else arg2) (ev_bool L c))"

definition DoFmod :: "('d, 'w) expr_lib \<Rightarrow> 'd ExprValue \<Rightarrow> 'd ExprValue \<Rightarrow> 'd ExprValue outcome" where
  "DoFmod L arg1 arg2 =
     (if v_type arg1 \<noteq> NUMBER \<or> v_type arg2 \<noteq> NUMBER then Inl (runtime_error ''Type is not number'')
      else if d_eq L (d_value arg2) (d_zero L) then Inl (runtime_error ''Divide by zero in mod'')
      else Inr (ExprValue_double (d_fmod L (d_value arg1) (d_value arg2))))"

definition DoPow :: "('d, 'w) expr_lib \<Rightarrow> 'd ExprValue \<Rightarrow> 'd ExprValue \<Rightarrow> 'd ExprValue outcome" where
  "DoPow L arg1 arg2 =
     (if v_type arg1 \<noteq> NUMBER \<or> v_type arg2 \<noteq> NUMBER then Inl (runtime_error ''Type is not number'')
      else Inr (ExprValue_double (d_pow L (d_value arg1) (d_value arg2))))"

definition DoRoll :: "('d, 'w) expr_lib \<Rightarrow> 'd ExprValue \<Rightarrow> 'd ExprValue \<Rightarrow> 'w \<Rightarrow> 'd ExprValue outcome \<times> 'w" where
  "DoRoll L arg1 arg2 w =
     (if v_type arg1 \<noteq> NUMBER \<or> v_type arg2 \<noteq> NUMBER then (Inl (runtime_error ''Type is not number''), w)
      else
        map_prod (\<lambda>i. Inr (ExprValue_int64 L i)) id
          (roll L (d_to_int64 L (d_value arg1)) (d_to_int64 L (d_value arg2)) w))"

definition DoIf :: "('d, 'w) expr_lib \<Rightarrow> 'd ExprValue \<Rightarrow> 'd ExprValue \<Rightarrow> 'd ExprValue \<Rightarrow> 'd ExprValue outcome" where
  "DoIf L arg1 arg2 arg3 =
     (case ev_ne L arg1 (ExprValue_double (d_zero L)) of
        Inl e \<Rightarrow> Inl e
      | Inr c \<Rightarrow> map_sum id (\<lambda>b. if b then arg2 else arg3) (ev_bool L c))"

text \<open>The maps of functions that the static initialisers load.\<close>

definition std_functions :: "string list" where
  "std_functions =
     [''acos'', ''asin'', ''atan'', ''atanh'', ''ceil'', ''cos'', ''cosh'', ''exp'', ''floor'', ''log'', ''log10'',
      ''sin'', ''sinh'', ''sqrt'', ''tan'', ''tanh'']"

definition OneArgumentFunctions :: "('d, 'w) expr_lib \<Rightarrow> bytes \<Rightarrow> ('d \<Rightarrow> 'w \<Rightarrow> 'd \<times> 'w) option" where
  "OneArgumentFunctions L name =
     (if name = lit ''abs'' then Some (\<lambda>x w. (cmath L ''fabs'' x, w))
      else if name = lit ''int'' then Some (\<lambda>x w. (DoInt L x, w))
      else if name = lit ''rand'' then Some (DoRandom L)
      else if name = lit ''percent'' then Some (DoPercent L)
      else map_option (\<lambda>f x w. (cmath L f x, w)) (List.find (\<lambda>f. lit f = name) std_functions))"

definition TwoArgumentFunctions ::
  "('d, 'w) expr_lib \<Rightarrow> bytes \<Rightarrow> ('d ExprValue \<Rightarrow> 'd ExprValue \<Rightarrow> 'w \<Rightarrow> 'd ExprValue outcome \<times> 'w) option" where
  "TwoArgumentFunctions L name =
     (if name = lit ''min'' then Some (\<lambda>x y w. (DoMin L x y, w))
      else if name = lit ''max'' then Some (\<lambda>x y w. (DoMax L x y, w))
      else if name = lit ''mod'' then Some (\<lambda>x y w. (DoFmod L x y, w))
      else if name = lit ''pow'' then Some (\<lambda>x y w. (DoPow L x y, w))
      else if name = lit ''roll'' then Some (DoRoll L)
      else None)"

definition ThreeArgumentFunctions ::
  "('d, 'w) expr_lib \<Rightarrow> bytes \<Rightarrow> ('d ExprValue \<Rightarrow> 'd ExprValue \<Rightarrow> 'd ExprValue \<Rightarrow> 'd ExprValue outcome) option" where
  "ThreeArgumentFunctions L name = (if name = lit ''if'' then Some (DoIf L) else None)"

end
