(* ===== verification/ExprParser.thy ===== *)
theory ExprParser
  imports ExprValue
begin

text \<open>
  The class \<^verbatim>\<open>ExprParser\<close> of \<^verbatim>\<open>src/utils/exprparser.h\<close> and \<^verbatim>\<open>exprparser.cpp\<close>: a scanner with one token of
  lookahead and a recursive descent parser that evaluates while it parses. The parser keeps the symbol table, so an
  expression that throws leaves the assignments it has already done.
\<close>

section \<open>State\<close>

text \<open>
  \<^verbatim>\<open>pWord_\<close> and \<^verbatim>\<open>pWordStart_\<close> are the suffixes of the program they point to; reading at its end gives the
  terminating zero. \<open>world\<close> is the state of the process that \<^verbatim>\<open>rand()\<close> and user functions change.
\<close>

record ('d, 'w) ExprParser =
  program :: bytes
  pWord :: bytes
  pWordStart :: bytes
  tok_type :: TokenType
  word :: bytes
  p_value :: 'd
  p_i_value :: u64
  detect :: bool
  symbols :: "bytes \<rightharpoonup> 'd ExprValue"
  world :: 'w

text \<open>The constructor leaves the pointers, the token and its values uninitialised.\<close>

definition ExprParser_new ::
  "('d, 'w) expr_lib \<Rightarrow> TokenType \<Rightarrow> bytes \<Rightarrow> bytes \<Rightarrow> 'w \<Rightarrow> ('d, 'w) ExprParser" where
  "ExprParser_new L junk_type junk_ptr prog w =
     \<lparr>program = prog, pWord = junk_ptr, pWordStart = junk_ptr, tok_type = junk_type, word = [],
      p_value = junk_d L, p_i_value = junk_i L, detect = False,
      symbols = [lit ''pi'' \<mapsto> assign_double (d_pi L) (ExprValue_default L),
                 lit ''e'' \<mapsto> assign_double (d_e L) (ExprValue_default L)],
      world = w\<rparr>"

text \<open>
  A computation of the parser may throw and changes the parser; \<open>None\<close> stands for a computation that has used up
  the bound on its recursion.
\<close>

type_synonym ('d, 'w, 'a) comp = "('d, 'w) ExprParser \<Rightarrow> ('a outcome \<times> ('d, 'w) ExprParser) option"

definition return :: "'a \<Rightarrow> ('d, 'w, 'a) comp" where
  "return x st = Some (Inr x, st)"

definition throw :: "cpp_error \<Rightarrow> ('d, 'w, 'a) comp" where
  "throw e st = Some (Inl e, st)"

definition andThen :: "('d, 'w, 'a) comp \<Rightarrow> ('a \<Rightarrow> ('d, 'w, 'b) comp) \<Rightarrow> ('d, 'w, 'b) comp" where
  "andThen m f st =
     (case m st of
        None \<Rightarrow> None
      | Some (Inl e, st) \<Rightarrow> Some (Inl e, st)
      | Some (Inr x, st) \<Rightarrow> f x st)"

definition lift :: "'a outcome \<Rightarrow> ('d, 'w, 'a) comp" where
  "lift r st = Some (r, st)"

definition current :: "('d, 'w, TokenType) comp" where
  "current st = Some (Inr (tok_type st), st)"

section \<open>Scanner\<close>

definition text_of :: "bytes \<Rightarrow> string" where
  "text_of s = map (\<lambda>c. char_of (unat c)) s"

definition is_sign :: "byte \<Rightarrow> bool" where
  "is_sign c \<longleftrightarrow> c = 43 \<or> c = 45"

definition number_starts :: "bool \<Rightarrow> byte \<Rightarrow> byte \<Rightarrow> bool" where
  "number_starts ignoreSign c n \<longleftrightarrow>
     (\<not> ignoreSign \<and> is_sign c \<and> (IS_DIGIT n \<or> n = 46)) \<or> IS_DIGIT c \<or> (c = 46 \<and> IS_DIGIT n)"

definition scan_number :: "bytes \<Rightarrow> bytes" where
  "scan_number s =
     (let s = (if is_sign (peek s) then tl s else s);
          s = dropWhile (\<lambda>c. IS_DIGIT c \<or> c = 46) s
      in if peek s = 101 \<or> peek s = 69 then
           let s = tl s;
               s = (if is_sign (peek s) then tl s else s)
           in dropWhile IS_DIGIT s
         else s)"

definition number_token ::
  "('d, 'w) expr_lib \<Rightarrow> bytes \<Rightarrow> ('d, 'w) ExprParser \<Rightarrow> TokenType outcome \<times> ('d, 'w) ExprParser" where
  "number_token L s st =
     (let rest = scan_number s;
          w = take (length s - length rest) s;
          st = st\<lparr>pWord := rest, word := w\<rparr>
      in if 101 \<notin> set w \<and> 46 \<notin> set w then
           (Inr INTEGER64, st\<lparr>p_i_value := word_of_int (strtol10 w), tok_type := INTEGER64\<rparr>)
         else
           (case d_read L w of
              (d, fail, eof) \<Rightarrow>
                let st = st\<lparr>p_value := d\<rparr>
                in if fail \<and> \<not> eof then (Inl (runtime_error (''Bad numeric literal: '' @ text_of w)), st)
                   else (Inr NUMBER, st\<lparr>tok_type := NUMBER\<rparr>)))"

definition with_equal :: "byte \<Rightarrow> TokenType" where
  "with_equal c =
     (if c = 61 then EQ else if c = 60 then LE else if c = 62 then GE else if c = 33 then NE
      else if c = 43 then ASSIGN_ADD else if c = 45 then ASSIGN_SUB else if c = 42 then ASSIGN_MUL
      else if c = 47 then ASSIGN_DIV else NONE)"

text \<open>The single characters, whose codes are the values of the enumeration.\<close>

definition single_token :: "byte \<Rightarrow> TokenType option" where
  "single_token c =
     (if c = 61 then Some ASSIGN else if c = 60 then Some LT else if c = 62 then Some GT
      else if c = 43 then Some PLUS else if c = 45 then Some MINUS else if c = 47 then Some DIVIDE
      else if c = 42 then Some MULTIPLY else if c = 40 then Some LHPAREN else if c = 41 then Some RHPAREN
      else if c = 44 then Some COMMA else if c = 33 then Some TOK_NOT else None)"

text \<open>
  The last part of \<^verbatim>\<open>GetToken\<close>: a string literal or a word. The loop for the closing quote does not stop at the
  end of the program: when no quote is left it reads past it, which is undefined in C++ and not an exception.
\<close>

definition word_token ::
  "bytes \<Rightarrow> ('d, 'w) ExprParser \<Rightarrow> TokenType outcome \<times> ('d, 'w) ExprParser" where
  "word_token s st =
     (let c = peek s
      in if \<not> IS_ALPHA c \<and> c \<noteq> 34 then
           (if c < 32 then
              (Inl (runtime_error (''Unexpected character (decimal '' @ text_of (dec_nat (unat c)) @ '')'')), st)
            else (Inl (runtime_error (''Unexpected character: '' @ text_of [c])), st))
         else if c = 34 then
           let body = takeWhile (\<lambda>c. c \<noteq> 34) (tl s);
               rest = dropWhile (\<lambda>c. c \<noteq> 34) (tl s)
           in if rest = [] then (Inl undefined_behaviour, st)
              else (Inr STRING, st\<lparr>word := body, pWord := tl rest, tok_type := STRING\<rparr>)
         else
           let P = (\<lambda>c. IS_ALPHA c \<or> IS_DIGIT c \<or> c = 95)
           in (Inr NAME, st\<lparr>word := takeWhile P s, pWord := dropWhile P s, tok_type := NAME\<rparr>))"

definition GetToken ::
  "('d, 'w) expr_lib \<Rightarrow> bool \<Rightarrow> ('d, 'w) ExprParser \<Rightarrow> TokenType outcome \<times> ('d, 'w) ExprParser" where
  "GetToken L ignoreSign st =
     (let s = dropWhile (\<lambda>c. c \<noteq> 0 \<and> isspace c) (pWord st);
          st = st\<lparr>word := [], pWord := s, pWordStart := s\<rparr>;
          c = peek s
      in if c = 0 \<and> tok_type st = END then (Inl (runtime_error ''Unexpected end of expression.''), st)
         else if c = 0 then (Inr END, st\<lparr>word := lit ''<end of expression>'', tok_type := END\<rparr>)
         else
           let n = peek (tl s)
           in if number_starts ignoreSign c n then number_token L s st
              else if n = 61 \<and> with_equal c \<noteq> NONE then
                (Inr (with_equal c), st\<lparr>tok_type := with_equal c, word := take 2 s, pWord := drop 2 s\<rparr>)
              else
                let st = (if n = 61 then st\<lparr>tok_type := NONE\<rparr> else st)
                in if c = 38 \<and> n = 38 then (Inr TOK_AND, st\<lparr>word := take 2 s, pWord := drop 2 s, tok_type := TOK_AND\<rparr>)
                   else if c = 124 \<and> n = 124 then
                     (Inr TOK_OR, st\<lparr>word := take 2 s, pWord := drop 2 s, tok_type := TOK_OR\<rparr>)
                   else
                     (case single_token c of
                        Some t \<Rightarrow> (Inr t, st\<lparr>word := take 1 s, pWord := tl s, tok_type := t\<rparr>)
                      | None \<Rightarrow> word_token s st))"

definition get_token :: "('d, 'w) expr_lib \<Rightarrow> bool \<Rightarrow> ('d, 'w, TokenType) comp" where
  "get_token L ignoreSign st = Some (GetToken L ignoreSign st)"

text \<open>The value of a token as a character, for the message of \<^verbatim>\<open>CheckToken\<close>.\<close>

definition token_char :: "TokenType \<Rightarrow> string" where
  "token_char t = (if t = RHPAREN then '')'' else if t = COMMA then '','' else [])"

definition CheckToken :: "TokenType \<Rightarrow> ('d, 'w, unit) comp" where
  "CheckToken wanted st =
     (if tok_type st \<noteq> wanted then
        Some (Inl (runtime_error (CHR 0x27 # token_char wanted @ CHR 0x27 # '' expected.'')), st)
      else Some (Inr (), st))"

section \<open>Parser\<close>

text \<open>
  The parts of \<^verbatim>\<open>Primary\<close> that read arguments, with \<^verbatim>\<open>Expression(true)\<close> as a parameter: the names of the
  arguments are those of the maps of functions.
\<close>

definition end_call :: "('d, 'w) expr_lib \<Rightarrow> ('d, 'w, 'a) comp \<Rightarrow> ('d, 'w, 'a) comp" where
  "end_call L m = andThen (CheckToken RHPAREN) (\<lambda>_. andThen (get_token L True) (\<lambda>_. m))"

definition run_env ::
  "(('d, 'w) env \<Rightarrow> 'a outcome \<times> ('d, 'w) env) \<Rightarrow> ('d, 'w, 'a) comp" where
  "run_env f st =
     (case f (symbols st, world st) of (r, (sy, w)) \<Rightarrow> Some (r, st\<lparr>symbols := sy, world := w\<rparr>))"

definition run_world :: "('w \<Rightarrow> 'a outcome \<times> 'w) \<Rightarrow> ('d, 'w, 'a) comp" where
  "run_world f st = (case f (world st) of (r, w) \<Rightarrow> Some (r, st\<lparr>world := w\<rparr>))"

definition unless_detect :: "('d, 'w) expr_lib \<Rightarrow> ('d, 'w, 'd ExprValue) comp \<Rightarrow> ('d, 'w, 'd ExprValue) comp" where
  "unless_detect L m st = (if detect st then Some (Inr (ExprValue_of_type L UNSURE), st) else m st)"

definition call_function ::
  "('d, 'w) expr_lib \<Rightarrow> ('d, 'w, 'd ExprValue) comp \<Rightarrow> bytes \<Rightarrow> ('d, 'w, 'd ExprValue) comp" where
  "call_function L expression name =
     (case OneArgumentFunctions L name of
        Some f \<Rightarrow>
          andThen expression (\<lambda>v.
          end_call L (run_world (\<lambda>w. map_prod (\<lambda>d. Inr (ExprValue_double d)) id (f (d_value v) w))))
      | None \<Rightarrow>
     (case one_common L name of
        Some f \<Rightarrow> andThen expression (\<lambda>v. end_call L (unless_detect L (run_env (f v))))
      | None \<Rightarrow>
     (case TwoArgumentFunctions L name of
        Some f \<Rightarrow>
          andThen expression (\<lambda>v1. andThen (CheckToken COMMA) (\<lambda>_.
          andThen expression (\<lambda>v2. end_call L (run_world (f v1 v2)))))
      | None \<Rightarrow>
     (case two_common L name of
        Some f \<Rightarrow>
          andThen expression (\<lambda>v1. andThen (CheckToken COMMA) (\<lambda>_.
          andThen expression (\<lambda>v2. end_call L (unless_detect L (run_env (f v1 v2))))))
      | None \<Rightarrow>
     (case ThreeArgumentFunctions L name of
        Some f \<Rightarrow>
          andThen expression (\<lambda>v1. andThen (CheckToken COMMA) (\<lambda>_.
          andThen expression (\<lambda>v2. andThen (CheckToken COMMA) (\<lambda>_.
          andThen expression (\<lambda>v3. end_call L (lift (f v1 v2 v3)))))))
      | None \<Rightarrow>
          throw (runtime_error (''Function '' @ CHR 0x27 # text_of name @ CHR 0x27 # '' not implemented.'')))))))"

text \<open>
  Symbols. \<^verbatim>\<open>symbols_[word]\<close> makes an entry when there is none and gives a reference to it: the right hand side is
  evaluated before the entry is read.
\<close>

definition symbol_ref :: "('d, 'w) expr_lib \<Rightarrow> bytes \<Rightarrow> ('d, 'w, unit) comp" where
  "symbol_ref L name st =
     (case symbols st name of
        None \<Rightarrow> Some (Inr (), st\<lparr>symbols := (symbols st)(name \<mapsto> ExprValue_default L)\<rparr>)
      | Some _ \<Rightarrow> Some (Inr (), st))"

definition read_symbol :: "('d, 'w) expr_lib \<Rightarrow> bytes \<Rightarrow> ('d, 'w, 'd ExprValue) comp" where
  "read_symbol L name st =
     (case symbols st name of None \<Rightarrow> Some (Inr (ExprValue_default L), st) | Some v \<Rightarrow> Some (Inr v, st))"

definition write_symbol :: "bytes \<Rightarrow> 'd ExprValue \<Rightarrow> ('d, 'w, unit) comp" where
  "write_symbol name v st = Some (Inr (), st\<lparr>symbols := (symbols st)(name \<mapsto> v)\<rparr>)"

definition update_symbol ::
  "('d, 'w) expr_lib \<Rightarrow> bytes \<Rightarrow> ('d ExprValue \<Rightarrow> ('d ExprValue \<times> 'd ExprValue) outcome) \<Rightarrow> ('d, 'w, unit) comp" where
  "update_symbol L name oper =
     andThen (read_symbol L name) (\<lambda>v. andThen (lift (oper v)) (\<lambda>r. write_symbol name (snd r)))"

text \<open>The test for division by zero, in \<^verbatim>\<open>Term\<close> and in the assignment \<^verbatim>\<open>/=\<close>.\<close>

definition check_divisor :: "('d, 'w) expr_lib \<Rightarrow> 'd ExprValue \<Rightarrow> ('d, 'w, unit) comp" where
  "check_divisor L d =
     (if v_type d \<noteq> UNSURE then
        andThen (lift (ev_eq L d (ExprValue_double (d_zero L)))) (\<lambda>c.
        andThen (lift (ev_bool L c)) (\<lambda>b.
        if b then throw (runtime_error ''Divide by zero'') else return ()))
      else return ())"

definition symbol_primary ::
  "('d, 'w) expr_lib \<Rightarrow> ('d, 'w, 'd ExprValue) comp \<Rightarrow> bytes \<Rightarrow> ('d, 'w, 'd ExprValue) comp" where
  "symbol_primary L expression name =
     andThen (symbol_ref L name) (\<lambda>_.
     andThen current (\<lambda>t.
     andThen
       (case t of
          ASSIGN \<Rightarrow> andThen expression (write_symbol name)
        | ASSIGN_ADD \<Rightarrow> andThen expression (\<lambda>x. update_symbol L name (\<lambda>v. add_assign L v x))
        | ASSIGN_SUB \<Rightarrow> andThen expression (\<lambda>x. update_symbol L name (\<lambda>v. sub_assign L v x))
        | ASSIGN_MUL \<Rightarrow> andThen expression (\<lambda>x. update_symbol L name (\<lambda>v. mul_assign L v x))
        | ASSIGN_DIV \<Rightarrow>
            andThen expression (\<lambda>d. andThen (check_divisor L d) (\<lambda>_. update_symbol L name (\<lambda>v. div_assign L v d)))
        | _ \<Rightarrow> return ()) (\<lambda>_.
     read_symbol L name)))"

definition primary_body ::
  "('d, 'w) expr_lib \<Rightarrow> (bool \<Rightarrow> ('d, 'w, 'd ExprValue) comp) \<Rightarrow> (bool \<Rightarrow> ('d, 'w, 'd ExprValue) comp) \<Rightarrow>
   (bool \<Rightarrow> ('d, 'w, 'd ExprValue) comp) \<Rightarrow> ('d, 'w, 'd ExprValue) comp" where
  "primary_body L primary expression commaList st =
     (case tok_type st of
        NUMBER \<Rightarrow> andThen (get_token L True) (\<lambda>_. return (ExprValue_double (p_value st))) st
      | INTEGER64 \<Rightarrow> andThen (get_token L True) (\<lambda>_. return (ExprValue_int64 L (p_i_value st))) st
      | STRING \<Rightarrow> andThen (get_token L True) (\<lambda>_. return (ExprValue_string L (word st))) st
      | NAME \<Rightarrow>
          andThen (get_token L True) (\<lambda>t.
          if t = LHPAREN then call_function L (expression True) (word st)
          else symbol_primary L (expression True) (word st)) st
      | MINUS \<Rightarrow> andThen (primary True) (\<lambda>v. lift (ev_minus L (ExprValue_int64 L 0) v)) st
      | TOK_NOT \<Rightarrow>
          andThen (primary True) (\<lambda>v.
          andThen (lift (ev_eq L v (ExprValue_double (d_zero L)))) (\<lambda>c.
          andThen (lift (ev_bool L c)) (\<lambda>b.
          return (ExprValue_double (if b then d_of_int L 1 else d_zero L))))) st
      | LHPAREN \<Rightarrow>
          andThen (commaList True) (\<lambda>v.
          andThen (CheckToken RHPAREN) (\<lambda>_.
          andThen (get_token L True) (\<lambda>_. return v))) st
      | _ \<Rightarrow> throw (runtime_error (''Unexpected token: '' @ text_of (word st))) st)"

text \<open>
  The loop of the other levels: while the current token is one of the operators of the level, read the next operand
  and combine. The bound counts the rounds.
\<close>

fun level_loop ::
  "(TokenType \<Rightarrow> ('d ExprValue \<Rightarrow> 'd ExprValue \<Rightarrow> ('d, 'w, 'd ExprValue) comp) option) \<Rightarrow>
   ('d, 'w, 'd ExprValue) comp \<Rightarrow> nat \<Rightarrow> 'd ExprValue \<Rightarrow> ('d, 'w, 'd ExprValue) comp" where
  "level_loop ops operand 0 left st = None"
| "level_loop ops operand (Suc n) left st =
     (case ops (tok_type st) of
        None \<Rightarrow> return left st
      | Some f \<Rightarrow> andThen operand (\<lambda>d. andThen (f left d) (level_loop ops operand n)) st)"

definition term_ops ::
  "('d, 'w) expr_lib \<Rightarrow> TokenType \<Rightarrow> ('d ExprValue \<Rightarrow> 'd ExprValue \<Rightarrow> ('d, 'w, 'd ExprValue) comp) option" where
  "term_ops L t =
     (case t of
        MULTIPLY \<Rightarrow> Some (\<lambda>left d. lift (map_sum id snd (mul_assign L left d)))
      | DIVIDE \<Rightarrow> Some (\<lambda>left d. andThen (check_divisor L d) (\<lambda>_. lift (map_sum id snd (div_assign L left d))))
      | _ \<Rightarrow> None)"

definition addsub_ops ::
  "('d, 'w) expr_lib \<Rightarrow> TokenType \<Rightarrow> ('d ExprValue \<Rightarrow> 'd ExprValue \<Rightarrow> ('d, 'w, 'd ExprValue) comp) option" where
  "addsub_ops L t =
     (case t of
        PLUS \<Rightarrow> Some (\<lambda>left d. lift (map_sum id snd (add_assign L left d)))
      | MINUS \<Rightarrow> Some (\<lambda>left d. lift (map_sum id snd (sub_assign L left d)))
      | _ \<Rightarrow> None)"

text \<open>A comparison gives 1.0 or 0.0, unless an operand is \<open>UNSURE\<close>.\<close>

definition comparison_value :: "('d, 'w) expr_lib \<Rightarrow> 'd ExprValue outcome \<Rightarrow> ('d, 'w, 'd ExprValue) comp" where
  "comparison_value L r =
     andThen (lift r) (\<lambda>left.
     if v_type left \<noteq> UNSURE then
       andThen (lift (ev_bool L left)) (\<lambda>b. return (assign_double (if b then d_of_int L 1 else d_zero L) left))
     else return left)"

definition comparison_ops ::
  "('d, 'w) expr_lib \<Rightarrow> TokenType \<Rightarrow> ('d ExprValue \<Rightarrow> 'd ExprValue \<Rightarrow> ('d, 'w, 'd ExprValue) comp) option" where
  "comparison_ops L t =
     (case t of
        LT \<Rightarrow> Some (\<lambda>left d. comparison_value L (ev_lt L left d))
      | GT \<Rightarrow> Some (\<lambda>left d. comparison_value L (ev_gt L left d))
      | LE \<Rightarrow> Some (\<lambda>left d. comparison_value L (ev_le L left d))
      | GE \<Rightarrow> Some (\<lambda>left d. comparison_value L (ev_ge L left d))
      | EQ \<Rightarrow> Some (\<lambda>left d. comparison_value L (ev_eq L left d))
      | NE \<Rightarrow> Some (\<lambda>left d. comparison_value L (ev_ne L left d))
      | _ \<Rightarrow> None)"

text \<open>\<^verbatim>\<open>x != 0.0\<close> as a condition, and the two connectives, which look at the right operand only when C++ does.\<close>

definition not_zero :: "('d, 'w) expr_lib \<Rightarrow> 'd ExprValue \<Rightarrow> bool outcome" where
  "not_zero L v = (case ev_ne L v (ExprValue_double (d_zero L)) of Inl e \<Rightarrow> Inl e | Inr c \<Rightarrow> ev_bool L c)"

definition logic_value ::
  "('d, 'w) expr_lib \<Rightarrow> bool \<Rightarrow> 'd ExprValue \<Rightarrow> 'd ExprValue \<Rightarrow> ('d, 'w, 'd ExprValue) comp" where
  "logic_value L stop left d =
     (if v_type left \<noteq> UNSURE then
        andThen (lift (not_zero L left)) (\<lambda>b.
        if b = stop then return (assign_bool b left)
        else andThen (lift (not_zero L d)) (\<lambda>b'. return (assign_bool b' left)))
      else return left)"

definition expression_ops ::
  "('d, 'w) expr_lib \<Rightarrow> TokenType \<Rightarrow> ('d ExprValue \<Rightarrow> 'd ExprValue \<Rightarrow> ('d, 'w, 'd ExprValue) comp) option" where
  "expression_ops L t =
     (case t of
        TOK_AND \<Rightarrow> Some (logic_value L False)
      | TOK_OR \<Rightarrow> Some (logic_value L True)
      | _ \<Rightarrow> None)"

definition comma_ops ::
  "TokenType \<Rightarrow> ('d ExprValue \<Rightarrow> 'd ExprValue \<Rightarrow> ('d, 'w, 'd ExprValue) comp) option" where
  "comma_ops t = (case t of COMMA \<Rightarrow> Some (\<lambda>left d. return d) | _ \<Rightarrow> None)"

definition level ::
  "(TokenType \<Rightarrow> ('d ExprValue \<Rightarrow> 'd ExprValue \<Rightarrow> ('d, 'w, 'd ExprValue) comp) option) \<Rightarrow> nat \<Rightarrow>
   (bool \<Rightarrow> ('d, 'w, 'd ExprValue) comp) \<Rightarrow> bool \<Rightarrow> ('d, 'w, 'd ExprValue) comp" where
  "level ops n operand get = andThen (operand get) (level_loop ops (operand True) n)"

text \<open>
  The levels over a given \<^verbatim>\<open>Primary\<close>, and \<^verbatim>\<open>Primary\<close> itself by recursion on the bound of the depth. The
  bound is the one of the loops too.
\<close>

definition Term_over where
  "Term_over L n primary = level (term_ops L) n primary"

definition AddSubtract_over where
  "AddSubtract_over L n primary = level (addsub_ops L) n (Term_over L n primary)"

definition Comparison_over where
  "Comparison_over L n primary = level (comparison_ops L) n (AddSubtract_over L n primary)"

definition Expression_over where
  "Expression_over L n primary = level (expression_ops L) n (Comparison_over L n primary)"

definition CommaList_over where
  "CommaList_over L n primary = level comma_ops n (Expression_over L n primary)"

fun Primary :: "('d, 'w) expr_lib \<Rightarrow> nat \<Rightarrow> bool \<Rightarrow> ('d, 'w, 'd ExprValue) comp" where
  "Primary L 0 get = (\<lambda>st. None)"
| "Primary L (Suc n) get =
     (let body = primary_body L (Primary L n) (Expression_over L n (Primary L n)) (CommaList_over L n (Primary L n))
      in if get then andThen (get_token L False) (\<lambda>_. body) else body)"

definition Term where
  "Term L n = Term_over L n (Primary L n)"

definition AddSubtract where
  "AddSubtract L n = AddSubtract_over L n (Primary L n)"

definition Comparison where
  "Comparison L n = Comparison_over L n (Primary L n)"

definition Expression where
  "Expression L n = Expression_over L n (Primary L n)"

definition CommaList where
  "CommaList L n = CommaList_over L n (Primary L n)"

section \<open>Evaluation\<close>

definition Evaluate :: "('d, 'w) expr_lib \<Rightarrow> nat \<Rightarrow> ('d, 'w, 'd ExprValue) comp" where
  "Evaluate L n st =
     andThen (CommaList L n True)
       (\<lambda>v st. if tok_type st \<noteq> END then
                 Some (Inl (runtime_error (''Unexpected text at end of expression: '' @ text_of (cstr (pWordStart st)))), st)
               else Some (Inr v, st))
       (st\<lparr>pWord := program st, tok_type := NONE\<rparr>)"

definition Evaluate_program :: "('d, 'w) expr_lib \<Rightarrow> nat \<Rightarrow> bytes \<Rightarrow> ('d, 'w, 'd ExprValue) comp" where
  "Evaluate_program L n prog st = Evaluate L n (st\<lparr>program := prog\<rparr>)"

text \<open>\<^verbatim>\<open>Parse\<close>: an exception leaves \<^verbatim>\<open>detect_\<close> set.\<close>

definition Parse :: "('d, 'w) expr_lib \<Rightarrow> nat \<Rightarrow> ('d, 'w, 'd ExprValue) comp" where
  "Parse L n st = andThen (Evaluate L n) (\<lambda>ret st. Some (Inr ret, st\<lparr>detect := False\<rparr>)) (st\<lparr>detect := True\<rparr>)"

definition Parse_program :: "('d, 'w) expr_lib \<Rightarrow> nat \<Rightarrow> bytes \<Rightarrow> ('d, 'w, 'd ExprValue) comp" where
  "Parse_program L n prog st =
     andThen (Evaluate_program L n prog) (\<lambda>ret st. Some (Inr ret, st\<lparr>detect := False\<rparr>)) (st\<lparr>detect := True\<rparr>)"

end
