(* ===== verification/ExprTotal.thy ===== *)
theory ExprTotal
  imports ExprParser
begin

text \<open>
  The expression evaluator always returns: a bound above the length of the program is enough for its recursion and
  its loops. The same induction shows which types of values it computes. A second one shows that the evaluator has
  no undefined behaviour when the quotes of the program are closed.
\<close>

section \<open>Values\<close>

definition value_type :: "bool \<Rightarrow> TokenType \<Rightarrow> bool" where
  "value_type d t \<longleftrightarrow> t = NUMBER \<or> t = INTEGER64 \<or> t = STRING \<or> t = BOOL \<or> (d \<and> t = UNSURE)"

definition symbols_ok :: "bool \<Rightarrow> (bytes \<rightharpoonup> 'd ExprValue) \<Rightarrow> bool" where
  "symbols_ok d sy \<longleftrightarrow> (\<forall>x v. sy x = Some v \<longrightarrow> value_type d (v_type v))"

text \<open>What is asked of the user functions: they compute values and keep values in the symbol table.\<close>

definition result_ok :: "bool \<Rightarrow> 'd ExprValue outcome \<times> ('d, 'w) env \<Rightarrow> bool" where
  "result_ok d r \<longleftrightarrow> symbols_ok d (fst (snd r)) \<and> (\<forall>x. fst r = Inr x \<longrightarrow> value_type d (v_type x))"

definition lib_ok :: "('d, 'w) expr_lib \<Rightarrow> bool \<Rightarrow> bool" where
  "lib_ok L d \<longleftrightarrow>
     (\<forall>name f v e. one_common L name = Some f \<and> value_type d (v_type v) \<and> symbols_ok d (fst e) \<longrightarrow>
        result_ok d (f v e)) \<and>
     (\<forall>name f v1 v2 e. two_common L name = Some f \<and> value_type d (v_type v1) \<and> value_type d (v_type v2) \<and>
        symbols_ok d (fst e) \<longrightarrow> result_ok d (f v1 v2 e))"

text \<open>
  The invariants of values and states: \<open>d\<close> is the pair of the flag \<^verbatim>\<open>detect_\<close> and of whether the types are followed.
\<close>

definition val_ok :: "('d, 'w) expr_lib \<Rightarrow> bool \<times> bool \<Rightarrow> 'd ExprValue \<Rightarrow> bool" where
  "val_ok L d v \<longleftrightarrow> (snd d \<and> lib_ok L (fst d) \<longrightarrow> value_type (fst d) (v_type v))"

definition state_ok :: "('d, 'w) expr_lib \<Rightarrow> bool \<times> bool \<Rightarrow> ('d, 'w) ExprParser \<Rightarrow> bool" where
  "state_ok L d st \<longleftrightarrow> detect st = fst d \<and> (snd d \<and> lib_ok L (fst d) \<longrightarrow> symbols_ok (fst d) (symbols st))"

text \<open>
  A computation with the bound \<open>n\<close> returns in every state whose rest of the program is shorter than \<open>n\<close>; when it
  does not throw, it has consumed at least \<open>k\<close> characters.
\<close>

definition runs ::
  "('d, 'w) expr_lib \<Rightarrow> bool \<times> bool \<Rightarrow> nat \<Rightarrow> nat \<Rightarrow> ('a \<Rightarrow> bool) \<Rightarrow> ('d, 'w, 'a) comp \<Rightarrow> bool" where
  "runs L d n k P m \<longleftrightarrow>
     (\<forall>st. length (pWord st) < n \<and> state_ok L d st \<longrightarrow>
        (\<exists>r st'. m st = Some (r, st') \<and> state_ok L d st' \<and>
           (\<forall>x. r = Inr x \<longrightarrow> P x \<and> length (pWord st') + k \<le> length (pWord st))))"

named_theorems runs_intros

lemma runsI:
  assumes "\<And>st. length (pWord st) < n \<Longrightarrow> state_ok L d st \<Longrightarrow>
    \<exists>r st'. m st = Some (r, st') \<and> state_ok L d st' \<and>
       (\<forall>x. r = Inr x \<longrightarrow> P x \<and> length (pWord st') + k \<le> length (pWord st))"
  shows "runs L d n k P m"
  using assms by (auto simp: runs_def)

lemma runs_andThen:
  assumes "runs L d n k P m" and "\<And>x. P x \<Longrightarrow> runs L d n j Q (f x)"
  shows "runs L d n (k + j) Q (andThen m f)"
proof (rule runsI)
  fix st :: "('a, 'b) ExprParser"
  assume st: "length (pWord st) < n" "state_ok L d st"
  obtain r st1 where 1: "m st = Some (r, st1)" "state_ok L d st1"
      "\<And>x. r = Inr x \<Longrightarrow> P x \<and> length (pWord st1) + k \<le> length (pWord st)"
    using assms(1) st unfolding runs_def by blast
  show "\<exists>r st'. andThen m f st = Some (r, st') \<and> state_ok L d st' \<and>
      (\<forall>x. r = Inr x \<longrightarrow> Q x \<and> length (pWord st') + (k + j) \<le> length (pWord st))"
  proof (cases r)
    case (Inl e)
    then show ?thesis using 1 by (simp add: andThen_def)
  next
    case (Inr x)
    then have x: "P x" "length (pWord st1) + k \<le> length (pWord st)" using 1(3) by auto
    then have "length (pWord st1) < n" using st(1) by linarith
    then obtain r' st2 where "f x st1 = Some (r', st2)" "state_ok L d st2"
        "\<And>y. r' = Inr y \<Longrightarrow> Q y \<and> length (pWord st2) + j \<le> length (pWord st1)"
      using assms(2) [OF x(1)] 1(2) unfolding runs_def by blast
    then show ?thesis using 1(1) Inr x(2) by (fastforce simp: andThen_def)
  qed
qed

lemma runs_weaken: "runs L d n k P m \<Longrightarrow> j \<le> k \<Longrightarrow> (\<And>x. P x \<Longrightarrow> Q x) \<Longrightarrow> runs L d n j Q m"
  unfolding runs_def by (meson le_trans add_left_mono)

lemma runs_seq0 [runs_intros]:
  assumes "runs L d n 0 P m" and "\<And>x. P x \<Longrightarrow> runs L d n k Q (f x)"
  shows "runs L d n k Q (andThen m f)"
  using runs_andThen [OF assms] by simp

lemma runs_seq1:
  assumes "runs L d n 1 P m" and "\<And>x. P x \<Longrightarrow> runs L d n 0 Q (f x)"
  shows "runs L d n 1 Q (andThen m f)"
  using runs_andThen [OF assms] by simp

lemma runs_return [runs_intros]: "P x \<Longrightarrow> runs L d n 0 P (return x)"
  by (auto simp: runs_def return_def)

lemma runs_throw [runs_intros]: "runs L d n k P (throw e)"
  by (auto simp: runs_def throw_def)

lemma runs_lift: "(\<And>x. r = Inr x \<Longrightarrow> P x) \<Longrightarrow> runs L d n 0 P (lift r)"
  by (auto simp: runs_def lift_def)

lemma runs_current [runs_intros]: "runs L d n 0 (\<lambda>t. True) current"
  by (auto simp: runs_def current_def)

lemma runs_CheckToken [runs_intros]: "runs L d n 0 (\<lambda>t. True) (CheckToken t)"
  by (auto simp: runs_def CheckToken_def)

section \<open>Scanner\<close>

lemma length_tl_peek: "peek s \<noteq> 0 \<Longrightarrow> length (tl s) < length s"
  by (cases s) (simp_all add: peek_def)

lemma length_dropWhile_peek: "P (peek s) \<Longrightarrow> peek s \<noteq> 0 \<Longrightarrow> length (dropWhile P s) < length s"
  using length_dropWhile_le [of P "tl s"] by (cases s) (auto simp: peek_def le_imp_less_Suc)

lemma number_first: "number_starts g (peek s) n \<Longrightarrow> is_sign (peek s) \<or> (IS_DIGIT (peek s) \<or> peek s = 46)"
  by (auto simp: number_starts_def)

lemma digit_nonzero: "IS_DIGIT c \<Longrightarrow> c \<noteq> 0"
  using digit_no_space by blast

lemma length_scan_number:
  assumes "number_starts g (peek s) n"
  shows "length (scan_number s) < length s"
proof -
  define t where "t = dropWhile (\<lambda>c. IS_DIGIT c \<or> c = 46) (if is_sign (peek s) then tl s else s)"
  define u where "u = (if is_sign (peek (tl t)) then tl (tl t) else tl t)"
  have t: "length t < length s"
  proof (cases "is_sign (peek s)")
    case True
    then have "length (tl s) < length s" by (intro length_tl_peek) (auto simp: is_sign_def)
    then show ?thesis
      using length_dropWhile_le [of "\<lambda>c. IS_DIGIT c \<or> c = 46" "tl s"] True by (simp add: t_def)
  next
    case False
    then have "IS_DIGIT (peek s) \<or> peek s = 46" using number_first [OF assms] by simp
    then show ?thesis using False digit_nonzero by (auto simp: t_def intro!: length_dropWhile_peek)
  qed
  have "length (dropWhile IS_DIGIT u) \<le> length u" by (rule length_dropWhile_le)
  also have "\<dots> \<le> length t" by (simp add: u_def)
  finally show ?thesis using t by (simp add: scan_number_def t_def [symmetric] u_def Let_def)
qed

text \<open>What a scanner step keeps, and that it makes progress.\<close>

definition scanned ::
  "('d, 'w) ExprParser \<Rightarrow> bytes \<Rightarrow> TokenType outcome \<times> ('d, 'w) ExprParser \<Rightarrow> bool" where
  "scanned st s r \<longleftrightarrow>
     detect (snd r) = detect st \<and> symbols (snd r) = symbols st \<and> world (snd r) = world st \<and>
     program (snd r) = program st \<and> length (pWord (snd r)) \<le> length s \<and>
     (\<forall>t. fst r = Inr t \<longrightarrow> tok_type (snd r) = t \<and> (t \<noteq> END \<longrightarrow> length (pWord (snd r)) < length s))"

lemma number_token_scanned:
  "number_starts g (peek s) n \<Longrightarrow> pWord st = s \<Longrightarrow> scanned st s (number_token L s st)"
  using length_scan_number [of g s n] by (auto simp: scanned_def number_token_def Let_def split: prod.splits)

lemma word_token_scanned:
  assumes "peek s \<noteq> 0" "pWord st = s"
  shows "scanned st s (word_token s st)"
proof -
  have "length (tl (dropWhile (\<lambda>c. c \<noteq> 34) (tl s))) \<le> length (tl s)"
    using length_dropWhile_le [of "\<lambda>c. c \<noteq> 34" "tl s"] by simp
  then have "length (tl (dropWhile (\<lambda>c. c \<noteq> 34) (tl s))) < length s" using length_tl_peek [OF assms(1)] by linarith
  then show ?thesis
    using assms length_dropWhile_peek [of "\<lambda>c. IS_ALPHA c \<or> IS_DIGIT c \<or> c = 95" s]
    by (auto simp: scanned_def word_token_def Let_def split: if_splits)
qed

lemma with_equal_not_END: "with_equal c \<noteq> END"
  by (simp add: with_equal_def)

lemma single_token_not_END: "single_token c \<noteq> Some END"
  by (simp add: single_token_def)

lemma GetToken_scanned: "scanned st (pWord st) (GetToken L g st)"
proof -
  define s where "s = dropWhile (\<lambda>c. c \<noteq> 0 \<and> isspace c) (pWord st)"
  define st1 where "st1 = st\<lparr>word := [], pWord := s, pWordStart := s\<rparr>"
  have le: "length s \<le> length (pWord st)" unfolding s_def by (rule length_dropWhile_le)
  have upto: "scanned st1' s r \<Longrightarrow> detect st1' = detect st \<Longrightarrow> symbols st1' = symbols st \<Longrightarrow>
      world st1' = world st \<Longrightarrow> program st1' = program st \<Longrightarrow> scanned st (pWord st) r" for st1' r
    using le by (auto simp: scanned_def)
  have pos: "length (drop 2 s) < length s" "length (tl s) < length s" if "peek s \<noteq> 0"
    using that by (cases s; simp add: peek_def)+
  show ?thesis
  proof (cases "peek s = 0")
    case True
    then show ?thesis using le by (simp add: GetToken_def s_def [symmetric] Let_def scanned_def)
  next
    case nz: False
    consider (num) "number_starts g (peek s) (peek (tl s))"
      | (eq) "\<not> number_starts g (peek s) (peek (tl s))" "peek (tl s) = 61 \<and> with_equal (peek s) \<noteq> NONE"
      | (other) "\<not> number_starts g (peek s) (peek (tl s))" "\<not> (peek (tl s) = 61 \<and> with_equal (peek s) \<noteq> NONE)"
      by blast
    then show ?thesis
    proof cases
      case num
      then have "GetToken L g st = number_token L s st1"
        using nz by (simp add: GetToken_def s_def [symmetric] Let_def st1_def)
      then show ?thesis using upto [of st1] number_token_scanned [OF num, of st1] by (simp add: st1_def)
    next
      case eq
      then show ?thesis
        using nz pos le by (auto simp: GetToken_def s_def [symmetric] Let_def scanned_def with_equal_not_END)
    next
      case other
      define st2 where "st2 = (if peek (tl s) = 61 then st1\<lparr>tok_type := NONE\<rparr> else st1)"
      have "scanned st (pWord st) (word_token s st2)"
        by (rule upto [of st2]) (use word_token_scanned [OF nz, of st2] in \<open>simp_all add: st2_def st1_def\<close>)
      then show ?thesis
        using other nz pos le single_token_not_END [of "peek s"]
        by (auto simp: GetToken_def s_def [symmetric] Let_def st1_def [symmetric] st2_def [symmetric] split: option.split)
          (auto simp: scanned_def st2_def st1_def)
    qed
  qed
qed

lemma runs_get_token [runs_intros]: "runs L d n 0 (\<lambda>t. True) (get_token L g)"
proof (rule runsI)
  fix st :: "('a, 'b) ExprParser"
  assume "state_ok L d st"
  then show "\<exists>r st'. get_token L g st = Some (r, st') \<and> state_ok L d st' \<and>
      (\<forall>x. r = Inr x \<longrightarrow> True \<and> length (pWord st') + 0 \<le> length (pWord st))"
    using GetToken_scanned [of st L g]
    by (cases "GetToken L g st") (simp add: get_token_def scanned_def state_ok_def)
qed

section \<open>Operators\<close>

named_theorems val_ok_intros

lemma val_ok_simps [simp]:
  "val_ok L d (ExprValue_bool L b)" "val_ok L d (ExprValue_int64 L i)" "val_ok L d (ExprValue_double x)"
  "val_ok L d (ExprValue_string L s)" "val_ok L d (ExprValue_default L)" "val_ok L d (assign_double x v)"
  "val_ok L d (assign_bool b v)"
  by (simp_all add: val_ok_def value_type_def ExprValue_bool_def ExprValue_int64_def ExprValue_double_def
      ExprValue_string_def ExprValue_default_def assign_double_def assign_bool_def)

lemma val_ok_UNSURE: "val_ok L d v \<Longrightarrow> v_type v = UNSURE \<Longrightarrow> val_ok L d (ExprValue_of_type L UNSURE)"
  by (simp add: val_ok_def ExprValue_of_type_def)

lemma compare_ok [val_ok_intros]:
  assumes "val_ok L d this" "val_ok L d v" and "compare_values L f g h this v = Inr x"
  shows "val_ok L d x"
  using assms val_ok_UNSURE [of L d this] val_ok_UNSURE [of L d v]
  by (auto simp: compare_values_def split: if_splits TokenType.splits)

lemmas comparisons_def = ev_eq_def ev_lt_def ev_gt_def ev_le_def ev_ge_def ev_ne_def

lemma arith_ok:
  assumes "val_ok L d this" "val_ok L d v" and "arith_assign L f g h this v = Inr x"
    and "\<And>a b. v_type (g a b) = v_type a \<or> v_type (g a b) = NUMBER"
    and "\<And>k a b. h = Some k \<Longrightarrow> v_type (k a b) = v_type a"
  shows "val_ok L d (snd x)"
  using assms(1-3) assms(4) [of this v] assms(5) [of _ this v]
  by (auto simp: arith_assign_def val_ok_def value_type_def Let_def split: if_splits TokenType.splits option.splits)

lemma assign_ops_ok:
  assumes "val_ok L d this" "val_ok L d v"
  shows "mul_assign L this v = Inr x \<Longrightarrow> val_ok L d (snd x)" "div_assign L this v = Inr x \<Longrightarrow> val_ok L d (snd x)"
    "add_assign L this v = Inr x \<Longrightarrow> val_ok L d (snd x)" "sub_assign L this v = Inr x \<Longrightarrow> val_ok L d (snd x)"
  unfolding mul_assign_def div_assign_def add_assign_def sub_assign_def
  by (erule arith_ok [OF assms]; auto)+

lemma ev_minus_ok:
  assumes "val_ok L d this" "val_ok L d v" and "ev_minus L this v = Inr x"
  shows "val_ok L d x"
  using assms by (auto simp: ev_minus_def val_ok_def value_type_def Let_def ExprValue_of_type_def split: if_splits TokenType.splits)

lemma DoMin_ok:
  assumes "val_ok L d v1" "val_ok L d v2"
  shows "DoMin L v1 v2 = Inr x \<Longrightarrow> val_ok L d x" "DoMax L v1 v2 = Inr x \<Longrightarrow> val_ok L d x"
    "DoIf L v0 v1 v2 = Inr x \<Longrightarrow> val_ok L d x"
  using assms by (auto simp: DoMin_def DoMax_def DoIf_def map_sum_def split: sum.splits if_splits)

lemma two_argument_ok:
  assumes "val_ok L d v1" "val_ok L d v2" and "TwoArgumentFunctions L name = Some f" and "f v1 v2 w = (Inr x, w')"
  shows "val_ok L d x"
  using assms DoMin_ok(1,2) [OF assms(1,2)]
  by (auto simp: TwoArgumentFunctions_def DoFmod_def DoPow_def DoRoll_def map_prod_def split: if_splits prod.splits)

section \<open>Parser\<close>

lemma runs_run_world:
  assumes "\<And>w x w'. f w = (Inr x, w') \<Longrightarrow> P x"
  shows "runs L d n 0 P (run_world f)"
  by (rule runsI) (auto simp: run_world_def state_ok_def split: prod.splits dest: assms)

lemma runs_run_env:
  assumes "\<And>e. snd d \<Longrightarrow> lib_ok L (fst d) \<Longrightarrow> symbols_ok (fst d) (fst e) \<Longrightarrow> result_ok (fst d) (f e)"
  shows "runs L d n 0 (val_ok L d) (run_env f)"
proof (rule runsI)
  fix st :: "('a, 'b) ExprParser"
  assume "state_ok L d st"
  then show "\<exists>r st'. run_env f st = Some (r, st') \<and> state_ok L d st' \<and>
      (\<forall>x. r = Inr x \<longrightarrow> val_ok L d x \<and> length (pWord st') + 0 \<le> length (pWord st))"
    using assms [of "(symbols st, world st)"]
    by (auto simp: run_env_def state_ok_def val_ok_def result_ok_def split: prod.splits)
qed

lemma runs_unless_detect:
  assumes "runs L d n 0 (val_ok L d) m"
  shows "runs L d n 0 (val_ok L d) (unless_detect L m)"
proof (rule runsI)
  fix st :: "('a, 'b) ExprParser"
  assume "length (pWord st) < n" "state_ok L d st"
  then show "\<exists>r st'. unless_detect L m st = Some (r, st') \<and> state_ok L d st' \<and>
      (\<forall>x. r = Inr x \<longrightarrow> val_ok L d x \<and> length (pWord st') + 0 \<le> length (pWord st))"
    using assms
    by (cases "detect st")
      (auto simp: unless_detect_def runs_def state_ok_def val_ok_def value_type_def ExprValue_of_type_def)
qed

lemma runs_end_call: "runs L d n 0 P m \<Longrightarrow> runs L d n 0 P (end_call L m)"
  unfolding end_call_def by (intro runs_seq0 [OF runs_CheckToken] runs_seq0 [OF runs_get_token])

lemma runs_seq10:
  assumes "runs L d n 1 P m" and "\<And>x. P x \<Longrightarrow> runs L d n 0 Q (f x)"
  shows "runs L d n 0 Q (andThen m f)"
  using runs_weaken [OF runs_seq1 [OF assms]] by simp

lemma call_function_runs:
  assumes e: "runs L d n 1 (val_ok L d) expression"
  shows "runs L d n 0 (val_ok L d) (call_function L expression name)"
proof -
  have 1: "runs L d n 0 (val_ok L d) (andThen expression (\<lambda>v. end_call L (unless_detect L (run_env (f v)))))"
    if "one_common L name = Some f" for f
    using that
    by (intro runs_seq10 [OF e] runs_end_call runs_unless_detect runs_run_env)
      (auto simp: lib_ok_def val_ok_def)
  have 2: "runs L d n 0 (val_ok L d) (andThen expression (\<lambda>v1. andThen (CheckToken COMMA) (\<lambda>_.
      andThen expression (\<lambda>v2. end_call L (unless_detect L (run_env (f v1 v2)))))))"
    if "two_common L name = Some f" for f
    using that
    by (intro runs_seq10 [OF e] runs_seq0 [OF runs_CheckToken] runs_end_call runs_unless_detect runs_run_env)
      (auto simp: lib_ok_def val_ok_def)
  have 3: "runs L d n 0 (val_ok L d) (andThen expression (\<lambda>v1. andThen (CheckToken COMMA) (\<lambda>_.
      andThen expression (\<lambda>v2. end_call L (run_world (f v1 v2))))))"
    if "TwoArgumentFunctions L name = Some f" for f
    by (intro runs_seq10 [OF e] runs_seq0 [OF runs_CheckToken] runs_end_call runs_run_world)
      (rule two_argument_ok [OF _ _ that])
  have 4: "runs L d n 0 (val_ok L d) (andThen expression (\<lambda>v1. andThen (CheckToken COMMA) (\<lambda>_.
      andThen expression (\<lambda>v2. andThen (CheckToken COMMA) (\<lambda>_.
      andThen expression (\<lambda>v3. end_call L (lift (f v1 v2 v3))))))))"
    if "ThreeArgumentFunctions L name = Some f" for f
    using that
    by (intro runs_seq10 [OF e] runs_seq0 [OF runs_CheckToken] runs_end_call runs_lift)
      (auto simp: ThreeArgumentFunctions_def dest: DoMin_ok(3) split: if_splits)
  have 5: "runs L d n 0 (val_ok L d) (andThen expression (\<lambda>v.
      end_call L (run_world (\<lambda>w. map_prod (\<lambda>d. Inr (ExprValue_double d)) id (f (d_value v) w)))))" for f
    by (intro runs_seq10 [OF e] runs_end_call runs_run_world) (auto simp: map_prod_def split: prod.splits)
  show ?thesis
    unfolding call_function_def using 1 2 3 4 5 by (auto split: option.split intro: runs_throw)
qed

lemma runs_symbol_ref [runs_intros]: "runs L d n 0 (\<lambda>_. True) (symbol_ref L name)"
  by (rule runsI) (auto simp: symbol_ref_def state_ok_def symbols_ok_def value_type_def ExprValue_default_def split: option.split)

lemma runs_read_symbol [runs_intros]: "runs L d n 0 (val_ok L d) (read_symbol L name)"
  by (rule runsI) (auto simp: read_symbol_def state_ok_def symbols_ok_def val_ok_def value_type_def ExprValue_default_def
      split: option.split)

lemma runs_write_symbol [runs_intros]: "val_ok L d v \<Longrightarrow> runs L d n 0 (\<lambda>_. True) (write_symbol name v)"
  by (rule runsI) (auto simp: write_symbol_def state_ok_def symbols_ok_def val_ok_def)

lemma runs_update_symbol:
  assumes "\<And>v x. val_ok L d v \<Longrightarrow> oper v = Inr x \<Longrightarrow> val_ok L d (snd x)"
  shows "runs L d n 0 (\<lambda>_. True) (update_symbol L name oper)"
  unfolding update_symbol_def
  by (intro runs_seq0 [OF runs_read_symbol] runs_seq0 [where P = "\<lambda>r. val_ok L d (snd r)"] runs_lift runs_write_symbol)
    (auto dest: assms)

lemma runs_check_divisor [runs_intros]: "runs L d n 0 (\<lambda>_. True) (check_divisor L x)"
proof -
  have "runs L d n 0 (\<lambda>_. True) (if b then throw e else return ())" for b e
    by (auto intro: runs_throw runs_return)
  then show ?thesis
    unfolding check_divisor_def
    by (auto intro!: runs_return runs_seq0 [where P = "\<lambda>_. True"] runs_lift)
qed

lemma symbol_primary_runs:
  assumes e: "runs L d n 1 (val_ok L d) expression"
  shows "runs L d n 0 (val_ok L d) (symbol_primary L expression name)"
proof -
  have upd: "runs L d n 0 (\<lambda>_. True) (andThen expression (\<lambda>x. update_symbol L name (\<lambda>v. oper v x)))"
    if "\<And>v x y. val_ok L d v \<Longrightarrow> val_ok L d x \<Longrightarrow> oper v x = Inr y \<Longrightarrow> val_ok L d (snd y)" for oper
    by (intro runs_seq10 [OF e] runs_update_symbol) (auto intro: that)
  note ops = upd [OF assign_ops_ok(1)] upd [OF assign_ops_ok(3)] upd [OF assign_ops_ok(4)]
  have set: "runs L d n 0 (\<lambda>_. True) (andThen expression (write_symbol name))"
    by (intro runs_seq10 [OF e] runs_write_symbol)
  have quo: "runs L d n 0 (\<lambda>_. True) (andThen expression (\<lambda>x. andThen (check_divisor L x) (\<lambda>_. update_symbol L name (\<lambda>v. div_assign L v x))))"
    by (intro runs_seq10 [OF e] runs_seq0 [OF runs_check_divisor] runs_update_symbol) (auto dest: assign_ops_ok(2))
  show ?thesis
    unfolding symbol_primary_def
    by (intro runs_seq0 [OF runs_symbol_ref] runs_seq0 [OF runs_current] runs_seq0 [where P = "\<lambda>_. True"] runs_read_symbol)
      (simp split: TokenType.split add: ops set quo runs_return)
qed

lemma runsD:
  "runs L d n k P m \<Longrightarrow> length (pWord st) < n \<Longrightarrow> state_ok L d st \<Longrightarrow>
   \<exists>r st'. m st = Some (r, st') \<and> state_ok L d st' \<and>
     (\<forall>x. r = Inr x \<longrightarrow> P x \<and> length (pWord st') + k \<le> length (pWord st))"
  by (simp add: runs_def)

text \<open>\<^verbatim>\<open>Primary\<close> behind its first token: it throws at the end of the program.\<close>

lemma primary_body_runs:
  assumes p: "runs L d n 1 (val_ok L d) (primary True)" and e: "runs L d n 1 (val_ok L d) (expression True)"
    and c: "runs L d n 1 (val_ok L d) (commaList True)"
  shows "runs L d n 0 (val_ok L d) (primary_body L primary expression commaList)"
proof -
  have name: "runs L d n 0 (val_ok L d) (andThen (get_token L True) (\<lambda>t.
      if t = LHPAREN then call_function L (expression True) w else symbol_primary L (expression True) w))" for w
    by (intro runs_seq0 [OF runs_get_token]) (simp add: call_function_runs [OF e] symbol_primary_runs [OF e])
  have paren: "runs L d n 0 (val_ok L d) (andThen (commaList True) (\<lambda>v. andThen (CheckToken RHPAREN) (\<lambda>_.
      andThen (get_token L True) (\<lambda>_. return v))))"
    by (intro runs_seq10 [OF c] runs_seq0 [OF runs_CheckToken] runs_seq0 [OF runs_get_token] runs_return)
  have neg: "runs L d n 0 (val_ok L d) (andThen (primary True) (\<lambda>v. lift (ev_minus L (ExprValue_int64 L 0) v)))"
    by (intro runs_seq10 [OF p] runs_lift) (auto dest: ev_minus_ok [OF val_ok_simps(2)])
  have notp: "runs L d n 0 (val_ok L d) (andThen (primary True) (\<lambda>v.
      andThen (lift (ev_eq L v (ExprValue_double (d_zero L)))) (\<lambda>c. andThen (lift (ev_bool L c)) (\<lambda>b.
      return (ExprValue_double (if b then d_of_int L 1 else d_zero L))))))"
    by (intro runs_seq10 [OF p] runs_seq0 [where P = "\<lambda>_. True"] runs_lift runs_return) auto
  have lit: "runs L d n 0 (val_ok L d) (andThen (get_token L True) (\<lambda>_. return v))" if "val_ok L d v" for v
    using that by (intro runs_seq0 [OF runs_get_token] runs_return)
  show ?thesis
  proof (rule runsI)
    fix st :: "('a, 'b) ExprParser"
    assume st: "length (pWord st) < n" "state_ok L d st"
    note parts = runsD [OF name st] runsD [OF paren st] runsD [OF neg st] runsD [OF notp st] runsD [OF runs_throw st]
      runsD [OF lit [OF val_ok_simps(3)] st] runsD [OF lit [OF val_ok_simps(2)] st] runsD [OF lit [OF val_ok_simps(4)] st]
    show "\<exists>r st'. primary_body L primary expression commaList st = Some (r, st') \<and> state_ok L d st' \<and>
        (\<forall>x. r = Inr x \<longrightarrow> val_ok L d x \<and> length (pWord st') + 0 \<le> length (pWord st))"
      unfolding primary_body_def by (cases "tok_type st"; simp only: TokenType.case; rule parts)
  qed
qed

text \<open>A level of the grammar over an operand that makes progress.\<close>

definition ops_run ::
  "('d, 'w) expr_lib \<Rightarrow> bool \<times> bool \<Rightarrow> nat \<Rightarrow>
   (TokenType \<Rightarrow> ('d ExprValue \<Rightarrow> 'd ExprValue \<Rightarrow> ('d, 'w, 'd ExprValue) comp) option) \<Rightarrow> bool" where
  "ops_run L d n ops \<longleftrightarrow>
     (\<forall>t f left x. ops t = Some f \<longrightarrow> val_ok L d left \<longrightarrow> val_ok L d x \<longrightarrow> runs L d n 0 (val_ok L d) (f left x))"

lemma level_loop_runs:
  assumes op: "runs L d n 1 (val_ok L d) operand" 
    and ops: "ops_run L d n ops"
    and "m \<le> n"
  shows "val_ok L d left \<Longrightarrow> runs L d m 0 (val_ok L d) (level_loop ops operand m left)"
  using assms(3)
proof (induction m arbitrary: left)
  case (Suc m)
  show ?case
  proof (rule runsI)
    fix st :: "('a, 'b) ExprParser"
    assume st: "length (pWord st) < Suc m" "state_ok L d st"
    show "\<exists>r st'. level_loop ops operand (Suc m) left st = Some (r, st') \<and> state_ok L d st' \<and>
        (\<forall>x. r = Inr x \<longrightarrow> val_ok L d x \<and> length (pWord st') + 0 \<le> length (pWord st))"
    proof (cases "ops (tok_type st)")
      case None
      then show ?thesis using st Suc.prems by (simp add: return_def)
    next
      case (Some f)
      obtain r st1 where 1: "operand st = Some (r, st1)" "state_ok L d st1"
          "\<And>x. r = Inr x \<Longrightarrow> val_ok L d x \<and> length (pWord st1) < length (pWord st)"
        using runsD [OF op, of st] st Suc.prems(2) by (auto simp: Suc_le_eq)
      show ?thesis
      proof (cases r)
        case (Inl err)
        then show ?thesis using Some 1 by (simp add: andThen_def)
      next
        case (Inr x)
        then have x: "val_ok L d x" "length (pWord st1) < m" using 1(3) st(1) by auto
        have "runs L d m 0 (val_ok L d) (andThen (f left x) (level_loop ops operand m))"
        proof (rule runs_seq0)
          show "runs L d m 0 (val_ok L d) (f left x)"
            using ops Some Suc.prems x(1) unfolding ops_run_def runs_def by (meson order.strict_trans2 Suc_leD)
          show "runs L d m 0 (val_ok L d) (level_loop ops operand m y)" if "val_ok L d y" for y
            using Suc.IH [OF that] Suc.prems(2) by simp
        qed
        from runsD [OF this x(2) 1(2)] show ?thesis
          using Some 1 Inr x by (fastforce simp: andThen_def)
      qed
    qed
  qed
qed (simp add: runs_def)

lemma level_runs:
  assumes "runs L d n 1 (val_ok L d) (operand True)"
    and "ops_run L d n ops"
  shows "runs L d n 1 (val_ok L d) (level ops n operand True)"
  unfolding level_def
proof (rule runs_seq1)
  fix left assume "val_ok L d left"
  then show "runs L d n 0 (val_ok L d) (level_loop ops (operand True) n left)"
    using level_loop_runs [of L d n "operand True" ops n left] assms by simp
qed (rule assms)

lemma not_zero_lift: "runs L d n 0 (\<lambda>_. True) (lift r)"
  by (rule runs_lift) simp

lemma snd_ok: "(\<And>x. r = Inr x \<Longrightarrow> val_ok L d (snd x)) \<Longrightarrow> runs L d n 0 (val_ok L d) (lift (map_sum id snd r))"
  by (rule runs_lift) (auto simp: map_sum_def split: sum.splits)

lemma term_ops_runs: "ops_run L d n (term_ops L)"
  unfolding ops_run_def
  by (auto simp: term_ops_def split: TokenType.splits
      intro!: snd_ok runs_seq0 [OF runs_check_divisor] dest: assign_ops_ok(1,2))

lemma addsub_ops_runs: "ops_run L d n (addsub_ops L)"
  unfolding ops_run_def by (auto simp: addsub_ops_def split: TokenType.splits intro!: snd_ok dest: assign_ops_ok(3,4))

lemma comparison_value_runs:
  assumes "\<And>x. r = Inr x \<Longrightarrow> val_ok L d x"
  shows "runs L d n 0 (val_ok L d) (comparison_value L r)"
proof -
  have b: "runs L d n 0 (val_ok L d) (andThen (lift (ev_bool L v))
      (\<lambda>b. return (assign_double (if b then d_of_int L 1 else d_zero L) v)))" for v
    by (intro runs_seq0 [OF not_zero_lift] runs_return) simp
  show ?thesis unfolding comparison_value_def
  proof (rule runs_seq0 [OF runs_lift])
    show "\<And>x. r = Inr x \<Longrightarrow> val_ok L d x" by (rule assms)
    fix x assume "val_ok L d x"
    then show "runs L d n 0 (val_ok L d) (if v_type x \<noteq> UNSURE then andThen (lift (ev_bool L x))
        (\<lambda>b. return (assign_double (if b then d_of_int L 1 else d_zero L) x)) else return x)"
      using b by (simp add: runs_return)
  qed
qed

lemma comparison_ops_runs: "ops_run L d n (comparison_ops L)"
  unfolding ops_run_def
  by (auto simp: comparison_ops_def comparisons_def split: TokenType.splits intro!: comparison_value_runs elim: compare_ok)

lemma logic_value_runs: "val_ok L d left \<Longrightarrow> runs L d n 0 (val_ok L d) (logic_value L stop left x)"
proof -
  assume left: "val_ok L d left"
  have "runs L d n 0 (val_ok L d) (andThen (lift (not_zero L x)) (\<lambda>b'. return (assign_bool b' left)))"
    by (intro runs_seq0 [OF not_zero_lift] runs_return) simp
  then have "runs L d n 0 (val_ok L d) (if b = stop then return (assign_bool b left)
      else andThen (lift (not_zero L x)) (\<lambda>b'. return (assign_bool b' left)))" for b
    by (simp add: runs_return)
  then have "runs L d n 0 (val_ok L d) (andThen (lift (not_zero L left)) (\<lambda>b. if b = stop then return (assign_bool b left)
      else andThen (lift (not_zero L x)) (\<lambda>b'. return (assign_bool b' left))))"
    by (intro runs_seq0 [OF not_zero_lift])
  then show ?thesis using left by (simp add: logic_value_def runs_return)
qed

lemma expression_ops_runs: "ops_run L d n (expression_ops L)"
  unfolding ops_run_def by (auto simp: expression_ops_def logic_value_runs split: TokenType.splits)

lemma comma_ops_runs: "ops_run L d n comma_ops"
  unfolding ops_run_def by (auto simp: comma_ops_def intro: runs_return split: TokenType.splits)

lemma levels_run:
  assumes "runs L d n 1 (val_ok L d) (primary True)"
  shows "runs L d n 1 (val_ok L d) (Expression_over L n primary True)"
    and "runs L d n 1 (val_ok L d) (CommaList_over L n primary True)"
proof -
  have "runs L d n 1 (val_ok L d) (Term_over L n primary True)"
    unfolding Term_over_def using assms term_ops_runs by (rule level_runs)
  then have "runs L d n 1 (val_ok L d) (AddSubtract_over L n primary True)"
    unfolding AddSubtract_over_def using addsub_ops_runs by (rule level_runs)
  then have "runs L d n 1 (val_ok L d) (Comparison_over L n primary True)"
    unfolding Comparison_over_def using comparison_ops_runs by (rule level_runs)
  then show e: "runs L d n 1 (val_ok L d) (Expression_over L n primary True)"
    unfolding Expression_over_def using expression_ops_runs by (rule level_runs)
  show "runs L d n 1 (val_ok L d) (CommaList_over L n primary True)"
    unfolding CommaList_over_def using e comma_ops_runs by (rule level_runs)
qed

lemma Primary_runs: "runs L d n 1 (val_ok L d) (Primary L n True)"
proof (induction n)
  case (Suc n)
  define body where "body = primary_body L (Primary L n) (Expression_over L n (Primary L n)) (CommaList_over L n (Primary L n))"
  have body: "runs L d n 0 (val_ok L d) body"
    unfolding body_def using Suc levels_run [where primary = "Primary L n", OF Suc] by (rule primary_body_runs)
  show ?case
  proof (rule runsI)
    fix st :: "('a, 'b) ExprParser"
    assume st: "length (pWord st) < Suc n" "state_ok L d st"
    obtain r st1 where g: "GetToken L False st = (r, st1)" by fastforce
    have s: "scanned st (pWord st) (r, st1)" using GetToken_scanned [of st L False] g by simp
    then have ok: "state_ok L d st1" using st(2) by (simp add: scanned_def state_ok_def)
    have P: "Primary L (Suc n) True st = andThen (get_token L False) (\<lambda>_. body) st" by (simp add: body_def)
    show "\<exists>r st'. Primary L (Suc n) True st = Some (r, st') \<and> state_ok L d st' \<and>
        (\<forall>x. r = Inr x \<longrightarrow> val_ok L d x \<and> length (pWord st') + 1 \<le> length (pWord st))"
    proof (cases r)
      case (Inl e)
      then show ?thesis unfolding P using g ok by (simp add: andThen_def get_token_def)
    next
      case (Inr t)
      then have t: "tok_type st1 = t" "t \<noteq> END \<Longrightarrow> length (pWord st1) < length (pWord st)"
        using s by (auto simp: scanned_def)
      have run: "Primary L (Suc n) True st = body st1" unfolding P using g Inr by (simp add: andThen_def get_token_def)
      show ?thesis
      proof (cases "t = END")
        case True
        then show ?thesis unfolding run using t(1) ok by (simp add: body_def primary_body_def throw_def)
      next
        case False
        then have "length (pWord st1) < n" "length (pWord st1) < length (pWord st)" using t(2) st(1) by auto
        then show ?thesis unfolding run using runsD [OF body _ ok] by fastforce
      qed
    qed
  qed
qed (simp add: runs_def)

section \<open>The bound\<close>

text \<open>A larger bound gives the same result.\<close>

definition appr :: "('d, 'w, 'a) comp \<Rightarrow> ('d, 'w, 'a) comp \<Rightarrow> bool" where
  "appr m m' \<longleftrightarrow> (\<forall>st r. m st = Some r \<longrightarrow> m' st = Some r)"

lemma appr_refl [simp, intro]: "appr m m"
  by (simp add: appr_def)

lemma appr_andThen:
  assumes "appr m m'" and "\<And>x. appr (f x) (f' x)"
  shows "appr (andThen m f) (andThen m' f')"
  unfolding appr_def
proof (intro allI impI)
  fix st r assume r: "andThen m f st = Some r"
  then obtain q st1 where "m st = Some (q, st1)" by (auto simp: andThen_def split: option.splits)
  moreover from this have "m' st = Some (q, st1)" using assms(1) by (simp add: appr_def)
  ultimately show "andThen m' f' st = Some r" using r assms(2) by (cases q) (auto simp: andThen_def appr_def simp del: split_paired_All)
qed

lemma appr_call_function: "appr E E' \<Longrightarrow> appr (call_function L E f) (call_function L E' f)"
  unfolding call_function_def by (auto split: option.split intro!: appr_andThen)

lemma appr_symbol_primary: "appr E E' \<Longrightarrow> appr (symbol_primary L E f) (symbol_primary L E' f)"
  unfolding symbol_primary_def by (auto split: TokenType.split intro!: appr_andThen)

lemma appr_primary_body:
  assumes "appr (p True) (p' True)" "appr (e True) (e' True)" "appr (c True) (c' True)"
  shows "appr (primary_body L p e c) (primary_body L p' e' c')"
proof -
  have name: "appr (andThen (get_token L True) (\<lambda>t. if t = LHPAREN then call_function L (e True) w else symbol_primary L (e True) w))
      (andThen (get_token L True) (\<lambda>t. if t = LHPAREN then call_function L (e' True) w else symbol_primary L (e' True) w))" for w
    using assms(2) by (intro appr_andThen) (auto intro: appr_call_function appr_symbol_primary)
  have "appr (andThen (p True) f) (andThen (p' True) f)" "appr (andThen (c True) f) (andThen (c' True) f)"
    for f :: "'a ExprValue \<Rightarrow> ('a, 'b, 'a ExprValue) comp"
    using assms by (auto intro: appr_andThen)
  then show ?thesis using name unfolding appr_def primary_body_def by (auto split: TokenType.split)
qed

lemma appr_level_loop: "appr E E' \<Longrightarrow> n \<le> m \<Longrightarrow> appr (level_loop ops E n v) (level_loop ops E' m v)"
proof (induction n arbitrary: m v)
  case (Suc n)
  then obtain k where m: "m = Suc k" "n \<le> k" by (cases m) simp_all
  have "appr (andThen E (\<lambda>d. andThen (f v d) (level_loop ops E n))) (andThen E' (\<lambda>d. andThen (f v d) (level_loop ops E' k)))" for f
    using Suc.prems(1) Suc.IH [OF Suc.prems(1) m(2)] by (intro appr_andThen) auto
  then show ?case unfolding m(1) appr_def by (auto split: option.split)
qed (simp add: appr_def)

lemma appr_level: "appr (E True) (E' True) \<Longrightarrow> n \<le> m \<Longrightarrow> appr (level ops n E True) (level ops m E' True)"
  unfolding level_def by (intro appr_andThen appr_level_loop)

lemma appr_levels:
  assumes "appr (p True) (p' True)" and "n \<le> m"
  shows "appr (Expression_over L n p True) (Expression_over L m p' True)"
    and "appr (CommaList_over L n p True) (CommaList_over L m p' True)"
  using assms
  by (simp_all add: CommaList_over_def Expression_over_def Comparison_over_def AddSubtract_over_def Term_over_def appr_level)

lemma appr_Primary: "n \<le> m \<Longrightarrow> appr (Primary L n True) (Primary L m True)"
proof (induction n arbitrary: m)
  case (Suc n)
  then obtain k where m: "m = Suc k" "n \<le> k" by (cases m) simp_all
  then have "appr (Primary L n True) (Primary L k True)" using Suc.IH by simp
  then show ?case
    using m by (auto simp: Let_def intro!: appr_andThen appr_primary_body appr_levels)
qed (simp add: appr_def)

lemma appr_Evaluate: "n \<le> m \<Longrightarrow> appr (Evaluate L n) (Evaluate L m)"
proof -
  assume "n \<le> m"
  then have "appr (CommaList L n True) (CommaList L m True)"
    using appr_levels(2) [of "Primary L n" "Primary L m" n m L] appr_Primary [of n m L] by (simp add: CommaList_def)
  then have "appr (andThen (CommaList L n True) f) (andThen (CommaList L m True) f)" for f :: "'a ExprValue \<Rightarrow> ('a, 'b, 'a ExprValue) comp"
    by (rule appr_andThen) simp
  then show ?thesis unfolding appr_def Evaluate_def by blast
qed

lemma Evaluate_runs:
  assumes "length (program st) < n" and "state_ok L d st"
  shows "\<exists>r st'. Evaluate L n st = Some (r, st') \<and> state_ok L d st' \<and> (\<forall>v. r = Inr v \<longrightarrow> val_ok L d v)"
proof -
  have c: "runs L d n 1 (val_ok L d) (CommaList L n True)"
    unfolding CommaList_def by (rule levels_run(2) [where primary = "Primary L n", OF Primary_runs])
  obtain r st1 where "CommaList L n True (st\<lparr>pWord := program st, tok_type := NONE\<rparr>) = Some (r, st1)" "state_ok L d st1"
      "\<And>v. r = Inr v \<Longrightarrow> val_ok L d v"
    using runsD [OF c, of "st\<lparr>pWord := program st, tok_type := NONE\<rparr>"] assms by (auto simp: state_ok_def)
  then show ?thesis by (cases r) (auto simp: Evaluate_def andThen_def)
qed

section \<open>Undefined behaviour\<close>

text \<open>
  The only undefined behaviour of the evaluator itself is a string literal without its closing quote. The scanner
  takes quotes in pairs, so a program with an even number of quotes is never read past its end.
\<close>

definition closed :: "bytes \<Rightarrow> bool" where
  "closed s \<longleftrightarrow> even (count_list s 34)"

definition clean_run :: "('d, 'w) ExprParser \<Rightarrow> ('a outcome \<times> ('d, 'w) ExprParser) option \<Rightarrow> bool" where
  "clean_run st res \<longleftrightarrow>
     (\<forall>r st'. res = Some (r, st') \<and> closed (pWord st) \<longrightarrow>
        r \<noteq> Inl undefined_behaviour \<and> (\<forall>x. r = Inr x \<longrightarrow> closed (pWord st')))"

definition clean :: "('d, 'w, 'a) comp \<Rightarrow> bool" where
  "clean m \<longleftrightarrow> (\<forall>st. clean_run st (m st))"

text \<open>What is asked of the user functions: they do not run into undefined behaviour.\<close>

definition lib_clean :: "('d, 'w) expr_lib \<Rightarrow> bool" where
  "lib_clean L \<longleftrightarrow>
     (\<forall>name f v e. one_common L name = Some f \<longrightarrow> fst (f v e) \<noteq> Inl undefined_behaviour) \<and>
     (\<forall>name f v1 v2 e. two_common L name = Some f \<longrightarrow> fst (f v1 v2 e) \<noteq> Inl undefined_behaviour)"

lemma closed_append: "34 \<notin> set p \<Longrightarrow> closed (p @ s) = closed s"
  by (simp add: closed_def)

lemma closed_dropWhile:
  assumes "\<not> P 34"
  shows "closed (dropWhile P s) = closed s"
proof -
  have "34 \<notin> set (takeWhile P s)" using assms by (auto dest: set_takeWhileD)
  then show ?thesis using closed_append [of "takeWhile P s" "dropWhile P s"] by simp
qed

lemma closed_tl: "peek s \<noteq> 34 \<Longrightarrow> closed (tl s) = closed s"
  by (cases s) (auto simp: peek_def closed_def)

lemma closed_drop2: "peek s \<noteq> 34 \<Longrightarrow> peek (tl s) \<noteq> 34 \<Longrightarrow> closed (drop 2 s) = closed s"
  using closed_tl [of s] closed_tl [of "tl s"] by (simp add: drop_Suc numeral_2_eq_2)

lemma digit_34: "\<not> IS_DIGIT 34"
  by (simp add: IS_DIGIT_def char_range_def)

lemma alpha_34: "\<not> IS_ALPHA 34"
  by (simp add: IS_ALPHA_def char_range_def)

lemma space_34: "\<not> isspace 34"
  by (simp add: isspace_def char_range_def)

lemma closed_sign: "is_sign (peek s) \<Longrightarrow> closed (tl s) = closed s"
  by (rule closed_tl) (auto simp: is_sign_def)

lemma closed_scan_number: "closed (scan_number s) = closed s"
proof -
  define t where "t = dropWhile (\<lambda>c. IS_DIGIT c \<or> c = 46) (if is_sign (peek s) then tl s else s)"
  define u where "u = (if is_sign (peek (tl t)) then tl (tl t) else tl t)"
  have t: "closed t = closed s" using closed_sign [of s] by (simp add: t_def closed_dropWhile digit_34)
  have "closed (dropWhile IS_DIGIT u) = closed (tl t)"
    using closed_sign [of "tl t"] by (simp add: closed_dropWhile digit_34 u_def)
  then have "closed (dropWhile IS_DIGIT u) = closed t" if "peek t = 101 \<or> peek t = 69"
    using that closed_tl [of t] by auto
  then show ?thesis using t by (simp add: scan_number_def t_def [symmetric] u_def [symmetric] Let_def)
qed

lemma number_token_clean:
  "number_token L s st = (r, st') \<Longrightarrow> closed s \<Longrightarrow> r \<noteq> Inl undefined_behaviour \<and> closed (pWord st')"
  by (auto simp: number_token_def Let_def closed_scan_number split: if_splits prod.splits)

lemma closed_literal:
  assumes "peek s = 34" and "closed s"
  shows "dropWhile (\<lambda>c. c \<noteq> 34) (tl s) \<noteq> []" and "closed (tl (dropWhile (\<lambda>c. c \<noteq> 34) (tl s)))"
proof -
  define q where "q = dropWhile (\<lambda>c. c \<noteq> 34) (tl s)"
  have s: "s = 34 # tl s" using assms(1) by (cases s) (auto simp: peek_def split: if_splits)
  have "odd (count_list (tl s) 34)" using assms(2) by (subst (asm) s) (simp add: closed_def)
  moreover have "closed q = closed (tl s)" unfolding q_def by (rule closed_dropWhile) simp
  ultimately have odd: "odd (count_list q 34)" by (simp add: closed_def)
  then have "q \<noteq> []" by (cases q) simp_all
  then show ne: "dropWhile (\<lambda>c. c \<noteq> 34) (tl s) \<noteq> []" by (simp only: q_def not_False_eq_True)
  have "hd q = 34" using hd_dropWhile [OF ne] by (simp add: q_def)
  then show "closed (tl (dropWhile (\<lambda>c. c \<noteq> 34) (tl s)))" using odd ne by (cases q) (auto simp: closed_def q_def [symmetric])
qed

lemma word_token_clean:
  "word_token s st = (r, st') \<Longrightarrow> pWord st = s \<Longrightarrow> closed s \<Longrightarrow> r \<noteq> Inl undefined_behaviour \<and> closed (pWord st')"
  using closed_literal [of s]
  by (auto simp: word_token_def Let_def closed_dropWhile alpha_34 digit_34 split: if_splits)

lemma GetToken_clean:
  assumes "GetToken L g st = (r, st')" and "closed (pWord st)"
  shows "r \<noteq> Inl undefined_behaviour \<and> closed (pWord st')"
proof -
  define s where "s = dropWhile (\<lambda>c. c \<noteq> 0 \<and> isspace c) (pWord st)"
  have s: "closed s" using assms(2) space_34 by (simp add: s_def closed_dropWhile)
  have two: "closed (drop 2 s)" if "peek s \<noteq> 34" "peek (tl s) \<noteq> 34" using closed_drop2 [OF that] s by simp
  have one: "closed (tl s)" if "peek s \<noteq> 34" using closed_tl [OF that] s by simp
  have eq: "c \<noteq> 34" if "with_equal c \<noteq> NONE" for c using that by (auto simp: with_equal_def)
  have single: "c \<noteq> 34" if "single_token c = Some t" for c t using that by (auto simp: single_token_def)
  show ?thesis
    using assms(1) s two one eq single
    by (auto simp: GetToken_def s_def [symmetric] Let_def split: if_splits option.splits
        dest!: number_token_clean word_token_clean)
qed

lemma GetToken_unclosed:
  assumes "pWord st = p @ 34 # s" and "34 \<notin> set s" and "\<forall>c \<in> set p. c \<noteq> 0 \<and> isspace c"
  shows "fst (GetToken L g st) = Inl undefined_behaviour"
proof -
  have "dropWhile (\<lambda>c. c \<noteq> 34) s = []" using assms(2) by auto
  moreover have "dropWhile (\<lambda>c. c \<noteq> 0 \<and> isspace c) (pWord st) = 34 # s"
    using assms(1,3) space_34 by (simp add: dropWhile_append2)
  ultimately show ?thesis
    using digit_34
    by (simp add: GetToken_def word_token_def Let_def number_starts_def is_sign_def with_equal_def single_token_def
        peek_def alpha_34)
qed

text \<open>Computations built from clean ones are clean.\<close>

named_theorems clean_intros

lemma clean_andThen [clean_intros]:
  assumes "clean m" and "\<And>x. clean (f x)"
  shows "clean (andThen m f)"
  unfolding clean_def clean_run_def
proof (intro allI impI)
  fix st r st' assume run: "andThen m f st = Some (r, st') \<and> closed (pWord st)"
  then obtain q st1 where m: "m st = Some (q, st1)" by (auto simp: andThen_def split: option.splits)
  then have q: "q \<noteq> Inl undefined_behaviour" "q = Inr x \<Longrightarrow> closed (pWord st1)" for x
    using assms(1) run unfolding clean_def clean_run_def by blast+
  show "r \<noteq> Inl undefined_behaviour \<and> (\<forall>x. r = Inr x \<longrightarrow> closed (pWord st'))"
  proof (cases q)
    case (Inl e)
    then show ?thesis using m run q(1) by (auto simp: andThen_def)
  next
    case (Inr x)
    then have "f x st1 = Some (r, st')" using m run by (simp add: andThen_def)
    then show ?thesis using assms(2) [of x] q(2) [OF Inr] unfolding clean_def clean_run_def by blast
  qed
qed

lemma cleanD: "clean m \<Longrightarrow> clean_run st (m st)"
  by (simp add: clean_def)

lemma cleanI: "(\<And>st. clean_run st (m st)) \<Longrightarrow> clean m"
  by (simp add: clean_def)

lemma clean_return [clean_intros]: "clean (return x)"
  by (simp add: clean_def clean_run_def return_def)

lemma clean_throw [clean_intros]: "clean (throw (runtime_error m))"
  by (simp add: clean_def clean_run_def throw_def)

lemma clean_lift: "r \<noteq> Inl undefined_behaviour \<Longrightarrow> clean (lift r)"
  by (auto simp: clean_def clean_run_def lift_def)

lemma clean_current [clean_intros]: "clean current"
  by (simp add: clean_def clean_run_def current_def)

lemma clean_CheckToken [clean_intros]: "clean (CheckToken t)"
  by (simp add: clean_def clean_run_def CheckToken_def)

lemma clean_get_token [clean_intros]: "clean (get_token L g)"
  unfolding clean_def clean_run_def get_token_def using GetToken_clean by fastforce

lemma clean_symbols [clean_intros]:
  "clean (symbol_ref L name)" "clean (read_symbol L name)" "clean (write_symbol name v)"
  by (auto simp: clean_def clean_run_def symbol_ref_def read_symbol_def write_symbol_def split: option.splits)

lemma clean_run_world: "(\<And>w. fst (f w) \<noteq> Inl undefined_behaviour) \<Longrightarrow> clean (run_world f)"
  by (auto simp: clean_def clean_run_def run_world_def split: prod.splits) (metis fst_conv)

lemma clean_run_env: "(\<And>e. fst (f e) \<noteq> Inl undefined_behaviour) \<Longrightarrow> clean (run_env f)"
  by (auto simp: clean_def clean_run_def run_env_def split: prod.splits) (metis fst_conv)

lemma clean_unless_detect [clean_intros]: "clean m \<Longrightarrow> clean (unless_detect L m)"
  by (auto simp: clean_def clean_run_def unless_detect_def)

lemma clean_end_call [clean_intros]: "clean m \<Longrightarrow> clean (end_call L m)"
  unfolding end_call_def by (intro clean_intros)

text \<open>The operations on values throw \<^verbatim>\<open>std::runtime_error\<close> only.\<close>

named_theorems value_clean

lemma compare_clean [value_clean]: "compare_values L f g h a b \<noteq> Inl undefined_behaviour"
  by (simp add: compare_values_def split: TokenType.split)

lemma bool_clean [value_clean]: "ev_bool L a \<noteq> Inl undefined_behaviour"
  by (simp add: ev_bool_def split: TokenType.split)

lemma arith_clean [value_clean]: "arith_assign L f g h a b \<noteq> Inl undefined_behaviour"
  by (simp add: arith_assign_def Let_def split: TokenType.split option.split)

lemma minus_clean [value_clean]: "ev_minus L a b \<noteq> Inl undefined_behaviour"
  by (simp add: ev_minus_def Let_def split: TokenType.split)

lemma map_sum_clean [simp]: "map_sum id f r = Inl undefined_behaviour \<longleftrightarrow> r = Inl undefined_behaviour"
  by (cases r) simp_all

lemmas value_ops = comparisons_def mul_assign_def div_assign_def add_assign_def sub_assign_def

lemma not_zero_clean [value_clean]: "not_zero L a \<noteq> Inl undefined_behaviour"
  by (auto simp: not_zero_def ev_ne_def bool_clean compare_clean split: sum.split)

lemma branch_clean [value_clean]:
  "DoMin L a b \<noteq> Inl undefined_behaviour" "DoMax L a b \<noteq> Inl undefined_behaviour" "DoIf L a b c \<noteq> Inl undefined_behaviour"
  by (auto simp: bool_clean compare_clean DoMin_def DoMax_def DoIf_def comparisons_def split: sum.split)

lemma two_argument_clean: "TwoArgumentFunctions L name = Some f \<Longrightarrow> fst (f a b w) \<noteq> Inl undefined_behaviour"
  by (auto simp: value_clean TwoArgumentFunctions_def DoFmod_def DoPow_def DoRoll_def map_prod_def split: if_splits prod.splits)

lemma three_argument_clean: "ThreeArgumentFunctions L name = Some f \<Longrightarrow> f a b c \<noteq> Inl undefined_behaviour"
  by (auto simp: value_clean ThreeArgumentFunctions_def split: if_splits)

lemma call_function_clean:
  assumes "lib_clean L" and "clean expression"
  shows "clean (call_function L expression name)"
proof -
  have env: "clean (andThen expression (\<lambda>v. end_call L (unless_detect L (run_env (f v)))))"
    if "one_common L name = Some f" for f
    using assms that by (intro clean_intros clean_run_env) (auto simp: lib_clean_def)
  have env2: "clean (andThen expression (\<lambda>v. andThen (CheckToken COMMA) (\<lambda>_.
      andThen expression (\<lambda>w. end_call L (unless_detect L (run_env (f v w)))))))"
    if "two_common L name = Some f" for f
    using assms that by (intro clean_intros clean_run_env) (auto simp: lib_clean_def)
  have world: "clean (run_world (\<lambda>w. map_prod (\<lambda>d. Inr (ExprValue_double d)) id (f w)))"
    for f :: "'b \<Rightarrow> 'a \<times> 'b"
    by (intro clean_run_world) (simp add: map_prod_def split: prod.split)
  have world2: "clean (andThen expression (\<lambda>v. andThen (CheckToken COMMA) (\<lambda>_.
      andThen expression (\<lambda>w. end_call L (run_world (f v w))))))"
    if "TwoArgumentFunctions L name = Some f" for f
    using assms(2) by (intro clean_intros clean_run_world two_argument_clean [OF that])
  have three: "clean (andThen expression (\<lambda>v. andThen (CheckToken COMMA) (\<lambda>_.
      andThen expression (\<lambda>w. andThen (CheckToken COMMA) (\<lambda>_. andThen expression (\<lambda>x. end_call L (lift (f v w x))))))))"
    if "ThreeArgumentFunctions L name = Some f" for f
    using assms(2) by (intro clean_intros clean_lift three_argument_clean [OF that])
  show ?thesis
    unfolding call_function_def using env env2 world2 three
    by (auto split: option.split intro!: clean_intros assms(2) world)
qed

lemma check_divisor_clean [clean_intros]: "clean (check_divisor L a)"
  unfolding check_divisor_def
  by (auto intro!: clean_intros clean_lift simp: value_clean comparisons_def)

lemma update_symbol_clean:
  "(\<And>v. f v \<noteq> Inl undefined_behaviour) \<Longrightarrow> clean (update_symbol L name f)"
  unfolding update_symbol_def by (intro clean_intros clean_lift)

lemma symbol_primary_clean: "clean expression \<Longrightarrow> clean (symbol_primary L expression name)"
  unfolding symbol_primary_def
  by (auto split: TokenType.split intro!: clean_intros update_symbol_clean simp: value_clean value_ops)

lemma primary_body_clean:
  assumes "lib_clean L" "clean (primary True)" "clean (expression True)" "clean (commaList True)"
  shows "clean (primary_body L primary expression commaList)"
proof -
  note ops = clean_intros clean_lift assms(2,4) call_function_clean [OF assms(1,3)] symbol_primary_clean [OF assms(3)]
  have name: "clean (andThen (get_token L True) (\<lambda>t.
      if t = LHPAREN then call_function L (expression True) w else symbol_primary L (expression True) w))" for w
    by (auto intro!: ops)
  have neg: "clean (andThen (primary True) (\<lambda>v. lift (ev_minus L (ExprValue_int64 L 0) v)))"
    by (intro ops value_clean)
  have notp: "clean (andThen (primary True) (\<lambda>v. andThen (lift (ev_eq L v (ExprValue_double (d_zero L)))) (\<lambda>c.
      andThen (lift (ev_bool L c)) (\<lambda>b. return (ExprValue_double (if b then d_of_int L 1 else d_zero L))))))"
    by (intro ops) (simp_all add: value_clean comparisons_def)
  have paren: "clean (andThen (commaList True) (\<lambda>v. andThen (CheckToken RHPAREN) (\<lambda>_.
      andThen (get_token L True) (\<lambda>_. return v))))"
    by (intro ops)
  have lit: "clean (andThen (get_token L True) (\<lambda>_. return v))" for v :: "'a ExprValue"
    by (intro ops)
  show ?thesis
  proof (rule cleanI)
    fix st :: "('a, 'b) ExprParser"
    note parts = name neg notp paren lit clean_throw
    show "clean_run st (primary_body L primary expression commaList st)"
      unfolding primary_body_def
      by (cases "tok_type st"; simp only: TokenType.case; rule parts [THEN cleanD])
  qed
qed

definition ops_clean ::
  "(TokenType \<Rightarrow> ('d ExprValue \<Rightarrow> 'd ExprValue \<Rightarrow> ('d, 'w, 'd ExprValue) comp) option) \<Rightarrow> bool" where
  "ops_clean ops \<longleftrightarrow> (\<forall>t f a b. ops t = Some f \<longrightarrow> clean (f a b))"

lemma level_loop_clean: "clean E \<Longrightarrow> ops_clean ops \<Longrightarrow> clean (level_loop ops E n a)"
proof (induction n arbitrary: a)
  case (Suc n)
  show ?case
  proof (rule cleanI)
    fix st :: "('a, 'b) ExprParser"
    show "clean_run st (level_loop ops E (Suc n) a st)"
    proof (cases "ops (tok_type st)")
      case None
      then show ?thesis by (simp add: cleanD [OF clean_return])
    next
      case (Some f)
      then have "clean (andThen E (\<lambda>d. andThen (f a d) (level_loop ops E n)))"
        using Suc by (auto simp: ops_clean_def intro!: clean_intros)
      then show ?thesis using Some by (simp add: cleanD)
    qed
  qed
qed (simp add: clean_def clean_run_def)

lemma level_clean: "clean (E True) \<Longrightarrow> ops_clean ops \<Longrightarrow> clean (level ops n E True)"
  unfolding level_def by (intro clean_intros level_loop_clean)

lemma grammar_ops_clean:
  "ops_clean (term_ops L)" "ops_clean (addsub_ops L)" "ops_clean (comparison_ops L)" "ops_clean (expression_ops L)"
  "ops_clean comma_ops"
  by (auto simp: ops_clean_def term_ops_def addsub_ops_def comparison_ops_def expression_ops_def comma_ops_def
      comparison_value_def logic_value_def value_clean value_ops
      intro!: clean_intros clean_lift split: TokenType.splits)

lemma levels_clean:
  assumes "clean (p True)"
  shows "clean (Expression_over L n p True)" "clean (CommaList_over L n p True)"
  unfolding CommaList_over_def Expression_over_def Comparison_over_def AddSubtract_over_def Term_over_def
  by (intro level_clean grammar_ops_clean assms)+

lemma Primary_clean: "lib_clean L \<Longrightarrow> clean (Primary L n True)"
proof (induction n)
  case (Suc n)
  then show ?case by (simp add: clean_intros primary_body_clean levels_clean)
qed (simp add: clean_def clean_run_def)

lemma Evaluate_clean:
  assumes "lib_clean L" and "closed (program st)" and "Evaluate L n st = Some (r, st')"
  shows "r \<noteq> Inl undefined_behaviour"
proof -
  let ?st = "st\<lparr>pWord := program st, tok_type := NONE\<rparr>"
  have c: "clean (CommaList L n True)" unfolding CommaList_def by (intro levels_clean Primary_clean assms)
  obtain q st1 where q: "CommaList L n True ?st = Some (q, st1)"
    using assms(3) by (auto simp: Evaluate_def andThen_def split: option.splits)
  then have "q \<noteq> Inl undefined_behaviour" using cleanD [OF c, of ?st] assms(2) by (simp add: clean_run_def)
  then show ?thesis using assms(3) q by (cases q) (auto simp: Evaluate_def andThen_def split: if_splits)
qed

text \<open>A program that is one string literal without its end.\<close>

lemma Evaluate_unclosed:
  assumes "length (program st) < n" and "34 \<notin> set s" and "program st = p @ 34 # s" and "\<forall>c \<in> set p. c \<noteq> 0 \<and> isspace c"
  shows "\<exists>st'. Evaluate L n st = Some (Inl undefined_behaviour, st')"
proof -
  let ?st = "st\<lparr>pWord := program st, tok_type := NONE\<rparr>"
  obtain k where n: "n = Suc k" using assms(1) by (cases n) simp_all
  obtain st1 where g: "GetToken L False ?st = (Inl undefined_behaviour, st1)"
    using GetToken_unclosed [of ?st p s L False] assms by (cases "GetToken L False ?st") auto
  then have "Primary L n True ?st = Some (Inl undefined_behaviour, st1)"
    by (simp add: n andThen_def get_token_def Let_def)
  then show ?thesis
    by (auto simp: Evaluate_def CommaList_def CommaList_over_def Expression_over_def Comparison_over_def AddSubtract_over_def
        Term_over_def level_def andThen_def)
qed

text \<open>An instance of the library for examples: doubles are integers.\<close>

definition toy_expr :: "(int, int) expr_lib" where
  "toy_expr =
     \<lparr>d_of_int = id, d_add = (+), d_sub = (-), d_mul = (*), d_div = (div), d_eq = (=), d_lt = (<), d_le = (\<le>),
      d_fmod = (mod), d_pow = (\<lambda>x y. x ^ nat y), cmath = (\<lambda>f x. if f = ''fabs'' then \<bar>x\<bar> else x),
      d_to_int = id, d_to_int64 = id, d_read = (\<lambda>t. (strtol10 t, False, True)), d_print = dec_int,
      d_pi = 3, d_e = 2, c_rand = (\<lambda>w. (w, w + 1)), junk_b = True, junk_d = 99, junk_i = 98,
      one_common = (\<lambda>f. None), two_common = (\<lambda>f. None)\<rparr>"

section \<open>Property\<close>



end
