(* ===== verification/ExprMeaning.thy ===== *)
theory ExprMeaning
  imports ExprParser
begin

text \<open>
  A specification of the expression evaluator: abstract syntax, an evaluation function on the symbol table, and a
  printer that follows the precedences of the documentation in \<^verbatim>\<open>exprparser.cpp\<close>.
\<close>

section \<open>Abstract syntax\<close>

text \<open>Binary operators and assignments are named by their tokens.\<close>

datatype expr =
    EInt nat
  | EFlt bytes
  | EStr bytes
  | EVar bytes
  | ESet TokenType bytes expr
  | ENeg expr
  | ENot expr
  | EBin TokenType expr expr
  | ESeq expr expr
  | ECall1 bytes expr
  | ECall2 bytes expr expr
  | ECall3 bytes expr expr expr

definition op_level :: "TokenType \<Rightarrow> nat" where
  "op_level t =
     (case t of
        MULTIPLY \<Rightarrow> 5 | DIVIDE \<Rightarrow> 5 | PLUS \<Rightarrow> 4 | MINUS \<Rightarrow> 4
      | LT \<Rightarrow> 3 | GT \<Rightarrow> 3 | LE \<Rightarrow> 3 | GE \<Rightarrow> 3 | EQ \<Rightarrow> 3 | NE \<Rightarrow> 3
      | TOK_AND \<Rightarrow> 2 | TOK_OR \<Rightarrow> 2 | _ \<Rightarrow> 0)"

definition assignment :: "TokenType \<Rightarrow> bool" where
  "assignment t \<longleftrightarrow> t \<in> {ASSIGN, ASSIGN_ADD, ASSIGN_SUB, ASSIGN_MUL, ASSIGN_DIV}"

section \<open>Meaning\<close>

definition then_value :: "'a outcome \<Rightarrow> ('a \<Rightarrow> 'b outcome) \<Rightarrow> 'b outcome" where
  "then_value r f = (case r of Inl e \<Rightarrow> Inl e | Inr x \<Rightarrow> f x)"

definition is_zero :: "('d, 'w) expr_lib \<Rightarrow> 'd ExprValue \<Rightarrow> bool outcome" where
  "is_zero L b =
     (if v_type b = UNSURE then Inr False
      else then_value (ev_eq L b (ExprValue_double (d_zero L))) (ev_bool L))"

definition division :: "('d, 'w) expr_lib \<Rightarrow> 'd ExprValue \<Rightarrow> 'd ExprValue \<Rightarrow> ('d ExprValue \<times> 'd ExprValue) outcome" where
  "division L a b =
     then_value (is_zero L b) (\<lambda>zero. if zero then Inl (runtime_error ''Divide by zero'') else div_assign L a b)"

definition truth :: "('d, 'w) expr_lib \<Rightarrow> 'd ExprValue outcome \<Rightarrow> 'd ExprValue outcome" where
  "truth L r =
     then_value r (\<lambda>v. if v_type v = UNSURE then Inr v
       else map_sum id (\<lambda>b. assign_double (if b then d_of_int L 1 else d_zero L) v) (ev_bool L v))"

definition connective :: "('d, 'w) expr_lib \<Rightarrow> bool \<Rightarrow> 'd ExprValue \<Rightarrow> 'd ExprValue \<Rightarrow> 'd ExprValue outcome" where
  "connective L stop a b =
     (if v_type a = UNSURE then Inr a
      else then_value (not_zero L a) (\<lambda>p. if p = stop then Inr (assign_bool p a)
             else map_sum id (\<lambda>q. assign_bool q a) (not_zero L b)))"

definition binary :: "('d, 'w) expr_lib \<Rightarrow> TokenType \<Rightarrow> 'd ExprValue \<Rightarrow> 'd ExprValue \<Rightarrow> 'd ExprValue outcome" where
  "binary L t a b =
     (case t of
        MULTIPLY \<Rightarrow> map_sum id snd (mul_assign L a b)
      | DIVIDE \<Rightarrow> map_sum id snd (division L a b)
      | PLUS \<Rightarrow> map_sum id snd (add_assign L a b)
      | MINUS \<Rightarrow> map_sum id snd (sub_assign L a b)
      | LT \<Rightarrow> truth L (ev_lt L a b)
      | GT \<Rightarrow> truth L (ev_gt L a b)
      | LE \<Rightarrow> truth L (ev_le L a b)
      | GE \<Rightarrow> truth L (ev_ge L a b)
      | EQ \<Rightarrow> truth L (ev_eq L a b)
      | NE \<Rightarrow> truth L (ev_ne L a b)
      | TOK_AND \<Rightarrow> connective L False a b
      | TOK_OR \<Rightarrow> connective L True a b
      | _ \<Rightarrow> Inl out_of_range)"

definition assigned ::
  "('d, 'w) expr_lib \<Rightarrow> TokenType \<Rightarrow> 'd ExprValue \<Rightarrow> 'd ExprValue \<Rightarrow> 'd ExprValue outcome" where
  "assigned L t old v =
     (case t of
        ASSIGN \<Rightarrow> Inr v
      | ASSIGN_ADD \<Rightarrow> map_sum id snd (add_assign L old v)
      | ASSIGN_SUB \<Rightarrow> map_sum id snd (sub_assign L old v)
      | ASSIGN_MUL \<Rightarrow> map_sum id snd (mul_assign L old v)
      | ASSIGN_DIV \<Rightarrow> map_sum id snd (division L old v)
      | _ \<Rightarrow> Inl out_of_range)"

text \<open>Evaluation changes the symbol table and the state of the process, also when it throws.\<close>

type_synonym ('d, 'w, 'a) eff = "('d, 'w) env \<Rightarrow> 'a outcome \<times> ('d, 'w) env"

definition bind :: "('d, 'w, 'a) eff \<Rightarrow> ('a \<Rightarrow> ('d, 'w, 'b) eff) \<Rightarrow> ('d, 'w, 'b) eff" where
  "bind m f e = (case m e of (Inl err, e) \<Rightarrow> (Inl err, e) | (Inr x, e) \<Rightarrow> f x e)"

definition pure :: "'a outcome \<Rightarrow> ('d, 'w, 'a) eff" where
  "pure r e = (r, e)"

definition lookup :: "('d, 'w) expr_lib \<Rightarrow> bytes \<Rightarrow> (bytes \<rightharpoonup> 'd ExprValue) \<Rightarrow> 'd ExprValue" where
  "lookup L x sy = (case sy x of None \<Rightarrow> ExprValue_default L | Some v \<Rightarrow> v)"

definition declare_symbol :: "('d, 'w) expr_lib \<Rightarrow> bytes \<Rightarrow> ('d, 'w, unit) eff" where
  "declare_symbol L x e = (Inr (), ((fst e)(x \<mapsto> lookup L x (fst e)), snd e))"

definition store :: "('d, 'w) expr_lib \<Rightarrow> TokenType \<Rightarrow> bytes \<Rightarrow> 'd ExprValue \<Rightarrow> ('d, 'w, 'd ExprValue) eff" where
  "store L t x v e =
     (case assigned L t (lookup L x (fst e)) v of
        Inl err \<Rightarrow> (Inl err, e)
      | Inr new \<Rightarrow> (Inr new, ((fst e)(x \<mapsto> new), snd e)))"

definition on_world :: "('w \<Rightarrow> 'a outcome \<times> 'w) \<Rightarrow> ('d, 'w, 'a) eff" where
  "on_world f e = (case f (snd e) of (r, w) \<Rightarrow> (r, (fst e, w)))"

text \<open>A call: the built-in functions come first; when \<open>d\<close> is set user functions are not called.\<close>

definition apply1 :: "('d, 'w) expr_lib \<Rightarrow> bool \<Rightarrow> bytes \<Rightarrow> 'd ExprValue \<Rightarrow> ('d, 'w, 'd ExprValue) eff" where
  "apply1 L d f v =
     (case OneArgumentFunctions L f of
        Some g \<Rightarrow> on_world (\<lambda>w. map_prod (\<lambda>x. Inr (ExprValue_double x)) id (g (d_value v) w))
      | None \<Rightarrow>
          (case one_common L f of
             Some g \<Rightarrow> if d then pure (Inr (ExprValue_of_type L UNSURE)) else g v
           | None \<Rightarrow> pure (Inl out_of_range)))"

definition apply2 ::
  "('d, 'w) expr_lib \<Rightarrow> bool \<Rightarrow> bytes \<Rightarrow> 'd ExprValue \<Rightarrow> 'd ExprValue \<Rightarrow> ('d, 'w, 'd ExprValue) eff" where
  "apply2 L d f v1 v2 =
     (case TwoArgumentFunctions L f of
        Some g \<Rightarrow> on_world (g v1 v2)
      | None \<Rightarrow>
          (case two_common L f of
             Some g \<Rightarrow> if d then pure (Inr (ExprValue_of_type L UNSURE)) else g v1 v2
           | None \<Rightarrow> pure (Inl out_of_range)))"

definition apply3 ::
  "('d, 'w) expr_lib \<Rightarrow> bytes \<Rightarrow> 'd ExprValue \<Rightarrow> 'd ExprValue \<Rightarrow> 'd ExprValue \<Rightarrow> ('d, 'w, 'd ExprValue) eff" where
  "apply3 L f v1 v2 v3 =
     (case ThreeArgumentFunctions L f of Some g \<Rightarrow> pure (g v1 v2 v3) | None \<Rightarrow> pure (Inl out_of_range))"

definition arity :: "('d, 'w) expr_lib \<Rightarrow> bytes \<Rightarrow> nat" where
  "arity L f =
     (if OneArgumentFunctions L f \<noteq> None \<or> one_common L f \<noteq> None then 1
      else if TwoArgumentFunctions L f \<noteq> None \<or> two_common L f \<noteq> None then 2
      else if ThreeArgumentFunctions L f \<noteq> None then 3 else 0)"

fun eval :: "('d, 'w) expr_lib \<Rightarrow> bool \<Rightarrow> expr \<Rightarrow> ('d, 'w, 'd ExprValue) eff" where
  "eval L d (EInt k) = pure (Inr (ExprValue_int64 L (of_nat k)))"
| "eval L d (EFlt t) = pure (Inr (ExprValue_double (fst (d_read L t))))"
| "eval L d (EStr s) = pure (Inr (ExprValue_string L s))"
| "eval L d (EVar x) = bind (declare_symbol L x) (\<lambda>_ e. (Inr (lookup L x (fst e)), e))"
| "eval L d (ESet t x a) = bind (declare_symbol L x) (\<lambda>_. bind (eval L d a) (store L t x))"
| "eval L d (ENeg a) = bind (eval L d a) (\<lambda>v. pure (ev_minus L (ExprValue_int64 L 0) v))"
| "eval L d (ENot a) =
     bind (eval L d a) (\<lambda>v. pure (then_value (ev_eq L v (ExprValue_double (d_zero L))) (\<lambda>c.
       map_sum id (\<lambda>b. ExprValue_double (if b then d_of_int L 1 else d_zero L)) (ev_bool L c))))"
| "eval L d (EBin t a b) = bind (eval L d a) (\<lambda>x. bind (eval L d b) (\<lambda>y. pure (binary L t x y)))"
| "eval L d (ESeq a b) = bind (eval L d a) (\<lambda>_. eval L d b)"
| "eval L d (ECall1 f a) = bind (eval L d a) (apply1 L d f)"
| "eval L d (ECall2 f a b) = bind (eval L d a) (\<lambda>x. bind (eval L d b) (apply2 L d f x))"
| "eval L d (ECall3 f a b c) =
     bind (eval L d a) (\<lambda>x. bind (eval L d b) (\<lambda>y. bind (eval L d c) (apply3 L f x y)))"

section \<open>Printing\<close>

datatype tok = TInt nat | TFlt bytes | TStr bytes | TName bytes | TSym TokenType

definition sym_text :: "TokenType \<Rightarrow> bytes" where
  "sym_text t =
     (case t of
        PLUS \<Rightarrow> [43] | MINUS \<Rightarrow> [45] | MULTIPLY \<Rightarrow> [42] | DIVIDE \<Rightarrow> [47] | ASSIGN \<Rightarrow> [61] | LHPAREN \<Rightarrow> [40]
      | RHPAREN \<Rightarrow> [41] | COMMA \<Rightarrow> [44] | TOK_NOT \<Rightarrow> [33] | LT \<Rightarrow> [60] | GT \<Rightarrow> [62] | LE \<Rightarrow> [60, 61] | GE \<Rightarrow> [62, 61]
      | EQ \<Rightarrow> [61, 61] | NE \<Rightarrow> [33, 61] | TOK_AND \<Rightarrow> [38, 38] | TOK_OR \<Rightarrow> [124, 124] | ASSIGN_ADD \<Rightarrow> [43, 61]
      | ASSIGN_SUB \<Rightarrow> [45, 61] | ASSIGN_MUL \<Rightarrow> [42, 61] | ASSIGN_DIV \<Rightarrow> [47, 61] | _ \<Rightarrow> [])"

fun tok_text :: "tok \<Rightarrow> bytes" where
  "tok_text (TInt k) = dec_nat k"
| "tok_text (TFlt t) = t"
| "tok_text (TStr s) = 34 # s @ [34]"
| "tok_text (TName x) = x"
| "tok_text (TSym t) = sym_text t"

definition render :: "tok list \<Rightarrow> bytes" where
  "render ts = concat (map (\<lambda>t. 32 # tok_text t) ts)"

fun expr_level :: "expr \<Rightarrow> nat" where
  "expr_level (ESeq a b) = 0"
| "expr_level (ESet t x a) = 1"
| "expr_level (EBin t a b) = op_level t"
| "expr_level _ = 6"

text \<open>The tokens of an expression at a level; the left operand may have the level of its operator.\<close>

definition paren :: "nat \<Rightarrow> expr \<Rightarrow> tok list \<Rightarrow> tok list" where
  "paren p e ts = (if expr_level e < p then TSym LHPAREN # ts @ [TSym RHPAREN] else ts)"

fun toks :: "expr \<Rightarrow> tok list" where
  "toks (EInt k) = [TInt k]"
| "toks (EFlt t) = [TFlt t]"
| "toks (EStr s) = [TStr s]"
| "toks (EVar x) = [TName x]"
| "toks (ESet t x a) = TName x # TSym t # paren 1 a (toks a)"
| "toks (ENeg a) = TSym MINUS # paren 6 a (toks a)"
| "toks (ENot a) = TSym TOK_NOT # paren 6 a (toks a)"
| "toks (EBin t a b) = paren (op_level t) a (toks a) @ TSym t # paren (op_level t + 1) b (toks b)"
| "toks (ESeq a b) = toks a @ TSym COMMA # paren 1 b (toks b)"
| "toks (ECall1 f a) = TName f # TSym LHPAREN # paren 1 a (toks a) @ [TSym RHPAREN]"
| "toks (ECall2 f a b) =
     TName f # TSym LHPAREN # paren 1 a (toks a) @ TSym COMMA # paren 1 b (toks b) @ [TSym RHPAREN]"
| "toks (ECall3 f a b c) =
     TName f # TSym LHPAREN # paren 1 a (toks a) @ TSym COMMA # paren 1 b (toks b) @ TSym COMMA #
     paren 1 c (toks c) @ [TSym RHPAREN]"

definition show_expr :: "expr \<Rightarrow> bytes" where
  "show_expr e = render (toks e)"

text \<open>Expressions that have a text: literals and names are spelled right and calls have the right number of arguments.\<close>

definition name_ok :: "bytes \<Rightarrow> bool" where
  "name_ok x \<longleftrightarrow> x \<noteq> [] \<and> IS_ALPHA (hd x) \<and> list_all (\<lambda>c. IS_ALPHA c \<or> IS_DIGIT c \<or> c = 95) x"

definition flt_ok :: "('d, 'w) expr_lib \<Rightarrow> bytes \<Rightarrow> bool" where
  "flt_ok L t \<longleftrightarrow> IS_DIGIT (peek t) \<and> list_all (\<lambda>c. IS_DIGIT c \<or> c = 46) t \<and> 46 \<in> set t \<and>
     (case d_read L t of (x, fail, eof) \<Rightarrow> \<not> fail \<or> eof)"

fun wf :: "('d, 'w) expr_lib \<Rightarrow> expr \<Rightarrow> bool" where
  "wf L (EInt k) \<longleftrightarrow> k < 2 ^ 63"
| "wf L (EFlt t) \<longleftrightarrow> flt_ok L t"
| "wf L (EStr s) \<longleftrightarrow> 34 \<notin> set s"
| "wf L (EVar x) \<longleftrightarrow> name_ok x"
| "wf L (ESet t x a) \<longleftrightarrow> assignment t \<and> name_ok x \<and> wf L a"
| "wf L (ENeg a) \<longleftrightarrow> wf L a"
| "wf L (ENot a) \<longleftrightarrow> wf L a"
| "wf L (EBin t a b) \<longleftrightarrow> op_level t \<noteq> 0 \<and> wf L a \<and> wf L b"
| "wf L (ESeq a b) \<longleftrightarrow> wf L a \<and> wf L b"
| "wf L (ECall1 f a) \<longleftrightarrow> name_ok f \<and> arity L f = 1 \<and> wf L a"
| "wf L (ECall2 f a b) \<longleftrightarrow> name_ok f \<and> arity L f = 2 \<and> wf L a \<and> wf L b"
| "wf L (ECall3 f a b c) \<longleftrightarrow> name_ok f \<and> arity L f = 3 \<and> wf L a \<and> wf L b \<and> wf L c"

end
