(* ===== verification/ExprFacts.thy ===== *)
theory ExprFacts
  imports ExprTotal ExprMeaning
begin

text \<open>
  The evaluator meets its specification: \<^verbatim>\<open>Evaluate\<close> on the printed text of an expression gives the value of the
  expression. The scanner returns the printed tokens; every level of the grammar parses the tokens of its
  expressions, with the loops following the left spine of the operators.
\<close>

section \<open>Scanning\<close>

fun kind :: "tok \<Rightarrow> TokenType" where
  "kind (TInt k) = INTEGER64"
| "kind (TFlt t) = NUMBER"
| "kind (TStr s) = STRING"
| "kind (TName x) = NAME"
| "kind (TSym t) = t"

definition next_kind :: "tok list \<Rightarrow> TokenType" where
  "next_kind ts = (case ts of [] \<Rightarrow> END | t # _ \<Rightarrow> kind t)"

lemma next_kind_simps [simp]: "next_kind [] = END" "next_kind (t # ts) = kind t"
  by (simp_all add: next_kind_def)

fun tok_ok :: "('d, 'w) expr_lib \<Rightarrow> tok \<Rightarrow> bool" where
  "tok_ok L (TInt k) \<longleftrightarrow> k < 2 ^ 63"
| "tok_ok L (TFlt t) \<longleftrightarrow> flt_ok L t"
| "tok_ok L (TStr s) \<longleftrightarrow> 34 \<notin> set s"
| "tok_ok L (TName x) \<longleftrightarrow> name_ok x"
| "tok_ok L (TSym t) \<longleftrightarrow> sym_text t \<noteq> []"

fun tok_value :: "('d, 'w) expr_lib \<Rightarrow> tok \<Rightarrow> ('d, 'w) ExprParser \<Rightarrow> bool" where
  "tok_value L (TInt k) st \<longleftrightarrow> p_i_value st = of_nat k"
| "tok_value L (TFlt t) st \<longleftrightarrow> p_value st = fst (d_read L t)"
| "tok_value L (TStr s) st \<longleftrightarrow> word st = s"
| "tok_value L (TName x) st \<longleftrightarrow> word st = x"
| "tok_value L (TSym t) st \<longleftrightarrow> True"

text \<open>The parser stands before the tokens \<open>ts\<close> and has read the first one.\<close>

definition at_tokens :: "('d, 'w) expr_lib \<Rightarrow> tok list \<Rightarrow> ('d, 'w) ExprParser \<Rightarrow> bool" where
  "at_tokens L ts st \<longleftrightarrow> tok_type st = next_kind ts \<and> pWord st = render (tl ts) \<and>
     (ts \<noteq> [] \<longrightarrow> tok_value L (hd ts) st)"

lemma render_simps [simp]: "render [] = []" "render (t # ts) = 32 # tok_text t @ render ts"
  by (simp_all add: render_def)

lemma peek_render: "peek (render ts) = 0 \<or> peek (render ts) = 32"
  by (cases ts) simp_all

lemma dropWhile_render: "\<not> P 32 \<Longrightarrow> list_all P s \<Longrightarrow> dropWhile P (s @ render ts) = render ts"
  by (induction s) (cases ts; simp)+

lemma takeWhile_render: "\<not> P 32 \<Longrightarrow> list_all P s \<Longrightarrow> takeWhile P (s @ render ts) = s"
  by (induction s) (cases ts; simp)+

lemma alpha_facts:
  assumes "IS_ALPHA c"
  shows "\<not> isspace c" "c \<noteq> 0" "\<not> IS_DIGIT c" "\<not> is_sign c" "c \<noteq> 46" "with_equal c = NONE" "c \<noteq> 38" "c \<noteq> 124"
    "single_token c = None" "c \<noteq> 34"
  using assms
  by (auto simp: IS_ALPHA_def IS_DIGIT_def isspace_def is_sign_def with_equal_def single_token_def char_range_unsigned
      word_le_def)

lemma digit_facts:
  assumes "IS_DIGIT c"
  shows "\<not> isspace c" "c \<noteq> 0" "\<not> is_sign c" "c \<noteq> 101" "c \<noteq> 46"
  using assms by (auto simp: IS_DIGIT_def isspace_def is_sign_def char_range_unsigned word_le_def)

lemma blank_facts [simp]: "isspace 32" "\<not> IS_DIGIT 32" "\<not> IS_ALPHA 32" "\<not> IS_DIGIT 61"
  by (auto simp: IS_ALPHA_def IS_DIGIT_def isspace_def char_range_unsigned word_le_def)

lemma dropWhile_blank:
  "s \<noteq> [] \<Longrightarrow> \<not> isspace (hd s) \<Longrightarrow> dropWhile (\<lambda>c. c \<noteq> 0 \<and> isspace c) (32 # s @ r) = s @ r"
  by (cases s) simp_all

lemma scan_number_render:
  assumes "IS_DIGIT (peek s)" and "list_all (\<lambda>c. IS_DIGIT c \<or> c = 46) s"
  shows "scan_number (s @ render ts) = render ts" and "s \<noteq> []" and "peek (s @ render ts) = peek s"
proof -
  show s: "s \<noteq> []" using assms(1) by auto
  then show p: "peek (s @ render ts) = peek s" by (cases s) simp_all
  show "scan_number (s @ render ts) = render ts"
    using digit_facts(3) [OF assms(1)] peek_render [of ts] assms(2)
    by (auto simp: scan_number_def p dropWhile_render Let_def)
qed

lemma GetToken_number:
  assumes "pWord st = 32 # s @ render ts" and "IS_DIGIT (peek s)" and "list_all (\<lambda>c. IS_DIGIT c \<or> c = 46) s"
  shows "GetToken L g st =
    number_token L (s @ render ts) (st\<lparr>word := [], pWord := s @ render ts, pWordStart := s @ render ts\<rparr>)"
proof -
  note s = scan_number_render [OF assms(2,3)]
  have "\<not> isspace (hd s)" using digit_facts(1) [OF assms(2)] s(2) by (cases s) simp_all
  then have "dropWhile (\<lambda>c. c \<noteq> 0 \<and> isspace c) (pWord st) = s @ render ts"
    unfolding assms(1) using s(2) by (intro dropWhile_blank)
  then show ?thesis
    using assms(2) digit_facts(2) [OF assms(2)] by (simp add: GetToken_def s(3) number_starts_def Let_def)
qed

lemma GetToken_symbol:
  assumes "pWord st = 32 # sym_text t @ render ts" and "sym_text t \<noteq> []"
  shows "\<exists>st'. GetToken L g st = (Inr t, st') \<and> tok_type st' = t \<and> pWord st' = render ts"
  using assms peek_render [of ts]
  by (cases t)
    (auto simp: GetToken_def sym_text_def number_starts_def is_sign_def with_equal_def single_token_def isspace_def
      IS_DIGIT_def char_range_unsigned Let_def)

lemma GetToken_word:
  assumes "pWord st = 32 # s @ render ts" and "s \<noteq> []" and "IS_ALPHA (hd s) \<or> hd s = 34"
  shows "\<exists>t0. GetToken L g st =
    word_token (s @ render ts) (st\<lparr>word := [], pWord := s @ render ts, pWordStart := s @ render ts, tok_type := t0\<rparr>)"
proof -
  have c: "\<not> isspace (hd s)" "hd s \<noteq> 0" "\<not> IS_DIGIT (hd s)" "\<not> is_sign (hd s)" "hd s \<noteq> 46" "with_equal (hd s) = NONE"
      "hd s \<noteq> 38" "hd s \<noteq> 124" "single_token (hd s) = None"
    using assms(3) alpha_facts [of "hd s"]
    by (auto simp: IS_DIGIT_def isspace_def is_sign_def with_equal_def single_token_def char_range_unsigned)
  have d: "dropWhile (\<lambda>c. c \<noteq> 0 \<and> isspace c) (pWord st) = s @ render ts"
    unfolding assms(1) using assms(2) c(1) by (intro dropWhile_blank)
  have p: "peek (s @ render ts) = hd s" using assms(2) by (cases s) simp_all
  show ?thesis
    by (rule exI [of _ "if peek (tl (s @ render ts)) = 61 then NONE else tok_type st"])
      (use c in \<open>simp add: GetToken_def d p number_starts_def Let_def\<close>)
qed

lemma GetToken_render:
  assumes "pWord st = render ts" and "ts \<noteq> [] \<Longrightarrow> tok_ok L (hd ts)" and "ts = [] \<Longrightarrow> tok_type st \<noteq> END"
  shows "\<exists>st'. GetToken L g st = (Inr (next_kind ts), st') \<and> at_tokens L ts st'"
proof (cases ts)
  case Nil
  then show ?thesis using assms by (simp add: GetToken_def at_tokens_def Let_def)
next
  case (Cons t rest)
  have ok: "tok_ok L t" and w: "pWord st = 32 # tok_text t @ render rest" using assms Cons by simp_all
  show ?thesis
  proof (cases t)
    case (TInt k)
    have "list_all IS_DIGIT (dec_nat k)" by (rule dec_nat_digits)
    then have d: "list_all (\<lambda>c. IS_DIGIT c \<or> c = 46) (dec_nat k)" "46 \<notin> set (dec_nat k)" "101 \<notin> set (dec_nat k)"
      using digit_facts(4) [of 101] digit_facts(5) [of 46] by (auto simp: list_all_iff)
    have h: "IS_DIGIT (peek (dec_nat k))" using dec_nat_hd [of k] by (simp add: peek_hd)
    show ?thesis
      using GetToken_number [of st "dec_nat k" rest L g] w TInt h d ok Cons
      by (simp add: number_token_def scan_number_render [OF h d(1)] at_tokens_def Let_def strtol10_dec_nat)
  next
    case (TFlt x)
    then have f: "IS_DIGIT (peek x)" "list_all (\<lambda>c. IS_DIGIT c \<or> c = 46) x" "46 \<in> set x"
      "case d_read L x of (x, fail, eof) \<Rightarrow> \<not> fail \<or> eof" using ok by (simp_all add: flt_ok_def)
    show ?thesis
      using GetToken_number [of st x rest L g] w TFlt f Cons
      by (auto simp: number_token_def scan_number_render [OF f(1,2)] at_tokens_def Let_def split: prod.splits)
  next
    case (TStr x)
    then have "34 \<notin> set x" using ok by simp
    then have "takeWhile (\<lambda>c. c \<noteq> 34) (x @ 34 # render rest) = x" "dropWhile (\<lambda>c. c \<noteq> 34) (x @ 34 # render rest) = 34 # render rest"
      by (induction x) auto
    then show ?thesis
      using GetToken_word [of st "34 # x @ [34]" rest L g] w TStr Cons
      by (auto simp: word_token_def at_tokens_def Let_def)
  next
    case (TName x)
    then have n: "x \<noteq> []" "IS_ALPHA (hd x)" "list_all (\<lambda>c. IS_ALPHA c \<or> IS_DIGIT c \<or> c = 95) x" using ok by (simp_all add: name_ok_def)
    have p: "peek (x @ render rest) = hd x" using n(1) by (cases x) simp_all
    show ?thesis
      using GetToken_word [of st x rest L g] w TName Cons n alpha_facts(10) [OF n(2)]
      by (auto simp: word_token_def at_tokens_def Let_def p takeWhile_render dropWhile_render)
  next
    case (TSym u)
    then show ?thesis using GetToken_symbol [of st u rest L g] w ok Cons by (auto simp: at_tokens_def)
  qed
qed

section \<open>Levels\<close>

definition env_of :: "('d, 'w) ExprParser \<Rightarrow> ('d, 'w) env" where
  "env_of st = (symbols st, world st)"

lemma get_token_next:
  assumes "pWord st = render ts" and "ts \<noteq> [] \<Longrightarrow> tok_ok L (hd ts)" and "ts = [] \<Longrightarrow> tok_type st \<noteq> END"
  obtains st' where "get_token L g st = Some (Inr (next_kind ts), st')" "at_tokens L ts st'" "env_of st' = env_of st"
    "detect st' = detect st"
proof -
  obtain st' where "GetToken L g st = (Inr (next_kind ts), st')" "at_tokens L ts st'"
    using GetToken_render [of st ts L g] assms by auto
  then show ?thesis
    using that [of st'] GetToken_scanned [of st L g] by (simp add: get_token_def scanned_def env_of_def)
qed

definition level_of :: "TokenType \<Rightarrow> nat option" where
  "level_of t = (if t = COMMA then Some 0 else if op_level t \<noteq> 0 then Some (op_level t) else None)"

definition ops_at ::
  "('d, 'w) expr_lib \<Rightarrow> nat \<Rightarrow> TokenType \<Rightarrow> ('d ExprValue \<Rightarrow> 'd ExprValue \<Rightarrow> ('d, 'w, 'd ExprValue) comp) option" where
  "ops_at L p =
     (if p = 0 then comma_ops else if p = 2 then expression_ops L else if p = 3 then comparison_ops L
      else if p = 4 then addsub_ops L else term_ops L)"

definition lev :: "('d, 'w) expr_lib \<Rightarrow> nat \<Rightarrow> nat \<Rightarrow> bool \<Rightarrow> ('d, 'w, 'd ExprValue) comp" where
  "lev L n p =
     (if p = 0 then CommaList L n else if p \<le> 2 then Expression L n else if p = 3 then Comparison L n
      else if p = 4 then AddSubtract L n else if p = 5 then Term L n else Primary L n)"

definition loop_level :: "nat \<Rightarrow> bool" where
  "loop_level p \<longleftrightarrow> p = 0 \<or> p = 2 \<or> p = 3 \<or> p = 4 \<or> p = 5"

lemma lev_unfold:
  assumes "loop_level p"
  shows "lev L n p True = andThen (lev L n (p + 1) True) (level_loop (ops_at L p) (lev L n (p + 1) True) n)"
  using assms unfolding loop_level_def
  by (elim disjE)
    (simp_all add: lev_def ops_at_def CommaList_def Expression_def Comparison_def AddSubtract_def Term_def
      CommaList_over_def Expression_over_def Comparison_over_def AddSubtract_over_def Term_over_def level_def)

lemma ops_at_None: "loop_level p \<Longrightarrow> level_of t \<noteq> Some p \<Longrightarrow> ops_at L p t = None"
  unfolding loop_level_def
  by (elim disjE; cases t)
    (simp_all add: ops_at_def level_of_def op_level_def comma_ops_def expression_ops_def comparison_ops_def
      addsub_ops_def term_ops_def)

lemma lift_simps [simp]: "andThen (lift r) f st = (case r of Inl e \<Rightarrow> Some (Inl e, st) | Inr x \<Rightarrow> f x st)"
  by (cases r) (simp_all add: andThen_def lift_def)

lemma andThen_simps [simp]: "andThen (return x) f st = f x st" "andThen (throw e) f st = Some (Inl e, st)"
  by (simp_all add: andThen_def return_def throw_def)

lemma check_divisor_then:
  "andThen (check_divisor L b) f st =
     (case is_zero L b of
        Inl e \<Rightarrow> Some (Inl e, st)
      | Inr zero \<Rightarrow> if zero then Some (Inl (runtime_error ''Divide by zero''), st) else f () st)"
  by (auto simp: check_divisor_def is_zero_def then_value_def andThen_def lift_def return_def throw_def split: sum.splits)

lemma check_divisor_value:
  "andThen (check_divisor L b) (\<lambda>_. lift (map_sum id snd (div_assign L a b))) st = Some (map_sum id snd (division L a b), st)"
  by (auto simp: check_divisor_then division_def then_value_def lift_def split: sum.splits)

lemma comparison_value_value: "comparison_value L r st = Some (truth L r, st)"
  by (auto simp: comparison_value_def truth_def then_value_def andThen_def lift_def return_def split: sum.splits)

lemma logic_value_value: "logic_value L stop a b st = Some (connective L stop a b, st)"
  by (auto simp: logic_value_def connective_def then_value_def andThen_def lift_def return_def split: sum.splits)

lemma ops_at_binary:
  assumes "op_level t \<noteq> 0"
  obtains f where "ops_at L (op_level t) t = Some f" "\<And>a b st. f a b st = Some (binary L t a b, st)" "loop_level (op_level t)"
proof -
  have "\<exists>f. ops_at L (op_level t) t = Some f \<and> (\<forall>a b st. f a b st = Some (binary L t a b, st)) \<and> loop_level (op_level t)"
    using assms
    by (cases t)
      (simp_all add: ops_at_def op_level_def loop_level_def expression_ops_def comparison_ops_def addsub_ops_def
        term_ops_def binary_def comparison_value_value logic_value_value check_divisor_value lift_def)
  then show ?thesis using that by blast
qed

text \<open>The tokens behind an expression at the level \<open>k\<close>: no operator of this or a higher level follows.\<close>

definition stops :: "('d, 'w) expr_lib \<Rightarrow> nat \<Rightarrow> tok list \<Rightarrow> bool" where
  "stops L k ts \<longleftrightarrow>
     (\<forall>q. level_of (next_kind ts) = Some q \<longrightarrow> q < k) \<and> next_kind ts \<noteq> LHPAREN \<and> \<not> assignment (next_kind ts) \<and>
     (ts \<noteq> [] \<longrightarrow> tok_ok L (hd ts))"

lemma stops_mono: "stops L j ts \<Longrightarrow> j \<le> k \<Longrightarrow> stops L k ts"
  by (auto simp: stops_def)

definition lands ::
  "('d, 'w) expr_lib \<Rightarrow> bool \<Rightarrow> tok list \<Rightarrow> 'a outcome \<times> ('d, 'w) env \<Rightarrow> ('a outcome \<times> ('d, 'w) ExprParser) option \<Rightarrow> bool" where
  "lands L d ts r out \<longleftrightarrow>
     (\<exists>st'. out = Some (fst r, st') \<and> env_of st' = snd r \<and> detect st' = d \<and> (\<forall>x. fst r = Inr x \<longrightarrow> at_tokens L ts st'))"

lemma lands_andThen:
  assumes "lands L d ts (sem e) (m st)"
    and "\<And>v st1. at_tokens L ts st1 \<Longrightarrow> env_of st1 = snd (sem e) \<Longrightarrow> detect st1 = d \<Longrightarrow> fst (sem e) = Inr v \<Longrightarrow>
           lands L d ts' (k v (snd (sem e))) (f v st1)"
  shows "lands L d ts' (bind sem k e) (andThen m f st)"
proof -
  obtain r e1 where r: "sem e = (r, e1)" by (cases "sem e")
  then obtain st1 where st1: "m st = Some (r, st1)" "env_of st1 = e1" "detect st1 = d" "\<And>x. r = Inr x \<Longrightarrow> at_tokens L ts st1"
    using assms(1) by (auto simp: lands_def)
  show ?thesis
  proof (cases r)
    case (Inl err)
    then show ?thesis using st1 r by (simp add: lands_def bind_def andThen_def)
  next
    case (Inr v)
    then show ?thesis using assms(2) [of st1 v] st1 r by (simp add: bind_def andThen_def)
  qed
qed

text \<open>
  \<open>parsed k p w sem\<close>: at the level \<open>p\<close> the tokens \<open>w\<close>, followed by tokens that stop the level \<open>k\<close>, have the
  effect \<open>sem\<close>. \<open>spine p w sem\<close>: in front of any tokens the loop of the level \<open>p\<close> goes on with the value of
  \<open>w\<close>, which is how the operators associate to the left.
\<close>

type_synonym ('d, 'w) meaning = "bool \<Rightarrow> ('d, 'w, 'd ExprValue) eff"

definition parsed :: "('d, 'w) expr_lib \<Rightarrow> nat \<Rightarrow> nat \<Rightarrow> tok list \<Rightarrow> ('d, 'w) meaning \<Rightarrow> bool" where
  "parsed L k p w sem \<longleftrightarrow>
     (\<forall>ts st n. stops L k ts \<and> pWord st = render (w @ ts) \<and> length (pWord st) < n \<longrightarrow>
        lands L (detect st) ts (sem (detect st) (env_of st)) (lev L n p True st))"

definition spine :: "('d, 'w) expr_lib \<Rightarrow> nat \<Rightarrow> tok list \<Rightarrow> ('d, 'w) meaning \<Rightarrow> bool" where
  "spine L p w sem \<longleftrightarrow>
     (\<forall>ts st n. stops L (p + 1) ts \<and> pWord st = render (w @ ts) \<and> length (pWord st) < n \<longrightarrow>
        (case sem (detect st) (env_of st) of
           (Inl err, e) \<Rightarrow> lands L (detect st) ts (Inl err, e) (lev L n p True st)
         | (Inr v, e) \<Rightarrow>
             (\<exists>st1 m. at_tokens L ts st1 \<and> env_of st1 = e \<and> detect st1 = detect st \<and> length (pWord st1) < m \<and> m \<le> n \<and>
                lev L n p True st = level_loop (ops_at L p) (lev L n (p + 1) True) m v st1)))"

lemma length_render_tl: "length (render (tl ts)) \<le> length (render ts)"
  by (cases ts) simp_all

lemma length_render_append: "length (render (w @ ts)) = length (render w) + length (render ts)"
  by (simp add: render_def)

lemma length_render_pos: "w \<noteq> [] \<Longrightarrow> 0 < length (render w)"
  by (cases w) simp_all

lemma parsedD:
  "parsed L k p w sem \<Longrightarrow> stops L k ts \<Longrightarrow> pWord st = render (w @ ts) \<Longrightarrow> length (pWord st) < n \<Longrightarrow>
   lands L (detect st) ts (sem (detect st) (env_of st)) (lev L n p True st)"
  unfolding parsed_def by blast

lemma parsed_stops: "parsed L k p w sem \<Longrightarrow> j \<le> k \<Longrightarrow> parsed L j p w sem"
  unfolding parsed_def using stops_mono by blast

lemma parsed_spine:
  assumes "loop_level p" and "parsed L (p + 1) (p + 1) w sem"
  shows "spine L p w sem"
  unfolding spine_def
proof (intro allI impI, elim conjE)
  fix ts and st :: "('a, 'b) ExprParser" and n
  assume a: "stops L (p + 1) ts" "pWord st = render (w @ ts)" "length (pWord st) < n"
  obtain r e where r: "sem (detect st) (env_of st) = (r, e)" by (cases "sem (detect st) (env_of st)")
  have "lands L (detect st) ts (r, e) (lev L n (p + 1) True st)"
    using assms(2) a unfolding parsed_def r [symmetric] by blast
  then obtain st1 where st1: "lev L n (p + 1) True st = Some (r, st1)" "env_of st1 = e" "detect st1 = detect st"
      "\<And>x. r = Inr x \<Longrightarrow> at_tokens L ts st1"
    by (auto simp: lands_def)
  show "case sem (detect st) (env_of st) of
      (Inl err, e) \<Rightarrow> lands L (detect st) ts (Inl err, e) (lev L n p True st)
    | (Inr v, e) \<Rightarrow> \<exists>st1 m. at_tokens L ts st1 \<and> env_of st1 = e \<and> detect st1 = detect st \<and> length (pWord st1) < m \<and> m \<le> n \<and>
        lev L n p True st = level_loop (ops_at L p) (lev L n (p + 1) True) m v st1"
  proof (cases r)
    case (Inl err)
    then show ?thesis using st1 r by (simp add: lev_unfold [OF assms(1)] andThen_def lands_def)
  next
    case (Inr v)
    then have "length (pWord st1) < n"
      using st1(4) [OF Inr] a(2,3) length_render_tl [of ts] by (simp add: at_tokens_def length_render_append)
    then show ?thesis
      using st1 r Inr by (auto simp: lev_unfold [OF assms(1)] andThen_def)
  qed
qed

lemma loop_stops:
  assumes "loop_level p" "at_tokens L ts st" "stops L k ts" "k \<le> p" "0 < m"
  shows "level_loop (ops_at L p) operand m v st = Some (Inr v, st)"
proof -
  have "level_of (next_kind ts) \<noteq> Some p" using assms(3,4) by (auto simp: stops_def)
  then have "ops_at L p (tok_type st) = None" using assms(1,2) by (simp add: ops_at_None at_tokens_def)
  then show ?thesis using assms(5) by (cases m) (simp_all add: return_def)
qed

lemma spine_parsed:
  assumes "loop_level p" and "spine L p w sem"
  shows "parsed L p p w sem"
  unfolding parsed_def
proof (intro allI impI, elim conjE)
  fix ts and st :: "('a, 'b) ExprParser" and n
  assume a: "stops L p ts" "pWord st = render (w @ ts)" "length (pWord st) < n"
  have s: "stops L (p + 1) ts" using a(1) by (rule stops_mono) simp
  obtain r e where r: "sem (detect st) (env_of st) = (r, e)" by (cases "sem (detect st) (env_of st)")
  show "lands L (detect st) ts (sem (detect st) (env_of st)) (lev L n p True st)"
  proof (cases r)
    case (Inl err)
    then show ?thesis using assms(2) s a(2,3) r unfolding spine_def by fastforce
  next
    case (Inr v)
    then obtain st1 m where st1: "at_tokens L ts st1" "env_of st1 = e" "detect st1 = detect st" "length (pWord st1) < m"
        "lev L n p True st = level_loop (ops_at L p) (lev L n (p + 1) True) m v st1"
      using assms(2) s a(2,3) r unfolding spine_def by fastforce
    then show ?thesis
      using loop_stops [OF assms(1) st1(1) a(1) le_refl, of m] r Inr by (simp add: lands_def)
  qed
qed

lemma parsed_down:
  assumes "loop_level p" and "k \<le> p" and "parsed L k (p + 1) w sem"
  shows "parsed L k p w sem"
  unfolding parsed_def
proof (intro allI impI, elim conjE)
  fix ts and st :: "('a, 'b) ExprParser" and n
  assume a: "stops L k ts" "pWord st = render (w @ ts)" "length (pWord st) < n"
  have "lands L (detect st) ts (sem (detect st) (env_of st)) (lev L n (p + 1) True st)"
    using assms(3) a unfolding parsed_def by blast
  then show "lands L (detect st) ts (sem (detect st) (env_of st)) (lev L n p True st)"
    using loop_stops [OF assms(1) _ a(1) assms(2)] a(3)
    by (auto simp: lev_unfold [OF assms(1)] lands_def andThen_def split: sum.split)
qed

lemma sym_text_op: "level_of t \<noteq> None \<Longrightarrow> sym_text t \<noteq> []"
  by (cases t) (simp_all add: level_of_def op_level_def sym_text_def)

lemma stops_op:
  assumes "level_of t = Some p" and "p < k"
  shows "stops L k (TSym t # ts)"
  using assms by (cases t) (simp_all add: stops_def assignment_def level_of_def op_level_def sym_text_def)

lemma spine_op:
  assumes p: "loop_level p" and t: "level_of t = Some p"
    and f: "ops_at L p t = Some f" "\<And>a b st. f a b st = Some (g a b, st)"
    and l: "spine L p wl sl" and r: "parsed L (p + 1) (p + 1) wr sr" and "wr \<noteq> []"
  shows "spine L p (wl @ TSym t # wr) (\<lambda>d. bind (sl d) (\<lambda>x. bind (sr d) (\<lambda>y. pure (g x y))))"
  unfolding spine_def
proof (intro allI impI, elim conjE)
  fix ts and st :: "('a, 'b) ExprParser" and n
  assume a: "stops L (p + 1) ts" "pWord st = render ((wl @ TSym t # wr) @ ts)" "length (pWord st) < n"
  let ?goal = "\<lambda>res. case res of
      (Inl err, e) \<Rightarrow> lands L (detect st) ts (Inl err, e) (lev L n p True st)
    | (Inr v, e) \<Rightarrow> \<exists>st1 m. at_tokens L ts st1 \<and> env_of st1 = e \<and> detect st1 = detect st \<and> length (pWord st1) < m \<and> m \<le> n \<and>
        lev L n p True st = level_loop (ops_at L p) (lev L n (p + 1) True) m v st1"
  have s: "stops L (p + 1) (TSym t # wr @ ts)" using t by (rule stops_op) simp
  obtain r1 e1 where 1: "sl (detect st) (env_of st) = (r1, e1)" by (cases "sl (detect st) (env_of st)")
  show "?goal (bind (sl (detect st)) (\<lambda>x. bind (sr (detect st)) (\<lambda>y. pure (g x y))) (env_of st))"
  proof (cases r1)
    case (Inl err)
    have "lands L (detect st) (TSym t # wr @ ts) (Inl err, e1) (lev L n p True st)"
      using l s a(2,3) 1 Inl unfolding spine_def by fastforce
    then show ?thesis using 1 Inl by (simp add: bind_def lands_def)
  next
    case (Inr x)
    then obtain st1 m where st1: "at_tokens L (TSym t # wr @ ts) st1" "env_of st1 = e1" "detect st1 = detect st"
        "length (pWord st1) < m" "m \<le> n" "lev L n p True st = level_loop (ops_at L p) (lev L n (p + 1) True) m x st1"
      using l s a(2,3) 1 unfolding spine_def by fastforce
    then obtain m' where m: "m = Suc m'" by (cases m) simp_all
    obtain r2 e2 where 2: "sr (detect st) e1 = (r2, e2)" by (cases "sr (detect st) e1")
    have w1: "pWord st1 = render (wr @ ts)" using st1(1) by (simp add: at_tokens_def)
    have "lands L (detect st) ts (r2, e2) (lev L n (p + 1) True st1)"
      using parsedD [OF r a(1) w1, of n] order.strict_trans2 [OF st1(4,5)] by (simp add: st1(2,3) 2)
    then obtain st2 where st2: "lev L n (p + 1) True st1 = Some (r2, st2)" "env_of st2 = e2" "detect st2 = detect st"
        "\<And>y. r2 = Inr y \<Longrightarrow> at_tokens L ts st2"
      by (auto simp: lands_def)
    have run: "lev L n p True st = andThen (lev L n (p + 1) True)
        (\<lambda>d. andThen (f x d) (level_loop (ops_at L p) (lev L n (p + 1) True) m')) st1"
      using st1(1,6) f(1) by (simp add: m at_tokens_def)
    show ?thesis
    proof (cases r2)
      case (Inl err)
      then show ?thesis using run st2 1 2 Inr by (simp add: bind_def lands_def andThen_def)
    next
      case y: (Inr y)
      have at: "at_tokens L ts st2" using st2(4) y by blast
      have run2: "lev L n p True st = (case g x y of Inl e \<Rightarrow> Some (Inl e, st2)
          | Inr v \<Rightarrow> level_loop (ops_at L p) (lev L n (p + 1) True) m' v st2)"
        using run st2(1) y f(2) by (simp add: andThen_def split: sum.split)
      have len: "length (pWord st2) < m'"
        using at st1(4) length_render_tl [of ts] length_render_pos [OF assms(7)]
        by (simp add: w1 m at_tokens_def length_render_append del: length_greater_0_conv)
      have res: "bind (sl (detect st)) (\<lambda>x. bind (sr (detect st)) (\<lambda>y. pure (g x y))) (env_of st) = (g x y, e2)"
        using 1 2 Inr y by (simp add: bind_def pure_def)
      show ?thesis
      proof (cases "g x y")
        case (Inl err)
        then show ?thesis unfolding res using run2 st2(2,3) by (simp add: lands_def)
      next
        case (Inr v)
        have "m' \<le> n" using st1(5) m by simp
        then show ?thesis unfolding res using Inr run2 st2(2,3) at len by auto
      qed
    qed
  qed
qed

lemma spine_binary:
  assumes "op_level t \<noteq> 0" and "spine L (op_level t) wl sl" and "parsed L (op_level t + 1) (op_level t + 1) wr sr"
    and "wr \<noteq> []"
  shows "spine L (op_level t) (wl @ TSym t # wr) (\<lambda>d. bind (sl d) (\<lambda>x. bind (sr d) (\<lambda>y. pure (binary L t x y))))"
proof -
  obtain f where f: "ops_at L (op_level t) t = Some f" "\<And>a b st. f a b st = Some (binary L t a b, st)" "loop_level (op_level t)"
    using ops_at_binary [OF assms(1), of L] by blast
  have "level_of t = Some (op_level t)" using assms(1) by (cases t) (simp_all add: level_of_def op_level_def)
  then show ?thesis using spine_op [OF f(3) _ f(1,2) assms(2,3,4)] by blast
qed

lemma bind_pure: "bind m (\<lambda>y. pure (Inr y)) = m"
  by (auto simp: bind_def pure_def fun_eq_iff split: prod.split sum.split)

lemma spine_comma:
  assumes "spine L 0 wl sl" and "parsed L 1 1 wr sr" and "wr \<noteq> []"
  shows "spine L 0 (wl @ TSym COMMA # wr) (\<lambda>d. bind (sl d) (\<lambda>_. sr d))"
proof -
  have "spine L 0 (wl @ TSym COMMA # wr) (\<lambda>d. bind (sl d) (\<lambda>x. bind (sr d) (\<lambda>y. pure (Inr y))))"
    by (rule spine_op [where f = "\<lambda>left d. return d"])
      (use assms in \<open>simp_all add: loop_level_def level_of_def ops_at_def comma_ops_def return_def\<close>)
  then show ?thesis by (simp add: bind_pure)
qed

section \<open>Primary expressions\<close>

abbreviation body_at :: "('d, 'w) expr_lib \<Rightarrow> nat \<Rightarrow> ('d, 'w, 'd ExprValue) comp" where
  "body_at L m \<equiv> primary_body L (lev L m 6) (lev L m 1) (lev L m 0)"

lemma Primary_first:
  assumes "pWord st = render (t # w)" and "tok_ok L t" and "length (pWord st) < n"
  obtains m st1 where "length (render w) < m" "at_tokens L (t # w) st1" "env_of st1 = env_of st" "detect st1 = detect st"
    "lev L n 6 True st = body_at L m st1"
proof -
  obtain m where n: "n = Suc m" using assms(3) by (cases n) simp_all
  obtain st1 where st1: "get_token L False st = Some (Inr (next_kind (t # w)), st1)" "at_tokens L (t # w) st1"
      "env_of st1 = env_of st" "detect st1 = detect st"
    using get_token_next [OF assms(1), of L False] assms(2) by auto
  have "lev L n 6 True st = body_at L m st1"
    using st1(1) by (simp add: n lev_def Expression_def CommaList_def andThen_def Let_def)
  moreover have "length (render w) < m" using assms(1,3) by (simp add: n)
  ultimately show ?thesis using that st1 by blast
qed

lemma andThen_next: "m st = Some (Inr x, st') \<Longrightarrow> andThen m f st = f x st'"
  by (simp add: andThen_def)

lemma next_token:
  assumes "at_tokens L (t # ts) st" and "ts \<noteq> [] \<Longrightarrow> tok_ok L (hd ts)" and "kind t \<noteq> END"
  obtains st' where "at_tokens L ts st'" "env_of st' = env_of st" "detect st' = detect st"
    "get_token L True st = Some (Inr (next_kind ts), st')"
  using assms get_token_next [of st ts L True] by (auto simp: at_tokens_def)

lemma parsedI:
  assumes "\<And>ts st n. stops L k ts \<Longrightarrow> pWord st = render (w @ ts) \<Longrightarrow> length (pWord st) < n \<Longrightarrow>
    lands L (detect st) ts (sem (detect st) (env_of st)) (lev L n p True st)"
  shows "parsed L k p w sem"
  unfolding parsed_def using assms by blast

lemma stops_ok: "stops L k ts \<Longrightarrow> ts \<noteq> [] \<Longrightarrow> tok_ok L (hd ts)"
  by (simp add: stops_def)

lemma landsI:
  "at_tokens L ts st \<Longrightarrow> env_of st = e \<Longrightarrow> detect st = d \<Longrightarrow> lands L d ts (r, e) (Some (r, st))"
  by (auto simp: lands_def)

text \<open>Literals.\<close>

lemma parsed_literal:
  assumes "tok_ok L t"
    and "\<And>ts m st. at_tokens L (t # ts) st \<Longrightarrow> body_at L m st = andThen (get_token L True) (\<lambda>_. return v) st"
    and "kind t \<noteq> END"
  shows "parsed L 6 6 [t] (\<lambda>d. pure (Inr v))"
proof (rule parsedI)
  fix ts and st :: "('a, 'b) ExprParser" and n
  assume a: "stops L 6 ts" "pWord st = render ([t] @ ts)" "length (pWord st) < n"
  obtain m st1 where st1: "at_tokens L (t # ts) st1" "env_of st1 = env_of st" "detect st1 = detect st"
      "lev L n 6 True st = body_at L m st1"
    using Primary_first [of st t ts L n] a(2,3) assms(1) by (metis append_Cons append_Nil)
  obtain st2 where "at_tokens L ts st2" "env_of st2 = env_of st1" "detect st2 = detect st1"
      "get_token L True st1 = Some (Inr (next_kind ts), st2)"
    by (rule next_token [OF st1(1) stops_ok [OF a(1)] assms(3)])
  then show "lands L (detect st) ts (pure (Inr v) (env_of st)) (lev L n 6 True st)"
    using st1 assms(2) [OF st1(1)] by (simp add: pure_def return_def landsI andThen_next)
qed

lemma parsed_literals:
  "k < 2 ^ 63 \<Longrightarrow> parsed L 6 6 [TInt k] (\<lambda>d. pure (Inr (ExprValue_int64 L (of_nat k))))"
  "flt_ok L x \<Longrightarrow> parsed L 6 6 [TFlt x] (\<lambda>d. pure (Inr (ExprValue_double (fst (d_read L x)))))"
  "34 \<notin> set s \<Longrightarrow> parsed L 6 6 [TStr s] (\<lambda>d. pure (Inr (ExprValue_string L s)))"
  by (rule parsed_literal; simp add: at_tokens_def primary_body_def)+

text \<open>Parentheses, unary operators and variables.\<close>

lemma stops_RHPAREN: "stops L k (TSym RHPAREN # ts)"
  by (simp add: stops_def level_of_def op_level_def assignment_def sym_text_def)

lemma stops_COMMA: "0 < k \<Longrightarrow> stops L k (TSym COMMA # ts)"
  by (simp add: stops_def level_of_def op_level_def assignment_def sym_text_def)

lemma close_paren:
  assumes "at_tokens L (TSym RHPAREN # ts) st" and "stops L k ts" and "env_of st = e" and "detect st = d"
    and "\<And>st'. at_tokens L ts st' \<Longrightarrow> env_of st' = e \<Longrightarrow> detect st' = d \<Longrightarrow> lands L d ts r (m st')"
  shows "lands L d ts r (end_call L m st)"
proof -
  obtain st' where st': "at_tokens L ts st'" "env_of st' = env_of st" "detect st' = detect st"
      "get_token L True st = Some (Inr (next_kind ts), st')"
    by (rule next_token [OF assms(1) stops_ok [OF assms(2)]]) simp_all
  have "end_call L m st = m st'"
    using assms(1) st'(4) by (simp add: end_call_def andThen_def CheckToken_def at_tokens_def)
  then show ?thesis using assms(3,4,5) st' by simp
qed

lemma parsed_paren:
  assumes "parsed L 0 0 w sem"
  shows "parsed L 6 6 (TSym LHPAREN # w @ [TSym RHPAREN]) sem"
proof (rule parsedI)
  fix ts and st :: "('a, 'b) ExprParser" and n
  assume a: "stops L 6 ts" "pWord st = render ((TSym LHPAREN # w @ [TSym RHPAREN]) @ ts)" "length (pWord st) < n"
  then have w: "pWord st = render (TSym LHPAREN # w @ TSym RHPAREN # ts)" by simp
  obtain m st1 where st1: "length (render (w @ TSym RHPAREN # ts)) < m" "at_tokens L (TSym LHPAREN # w @ TSym RHPAREN # ts) st1"
      "env_of st1 = env_of st" "detect st1 = detect st" "lev L n 6 True st = body_at L m st1"
    by (rule Primary_first [OF w _ a(3), of L]) (simp_all add: sym_text_def)
  have "lev L n 6 True st = andThen (lev L m 0 True) (\<lambda>v. end_call L (return v)) st1"
    using st1(2,5) by (simp add: primary_body_def end_call_def at_tokens_def)
  moreover have "lands L (detect st) ts (bind (sem (detect st)) (\<lambda>v. pure (Inr v)) (env_of st))
      (andThen (lev L m 0 True) (\<lambda>v. end_call L (return v)) st1)"
  proof (rule lands_andThen)
    show "lands L (detect st) (TSym RHPAREN # ts) (sem (detect st) (env_of st)) (lev L m 0 True st1)"
      using parsedD [OF assms stops_RHPAREN [of L 0 ts], of st1 m] st1 by (simp add: at_tokens_def)
    fix v :: "'a ExprValue" and st2
    assume 2: "at_tokens L (TSym RHPAREN # ts) st2" "env_of st2 = snd (sem (detect st) (env_of st))" "detect st2 = detect st"
    show "lands L (detect st) ts (pure (Inr v) (snd (sem (detect st) (env_of st)))) (end_call L (return v) st2)"
      by (rule close_paren [OF 2(1) a(1) 2(2,3)]) (simp add: pure_def return_def landsI)
  qed
  ultimately show "lands L (detect st) ts (sem (detect st) (env_of st)) (lev L n 6 True st)" by (simp add: bind_pure)
qed

text \<open>A prefix operator: the operand is a primary expression again.\<close>

lemma parsed_prefix:
  assumes "parsed L 6 6 w sem" and "sym_text t \<noteq> []"
    and body: "\<And>m st. tok_type st = t \<Longrightarrow> body_at L m st = andThen (lev L m 6 True) (\<lambda>v st. Some (g v, st)) st"
  shows "parsed L 6 6 (TSym t # w) (\<lambda>d. bind (sem d) (\<lambda>v. pure (g v)))"
proof (rule parsedI)
  fix ts and st :: "('a, 'b) ExprParser" and n
  assume a: "stops L 6 ts" "pWord st = render ((TSym t # w) @ ts)" "length (pWord st) < n"
  obtain m st1 where st1: "length (render (w @ ts)) < m" "at_tokens L (TSym t # w @ ts) st1"
      "env_of st1 = env_of st" "detect st1 = detect st" "lev L n 6 True st = body_at L m st1"
    by (rule Primary_first [OF _ _ a(3), of "TSym t" "w @ ts" L]) (use a(2) assms(2) in simp_all)
  have "lands L (detect st) ts (sem (detect st) (env_of st)) (lev L m 6 True st1)"
    using parsedD [OF assms(1) a(1), of st1 m] st1 by (simp add: at_tokens_def)
  then have "lands L (detect st) ts (bind (sem (detect st)) (\<lambda>v. pure (g v)) (env_of st))
      (andThen (lev L m 6 True) (\<lambda>v st. Some (g v, st)) st1)"
    by (rule lands_andThen) (simp add: pure_def landsI)
  then show "lands L (detect st) ts (bind (sem (detect st)) (\<lambda>v. pure (g v)) (env_of st)) (lev L n 6 True st)"
    using st1(2,5) body [of st1 m] by (simp add: at_tokens_def)
qed

lemma lift_lift_return:
  "andThen (lift r) (\<lambda>c. andThen (lift (f c)) (\<lambda>b. return (h b))) = (\<lambda>st. Some (then_value r (\<lambda>c. map_sum id h (f c)), st))"
  by (auto simp: fun_eq_iff then_value_def return_def split: sum.split)

lemma parsed_unary:
  assumes "parsed L 6 6 w sem"
  shows "parsed L 6 6 (TSym MINUS # w) (\<lambda>d. bind (sem d) (\<lambda>v. pure (ev_minus L (ExprValue_int64 L 0) v)))"
    and "parsed L 6 6 (TSym TOK_NOT # w) (\<lambda>d. bind (sem d) (\<lambda>v. pure (then_value (ev_eq L v (ExprValue_double (d_zero L))) (\<lambda>c.
       map_sum id (\<lambda>b. ExprValue_double (if b then d_of_int L 1 else d_zero L)) (ev_bool L c)))))"
proof -
  show "parsed L 6 6 (TSym MINUS # w) (\<lambda>d. bind (sem d) (\<lambda>v. pure (ev_minus L (ExprValue_int64 L 0) v)))"
    by (rule parsed_prefix [OF assms]) (simp_all add: sym_text_def primary_body_def lift_def [abs_def])
qed (rule parsed_prefix [OF assms]; simp add: sym_text_def primary_body_def lift_lift_return)

text \<open>Names.\<close>

lemma at_tokens_env [simp]:
  "at_tokens L ts (st\<lparr>symbols := sy\<rparr>) = at_tokens L ts st" "at_tokens L ts (st\<lparr>world := w\<rparr>) = at_tokens L ts st"
  by (cases "hd ts"; simp add: at_tokens_def)+

lemma symbol_ref_eq:
  "symbol_ref L x st = Some (Inr (), st\<lparr>symbols := (symbols st)(x \<mapsto> lookup L x (symbols st))\<rparr>)"
  by (auto simp: symbol_ref_def lookup_def map_upd_triv split: option.split)

lemma read_symbol_eq: "read_symbol L x st = Some (Inr (lookup L x (symbols st)), st)"
  by (simp add: read_symbol_def lookup_def split: option.split)

lemma andThen_assoc: "andThen (andThen m f) g = andThen m (\<lambda>x. andThen (f x) g)"
  by (auto simp: fun_eq_iff andThen_def split: option.split sum.split)

definition store_comp :: "('d, 'w) expr_lib \<Rightarrow> TokenType \<Rightarrow> bytes \<Rightarrow> 'd ExprValue \<Rightarrow> ('d, 'w, 'd ExprValue) comp" where
  "store_comp L t x v st =
     (case assigned L t (lookup L x (symbols st)) v of
        Inl err \<Rightarrow> Some (Inl err, st)
      | Inr new \<Rightarrow> Some (Inr new, st\<lparr>symbols := (symbols st)(x \<mapsto> new)\<rparr>))"

lemma update_symbol_read:
  "andThen (update_symbol L x oper) (\<lambda>_. read_symbol L x) st =
     (case oper (lookup L x (symbols st)) of
        Inl err \<Rightarrow> Some (Inl err, st)
      | Inr r \<Rightarrow> Some (Inr (snd r), st\<lparr>symbols := (symbols st)(x \<mapsto> snd r)\<rparr>))"
  by (auto simp: update_symbol_def read_symbol_eq andThen_def lift_def write_symbol_def lookup_def split: sum.split)

lemma symbol_primary_set:
  assumes "assignment (tok_type st)"
  shows "symbol_primary L E x st =
    andThen E (store_comp L (tok_type st) x) (st\<lparr>symbols := (symbols st)(x \<mapsto> lookup L x (symbols st))\<rparr>)"
proof -
  have upd: "(\<lambda>v. andThen (update_symbol L x (oper v)) (\<lambda>_. read_symbol L x)) = store_comp L t x"
    if "\<And>old v. assigned L t old v = map_sum id snd (oper v old)" for t oper
    unfolding fun_eq_iff by (auto simp: update_symbol_read store_comp_def that split: sum.split)
  have set: "(\<lambda>v. andThen (write_symbol x v) (\<lambda>_. read_symbol L x)) = store_comp L ASSIGN x"
    by (auto simp: fun_eq_iff andThen_def write_symbol_def read_symbol_eq store_comp_def assigned_def lookup_def)
  have quo: "(\<lambda>v. andThen (andThen (check_divisor L v) (\<lambda>_. update_symbol L x (\<lambda>old. div_assign L old v))) (\<lambda>_. read_symbol L x))
      = store_comp L ASSIGN_DIV x"
  proof (intro ext)
    fix v and st :: "('a, 'b) ExprParser"
    show "andThen (andThen (check_divisor L v) (\<lambda>_. update_symbol L x (\<lambda>old. div_assign L old v))) (\<lambda>_. read_symbol L x) st
        = store_comp L ASSIGN_DIV x v st"
      by (auto simp: andThen_assoc check_divisor_then update_symbol_read store_comp_def assigned_def division_def
          then_value_def split: sum.split)
  qed
  show ?thesis
    using assms unfolding assignment_def symbol_primary_def
    by (auto simp: andThen_next [of "symbol_ref L x", OF symbol_ref_eq] andThen_next [of current] current_def andThen_assoc
        set quo [unfolded andThen_assoc] upd [of ASSIGN_ADD "\<lambda>v old. add_assign L old v"]
        upd [of ASSIGN_SUB "\<lambda>v old. sub_assign L old v"] upd [of ASSIGN_MUL "\<lambda>v old. mul_assign L old v"] assigned_def)
qed

lemma symbol_primary_var:
  assumes "\<not> assignment (tok_type st)"
  shows "symbol_primary L E x st =
    Some (Inr (lookup L x (symbols st)), st\<lparr>symbols := (symbols st)(x \<mapsto> lookup L x (symbols st))\<rparr>)"
  using assms unfolding assignment_def symbol_primary_def
  by (cases "tok_type st")
    (simp_all add: andThen_next [of "symbol_ref L x", OF symbol_ref_eq] andThen_next [of current] current_def
      read_symbol_eq lookup_def)

text \<open>A name, with the token behind it.\<close>

lemma Primary_name:
  assumes "pWord st = render (TName x # w)" and "name_ok x" and "length (pWord st) < n" and "w \<noteq> [] \<Longrightarrow> tok_ok L (hd w)"
  obtains m st1 where "length (render w) < m" "at_tokens L w st1" "env_of st1 = env_of st" "detect st1 = detect st"
    "lev L n 6 True st = (if next_kind w = LHPAREN then call_function L (lev L m 1 True) x st1
       else symbol_primary L (lev L m 1 True) x st1)"
proof -
  obtain m st1 where 1: "length (render w) < m" "at_tokens L (TName x # w) st1" "env_of st1 = env_of st"
      "detect st1 = detect st" "lev L n 6 True st = body_at L m st1"
    by (rule Primary_first [OF assms(1) _ assms(3), of L]) (use assms(2) in simp_all)
  obtain st2 where 2: "at_tokens L w st2" "env_of st2 = env_of st1" "detect st2 = detect st1"
      "get_token L True st1 = Some (Inr (next_kind w), st2)"
    by (rule next_token [OF 1(2) assms(4)]) simp_all
  have "lev L n 6 True st = (if next_kind w = LHPAREN then call_function L (lev L m 1 True) x st2
       else symbol_primary L (lev L m 1 True) x st2)"
    using 1(2,5) 2(4) by (simp add: primary_body_def at_tokens_def andThen_next)
  then show ?thesis using that [OF 1(1) 2(1)] 1 2 by simp
qed

lemma parsed_var:
  assumes "name_ok x"
  shows "parsed L 6 6 [TName x] (\<lambda>d. bind (declare_symbol L x) (\<lambda>_ e. (Inr (lookup L x (fst e)), e)))"
proof (rule parsedI)
  fix ts and st :: "('a, 'b) ExprParser" and n
  assume a: "stops L 6 ts" "pWord st = render ([TName x] @ ts)" "length (pWord st) < n"
  obtain m st1 where 1: "at_tokens L ts st1" "env_of st1 = env_of st" "detect st1 = detect st"
    "lev L n 6 True st = (if next_kind ts = LHPAREN then call_function L (lev L m 1 True) x st1
       else symbol_primary L (lev L m 1 True) x st1)"
    by (rule Primary_name [OF _ assms a(3), of ts L]) (use a(1,2) stops_ok in auto)
  have "\<not> assignment (tok_type st1)" "next_kind ts \<noteq> LHPAREN" using a(1) 1(1) by (simp_all add: stops_def at_tokens_def)
  then show "lands L (detect st) ts (bind (declare_symbol L x) (\<lambda>_ e. (Inr (lookup L x (fst e)), e)) (env_of st)) (lev L n 6 True st)"
    using 1 symbol_primary_var [of st1 L _ x]
    by (auto simp: lands_def bind_def declare_symbol_def env_of_def lookup_def)
qed

lemma parsed_set:
  assumes "assignment t" and "name_ok x" and "parsed L 1 1 w sem"
  shows "parsed L 1 6 (TName x # TSym t # w) (\<lambda>d. bind (declare_symbol L x) (\<lambda>_. bind (sem d) (store L t x)))"
proof (rule parsedI)
  fix ts and st :: "('a, 'b) ExprParser" and n
  assume a: "stops L 1 ts" "pWord st = render ((TName x # TSym t # w) @ ts)" "length (pWord st) < n"
  have t: "sym_text t \<noteq> []" "t \<noteq> LHPAREN" using assms(1) by (auto simp: assignment_def sym_text_def)
  obtain m st1 where 1: "length (render (TSym t # w @ ts)) < m" "at_tokens L (TSym t # w @ ts) st1" "env_of st1 = env_of st"
      "detect st1 = detect st"
    "lev L n 6 True st = (if next_kind (TSym t # w @ ts) = LHPAREN then call_function L (lev L m 1 True) x st1
       else symbol_primary L (lev L m 1 True) x st1)"
    by (rule Primary_name [OF _ assms(2) a(3), of "TSym t # w @ ts" L]) (use a(2) t in auto)
  define st2 where "st2 = st1\<lparr>symbols := (symbols st1)(x \<mapsto> lookup L x (symbols st1))\<rparr>"
  have ty: "tok_type st1 = t" using 1(2) by (simp add: at_tokens_def)
  have run: "lev L n 6 True st = andThen (lev L m 1 True) (store_comp L t x) st2"
    using 1(5) t(2) symbol_primary_set [of st1] assms(1) by (simp add: ty st2_def)
  have e2: "env_of st2 = snd (declare_symbol L x (env_of st))" "detect st2 = detect st"
    using 1(3,4) by (auto simp: st2_def declare_symbol_def env_of_def)
  have "lands L (detect st) ts (sem (detect st) (env_of st2)) (lev L m 1 True st2)"
    using parsedD [OF assms(3) a(1), of st2 m] 1(1,2) e2(2) by (simp add: st2_def at_tokens_def)
  then have "lands L (detect st) ts (bind (sem (detect st)) (store L t x) (env_of st2)) (andThen (lev L m 1 True) (store_comp L t x) st2)"
  proof (rule lands_andThen)
    fix v st3
    assume 3: "at_tokens L ts st3" "env_of st3 = snd (sem (detect st) (env_of st2))" "detect st3 = detect st"
    then show "lands L (detect st) ts (store L t x v (snd (sem (detect st) (env_of st2)))) (store_comp L t x v st3)"
      unfolding 3(2) [symmetric] by (auto simp: lands_def store_def store_comp_def env_of_def split: sum.split)
  qed
  moreover have "bind (declare_symbol L x) (\<lambda>_. bind (sem (detect st)) (store L t x)) (env_of st)
      = bind (sem (detect st)) (store L t x) (env_of st2)"
    unfolding e2 bind_def [of "declare_symbol L x"] by (simp add: declare_symbol_def)
  ultimately show "lands L (detect st) ts (bind (declare_symbol L x) (\<lambda>_. bind (sem (detect st)) (store L t x)) (env_of st))
      (lev L n 6 True st)"
    by (simp add: run)
qed

text \<open>Calls.\<close>

definition apply_comp :: "(bool \<Rightarrow> ('d, 'w, 'a) eff) \<Rightarrow> ('d, 'w, 'a) comp" where
  "apply_comp h st = run_env (h (detect st)) st"

lemma run_world_apply: "run_world f = apply_comp (\<lambda>d. on_world f)"
  by (auto simp: fun_eq_iff run_world_def apply_comp_def run_env_def on_world_def split: prod.split)

lemma unless_detect_apply:
  "unless_detect L (run_env g) = apply_comp (\<lambda>d. if d then pure (Inr (ExprValue_of_type L UNSURE)) else g)"
  by (auto simp: fun_eq_iff unless_detect_def apply_comp_def run_env_def pure_def)

lemma lift_apply: "lift r = apply_comp (\<lambda>d. pure r)"
  by (simp add: fun_eq_iff lift_def apply_comp_def run_env_def pure_def)

lemmas call_apply = call_function_def run_world_apply unless_detect_apply lift_apply

lemma call_function_arity:
  "arity L f = 1 \<Longrightarrow> call_function L E f = andThen E (\<lambda>v. end_call L (apply_comp (\<lambda>d. apply1 L d f v)))"
  "arity L f = 2 \<Longrightarrow> call_function L E f =
     andThen E (\<lambda>v1. andThen (CheckToken COMMA) (\<lambda>_. andThen E (\<lambda>v2. end_call L (apply_comp (\<lambda>d. apply2 L d f v1 v2)))))"
  "arity L f = 3 \<Longrightarrow> call_function L E f =
     andThen E (\<lambda>v1. andThen (CheckToken COMMA) (\<lambda>_. andThen E (\<lambda>v2. andThen (CheckToken COMMA) (\<lambda>_.
     andThen E (\<lambda>v3. end_call L (apply_comp (\<lambda>d. apply3 L f v1 v2 v3)))))))"
  by (auto simp: arity_def call_apply apply1_def apply2_def apply3_def split: if_splits option.splits)

lemma lands_end_call:
  assumes "at_tokens L (TSym RHPAREN # ts) st" and "stops L k ts" and "env_of st = e" and "detect st = d"
  shows "lands L d ts (h d e) (end_call L (apply_comp h) st)"
proof (rule close_paren [OF assms])
  fix st' assume "at_tokens L ts st'" "env_of st' = e" "detect st' = d"
  moreover have "at_tokens L ts (st'\<lparr>symbols := sy, world := w\<rparr>) = at_tokens L ts st'" for sy w
    by simp
  ultimately show "lands L d ts (h d e) (apply_comp h st')"
    by (auto simp: lands_def apply_comp_def run_env_def env_of_def split: prod.split)
qed

lemma CheckToken_there: "at_tokens L (TSym t # ts) st \<Longrightarrow> andThen (CheckToken t) f st = f () st"
  by (simp add: andThen_def CheckToken_def at_tokens_def)

text \<open>An argument: the tokens of an expression behind the current one.\<close>

lemma argument:
  assumes "parsed L 1 1 w sem" and "at_tokens L (t0 # w @ TSym t # ts) st" and "length (render (w @ TSym t # ts)) < m"
    and "t = COMMA \<or> t = RHPAREN" and "env_of st = e" and "detect st = d"
    and "\<And>v st1. at_tokens L (TSym t # ts) st1 \<Longrightarrow> env_of st1 = snd (sem d e) \<Longrightarrow> detect st1 = d \<Longrightarrow>
      lands L d ts' (k v (snd (sem d e))) (f v st1)"
  shows "lands L d ts' (bind (sem d) k e) (andThen (lev L m 1 True) f st)"
proof (rule lands_andThen)
  have "stops L 1 (TSym t # ts)" using assms(4) by (auto simp: stops_RHPAREN stops_COMMA)
  then show "lands L d (TSym t # ts) (sem d e) (lev L m 1 True st)"
    using parsedD [OF assms(1), of "TSym t # ts" st m] assms(2,3,5,6) by (simp add: at_tokens_def)
qed (use assms(7) in blast)

lemma parsed_call:
  assumes "name_ok f"
    and "\<And>ts m st. stops L 6 ts \<Longrightarrow> at_tokens L (TSym LHPAREN # w @ ts) st \<Longrightarrow> length (render (w @ ts)) < m \<Longrightarrow>
      lands L (detect st) ts (sem (detect st) (env_of st)) (call_function L (lev L m 1 True) f st)"
  shows "parsed L 6 6 (TName f # TSym LHPAREN # w) sem"
proof (rule parsedI)
  fix ts and st :: "('a, 'b) ExprParser" and n
  assume a: "stops L 6 ts" "pWord st = render ((TName f # TSym LHPAREN # w) @ ts)" "length (pWord st) < n"
  obtain m st1 where 1: "length (render (TSym LHPAREN # w @ ts)) < m" "at_tokens L (TSym LHPAREN # w @ ts) st1"
      "env_of st1 = env_of st" "detect st1 = detect st"
    "lev L n 6 True st = (if next_kind (TSym LHPAREN # w @ ts) = LHPAREN then call_function L (lev L m 1 True) f st1
       else symbol_primary L (lev L m 1 True) f st1)"
    by (rule Primary_name [OF _ assms(1) a(3), of "TSym LHPAREN # w @ ts" L]) (use a(2) in \<open>auto simp: sym_text_def\<close>)
  show "lands L (detect st) ts (sem (detect st) (env_of st)) (lev L n 6 True st)"
    using assms(2) [OF a(1) 1(2), of m] 1 by simp
qed

lemma parsed_call1:
  assumes "name_ok f" and "arity L f = 1" and "parsed L 1 1 w sem"
  shows "parsed L 6 6 (TName f # TSym LHPAREN # w @ [TSym RHPAREN]) (\<lambda>d. bind (sem d) (apply1 L d f))"
proof (rule parsed_call [OF assms(1)])
  fix ts m and st :: "('a, 'b) ExprParser"
  assume a: "stops L 6 ts" "at_tokens L (TSym LHPAREN # (w @ [TSym RHPAREN]) @ ts) st" "length (render ((w @ [TSym RHPAREN]) @ ts)) < m"
  show "lands L (detect st) ts (bind (sem (detect st)) (apply1 L (detect st) f) (env_of st)) (call_function L (lev L m 1 True) f st)"
    unfolding call_function_arity(1) [OF assms(2)]
    by (rule argument [OF assms(3), where t = RHPAREN and ts = ts]) (use a in \<open>auto intro: lands_end_call\<close>)
qed

lemma parsed_call2:
  assumes "name_ok f" and "arity L f = 2" and "parsed L 1 1 w1 s1" and "parsed L 1 1 w2 s2"
  shows "parsed L 6 6 (TName f # TSym LHPAREN # w1 @ TSym COMMA # w2 @ [TSym RHPAREN])
    (\<lambda>d. bind (s1 d) (\<lambda>x. bind (s2 d) (apply2 L d f x)))"
proof (rule parsed_call [OF assms(1)])
  fix ts m and st :: "('a, 'b) ExprParser"
  assume a: "stops L 6 ts" "at_tokens L (TSym LHPAREN # (w1 @ TSym COMMA # w2 @ [TSym RHPAREN]) @ ts) st"
    "length (render ((w1 @ TSym COMMA # w2 @ [TSym RHPAREN]) @ ts)) < m"
  show "lands L (detect st) ts (bind (s1 (detect st)) (\<lambda>x. bind (s2 (detect st)) (apply2 L (detect st) f x)) (env_of st))
      (call_function L (lev L m 1 True) f st)"
    unfolding call_function_arity(2) [OF assms(2)]
  proof (rule argument [OF assms(3), where t = COMMA and ts = "w2 @ TSym RHPAREN # ts"])
    fix v1 st1
    assume 1: "at_tokens L (TSym COMMA # w2 @ TSym RHPAREN # ts) st1" "env_of st1 = snd (s1 (detect st) (env_of st))" "detect st1 = detect st"
    show "lands L (detect st) ts (bind (s2 (detect st)) (apply2 L (detect st) f v1) (snd (s1 (detect st) (env_of st))))
        (andThen (CheckToken COMMA) (\<lambda>_. andThen (lev L m 1 True) (\<lambda>v2. end_call L (apply_comp (\<lambda>d. apply2 L d f v1 v2)))) st1)"
      unfolding CheckToken_there [OF 1(1)]
      by (rule argument [OF assms(4), where t = RHPAREN and ts = ts])
        (use a 1 in \<open>auto simp: length_render_append intro: lands_end_call\<close>)
  qed (use a in auto)
qed

lemma parsed_call3:
  assumes "name_ok f" and "arity L f = 3" and "parsed L 1 1 w1 s1" and "parsed L 1 1 w2 s2" and "parsed L 1 1 w3 s3"
  shows "parsed L 6 6 (TName f # TSym LHPAREN # w1 @ TSym COMMA # w2 @ TSym COMMA # w3 @ [TSym RHPAREN])
    (\<lambda>d. bind (s1 d) (\<lambda>x. bind (s2 d) (\<lambda>y. bind (s3 d) (apply3 L f x y))))"
proof (rule parsed_call [OF assms(1)])
  fix ts m and st :: "('a, 'b) ExprParser"
  assume a: "stops L 6 ts" "at_tokens L (TSym LHPAREN # (w1 @ TSym COMMA # w2 @ TSym COMMA # w3 @ [TSym RHPAREN]) @ ts) st"
    "length (render ((w1 @ TSym COMMA # w2 @ TSym COMMA # w3 @ [TSym RHPAREN]) @ ts)) < m"
  let ?d = "detect st" and ?e1 = "snd (s1 (detect st) (env_of st))"
  show "lands L ?d ts (bind (s1 ?d) (\<lambda>x. bind (s2 ?d) (\<lambda>y. bind (s3 ?d) (apply3 L f x y))) (env_of st))
      (call_function L (lev L m 1 True) f st)"
    unfolding call_function_arity(3) [OF assms(2)]
  proof (rule argument [OF assms(3), where t = COMMA and ts = "w2 @ TSym COMMA # w3 @ TSym RHPAREN # ts"])
    fix v1 st1
    assume 1: "at_tokens L (TSym COMMA # w2 @ TSym COMMA # w3 @ TSym RHPAREN # ts) st1" "env_of st1 = ?e1" "detect st1 = ?d"
    show "lands L ?d ts (bind (s2 ?d) (\<lambda>y. bind (s3 ?d) (apply3 L f v1 y)) ?e1)
        (andThen (CheckToken COMMA) (\<lambda>_. andThen (lev L m 1 True) (\<lambda>v2. andThen (CheckToken COMMA) (\<lambda>_.
           andThen (lev L m 1 True) (\<lambda>v3. end_call L (apply_comp (\<lambda>d. apply3 L f v1 v2 v3)))))) st1)"
      unfolding CheckToken_there [OF 1(1)]
    proof (rule argument [OF assms(4), where t = COMMA and ts = "w3 @ TSym RHPAREN # ts"])
      fix v2 st2
      assume 2: "at_tokens L (TSym COMMA # w3 @ TSym RHPAREN # ts) st2" "env_of st2 = snd (s2 ?d ?e1)" "detect st2 = ?d"
      show "lands L ?d ts (bind (s3 ?d) (apply3 L f v1 v2) (snd (s2 ?d ?e1)))
          (andThen (CheckToken COMMA) (\<lambda>_. andThen (lev L m 1 True) (\<lambda>v3. end_call L (apply_comp (\<lambda>d. apply3 L f v1 v2 v3)))) st2)"
        unfolding CheckToken_there [OF 2(1)]
        by (rule argument [OF assms(5), where t = RHPAREN and ts = ts])
          (use a 2 in \<open>auto simp: length_render_append intro: lands_end_call [where h = "\<lambda>d. apply3 L f v1 v2 v" for v]\<close>)
    qed (use a 1 in \<open>auto simp: length_render_append\<close>)
  qed (use a in auto)
qed

section \<open>All expressions\<close>

lemma parsed_step_down:
  assumes "parsed L k (Suc p) w sem" and "k \<le> p" and "p \<le> 5"
  shows "parsed L k p w sem"
proof (cases "p = 1")
  case True
  then show ?thesis using assms(1) by (simp add: parsed_def lev_def)
next
  case False
  then have "loop_level p" using assms(3) by (auto simp: loop_level_def)
  then show ?thesis using parsed_down [of p k L w sem] assms(1,2) by simp
qed

lemma parsed_down_to:
  assumes "parsed L k q w sem" and "k \<le> p" and "p \<le> q" and "q \<le> 6"
  shows "parsed L k p w sem"
  using assms(3,1)
proof (induction rule: inc_induct)
  case (step r)
  then show ?case using assms(2,4) parsed_step_down [of L k r w sem] by simp
qed

text \<open>What the induction shows of an expression without parentheses around it.\<close>

definition core :: "('d, 'w) expr_lib \<Rightarrow> expr \<Rightarrow> bool" where
  "core L e \<longleftrightarrow>
     expr_level e \<le> 6 \<and>
     (if expr_level e = 6 then parsed L 6 6 (toks e) (\<lambda>d. eval L d e)
      else if expr_level e = 1 then parsed L 1 6 (toks e) (\<lambda>d. eval L d e)
      else spine L (expr_level e) (toks e) (\<lambda>d. eval L d e))"

lemma core_parsed:
  assumes "core L e" and "p \<le> expr_level e"
  shows "parsed L p p (toks e) (\<lambda>d. eval L d e)"
proof -
  let ?q = "expr_level e" and ?ev = "\<lambda>d. eval L d e"
  have q: "?q \<le> 6" using assms(1) by (simp add: core_def)
  have "parsed L ?q ?q (toks e) ?ev"
  proof (cases "?q = 6 \<or> ?q = 1")
    case True
    then show ?thesis using assms(1) parsed_down_to [of L 1 6 "toks e" ?ev 1] by (auto simp: core_def)
  next
    case False
    then have "loop_level ?q" using q by (auto simp: loop_level_def)
    moreover have "spine L ?q (toks e) ?ev" using assms(1) False by (auto simp: core_def)
    ultimately show ?thesis by (rule spine_parsed)
  qed
  then show ?thesis using parsed_down_to [OF parsed_stops [OF _ assms(2)] le_refl assms(2) q] by blast
qed

lemma core_paren:
  assumes "core L e" and "p \<le> 6"
  shows "parsed L p p (paren p e (toks e)) (\<lambda>d. eval L d e)"
proof (cases "expr_level e < p")
  case True
  have "parsed L 6 6 (TSym LHPAREN # toks e @ [TSym RHPAREN]) (\<lambda>d. eval L d e)"
    using core_parsed [OF assms(1)] by (intro parsed_paren) simp
  then show ?thesis
    using True assms(2) parsed_down_to [OF parsed_stops [of L 6 6 _ _ p]] by (simp add: paren_def)
next
  case False
  then show ?thesis using core_parsed [OF assms(1)] by (simp add: paren_def)
qed

lemma core_spine:
  assumes "core L e" and "loop_level p"
  shows "spine L p (paren p e (toks e)) (\<lambda>d. eval L d e)"
proof (cases "expr_level e = p")
  case True
  then show ?thesis using assms by (auto simp: core_def paren_def loop_level_def split: if_splits)
next
  case False
  then have "paren p e (toks e) = paren (p + 1) e (toks e)" by (simp add: paren_def)
  moreover have "p + 1 \<le> 6" using assms(2) by (auto simp: loop_level_def)
  ultimately show ?thesis using parsed_spine [OF assms(2) core_paren [OF assms(1)]] by simp
qed

lemma toks_nonempty: "toks e \<noteq> []"
  by (cases e) simp_all

lemma paren_nonempty: "paren p e (toks e) \<noteq> []"
  by (simp add: paren_def toks_nonempty)

lemma core_primary: "expr_level e = 6 \<Longrightarrow> parsed L 6 6 (toks e) (\<lambda>d. eval L d e) \<Longrightarrow> core L e"
  by (simp add: core_def)

lemma wf_core: "wf L e \<Longrightarrow> core L e"
proof (induction e)
  case (ESet t x a)
  then have "core L a" by simp
  from parsed_set [OF _ _ core_paren [OF this, of 1], of t x] show ?case using ESet.prems by (simp add: core_def)
next
  case (EBin t a b)
  then have t: "op_level t \<noteq> 0" and ab: "core L a" "core L b" by simp_all
  have l: "loop_level (op_level t)" using ops_at_binary [OF t, of L] by blast
  then have "op_level t + 1 \<le> 6" "op_level t \<noteq> 6" "op_level t \<noteq> 1" using t by (auto simp: loop_level_def)
  then show ?case
    using spine_binary [OF t core_spine [OF ab(1) l] core_paren [OF ab(2)] paren_nonempty] by (simp add: core_def)
next
  case (ESeq a b)
  then have ab: "core L a" "core L b" by simp_all
  have "spine L 0 (toks a) (\<lambda>d. eval L d a)"
    using core_spine [OF ab(1), of 0] by (simp add: loop_level_def paren_def)
  from spine_comma [OF this core_paren [OF ab(2), of 1] paren_nonempty] show ?case by (simp add: core_def)
next
  case (ENeg a)
  then have "core L a" by simp
  from parsed_unary(1) [OF core_paren [OF this, of 6]] show ?case by (intro core_primary) simp_all
next
  case (ENot a)
  then have "core L a" by simp
  from parsed_unary(2) [OF core_paren [OF this, of 6]] show ?case by (intro core_primary) simp_all
next
  case (ECall1 f a)
  then have "core L a" by simp
  from parsed_call1 [OF _ _ core_paren [OF this, of 1], of f] show ?case using ECall1.prems by (intro core_primary) simp_all
next
  case (ECall2 f a b)
  then have "core L a" "core L b" by simp_all
  from parsed_call2 [OF _ _ core_paren [OF this(1), of 1] core_paren [OF this(2), of 1], of f]
  show ?case using ECall2.prems by (intro core_primary) simp_all
next
  case (ECall3 f a b c)
  then have "core L a" "core L b" "core L c" by simp_all
  from parsed_call3 [OF _ _ core_paren [OF this(1), of 1] core_paren [OF this(2), of 1] core_paren [OF this(3), of 1], of f]
  show ?case using ECall3.prems by (intro core_primary) simp_all
qed (auto intro!: core_primary parsed_literals parsed_var)

lemma Evaluate_show:
  assumes "wf L e" and "program st = show_expr e" and "length (show_expr e) < n"
  shows "\<exists>st'. Evaluate L n st = Some (fst (eval L (detect st) e (env_of st)), st') \<and>
    env_of st' = snd (eval L (detect st) e (env_of st)) \<and> detect st' = detect st"
proof -
  define st0 where "st0 = st\<lparr>pWord := program st, tok_type := NONE\<rparr>"
  have "stops L 0 []" by (simp add: stops_def level_of_def op_level_def assignment_def)
  then have "lands L (detect st) [] (eval L (detect st) e (env_of st)) (lev L n 0 True st0)"
    using parsedD [OF core_parsed [OF wf_core [OF assms(1)] le0], of "[]" st0 n] assms(2,3)
    by (simp add: st0_def show_expr_def env_of_def)
  then obtain st1 where st1: "CommaList L n True st0 = Some (fst (eval L (detect st) e (env_of st)), st1)"
      "env_of st1 = snd (eval L (detect st) e (env_of st))" "detect st1 = detect st"
      "\<And>x. fst (eval L (detect st) e (env_of st)) = Inr x \<Longrightarrow> at_tokens L [] st1"
    by (auto simp: lands_def lev_def)
  then show ?thesis
    by (cases "fst (eval L (detect st) e (env_of st))")
      (auto simp: Evaluate_def st0_def [symmetric] andThen_def at_tokens_def)
qed

section \<open>Properties\<close>

text \<open>
  Claim C4. \<^verbatim>\<open>Evaluate\<close> computes the value of expressions: on the text of any expression, printed with the
  precedences and the left association of the documentation, it returns or throws what the meaning of the
  expression says, with the effect of its assignments and calls on the symbol table.
\<close>

theorem expr_evaluates:
  assumes "wf L e" and "length (show_expr e) < n"
  shows "\<exists>st'. Evaluate_program L n (show_expr e) st = Some (fst (eval L (detect st) e (env_of st)), st') \<and>
           env_of st' = snd (eval L (detect st) e (env_of st)) \<and> detect st' = detect st"
  using Evaluate_show [OF assms(1) _ assms(2), of "st\<lparr>program := show_expr e\<rparr>"]
  by (simp add: Evaluate_program_def env_of_def)

theorem expr_evaluates_witness:
  "\<exists>st'. Evaluate_program toy_expr 50 (lit '' x = 2 + 3 * 4 - 5'') (ExprParser_new toy_expr NONE [] [] 0)
      = Some (Inr (ExprValue_int64 toy_expr 9), st') \<and> symbols st' (lit ''x'') = Some (ExprValue_int64 toy_expr 9)"
proof -
  let ?e = "ESet ASSIGN (lit ''x'') (EBin MINUS (EBin PLUS (EInt 2) (EBin MULTIPLY (EInt 3) (EInt 4))) (EInt 5))"
  have t: "show_expr ?e = lit '' x = 2 + 3 * 4 - 5''" by code_simp
  have w: "wf toy_expr ?e" by (simp add: name_ok_def lit_def IS_ALPHA_def char_range_unsigned assignment_def op_level_def)
  have ev: "eval toy_expr False ?e (s, w) = (Inr (ExprValue_int64 toy_expr 9), (s(lit ''x'' \<mapsto> ExprValue_int64 toy_expr 9), w))" for s w
    by (simp add: bind_def declare_symbol_def pure_def store_def assigned_def binary_def mul_assign_def add_assign_def sub_assign_def
        arith_assign_def ExprValue_int64_def Let_def)
  define st where "st = ExprParser_new toy_expr NONE [] [] 0"
  obtain s w where "env_of st = (s, w)" by (cases "env_of st")
  moreover have "length (lit '' x = 2 + 3 * 4 - 5'') < 50" by (simp add: lit_def)
  ultimately obtain st' where "Evaluate_program toy_expr 50 (lit '' x = 2 + 3 * 4 - 5'') st = Some (Inr (ExprValue_int64 toy_expr 9), st')"
      "env_of st' = (s(lit ''x'' \<mapsto> ExprValue_int64 toy_expr 9), w)"
    using expr_evaluates [OF w, of 50 st, unfolded t] by (auto simp: st_def ExprParser_new_def ev simp del: eval.simps)
  then show ?thesis by (auto simp: st_def env_of_def)
qed

text \<open>
  \<open>outcome_of L st e r\<close>: with every bound above the length of its text, the evaluation of the expression \<open>e\<close> in the
  state \<open>st\<close> ends with \<open>r\<close>.
\<close>

definition outcome_of :: "('d, 'w) expr_lib \<Rightarrow> ('d, 'w) ExprParser \<Rightarrow> expr \<Rightarrow> 'd ExprValue outcome \<Rightarrow> bool" where
  "outcome_of L st e r \<longleftrightarrow> (\<forall>n > length (show_expr e). \<exists>st1. Evaluate_program L n (show_expr e) st = Some (r, st1))"

lemma outcome_of_eval:
  assumes "wf L e" and "fst (eval L (detect st) e (env_of st)) = r"
  shows "outcome_of L st e r"
proof -
  have "\<exists>st1. Evaluate_program L n (show_expr e) st = Some (r, st1)" if "length (show_expr e) < n" for n
    using Evaluate_show [OF assms(1), of "st\<lparr>program := show_expr e\<rparr>" n] that assms(2)
    by (auto simp: Evaluate_program_def env_of_def)
  then show ?thesis by (simp add: outcome_of_def)
qed

lemmas eval_simps = bind_def pure_def binary_def connective_def then_value_def not_zero_def ev_ne_def ev_eq_def ev_lt_def
  ev_minus_def compare_values_def ev_bool_def truth_def ExprValue_bool_def ExprValue_int64_def ExprValue_double_def
  assign_bool_def assign_double_def

abbreviation not_compatible :: "'a outcome" where
  "not_compatible \<equiv> Inl (runtime_error ''type not compatible'')"

lemma not_zero_BOOL: "v_type v = BOOL \<Longrightarrow> not_zero L v = not_compatible"
  by (simp add: eval_simps)

lemma connective_BOOL: "connective L stop v w = Inr r \<Longrightarrow> v_type v \<noteq> UNSURE \<Longrightarrow> v_type r = BOOL"
  by (auto simp: connective_def then_value_def assign_bool_def map_sum_def split: sum.splits if_splits)

lemma one_argument_name:
  assumes "OneArgumentFunctions L f = Some g"
  shows "name_ok f" "arity L f = 1"
proof -
  have "list_all (\<lambda>h. name_ok (lit h)) ([''abs'', ''int'', ''rand'', ''percent''] @ std_functions)"
    by (simp add: std_functions_def name_ok_def lit_def IS_ALPHA_def IS_DIGIT_def char_range_unsigned)
  moreover have "f \<in> lit ` set ([''abs'', ''int'', ''rand'', ''percent''] @ std_functions)"
    using assms by (auto simp: OneArgumentFunctions_def find_Some_iff split: if_splits)
  ultimately show "name_ok f" by (auto simp only: list_all_iff)
  show "arity L f = 1" using assms by (simp add: arity_def)
qed

lemma if_DoIf: "ThreeArgumentFunctions L (lit ''if'') = Some (DoIf L)" "name_ok (lit ''if'')"
  by (simp_all add: ThreeArgumentFunctions_def name_ok_def lit_def IS_ALPHA_def char_range_unsigned)

text \<open>Sums, differences and products of integer literals.\<close>

fun int_expr :: "expr \<Rightarrow> bool" where
  "int_expr (EInt k) \<longleftrightarrow> True"
| "int_expr (EBin t a b) \<longleftrightarrow> (t = PLUS \<or> t = MINUS \<or> t = MULTIPLY) \<and> int_expr a \<and> int_expr b"
| "int_expr _ \<longleftrightarrow> False"

lemma int_expr_value:
  "int_expr e \<Longrightarrow> \<exists>v. eval L d e env = (Inr v, env) \<and> v_type v = INTEGER64 \<and> d_value v = d_zero L"
proof (induction e arbitrary: env rule: int_expr.induct)
  case (2 t a b)
  then obtain v w where "eval L d a env = (Inr v, env)" "v_type v = INTEGER64" "d_value v = d_zero L"
      "eval L d b env = (Inr w, env)" "v_type w = INTEGER64" by fastforce
  then show ?case
    using 2(3) by (auto simp: bind_def pure_def binary_def add_assign_def sub_assign_def mul_assign_def arith_assign_def Let_def)
qed (simp_all add: pure_def ExprValue_int64_def)

lemma digits_value_nonneg: "list_all IS_DIGIT ds \<Longrightarrow> 0 \<le> digits_value ds"
  by (induction ds rule: rev_induct)
    (auto simp: digits_value_def [of "[]"] IS_DIGIT_def char_range_unsigned word_le_def)

text \<open>Digits, a capital \<open>E\<close> and more digits are one token, of which only the first digits are read.\<close>

lemma capital_exponent:
  assumes "ds \<noteq> []" "es \<noteq> []" "list_all IS_DIGIT ds" "list_all IS_DIGIT es" "digits_value ds < 2 ^ 63" "\<not> IS_DIGIT (peek rest)"
  shows "\<exists>st1. GetToken L g (st\<lparr>pWord := ds @ 69 # es @ rest\<rparr>) = (Inr INTEGER64, st1) \<and>
    p_i_value st1 = word_of_int (digits_value ds) \<and> pWord st1 = rest"
proof -
  let ?s = "ds @ 69 # es @ rest" and ?P = "\<lambda>c. IS_DIGIT c \<or> c = (46 :: byte)"
  have E: "\<not> IS_DIGIT 69" by (simp add: IS_DIGIT_def char_range_unsigned)
  obtain c cs where c: "ds = c # cs" "IS_DIGIT c" using assms(1,3) by (cases ds) auto
  obtain e es' where e: "es = e # es'" "IS_DIGIT e" using assms(2,4) by (cases es) auto
  note f = digit_facts [OF c(2)]
  have digits: "c \<in> set (ds @ es) \<Longrightarrow> c \<noteq> 101 \<and> c \<noteq> 46" for c
    using assms(3,4) digit_facts(4,5) by (auto simp: list_all_iff)
  have mant: "dropWhile ?P ?s = 69 # es @ rest" "takeWhile IS_DIGIT ?s = ds"
    using assms(3) E by (simp_all add: list_all_iff dropWhile_append2 takeWhile_append2)
  have "dropWhile IS_DIGIT (es @ rest) = rest"
    using assms(4,6) by (cases rest) (simp_all add: list_all_iff dropWhile_append2)
  moreover have "\<not> is_sign (peek (es @ rest))" using digit_facts(3) [OF e(2)] by (simp add: e(1))
  moreover have "\<not> is_sign (peek ?s)" using f(3) by (simp add: c(1))
  ultimately have scan: "scan_number ?s = rest" using mant(1) by (simp add: scan_number_def Let_def)
  have w: "take (length ?s - length rest) ?s = ds @ 69 # es" by simp
  have "takeWhile IS_DIGIT (ds @ 69 # es) = ds" using assms(3) E by (simp add: list_all_iff takeWhile_append2)
  moreover have "dropWhile isspace (ds @ 69 # es) = ds @ 69 # es" using f(1) by (simp add: c(1))
  moreover have "0 \<le> digits_value ds" using digits_value_nonneg [OF assms(3)] .
  ultimately have read: "strtol10 (ds @ 69 # es) = digits_value ds"
    using assms(5) f(3) by (simp add: strtol10_def Let_def is_sign_def c(1))
  have "dropWhile (\<lambda>c. c \<noteq> 0 \<and> isspace c) ?s = ?s" using f(1) by (simp add: c(1))
  then have "GetToken L g (st\<lparr>pWord := ?s\<rparr>) = number_token L ?s (st\<lparr>word := [], pWord := ?s, pWordStart := ?s\<rparr>)"
    using f(2) c(2) by (simp add: GetToken_def number_starts_def Let_def c(1))
  moreover have "101 \<notin> set (ds @ 69 # es) \<and> 46 \<notin> set (ds @ 69 # es)" using digits by fastforce
  then have "number_token L ?s st' = (Inr INTEGER64, st'\<lparr>pWord := rest, word := ds @ 69 # es,
      p_i_value := word_of_int (digits_value ds), tok_type := INTEGER64\<rparr>)" for st' :: "('a, 'b) ExprParser"
    unfolding number_token_def Let_def scan w read by simp
  ultimately show ?thesis by simp
qed

text \<open>
  Claim C40. Where the evaluator departs from its documentation. For all expressions \<open>a\<close>, \<open>b\<close>, \<open>c\<close> that have a value: a
  connective gives a truth value (or \<open>UNSURE\<close>), but when \<open>a\<close> is a truth value, \<open>a && b\<close>, \<open>a || b\<close>, \<open>! a\<close> and \<open>if(a, b, c)\<close>
  throw; the unary minus of a real number is the integer 0; a built-in function of one argument is computed of the
  number field of an integer, which is 0 for integer arithmetic. A number with a capital exponent is taken as a whole and
  read as the digits in front of the exponent. \<^verbatim>\<open>Parse\<close> always returns, and leaves the parser in the mode that calls
  no user function exactly when it throws.
\<close>

theorem expr_divergences:
  assumes a: "wf L a" "eval L (detect st) a (env_of st) = (Inr v, e1)"
    and b: "wf L b" "eval L (detect st) b e1 = (Inr x, e2)" and c: "wf L c" "eval L (detect st) c e2 = (Inr y, e3)"
    and digits: "ds \<noteq> []" "es \<noteq> []" "list_all IS_DIGIT ds" "list_all IS_DIGIT es" "digits_value ds < 2 ^ 63" "\<not> IS_DIGIT (peek rest)"
    and n: "length (program st) < n"
  shows "(v_type v = BOOL \<longrightarrow>
            outcome_of L st (EBin TOK_AND a b) not_compatible \<and> outcome_of L st (EBin TOK_OR a b) not_compatible \<and>
            outcome_of L st (ENot a) not_compatible \<and>
            (arity L (lit ''if'') = 3 \<longrightarrow> outcome_of L st (ECall3 (lit ''if'') a b c) not_compatible)) \<and>
         (\<forall>t r e. eval L (detect st) (EBin t a b) (env_of st) = (Inr r, e) \<and> t \<in> {TOK_AND, TOK_OR} \<and> v_type v \<noteq> UNSURE \<longrightarrow>
            v_type r = BOOL) \<and>
         (v_type v = NUMBER \<longrightarrow> outcome_of L st (ENeg a) (Inr (ExprValue_int64 L 0))) \<and>
         (v_type v = INTEGER64 \<and> OneArgumentFunctions L f = Some g \<longrightarrow>
            outcome_of L st (ECall1 f a) (Inr (ExprValue_double (fst (g (d_value v) (snd e1)))))) \<and>
         (int_expr a \<longrightarrow> v_type v = INTEGER64 \<and> d_value v = d_zero L) \<and>
         (\<exists>st1. GetToken L s (st\<lparr>pWord := ds @ 69 # es @ rest\<rparr>) = (Inr INTEGER64, st1) \<and>
            p_i_value st1 = word_of_int (digits_value ds) \<and> pWord st1 = rest) \<and>
         (\<exists>r st1. Parse L n st = Some (r, st1) \<and> (detect st1 \<longleftrightarrow> (\<exists>err. r = Inl err)))"
proof (intro conjI impI allI)
  assume v: "v_type v = BOOL"
  note nz = not_zero_BOOL [OF v, of L]
  show "outcome_of L st (EBin TOK_AND a b) not_compatible" "outcome_of L st (EBin TOK_OR a b) not_compatible"
    using a b v by (auto intro!: outcome_of_eval simp: op_level_def bind_def pure_def binary_def connective_def then_value_def nz)
  show "outcome_of L st (ENot a) not_compatible"
    using a v by (intro outcome_of_eval) (simp_all add: eval_simps)
  assume "arity L (lit ''if'') = 3"
  then show "outcome_of L st (ECall3 (lit ''if'') a b c) not_compatible"
    using a b c v by (intro outcome_of_eval) (simp_all add: if_DoIf bind_def pure_def apply3_def DoIf_def ev_ne_def compare_values_def ExprValue_double_def)
next
  fix t r e
  assume "eval L (detect st) (EBin t a b) (env_of st) = (Inr r, e) \<and> t \<in> {TOK_AND, TOK_OR} \<and> v_type v \<noteq> UNSURE"
  then show "v_type r = BOOL"
    using a(2) b(2) by (auto simp: bind_def pure_def binary_def intro: connective_BOOL)
next
  assume "v_type v = NUMBER"
  then show "outcome_of L st (ENeg a) (Inr (ExprValue_int64 L 0))"
    using a by (intro outcome_of_eval) (simp_all add: bind_def pure_def ev_minus_def ExprValue_int64_def Let_def)
next
  assume "v_type v = INTEGER64 \<and> OneArgumentFunctions L f = Some g"
  then show "outcome_of L st (ECall1 f a) (Inr (ExprValue_double (fst (g (d_value v) (snd e1)))))"
    using a one_argument_name [of L f g] by (intro outcome_of_eval) (auto simp: bind_def apply1_def on_world_def map_prod_def split: prod.split)
next
  assume "int_expr a"
  from int_expr_value [OF this, of L "detect st" "env_of st"] a(2) show "v_type v = INTEGER64" "d_value v = d_zero L" by auto
next
  show "\<exists>st1. GetToken L s (st\<lparr>pWord := ds @ 69 # es @ rest\<rparr>) = (Inr INTEGER64, st1) \<and>
      p_i_value st1 = word_of_int (digits_value ds) \<and> pWord st1 = rest"
    by (rule capital_exponent [OF digits])
  have "state_ok L (True, False) (st\<lparr>detect := True\<rparr>)" by (simp add: state_ok_def)
  then obtain r st1 where "Evaluate L n (st\<lparr>detect := True\<rparr>) = Some (r, st1)" "detect st1"
    using Evaluate_runs [of "st\<lparr>detect := True\<rparr>" n L "(True, False)"] n by (auto simp: state_ok_def)
  then show "\<exists>r st1. Parse L n st = Some (r, st1) \<and> (detect st1 \<longleftrightarrow> (\<exists>err. r = Inl err))"
    by (cases r) (auto simp: Parse_def andThen_def)
qed

text \<open>\<open>1 && 1 && 1\<close> throws, and \<open>sqrt(8 * 8)\<close> is computed of 0.\<close>

theorem expr_divergences_witness:
  "(\<exists>st1. Evaluate_program toy_expr 50 (lit '' 1 && 1 && 1'') (ExprParser_new toy_expr NONE [] [] 0) = Some (not_compatible, st1)) \<and>
   (\<exists>st1. Evaluate_program toy_expr 50 (lit '' sqrt ( 8 * 8 )'') (ExprParser_new toy_expr NONE [] [] 0) =
      Some (Inr (ExprValue_double (cmath toy_expr ''sqrt'' 0)), st1))"
proof
  let ?st = "ExprParser_new toy_expr NONE [] [] 0" and ?one = "EInt 1"
  obtain sy w where env: "env_of ?st = (sy, w)" by (cases "env_of ?st")
  have one: "wf toy_expr ?one" "eval toy_expr (detect ?st) ?one (sy, w) = (Inr (ExprValue_int64 toy_expr 1), (sy, w))"
    by (simp_all add: pure_def)
  have digit: "list_all IS_DIGIT [49]" "digits_value [49] < 2 ^ 63" "\<not> IS_DIGIT (peek [])" "[49 :: byte] \<noteq> []"
    by (simp_all add: IS_DIGIT_def char_range_unsigned digits_value_def)
  have len: "length (program ?st) < 1" by (simp add: ExprParser_new_def)
  have toy: "d_eq toy_expr = (=)" "d_zero toy_expr = 0" "d_of_int toy_expr = id" by (simp_all add: toy_expr_def d_zero_def)
  note rest = one one digit(4) digit(4) digit(1) digit(1) digit(2,3) len
  show "\<exists>st1. Evaluate_program toy_expr 50 (lit '' 1 && 1 && 1'') ?st = Some (not_compatible, st1)"
  proof -
    let ?a = "EBin TOK_AND ?one ?one"
    have a: "wf toy_expr ?a" "eval toy_expr (detect ?st) ?a (env_of ?st) =
        (Inr (assign_bool True (ExprValue_int64 toy_expr 1)), (sy, w))"
      by (simp_all add: env op_level_def eval_simps toy i_double_def)
    have "outcome_of toy_expr ?st (EBin TOK_AND ?a ?one) not_compatible"
      using expr_divergences [OF a rest] by (simp add: assign_bool_def)
    moreover have "show_expr (EBin TOK_AND ?a ?one) = lit '' 1 && 1 && 1''" by code_simp
    moreover have "length (lit '' 1 && 1 && 1'') < 50" by (simp add: lit_def)
    ultimately show ?thesis unfolding outcome_of_def by metis
  qed
  show "\<exists>st1. Evaluate_program toy_expr 50 (lit '' sqrt ( 8 * 8 )'') ?st =
      Some (Inr (ExprValue_double (cmath toy_expr ''sqrt'' 0)), st1)"
  proof -
    let ?a = "EBin MULTIPLY (EInt 8) (EInt 8)"
    have a: "wf toy_expr ?a" "eval toy_expr (detect ?st) ?a (env_of ?st) = (Inr (ExprValue_int64 toy_expr 64), (sy, w))"
      by (simp_all add: env op_level_def eval_simps mul_assign_def arith_assign_def Let_def)
    have "OneArgumentFunctions toy_expr (lit ''sqrt'') = Some (\<lambda>x w. (cmath toy_expr ''sqrt'' x, w))"
      by (simp add: OneArgumentFunctions_def std_functions_def lit_def)
    moreover have "v_type (ExprValue_int64 toy_expr 64) = INTEGER64" "d_value (ExprValue_int64 toy_expr 64) = 0"
      by (simp_all add: ExprValue_int64_def toy)
    ultimately have "outcome_of toy_expr ?st (ECall1 (lit ''sqrt'') ?a)
        (Inr (ExprValue_double (fst ((\<lambda>x w. (cmath toy_expr ''sqrt'' x, w)) 0 (snd (sy, w))))))"
      using expr_divergences [OF a rest, where f = "lit ''sqrt''" and g = "\<lambda>x w. (cmath toy_expr ''sqrt'' x, w)"] by metis
    then have "outcome_of toy_expr ?st (ECall1 (lit ''sqrt'') ?a) (Inr (ExprValue_double (cmath toy_expr ''sqrt'' 0)))" by simp
    moreover have "show_expr (ECall1 (lit ''sqrt'') ?a) = lit '' sqrt ( 8 * 8 )''" by code_simp
    moreover have "length (lit '' sqrt ( 8 * 8 )'') < 50" by (simp add: lit_def)
    ultimately show ?thesis unfolding outcome_of_def by metis
  qed
qed

end
