(* ===== verification/Locks.thy ===== *)
theory Locks
  imports Prelude "HOL-Library.Multiset"
begin

text \<open>
  The locks of \<^verbatim>\<open>src/utils/thread.h\<close> and \<^verbatim>\<open>thread.cpp\<close> under the interleaving of threads: the class \<^verbatim>\<open>ReadWriteLock\<close>, built
  from a recursive mutex and an atomic counter. Every operation is the list
  of its atomic instructions, a run is a list of the actions of the threads in the order in which they happen.
  The theory shows that no thread reads or writes while another one writes, and when a thread waits for ever.
\<close>

section \<open>Systems of threads\<close>

type_synonym tid = nat

fun run_actions :: "('a \<Rightarrow> 's \<Rightarrow> 's option) \<Rightarrow> 'a list \<Rightarrow> 's \<Rightarrow> 's option" where
  "run_actions act [] s = Some s"
| "run_actions act (a # as) s = (case act a s of None \<Rightarrow> None | Some s' \<Rightarrow> run_actions act as s')"

text \<open>
  The contract of a system of threads: an action that is possible keeps the invariant. A system with critical
  sections also says which threads are inside of them, and its invariant admits one.
\<close>

locale thread_system =
  fixes act :: "'a \<Rightarrow> 's \<Rightarrow> 's option" and inv :: "'s \<Rightarrow> bool"
  assumes act_inv: "inv s \<Longrightarrow> act a s = Some s' \<Longrightarrow> inv s'"
begin

lemma run_inv: "inv s \<Longrightarrow> run_actions act as s = Some s' \<Longrightarrow> inv s'"
proof (induction as arbitrary: s)
  case (Cons a as)
  then show ?case using act_inv by (auto split: option.splits)
qed simp

lemma run_stable:
  assumes "\<And>a s s'. inv s \<Longrightarrow> P s \<Longrightarrow> act a s = Some s' \<Longrightarrow> P s'"
  shows "inv s \<Longrightarrow> P s \<Longrightarrow> run_actions act as s = Some s' \<Longrightarrow> P s'"
proof (induction as arbitrary: s)
  case (Cons a as)
  then obtain s1 where "act a s = Some s1" "run_actions act as s1 = Some s'"
    by (auto split: option.splits)
  with Cons assms act_inv show ?case by blast
qed simp

end

locale critical_sections = thread_system +
  fixes inside :: "'b \<Rightarrow> tid \<Rightarrow> bool"
  assumes one_inside: "inv s \<Longrightarrow> inside s t \<Longrightarrow> inside s u \<Longrightarrow> t = u"
begin

lemma run_exclusive:
  "inv s \<Longrightarrow> run_actions act as s = Some s' \<Longrightarrow> inside s' t \<Longrightarrow> inside s' u \<Longrightarrow> t = u"
  using run_inv one_inside by blast

end

section \<open>The mutex of the operating system\<close>

text \<open>
  \<^verbatim>\<open>Mutex\<close> wraps a recursive \<^verbatim>\<open>pthread_mutex_t\<close>, which is a parameter: the state that \<^verbatim>\<open>pthread_mutex_init\<close> makes, the effect
  of \<^verbatim>\<open>pthread_mutex_lock\<close>, with no result while the caller has to wait, that of \<^verbatim>\<open>pthread_mutex_unlock\<close>, and how often a
  thread has locked it. The laws are those of POSIX for the type \<^verbatim>\<open>PTHREAD_MUTEX_RECURSIVE\<close>.
\<close>

record 'm pthread_mutex =
  mutex_init :: 'm
  mutex_lock :: "tid \<Rightarrow> 'm \<Rightarrow> 'm option"
  mutex_unlock :: "tid \<Rightarrow> 'm \<Rightarrow> 'm"
  mutex_count :: "'m \<Rightarrow> tid \<Rightarrow> nat"

definition mutex_laws :: "'m pthread_mutex \<Rightarrow> bool" where
  "mutex_laws M \<longleftrightarrow>
     (\<forall>t. mutex_count M (mutex_init M) t = 0) \<and>
     (\<forall>m t m'. mutex_lock M t m = Some m' \<longrightarrow> mutex_count M m' = (mutex_count M m)(t := Suc (mutex_count M m t))) \<and>
     (\<forall>m t. mutex_lock M t m = None \<longleftrightarrow> (\<exists>u. u \<noteq> t \<and> mutex_count M m u > 0)) \<and>
     (\<forall>m t. mutex_count M m t > 0 \<longrightarrow>
        mutex_count M (mutex_unlock M t m) = (mutex_count M m)(t := mutex_count M m t - 1))"

section \<open>ReadWriteLock\<close>

record 'm ReadWriteLock =
  reads :: u64
  enterLock :: 'm

definition ReadWriteLock_new :: "'m pthread_mutex \<Rightarrow> 'm ReadWriteLock" where
  "ReadWriteLock_new M = \<lparr>reads = 0, enterLock = mutex_init M\<rparr>"

definition AtomicInc :: "u64 \<Rightarrow> u64" where
  "AtomicInc v = v + 1"

definition AtomicDec :: "u64 \<Rightarrow> u64" where
  "AtomicDec v = v - 1"

text \<open>The atomic instructions of the operations; the last one is the loop of \<^verbatim>\<open>WriteLock\<close>.\<close>

datatype rw_instr = MutexLock | MutexUnlock | IncReads | DecReads | WaitNoReads

datatype rw_op = ReadLock | ReadUnlock | WriteLock | WriteUnlock

fun rw_code :: "rw_op \<Rightarrow> rw_instr list" where
  "rw_code ReadLock = [MutexLock, IncReads, MutexUnlock]"
| "rw_code ReadUnlock = [DecReads]"
| "rw_code WriteLock = [MutexLock, WaitNoReads]"
| "rw_code WriteUnlock = [MutexUnlock]"

text \<open>An instruction that has no result has to be tried again: the thread waits.\<close>

fun rw_exec :: "'m pthread_mutex \<Rightarrow> tid \<Rightarrow> rw_instr \<Rightarrow> 'm ReadWriteLock \<Rightarrow> 'm ReadWriteLock option" where
  "rw_exec M t MutexLock l = map_option (\<lambda>m. l\<lparr>enterLock := m\<rparr>) (mutex_lock M t (enterLock l))"
| "rw_exec M t MutexUnlock l = Some (l\<lparr>enterLock := mutex_unlock M t (enterLock l)\<rparr>)"
| "rw_exec M t IncReads l = Some (l\<lparr>reads := AtomicInc (reads l)\<rparr>)"
| "rw_exec M t DecReads l = Some (l\<lparr>reads := AtomicDec (reads l)\<rparr>)"
| "rw_exec M t WaitNoReads l = (if 0 <s reads l then None else Some l)"

section \<open>Threads that use the lock\<close>

text \<open>
  A thread is outside of the operations or has instructions of one before it. The readers and writers are those
  who have counted themselves into \<^verbatim>\<open>_reads\<close> and those who have passed the loop of \<^verbatim>\<open>WriteLock\<close>, as often as they have.
\<close>

record 'm rw_system =
  rw_lock :: "'m ReadWriteLock"
  rw_pc :: "tid \<Rightarrow> (rw_op \<times> rw_instr list) option"
  readers :: "tid multiset"
  writers :: "tid multiset"

definition rw_start :: "'m pthread_mutex \<Rightarrow> 'm rw_system" where
  "rw_start M = \<lparr>rw_lock = ReadWriteLock_new M, rw_pc = (\<lambda>t. None), readers = {#}, writers = {#}\<rparr>"

fun rw_note :: "tid \<Rightarrow> rw_op \<Rightarrow> rw_instr \<Rightarrow> 'm rw_system \<Rightarrow> 'm rw_system" where
  "rw_note t ReadLock IncReads s = s\<lparr>readers := add_mset t (readers s)\<rparr>"
| "rw_note t ReadUnlock DecReads s = s\<lparr>readers := readers s - {#t#}\<rparr>"
| "rw_note t WriteLock WaitNoReads s = s\<lparr>writers := add_mset t (writers s)\<rparr>"
| "rw_note t WriteUnlock MutexUnlock s = s\<lparr>writers := writers s - {#t#}\<rparr>"
| "rw_note t p i s = s"

text \<open>
  The discipline of the guards \<^verbatim>\<open>ReadLockGuard\<close> and \<^verbatim>\<open>WriteLockGuard\<close>: a thread unlocks only what it has locked. Fewer
  than $2^{63}$ read locks exist at a time, more than memory can hold guards for.
\<close>

fun rw_may_call :: "'m rw_system \<Rightarrow> tid \<Rightarrow> rw_op \<Rightarrow> bool" where
  "rw_may_call s t ReadUnlock \<longleftrightarrow> t \<in># readers s"
| "rw_may_call s t WriteUnlock \<longleftrightarrow> t \<in># writers s"
| "rw_may_call s t p \<longleftrightarrow> True"

datatype rw_action = Call tid rw_op | Step tid

fun rw_act :: "'m pthread_mutex \<Rightarrow> rw_action \<Rightarrow> 'm rw_system \<Rightarrow> 'm rw_system option" where
  "rw_act M (Call t p) s =
     (if rw_pc s t = None \<and> rw_may_call s t p then Some (s\<lparr>rw_pc := (rw_pc s)(t := Some (p, rw_code p))\<rparr>) else None)"
| "rw_act M (Step t) s =
     (case rw_pc s t of
        Some (p, i # rest) \<Rightarrow>
          if i = IncReads \<and> size (readers s) + 1 \<ge> 2 ^ 63 then None
          else
            (case rw_exec M t i (rw_lock s) of
               None \<Rightarrow> Some s
             | Some l \<Rightarrow>
                 Some (rw_note t p i
                   (s\<lparr>rw_lock := l, rw_pc := (rw_pc s)(t := if rest = [] then None else Some (p, rest))\<rparr>)))
      | _ \<Rightarrow> None)"

section \<open>The invariant\<close>

text \<open>The mutex is locked by the writers and by the threads between its lock and unlock.\<close>

fun in_passage :: "(rw_op \<times> rw_instr list) option \<Rightarrow> nat" where
  "in_passage (Some (ReadLock, [IncReads, MutexUnlock])) = 1"
| "in_passage (Some (ReadLock, [MutexUnlock])) = 1"
| "in_passage (Some (WriteLock, [WaitNoReads])) = 1"
| "in_passage _ = 0"

fun pc_ok :: "'m rw_system \<Rightarrow> tid \<Rightarrow> (rw_op \<times> rw_instr list) option \<Rightarrow> bool" where
  "pc_ok s t None \<longleftrightarrow> True"
| "pc_ok s t (Some (ReadLock, is)) \<longleftrightarrow> is \<in> {[MutexLock, IncReads, MutexUnlock], [IncReads, MutexUnlock], [MutexUnlock]}"
| "pc_ok s t (Some (ReadUnlock, is)) \<longleftrightarrow> is = [DecReads] \<and> t \<in># readers s"
| "pc_ok s t (Some (WriteLock, is)) \<longleftrightarrow> is \<in> {[MutexLock, WaitNoReads], [WaitNoReads]}"
| "pc_ok s t (Some (WriteUnlock, is)) \<longleftrightarrow> is = [MutexUnlock] \<and> t \<in># writers s"

definition locked :: "'m pthread_mutex \<Rightarrow> 'm rw_system \<Rightarrow> tid \<Rightarrow> nat" where
  "locked M s = mutex_count M (enterLock (rw_lock s))"

definition rw_inv :: "'m pthread_mutex \<Rightarrow> 'm rw_system \<Rightarrow> bool" where
  "rw_inv M s \<longleftrightarrow>
     size (readers s) < 2 ^ 63 \<and> reads (rw_lock s) = of_nat (size (readers s)) \<and>
     (\<forall>t. pc_ok s t (rw_pc s t)) \<and>
     (\<forall>t. locked M s t = count (writers s) t + in_passage (rw_pc s t)) \<and>
     (\<forall>t u. locked M s t > 0 \<longrightarrow> locked M s u > 0 \<longrightarrow> t = u) \<and>
     (\<forall>t u. t \<in># writers s \<longrightarrow> u \<in># readers s \<longrightarrow> u = t)"

lemma reads_positive:
  assumes "n < 2 ^ 63"
  shows "0 <s (of_nat n :: u64) \<longleftrightarrow> n > 0"
proof -
  have "unat (of_nat n :: u64) = n" using assms by (simp add: unat_of_nat take_bit_nat_eq_self)
  then have "sint (of_nat n :: u64) = int n"
    using assms by (simp add: sint_nonneg_eq sint_nonneg_iff)
  then show ?thesis by (simp add: word_sless_alt)
qed

text \<open>What the laws of the mutex give for one thread that locks or unlocks it.\<close>

lemma mutex_lock_count:
  "mutex_laws M \<Longrightarrow> mutex_lock M t m = Some m' \<Longrightarrow> mutex_count M m' = (mutex_count M m)(t := Suc (mutex_count M m t))"
  unfolding mutex_laws_def by blast

lemma mutex_lock_free:
  "mutex_laws M \<Longrightarrow> mutex_lock M t m = Some m' \<Longrightarrow> u \<noteq> t \<Longrightarrow> mutex_count M m u = 0"
  unfolding mutex_laws_def by (metis gr0I option.distinct(1))

lemma mutex_unlock_count:
  "mutex_laws M \<Longrightarrow> mutex_count M m t > 0 \<Longrightarrow>
   mutex_count M (mutex_unlock M t m) = (mutex_count M m)(t := mutex_count M m t - 1)"
  unfolding mutex_laws_def by blast

lemma rw_inv_start: "mutex_laws M \<Longrightarrow> rw_inv M (rw_start M)"
  by (simp add: rw_inv_def rw_start_def ReadWriteLock_new_def locked_def mutex_laws_def)

lemma rw_inv_call:
  assumes "rw_inv M s" and "rw_act M (Call t p) s = Some s'"
  shows "rw_inv M s'"
proof -
  have free: "rw_pc s t = None" and may: "rw_may_call s t p"
    and s': "s' = s\<lparr>rw_pc := (rw_pc s)(t := Some (p, rw_code p))\<rparr>"
    using assms(2) by (auto split: if_splits)
  have same: "pc_ok (s\<lparr>rw_pc := f\<rparr>) u pc = pc_ok s u pc" for f u pc
    by (cases "(s, u, pc)" rule: pc_ok.cases) simp_all
  have "pc_ok s t (Some (p, rw_code p))" "in_passage (Some (p, rw_code p)) = 0"
    using may by (cases p; simp)+
  then show ?thesis using assms(1) free unfolding rw_inv_def s' locked_def by (simp add: same)
qed

text \<open>A step changes only what belongs to its thread.\<close>

lemma rw_inv_local:
  assumes inv: "rw_inv M s"
    and pc: "rw_pc s' = (rw_pc s)(t := q)"
    and lock: "locked M s' = (locked M s)(t := count (writers s') t + in_passage q)"
    and alone: "count (writers s') t + in_passage q > 0 \<longrightarrow> (\<forall>u. u \<noteq> t \<longrightarrow> locked M s u = 0)"
    and others: "\<And>u. u \<noteq> t \<Longrightarrow> count (writers s') u = count (writers s) u"
      "\<And>u. u \<noteq> t \<Longrightarrow> count (readers s') u = count (readers s) u"
    and at: "pc_ok s' t q"
    and number: "size (readers s') < 2 ^ 63" "reads (rw_lock s') = of_nat (size (readers s'))"
    and excl: "t \<in># writers s' \<Longrightarrow> set_mset (readers s') \<subseteq> {t}"
      "t \<in># readers s' \<Longrightarrow> set_mset (writers s') \<subseteq> {t}"
  shows "rw_inv M s'"
proof -
  have elem: "u \<noteq> t \<Longrightarrow> u \<in># writers s' \<longleftrightarrow> u \<in># writers s" "u \<noteq> t \<Longrightarrow> u \<in># readers s' \<longleftrightarrow> u \<in># readers s" for u
    using others by (metis count_eq_zero_iff)+
  have ok: "pc_ok s' u (rw_pc s' u)" for u
  proof (cases "u = t")
    case False
    have "pc_ok s u (rw_pc s u)" using inv unfolding rw_inv_def by blast
    then have "pc_ok s' u (rw_pc s u)"
      using elem [OF False] by (cases "(s, u, rw_pc s u)" rule: pc_ok.cases) simp_all
    then show ?thesis using False pc by simp
  qed (use at pc in simp)
  have counts: "locked M s' u = count (writers s') u + in_passage (rw_pc s' u)" for u
    using inv lock others(1) [of u] pc unfolding rw_inv_def by simp
  have one: "u = v" if "locked M s' u > 0" "locked M s' v > 0" for u v
  proof -
    have old: "locked M s a > 0 \<Longrightarrow> locked M s b > 0 \<Longrightarrow> a = b" for a b using inv unfolding rw_inv_def by blast
    show ?thesis using that alone old [of u v] unfolding lock by (cases "u = t"; cases "v = t") auto
  qed
  have "v = u" if "u \<in># writers s'" "v \<in># readers s'" for u v
    using that inv elem excl unfolding rw_inv_def by (metis empty_iff insert_iff subsetD)
  then show ?thesis unfolding rw_inv_def using number ok counts one by blast
qed

lemma rw_inv_facts:
  assumes "rw_inv M s"
  shows "locked M s t = count (writers s) t + in_passage (rw_pc s t)" "pc_ok s t (rw_pc s t)"
    "t \<in># writers s \<Longrightarrow> set_mset (readers s) \<subseteq> {t}" "t \<in># readers s \<Longrightarrow> set_mset (writers s) \<subseteq> {t}"
    "locked M s t > 0 \<Longrightarrow> u \<noteq> t \<Longrightarrow> locked M s u = 0" "locked M s t > 0 \<Longrightarrow> set_mset (writers s) \<subseteq> {t}"
    "size (readers s) < 2 ^ 63" "reads (rw_lock s) = of_nat (size (readers s))"
proof -
  note inv = assms [unfolded rw_inv_def]
  show counts: "locked M s t = count (writers s) t + in_passage (rw_pc s t)" for t using inv by blast
  show "pc_ok s t (rw_pc s t)" "size (readers s) < 2 ^ 63" "reads (rw_lock s) = of_nat (size (readers s))"
    using inv by blast+
  show "t \<in># writers s \<Longrightarrow> set_mset (readers s) \<subseteq> {t}" "t \<in># readers s \<Longrightarrow> set_mset (writers s) \<subseteq> {t}" using inv by blast+
  show other: "locked M s t > 0 \<Longrightarrow> u \<noteq> t \<Longrightarrow> locked M s u = 0" for u using inv by blast
  show "set_mset (writers s) \<subseteq> {t}" if "locked M s t > 0"
  proof
    fix u assume "u \<in># writers s"
    then have "locked M s u > 0" using counts [of u] by simp
    then show "u \<in> {t}" using other [OF that, of u] by auto
  qed
qed

lemma rw_inv_exec:
  assumes laws: "mutex_laws M" and inv: "rw_inv M s" and pc: "rw_pc s t = Some (p, i # rest)"
    and room: "i = IncReads \<Longrightarrow> size (readers s) + 1 < 2 ^ 63"
    and exec: "rw_exec M t i (rw_lock s) = Some l"
  shows "rw_inv M (rw_note t p i (s\<lparr>rw_lock := l, rw_pc := (rw_pc s)(t := if rest = [] then None else Some (p, rest))\<rparr>))"
    (is "rw_inv M ?s'")
proof -
  note facts = rw_inv_facts [OF inv]
  have ok: "pc_ok s t (Some (p, i # rest))" using facts(2) [of t] pc by simp
  have held: "locked M s t = count (writers s) t + in_passage (Some (p, i # rest))" using facts(1) [of t] pc by simp
  note local = rw_inv_local [OF inv, where t = t and q = "if rest = [] then None else Some (p, rest)" and s' = ?s']
  have size1: "t \<in># readers s \<Longrightarrow> size (readers s) = Suc (size (readers s - {#t#}))" by (metis insert_DiffM size_add_mset)
  have other: "locked M s t > 0 \<Longrightarrow> \<forall>u. u \<noteq> t \<longrightarrow> locked M s u = 0" using facts(5) [of t] by blast
  show ?thesis
  proof (cases i)
    case MutexLock
    then obtain m where m: "mutex_lock M t (enterLock (rw_lock s)) = Some m" "l = (rw_lock s)\<lparr>enterLock := m\<rparr>"
      using exec by auto
    have "\<forall>u. u \<noteq> t \<longrightarrow> locked M s u = 0" using mutex_lock_free [OF laws m(1)] by (simp add: locked_def)
    moreover have "p = ReadLock \<and> rest = [IncReads, MutexUnlock] \<or> p = WriteLock \<and> rest = [WaitNoReads]"
      using ok MutexLock by (cases p) simp_all
    ultimately show ?thesis
      using facts(3,4) [of t] facts(7,8) held MutexLock mutex_lock_count [OF laws m(1)]
      by (intro local) (auto simp: m locked_def)
  next
    case MutexUnlock
    then have p: "rest = []" "p = ReadLock \<or> p = WriteUnlock \<and> t \<in># writers s" using ok by (cases p; simp)+
    then have some: "locked M s t > 0" using held MutexUnlock by auto
    have "mutex_count M (enterLock l) = (locked M s)(t := locked M s t - 1)" "reads l = reads (rw_lock s)"
      using exec MutexUnlock mutex_unlock_count [OF laws, of "enterLock (rw_lock s)" t] some by (auto simp: locked_def)
    moreover have "count (writers s - {#t#}) t = count (writers s) t - 1" by simp
    moreover note other [OF some] facts(3,4) [of t] facts(6) [OF some] facts(7,8)
    ultimately show ?thesis using p(2)
    proof (elim disjE conjE, goal_cases)
      case 1
      then show ?case using held MutexUnlock p(1) by (intro local) (simp_all add: locked_def)
    next
      case 2
      have sub: "set_mset (writers s - {#t#}) \<subseteq> set_mset (writers s)" by (auto dest: in_diffD)
      have mem: "t \<in># writers s - {#t#} \<Longrightarrow> t \<in># writers s" by (rule in_diffD)
      show ?case using 2 held MutexUnlock p(1) sub mem by (intro local) (auto simp: locked_def)
    qed
  next
    case IncReads
    then have p: "p = ReadLock" "rest = [MutexUnlock]" using ok by (cases p; simp)+
    then have some: "locked M s t > 0" using held IncReads by simp
    show ?thesis
      using facts(3) [of t] facts(6) [OF some] facts(8) held IncReads p other [OF some] exec room
      by (intro local) (auto simp: locked_def AtomicInc_def)
  next
    case DecReads
    then have p: "p = ReadUnlock" "rest = []" "t \<in># readers s" using ok by (cases p; simp)+
    have "set_mset (readers s - {#t#}) \<subseteq> {t}" if "t \<in># writers s"
      using facts(3) [OF that] by (auto dest: in_diffD)
    then show ?thesis
      using facts(4) [OF p(3)] facts(5) [of t] facts(7,8) held DecReads size1 exec p
      by (intro local) (auto simp: locked_def AtomicDec_def)
  next
    case WaitNoReads
    then have p: "p = WriteLock" "rest = []" using ok by (cases p; simp)+
    then have some: "locked M s t > 0" using held WaitNoReads by simp
    moreover have "readers s = {#}" "l = rw_lock s"
      using exec WaitNoReads facts(7,8) by (simp_all add: reads_positive split: if_splits)
    ultimately show ?thesis
      using facts(6) [OF some] facts(7,8) held WaitNoReads p other [OF some]
      by (intro local) (auto simp: locked_def)
  qed
qed

lemma rw_inv_step:
  assumes "mutex_laws M" and "rw_inv M s" and "rw_act M (Step t) s = Some s'"
  shows "rw_inv M s'"
proof -
  obtain p i rest where pc: "rw_pc s t = Some (p, i # rest)"
    using assms(3) by (auto split: option.splits list.splits prod.splits)
  have room: "i = IncReads \<Longrightarrow> size (readers s) + 1 < 2 ^ 63" using assms(3) pc by (auto split: if_splits)
  show ?thesis
  proof (cases "rw_exec M t i (rw_lock s)")
    case None
    then show ?thesis using assms pc by (simp split: if_splits)
  next
    case (Some l)
    then show ?thesis using rw_inv_exec [OF assms(1,2) pc room Some] assms(3) pc by (simp split: if_splits)
  qed
qed

lemma rw_act_inv: "mutex_laws M \<Longrightarrow> rw_inv M s \<Longrightarrow> rw_act M a s = Some s' \<Longrightarrow> rw_inv M s'"
  using rw_inv_call rw_inv_step by (cases a) blast+

interpretation rw: critical_sections "rw_act M" "\<lambda>s. mutex_laws M \<and> rw_inv M s" "\<lambda>s t. locked M s t > 0"
  for M :: "'m pthread_mutex"
proof (unfold_locales, goal_cases)
  case (1 s a s')
  then show ?case using rw_act_inv by blast
next
  case (2 s t u)
  then show ?case unfolding rw_inv_def by blast
qed

section \<open>Waiting\<close>

text \<open>
  A writer that waits lets no other thread in, and a thread that asks for the write lock while it holds a read lock
  waits for itself.
\<close>

definition upgrading :: "tid \<Rightarrow> 'm rw_system \<Rightarrow> 'm rw_system \<Rightarrow> bool" where
  "upgrading t s0 s \<longleftrightarrow>
     rw_pc s t = Some (WriteLock, [WaitNoReads]) \<and> t \<in># readers s \<and>
     (\<forall>u. u \<noteq> t \<longrightarrow> count (readers s) u \<le> count (readers s0) u)"

lemma upgrading_stable:
  assumes laws: "mutex_laws M" and inv: "rw_inv M s" and up: "upgrading t s0 s" and act: "rw_act M a s = Some s'"
  shows "upgrading t s0 s'"
proof (cases a)
  case (Call u p)
  then show ?thesis using act up unfolding upgrading_def by (auto split: if_splits)
next
  case (Step u)
  note facts = rw_inv_facts [OF inv]
  show ?thesis
  proof (cases "u = t")
    case True
    have "0 <s reads (rw_lock s)" using facts(7,8) up unfolding upgrading_def
      by (auto simp: reads_positive nonempty_has_size [symmetric])
    then show ?thesis using act up Step True unfolding upgrading_def by simp
  next
    case False
    obtain p i rest where pc: "rw_pc s u = Some (p, i # rest)"
      using act Step by (auto split: option.splits list.splits prod.splits)
    have "locked M s t > 0" using facts(1) [of t] up unfolding upgrading_def by simp
    then have none: "locked M s u = 0" using facts(5) False by blast
    have "i \<noteq> IncReads"
    proof
      assume i: "i = IncReads"
      have "pc_ok s u (Some (p, i # rest))" using facts(2) [of u] pc by simp
      then have "p = ReadLock" "rest = [MutexUnlock]" using i by (cases p; simp)+
      then show False using facts(1) [of u] none pc i by simp
    qed
    then show ?thesis using act up pc Step False unfolding upgrading_def
      by (cases p; cases i) (auto split: option.splits simp: in_diff_count)
  qed
qed

lemma no_passage: "rw_inv M s \<Longrightarrow> \<forall>u. rw_pc s u = None \<Longrightarrow> writers s = {#} \<Longrightarrow> locked M s u = 0"
  using rw_inv_facts(1) [of M s u] by simp

lemma mutex_lock_idle:
  assumes "mutex_laws M" and "\<forall>u. mutex_count M m u = 0"
  obtains m' where "mutex_lock M t m = Some m'"
proof (cases "mutex_lock M t m")
  case None
  then show ?thesis using assms unfolding mutex_laws_def by (metis less_irrefl)
qed blast

lemma idle_lock:
  assumes laws: "mutex_laws M" and inv: "rw_inv M s" and idle: "\<forall>u. rw_pc s u = None" "writers s = {#}"
    and room: "size (readers s) + 1 < 2 ^ 63"
  shows "\<exists>s'. run_actions (rw_act M) [Call t ReadLock, Step t, Step t, Step t] s = Some s' \<and>
           readers s' = add_mset t (readers s) \<and> rw_pc s' t = None"
    and "readers s = {#} \<Longrightarrow>
         \<exists>s'. run_actions (rw_act M) [Call t WriteLock, Step t, Step t] s = Some s' \<and> t \<in># writers s' \<and> rw_pc s' t = None"
proof -
  have "\<forall>u. mutex_count M (enterLock (rw_lock s)) u = 0" using no_passage [OF inv idle] by (simp add: locked_def)
  then obtain m where m: "mutex_lock M t (enterLock (rw_lock s)) = Some m" using mutex_lock_idle [OF laws] by blast
  show "\<exists>s'. run_actions (rw_act M) [Call t ReadLock, Step t, Step t, Step t] s = Some s' \<and>
           readers s' = add_mset t (readers s) \<and> rw_pc s' t = None"
    using idle(1) room m by simp
  show "\<exists>s'. run_actions (rw_act M) [Call t WriteLock, Step t, Step t] s = Some s' \<and> t \<in># writers s' \<and> rw_pc s' t = None"
    if "readers s = {#}"
    using idle(1) m that rw_inv_facts(8) [OF inv] by simp
qed

section \<open>Properties\<close>

text \<open>
  Claim C7. The read/write lock excludes: in every run of any number of threads, whatever the order of their
  instructions, while a thread has the write lock no other thread has the write lock or a read lock; the counter is the
  number of read locks. A lock that no writer has and no thread is asking for is given to a reader in three steps, next to the
  other readers, and to a writer in two when there are no readers. A thread that asks for the write lock while it
  has a read lock waits for ever, and from then on no other thread gets either lock.
\<close>

theorem rwlock_excludes:
  assumes "mutex_laws M" and "run_actions (rw_act M) as (rw_start M) = Some s"
  shows "(t \<in># writers s \<longrightarrow> u \<in># writers s + readers s \<longrightarrow> u = t) \<and>
         sint (reads (rw_lock s)) = int (size (readers s)) \<and>
         ((\<forall>u. rw_pc s u = None) \<and> writers s = {#} \<and> size (readers s) + 1 < 2 ^ 63 \<longrightarrow>
            (\<exists>s'. run_actions (rw_act M) [Call t ReadLock, Step t, Step t, Step t] s = Some s' \<and>
               readers s' = add_mset t (readers s) \<and> rw_pc s' t = None) \<and>
            (readers s = {#} \<longrightarrow>
               (\<exists>s'. run_actions (rw_act M) [Call t WriteLock, Step t, Step t] s = Some s' \<and>
                  t \<in># writers s' \<and> rw_pc s' t = None))) \<and>
         (t \<in># readers s \<and> rw_pc s t = Some (WriteLock, [WaitNoReads]) \<longrightarrow>
            (\<forall>bs s'. run_actions (rw_act M) bs s = Some s' \<longrightarrow>
               rw_pc s' t = Some (WriteLock, [WaitNoReads]) \<and>
               (u \<noteq> t \<longrightarrow> u \<notin># writers s' \<and> count (readers s') u \<le> count (readers s) u)))"
    (is "?excl \<and> ?number \<and> ?idle \<and> ?upgrade")
proof (intro conjI)
  have inv: "mutex_laws M \<and> rw_inv M s" using rw.run_inv rw_inv_start assms by blast
  note facts = rw_inv_facts [OF conjunct2 [OF inv]]
  show ?excl using facts(3) [of t] facts(6) [of t] facts(1) [of t] by auto
  have "unat (of_nat (size (readers s)) :: u64) = size (readers s)"
    using facts(7) by (simp add: unat_of_nat take_bit_nat_eq_self)
  then show ?number using facts(7,8) by (simp add: sint_nonneg_eq sint_nonneg_iff)
  show ?idle using idle_lock [of M s t] inv by blast
  show ?upgrade
  proof (intro impI allI, elim conjE)
    fix bs s' assume run: "run_actions (rw_act M) bs s = Some s'"
      and up: "t \<in># readers s" "rw_pc s t = Some (WriteLock, [WaitNoReads])"
    have "upgrading t s s'"
      using rw.run_stable [of M "upgrading t s" s bs s'] upgrading_stable [of M] inv run up unfolding upgrading_def by blast
    moreover have "mutex_laws M \<and> rw_inv M s'" using rw.run_inv [OF inv run] .
    ultimately show "rw_pc s' t = Some (WriteLock, [WaitNoReads]) \<and>
        (u \<noteq> t \<longrightarrow> u \<notin># writers s' \<and> count (readers s') u \<le> count (readers s) u)"
      using rw_inv_facts(6) [of M s' t] rw_inv_facts(1) [of M s' t] unfolding upgrading_def by auto
  qed
qed

text \<open>A recursive mutex as POSIX describes it: its owner and how often the owner has locked it.\<close>

definition owner_mutex :: "(tid \<times> nat) pthread_mutex" where
  "owner_mutex =
     \<lparr>mutex_init = (0, 0),
      mutex_lock = (\<lambda>t (u, n). if n = 0 then Some (t, 1) else if u = t then Some (t, Suc n) else None),
      mutex_unlock = (\<lambda>t (u, n). if u = t then (u, n - 1) else (u, n)),
      mutex_count = (\<lambda>(u, n) t. if t = u then n else 0)\<rparr>"

lemma owner_mutex_laws: "mutex_laws owner_mutex"
  unfolding mutex_laws_def owner_mutex_def by (auto split: if_splits)

definition upgrade_run :: "rw_action list" where
  "upgrade_run = [Call 1 ReadLock, Step 1, Call 2 ReadLock, Step 2, Step 1, Step 1, Step 2, Step 2, Step 2,
     Call 2 ReadUnlock, Step 2, Call 1 WriteLock, Step 1, Step 1, Call 2 WriteLock, Step 2]"

theorem rwlock_excludes_witness:
  "mutex_laws owner_mutex \<and>
   (\<exists>s. run_actions (rw_act owner_mutex) upgrade_run (rw_start owner_mutex) = Some s \<and>
      readers s = {#1#} \<and> rw_pc s 1 = Some (WriteLock, [WaitNoReads]) \<and> rw_pc s 2 = Some (WriteLock, [MutexLock, WaitNoReads]) \<and>
      (\<forall>bs s'. run_actions (rw_act owner_mutex) bs s = Some s' \<longrightarrow> rw_pc s' 1 = Some (WriteLock, [WaitNoReads])))"
proof -
  obtain s where s: "run_actions (rw_act owner_mutex) upgrade_run (rw_start owner_mutex) = Some s"
      "readers s = {#1#}" "rw_pc s 1 = Some (WriteLock, [WaitNoReads])" "rw_pc s 2 = Some (WriteLock, [MutexLock, WaitNoReads])"
    by (simp add: upgrade_run_def rw_start_def ReadWriteLock_new_def owner_mutex_def AtomicInc_def AtomicDec_def word_sless_alt)
  then show ?thesis using rwlock_excludes [OF owner_mutex_laws s(1), of 1 1] owner_mutex_laws by auto
qed

end
