(* ===== verification/TaskPool.thy ===== *)
theory TaskPool
  imports Locks LruCache
begin

text \<open>
  The task queue and the thread pool of \<^verbatim>\<open>src/utils/thread.h\<close> and \<^verbatim>\<open>thread.cpp\<close> under the interleaving of threads: the
  classes \<^verbatim>\<open>SpinLock\<close>, \<^verbatim>\<open>ThreadTaskQueue\<close> and \<^verbatim>\<open>ThreadPool\<close>. Every operation of the queue is the list of its
  instructions between the lock and the unlock. The theory shows that the queue behaves as if its operations happened
  one after the other, that every task is taken out of it once, and what the pool's waiting operations wait for.
\<close>

section \<open>SpinLock\<close>

definition SPINLOCK_FREE :: u32 where "SPINLOCK_FREE = 0"
definition SPINLOCK_BUSY :: u32 where "SPINLOCK_BUSY = 1"

text \<open>\<^verbatim>\<open>BUBI_CAS(mem, with, cmp)\<close> returns what it found and stores \<open>with\<close> when that is \<open>cmp\<close>.\<close>

definition BUBI_CAS :: "u32 \<Rightarrow> u32 \<Rightarrow> u32 \<Rightarrow> u32 \<times> u32" where
  "BUBI_CAS mem new cmp = (mem, if mem = cmp then new else mem)"

text \<open>One turn of the loop of \<^verbatim>\<open>Lock\<close>; no result is another turn.\<close>

definition SpinLock_Lock :: "u32 \<Rightarrow> u32 option" where
  "SpinLock_Lock m_busy =
     (case BUBI_CAS m_busy SPINLOCK_BUSY SPINLOCK_FREE of (old, m_busy) \<Rightarrow>
        if SPINLOCK_BUSY = old then None else Some m_busy)"

definition SpinLock_Unlock :: "u32 \<Rightarrow> u32" where
  "SpinLock_Unlock m_busy = snd (BUBI_CAS m_busy SPINLOCK_FREE SPINLOCK_BUSY)"

section \<open>ThreadTaskQueue\<close>

text \<open>Tasks are pointers to \<^verbatim>\<open>Runnable\<close>; no task is the null pointer. Sizes are returned as \<^verbatim>\<open>int\<close>.\<close>

record 'k ThreadTaskQueue =
  tasks :: "'k list"
  m_busy :: u32

definition ThreadTaskQueue_new :: "'k ThreadTaskQueue" where
  "ThreadTaskQueue_new = \<lparr>tasks = [], m_busy = SPINLOCK_FREE\<rparr>"

datatype 'k queue_op = PutFront "'k option" | Put "'k option" | Size | Get

datatype 'k queue_result = Count u32 | Task "'k option"

datatype queue_instr = SpinAcquire | ChangeTasks | ReadSize | SpinRelease

fun queue_code :: "'k queue_op \<Rightarrow> queue_instr list" where
  "queue_code (PutFront task) = [SpinAcquire, ChangeTasks, ReadSize, SpinRelease]"
| "queue_code (Put task) = [SpinAcquire, ChangeTasks, ReadSize, SpinRelease]"
| "queue_code Size = [SpinAcquire, ReadSize, SpinRelease]"
| "queue_code Get = [SpinAcquire, ChangeTasks, SpinRelease]"

text \<open>The local variable of an operation, \<^verbatim>\<open>int ret = 0\<close> or \<^verbatim>\<open>Runnable *task = NULL\<close>, and what is done to the list.\<close>

fun queue_local :: "'k queue_op \<Rightarrow> 'k queue_result" where
  "queue_local Get = Task None"
| "queue_local p = Count 0"

fun change_tasks :: "'k queue_op \<Rightarrow> 'k queue_result \<Rightarrow> 'k list \<Rightarrow> 'k queue_result \<times> 'k list" where
  "change_tasks (PutFront task) ret q = (ret, case task of Some k \<Rightarrow> k # q | None \<Rightarrow> q)"
| "change_tasks (Put task) ret q = (ret, case task of Some k \<Rightarrow> q @ [k] | None \<Rightarrow> q)"
| "change_tasks Get task q = (if length q > 0 then (Task (Some (hd q)), tl q) else (task, q))"
| "change_tasks Size ret q = (ret, q)"

fun queue_exec ::
  "queue_instr \<Rightarrow> 'k queue_op \<Rightarrow> 'k queue_result \<Rightarrow> 'k ThreadTaskQueue \<Rightarrow> ('k queue_result \<times> 'k ThreadTaskQueue) option" where
  "queue_exec SpinAcquire p ret q = map_option (\<lambda>b. (ret, q\<lparr>m_busy := b\<rparr>)) (SpinLock_Lock (m_busy q))"
| "queue_exec ChangeTasks p ret q =
     (case change_tasks p ret (tasks q) of (ret, l) \<Rightarrow> Some (ret, q\<lparr>tasks := l\<rparr>))"
| "queue_exec ReadSize p ret q = Some (Count (of_nat (length (tasks q))), q)"
| "queue_exec SpinRelease p ret q = Some (ret, q\<lparr>m_busy := SpinLock_Unlock (m_busy q)\<rparr>)"

section \<open>ThreadPool\<close>

text \<open>
  Where a thread stands: in an operation of the queue, with the instructions before it and its local variable; at the
  test of the loop of \<^verbatim>\<open>ThreadPool::Run\<close>; in \<^verbatim>\<open>Run\<close> of a task; behind \<^verbatim>\<open>threadProc\<close>; or waiting in \<^verbatim>\<open>JoinWithStop\<close> for
  the workers of a list, of which the second list is left, and then clearing the vector of threads or not. A queue operation is done for a worker, for a client of the
  queue, or for one of the loops \<^verbatim>\<open>while (tasks_.Size() > 0)\<close>, with or without the joins after it.
\<close>

datatype purpose = ForWorker | ForClient | ForWait bool

datatype 'k place =
    Outside
  | InQueue purpose "'k queue_op" "queue_instr list" "'k queue_result"
  | AtTest
  | Running 'k
  | Finished
  | Joining bool "tid list" "tid list"

record 'k pool =
  queue :: "'k ThreadTaskQueue"
  enabled :: bool
  threads :: "tid list"
  place :: "tid \<Rightarrow> 'k place"
  log :: "('k queue_op \<times> 'k queue_result) list"
  finished :: "'k list"

definition pool_start :: "'k pool" where
  "pool_start = \<lparr>queue = ThreadTaskQueue_new, enabled = False, threads = [], place = (\<lambda>t. Outside), log = [], finished = []\<rparr>"

definition enter :: "purpose \<Rightarrow> 'k queue_op \<Rightarrow> 'k place" where
  "enter w p = InQueue w p (queue_code p) (queue_local p)"

definition move :: "tid \<Rightarrow> 'k place \<Rightarrow> 'k pool \<Rightarrow> 'k pool" where
  "move t l s = s\<lparr>place := (place s)(t := l)\<rparr>"

text \<open>\<^verbatim>\<open>Exit\<close> and the end of \<^verbatim>\<open>WaitAndJoin\<close>; \<^verbatim>\<open>JoinwWithStop\<close> clears the vector of threads after the joins.\<close>

definition stop_and_join :: "bool \<Rightarrow> tid \<Rightarrow> 'k pool \<Rightarrow> 'k pool" where
  "stop_and_join c t s = move t (Joining c (threads s) (threads s)) (s\<lparr>enabled := False\<rparr>)"

text \<open>What a thread does with the result of a queue operation.\<close>

fun queue_return :: "tid \<Rightarrow> purpose \<Rightarrow> 'k queue_result \<Rightarrow> 'k pool \<Rightarrow> 'k pool" where
  "queue_return t ForWorker (Task (Some k)) s = move t (Running k) s"
| "queue_return t ForWorker r s = move t AtTest s"
| "queue_return t (ForWait join) (Count n) s =
     (if 0 <s n then move t (enter (ForWait join) Size) s
      else if join then stop_and_join False t s
      else move t Outside s)"
| "queue_return t w r s = move t Outside s"

text \<open>
  The log of the queue: an operation is entered when it reads the result that it will return, from the list in
  the middle of its critical section.
\<close>

definition note_result :: "'k queue_op \<Rightarrow> queue_instr \<Rightarrow> 'k queue_result \<Rightarrow> 'k pool \<Rightarrow> 'k pool" where
  "note_result p i r s = (if i = ReadSize \<or> i = ChangeTasks \<and> p = Get then s\<lparr>log := log s @ [(p, r)]\<rparr> else s)"

text \<open>
  The step of a thread. \<open>Running k\<close> is the whole of the task \<open>k\<close>: what a task does is its own, and that a task itself calls
  operations of the pool or of its queue is not modelled, such calls come from the threads outside. The joins of \<^verbatim>\<open>JoinWithStop\<close> go through the
  vector of threads as it is at their start; that another thread calls \<^verbatim>\<open>Init\<close> or \<^verbatim>\<open>JoinwWithStop\<close> in between, which
  changes the vector without a lock, is a data race of the code and not given a meaning.
\<close>

fun pool_step :: "tid \<Rightarrow> 'k place \<Rightarrow> 'k pool \<Rightarrow> 'k pool option" where
  "pool_step t (InQueue w p (i # rest) r) s =
     (case queue_exec i p r (queue s) of
        None \<Rightarrow> Some s
      | Some (r, q) \<Rightarrow>
          let s = note_result p i r (s\<lparr>queue := q\<rparr>)
          in Some (if rest = [] then queue_return t w r s else move t (InQueue w p rest r) s))"
| "pool_step t AtTest s = Some (if enabled s then move t (enter ForWorker Get) s else move t Finished s)"
| "pool_step t (Running k) s = Some (move t AtTest (s\<lparr>finished := finished s @ [k]\<rparr>))"
| "pool_step t (Joining c ws []) s = Some (move t Outside (if c then s\<lparr>threads := []\<rparr> else s))"
| "pool_step t (Joining c ws (u # us)) s = Some (if place s u = Finished then move t (Joining c ws us) s else s)"
| "pool_step t l s = None"

text \<open>
  The calls: \<^verbatim>\<open>Init\<close> with the threads that \<^verbatim>\<open>AddWorker\<close> succeeds to start, \<^verbatim>\<open>AddTask\<close>, \<^verbatim>\<open>PutFront\<close> of the queue,
  \<^verbatim>\<open>WaitTaskComplete\<close>, \<^verbatim>\<open>WaitAndJoin\<close>, \<^verbatim>\<open>Exit\<close> and \<^verbatim>\<open>JoinwWithStop\<close>.
\<close>

datatype 'k pool_call =
    Init "tid list" | AddTask "'k option" | AddFront "'k option" | WaitTaskComplete | WaitAndJoin | Exit | JoinwWithStop

definition AddWorker :: "tid list \<Rightarrow> 'k pool \<Rightarrow> 'k pool" where
  "AddWorker ts s = s\<lparr>threads := threads s @ ts, place := (\<lambda>u. if u \<in> set ts then AtTest else place s u)\<rparr>"

fun do_call :: "tid \<Rightarrow> 'k pool_call \<Rightarrow> 'k pool \<Rightarrow> 'k pool option" where
  "do_call t (Init ts) s =
     (if \<forall>u \<in> set ts. u \<noteq> t \<and> place s u = Outside then Some (AddWorker ts (s\<lparr>enabled := True\<rparr>)) else None)"
| "do_call t (AddTask task) s = Some (move t (enter ForClient (Put task)) s)"
| "do_call t (AddFront task) s = Some (move t (enter ForClient (PutFront task)) s)"
| "do_call t WaitTaskComplete s = Some (move t (enter (ForWait False) Size) s)"
| "do_call t WaitAndJoin s = Some (move t (enter (ForWait True) Size) s)"
| "do_call t Exit s = Some (stop_and_join False t s)"
| "do_call t JoinwWithStop s = Some (stop_and_join True t s)"

datatype 'k pool_action = PoolCall tid "'k pool_call" | PoolStep tid

fun pool_act :: "'k pool_action \<Rightarrow> 'k pool \<Rightarrow> 'k pool option" where
  "pool_act (PoolCall t c) s = (if place s t = Outside then do_call t c s else None)"
| "pool_act (PoolStep t) s = pool_step t (place s t) s"

section \<open>What the queue promises\<close>

text \<open>The operations, each as one step on a list, and the tasks that operations put in and results take out.\<close>

definition given :: "'k option \<Rightarrow> 'k list" where
  "given task = (case task of Some k \<Rightarrow> [k] | None \<Rightarrow> [])"

fun seq_op :: "'k queue_op \<Rightarrow> 'k list \<Rightarrow> 'k queue_result \<times> 'k list" where
  "seq_op Get q = (case q of [] \<Rightarrow> (Task None, []) | k # q \<Rightarrow> (Task (Some k), q))"
| "seq_op Size q = (Count (of_nat (length q)), q)"
| "seq_op (Put task) q = (let q = q @ given task in (Count (of_nat (length q)), q))"
| "seq_op (PutFront task) q = (let q = given task @ q in (Count (of_nat (length q)), q))"

fun put_in :: "'k queue_op \<Rightarrow> 'k list" where
  "put_in (Put task) = given task"
| "put_in (PutFront task) = given task"
| "put_in p = []"

fun taken_out :: "'k queue_result \<Rightarrow> 'k list" where
  "taken_out (Task task) = given task"
| "taken_out r = []"

definition all_put :: "'k pool \<Rightarrow> 'k list" where
  "all_put s = concat (map (\<lambda>e. put_in (fst e)) (log s))"

definition all_taken :: "'k pool \<Rightarrow> 'k list" where
  "all_taken s = concat (map (\<lambda>e. taken_out (snd e)) (log s))"

definition logged :: "('k queue_op \<times> 'k queue_result) list \<Rightarrow> 'k list" where
  "logged es = snd (run seq_op (map fst es) [])"

definition log_ok :: "('k queue_op \<times> 'k queue_result) list \<Rightarrow> bool" where
  "log_ok es \<longleftrightarrow> fst (run seq_op (map fst es) []) = map snd es"

lemma run_snoc: "run step (opers @ [oper]) s =
  (case run step opers s of (rs, s1) \<Rightarrow> case step oper s1 of (r, s2) \<Rightarrow> (rs @ [r], s2))"
  by (induction opers arbitrary: s) (auto split: prod.splits)

lemma logged_Nil [simp]: "logged [] = []" "log_ok []"
  by (simp_all add: logged_def log_ok_def)

lemma logged_snoc [simp]:
  "logged (es @ [(p, r)]) = snd (seq_op p (logged es))"
  "log_ok es \<Longrightarrow> log_ok (es @ [(p, r)]) \<longleftrightarrow> fst (seq_op p (logged es)) = r"
  by (auto simp: logged_def log_ok_def run_snoc split: prod.splits)

lemma log_ok_butlast: "log_ok (es @ [e]) \<Longrightarrow> log_ok es"
  by (auto simp: log_ok_def run_snoc split: prod.splits)

text \<open>A log that replays loses no task, and without \<^verbatim>\<open>PutFront\<close> tasks leave in the order in which they came.\<close>

lemma log_conserves:
  "log_ok es \<Longrightarrow>
   mset (concat (map (\<lambda>e. put_in (fst e)) es)) = mset (concat (map (\<lambda>e. taken_out (snd e)) es)) + mset (logged es)"
proof (induction es rule: rev_induct)
  case (snoc e es)
  obtain p r where e: "e = (p, r)" by fastforce
  have ok: "log_ok es" "fst (seq_op p (logged es)) = r" using snoc.prems log_ok_butlast e logged_snoc(2) by blast+
  show ?case using snoc.IH [OF ok(1)] ok(2) unfolding e by (cases p) (auto simp: Let_def given_def split: list.splits option.splits)
qed simp

lemma log_fifo:
  "log_ok es \<Longrightarrow> (\<forall>e \<in> set es. \<forall>task. fst e \<noteq> PutFront task) \<Longrightarrow>
   concat (map (\<lambda>e. put_in (fst e)) es) = concat (map (\<lambda>e. taken_out (snd e)) es) @ logged es"
proof (induction es rule: rev_induct)
  case (snoc e es)
  obtain p r where e: "e = (p, r)" by fastforce
  have ok: "log_ok es" "fst (seq_op p (logged es)) = r" using snoc.prems(1) log_ok_butlast e logged_snoc(2) by blast+
  have "concat (map (\<lambda>e. put_in (fst e)) es) = concat (map (\<lambda>e. taken_out (snd e)) es) @ logged es"
    using snoc ok by simp
  then show ?case using snoc.prems(2) ok(2) unfolding e
    by (cases p) (auto simp: Let_def given_def split: list.splits option.splits)
qed simp

section \<open>The invariant\<close>

fun in_section :: "'k place \<Rightarrow> bool" where
  "in_section (InQueue w p (i # rest) r) \<longleftrightarrow> i \<noteq> SpinAcquire"
| "in_section l \<longleftrightarrow> False"

text \<open>An operation that has changed the list and is not yet in the log.\<close>

fun ahead :: "'k place \<Rightarrow> 'k queue_op option" where
  "ahead (InQueue w p (ReadSize # rest) r) = (if p = Size then None else Some p)"
| "ahead l = None"

text \<open>The task that a worker has taken and not finished.\<close>

fun in_hand :: "'k place \<Rightarrow> 'k option" where
  "in_hand (Running k) = Some k"
| "in_hand (InQueue w Get [SpinRelease] (Task task)) = task"
| "in_hand l = None"

fun place_ok :: "'k place \<Rightarrow> bool" where
  "place_ok (InQueue w p is r) \<longleftrightarrow>
     (w = ForWorker \<longleftrightarrow> p = Get) \<and>
     ((is = queue_code p \<or> is = tl (queue_code p) \<or> is = [ReadSize, SpinRelease] \<and> p \<noteq> Get) \<and> r = queue_local p \<or>
      is = [SpinRelease] \<and> (p = Get \<longrightarrow> (\<exists>task. r = Task task)))"
| "place_ok l \<longleftrightarrow> True"

definition hands :: "(tid \<Rightarrow> 'k place) \<Rightarrow> 'k multiset" where
  "hands f = (\<Sum>t | in_hand (f t) \<noteq> None. {#the (in_hand (f t))#})"

definition pool_inv :: "'k pool \<Rightarrow> bool" where
  "pool_inv s \<longleftrightarrow>
     (\<forall>t. place_ok (place s t)) \<and>
     (\<forall>t u. in_section (place s t) \<longrightarrow> in_section (place s u) \<longrightarrow> t = u) \<and>
     m_busy (queue s) = (if \<exists>t. in_section (place s t) then SPINLOCK_BUSY else SPINLOCK_FREE) \<and>
     log_ok (log s) \<and>
     (\<forall>t p. ahead (place s t) = Some p \<longrightarrow> tasks (queue s) = snd (seq_op p (logged (log s)))) \<and>
     ((\<forall>t. ahead (place s t) = None) \<longrightarrow> tasks (queue s) = logged (log s)) \<and>
     finite {t. in_hand (place s t) \<noteq> None} \<and>
     mset (all_taken s) = mset (finished s) + hands (place s) \<and>
     (\<forall>t c ws us. place s t = Joining c ws us \<longrightarrow> (\<forall>w \<in> set ws - set us. place s w = Finished))"

lemma hands_upd:
  assumes "finite {u. in_hand (f u) \<noteq> None}"
  shows "hands (f(t := l)) + mset (given (in_hand (f t))) = hands f + mset (given (in_hand l))"
    and "finite {u. in_hand ((f(t := l)) u) \<noteq> None}"
proof -
  let ?H = "{u. u \<noteq> t \<and> in_hand (f u) \<noteq> None}"
  have fin: "finite ?H" using assms by (rule rev_finite_subset) auto
  define rest where "rest = (\<Sum>u \<in> ?H. {#the (in_hand (f u))#})"
  have old: "hands f = rest + mset (given (in_hand (f t)))"
  proof (cases "in_hand (f t)")
    case None
    then have "{u. in_hand (f u) \<noteq> None} = ?H" by auto
    then show ?thesis using None by (simp add: hands_def rest_def given_def)
  next
    case (Some k)
    then have "{u. in_hand (f u) \<noteq> None} = insert t ?H" by auto
    then show ?thesis using Some fin by (simp add: hands_def rest_def given_def)
  qed
  have sum: "(\<Sum>u \<in> ?H. {#the (in_hand ((f(t := l)) u))#}) = rest" unfolding rest_def by (rule sum.cong) auto
  have set: "{u. in_hand ((f(t := l)) u) \<noteq> None} = (if in_hand l = None then ?H else insert t ?H)" by auto
  show "finite {u. in_hand ((f(t := l)) u) \<noteq> None}" unfolding set using fin by simp
  have "hands (f(t := l)) = rest + mset (given (in_hand l))"
    unfolding hands_def set using fin sum by (auto simp: given_def split: option.splits)
  then show "hands (f(t := l)) + mset (given (in_hand (f t))) = hands f + mset (given (in_hand l))"
    using old by simp
qed

lemma pool_inv_local:
  assumes inv: "pool_inv s" and moved: "place s' = (place s)(t := l)"
    and ok: "place_ok l"
    and sect: "in_section l \<Longrightarrow> \<forall>u. u \<noteq> t \<longrightarrow> \<not> in_section (place s u)"
    and busy: "m_busy (queue s') = (if in_section l \<or> (\<exists>u. u \<noteq> t \<and> in_section (place s u)) then SPINLOCK_BUSY else SPINLOCK_FREE)"
    and logged: "log_ok (log s')"
    and ah: "\<And>p. ahead l = Some p \<Longrightarrow> tasks (queue s') = snd (seq_op p (logged (log s')))"
      "\<And>u p. u \<noteq> t \<Longrightarrow> ahead (place s u) = Some p \<Longrightarrow> tasks (queue s') = snd (seq_op p (logged (log s')))"
      "ahead l = None \<Longrightarrow> \<forall>u. u \<noteq> t \<longrightarrow> ahead (place s u) = None \<Longrightarrow> tasks (queue s') = logged (log s')"
    and hand: "mset (all_taken s') + mset (finished s) + mset (given (in_hand (place s t))) =
      mset (all_taken s) + mset (finished s') + mset (given (in_hand l))"
    and joins: "\<And>c ws us. l = Joining c ws us \<Longrightarrow> \<forall>w \<in> set ws - set us. place s w = Finished"
    and stay: "place s t = Finished \<Longrightarrow> l = Finished"
  shows "pool_inv s'"
proof -
  note i = inv [unfolded pool_inv_def]
  have fin: "finite {u. in_hand (place s u) \<noteq> None}" using i by blast
  note hands = hands_upd [OF fin, of t l]
  have "mset (all_taken s) = mset (finished s) + hands (place s)" using i by blast
  then have "mset (all_taken s') + (mset (finished s) + mset (given (in_hand (place s t)))) =
      mset (finished s') + hands (place s') + (mset (finished s) + mset (given (in_hand (place s t))))"
    using hand hands(1) unfolding moved by (simp add: ac_simps)
  then have 8: "mset (all_taken s') = mset (finished s') + hands (place s')" by simp
  have 7: "finite {u. in_hand (place s' u) \<noteq> None}" using hands(2) unfolding moved .
  have 2: "\<forall>u v. in_section (place s' u) \<longrightarrow> in_section (place s' v) \<longrightarrow> u = v"
    using i sect unfolding moved by auto
  have "(\<exists>u. in_section (place s' u)) \<longleftrightarrow> in_section l \<or> (\<exists>u. u \<noteq> t \<and> in_section (place s u))" unfolding moved by auto
  then have 3: "m_busy (queue s') = (if \<exists>u. in_section (place s' u) then SPINLOCK_BUSY else SPINLOCK_FREE)"
    using busy by simp
  have 9: "\<forall>u c ws us. place s' u = Joining c ws us \<longrightarrow> (\<forall>w \<in> set ws - set us. place s' w = Finished)"
  proof (intro allI impI ballI)
    fix u c ws us w assume u: "place s' u = Joining c ws us" and w: "w \<in> set ws - set us"
    have "\<forall>w \<in> set ws - set us. place s w = Finished"
      using u joins i unfolding moved by (cases "u = t") (auto split: if_splits)
    then show "place s' w = Finished" using w stay unfolding moved by auto
  qed
  have 1: "\<forall>u. place_ok (place s' u)" using i ok unfolding moved by simp
  have 5: "\<forall>u p. ahead (place s' u) = Some p \<longrightarrow> tasks (queue s') = snd (seq_op p (logged (log s')))"
    using ah(1,2) unfolding moved by simp
  have 6: "(\<forall>u. ahead (place s' u) = None) \<longrightarrow> tasks (queue s') = logged (log s')"
    using ah(3) unfolding moved by auto
  show ?thesis unfolding pool_inv_def using 1 2 3 logged 5 6 7 8 9 by blast
qed

lemma ahead_in_section: "ahead l = Some p \<Longrightarrow> in_section l"
  by (cases l rule: ahead.cases) simp_all

lemma pool_inv_facts:
  assumes "pool_inv s"
  shows "place_ok (place s t)" "in_section (place s t) \<Longrightarrow> u \<noteq> t \<Longrightarrow> \<not> in_section (place s u)"
    "m_busy (queue s) = (if \<exists>t. in_section (place s t) then SPINLOCK_BUSY else SPINLOCK_FREE)"
    "log_ok (log s)" "ahead (place s t) = Some p \<Longrightarrow> tasks (queue s) = snd (seq_op p (logged (log s)))"
    "\<forall>t. ahead (place s t) = None \<Longrightarrow> tasks (queue s) = logged (log s)"
    "place s t = Joining c ws us \<Longrightarrow> w \<in> set ws - set us \<Longrightarrow> place s w = Finished"
  using assms unfolding pool_inv_def by blast+

lemma one_ahead:
  assumes "pool_inv s" and "in_section (place s t)" and "u \<noteq> t"
  shows "ahead (place s u) = None"
  using pool_inv_facts(2) [OF assms] ahead_in_section by (cases "ahead (place s u)") auto

text \<open>A thread that moves outside of the critical section.\<close>

lemma pool_inv_move:
  assumes inv: "pool_inv s" and moved: "place s' = (place s)(t := l)"
    and same: "queue s' = queue s" "log s' = log s"
    and out: "\<not> in_section (place s t)" "\<not> in_section l" and ok: "place_ok l"
    and hand: "mset (finished s) + mset (given (in_hand (place s t))) = mset (finished s') + mset (given (in_hand l))"
    and joins: "\<And>c ws us. l = Joining c ws us \<Longrightarrow> \<forall>w \<in> set ws - set us. place s w = Finished"
    and stay: "place s t = Finished \<Longrightarrow> l = Finished"
  shows "pool_inv s'"
proof (rule pool_inv_local [OF inv moved ok])
  note facts = pool_inv_facts [OF inv]
  have "(\<exists>u. in_section (place s u)) \<longleftrightarrow> (\<exists>u. u \<noteq> t \<and> in_section (place s u))" using out(1) by auto
  then show "m_busy (queue s') = (if in_section l \<or> (\<exists>u. u \<noteq> t \<and> in_section (place s u)) then SPINLOCK_BUSY else SPINLOCK_FREE)"
    using facts(3) out same by simp
  have "ahead (place s t) = None" using out(1) ahead_in_section by (cases "ahead (place s t)") auto
  then show "tasks (queue s') = logged (log s')" if "\<forall>u. u \<noteq> t \<longrightarrow> ahead (place s u) = None"
    using facts(6) that same by metis
  show "tasks (queue s') = snd (seq_op p (logged (log s')))" if "ahead (place s u) = Some p" for u p
    using facts(5) [OF that] same by simp
  show "log_ok (log s')" using facts(4) same by simp
  show "mset (all_taken s') + mset (finished s) + mset (given (in_hand (place s t))) =
      mset (all_taken s) + mset (finished s') + mset (given (in_hand l))"
    using hand same by (simp add: all_taken_def)
qed (use out joins stay ahead_in_section [of l] in auto)

lemma not_in_section_enter [simp]: "\<not> in_section (enter w p)" "in_hand (enter w p) = None" "enter w p \<noteq> Finished"
  "enter w p \<noteq> Joining c ws us"
  by (cases p; simp add: enter_def)+

lemma place_ok_enter: "(w = ForWorker \<longleftrightarrow> p = Get) \<Longrightarrow> place_ok (enter w p)"
  by (cases p) (simp_all add: enter_def)

lemma pool_inv_moved:
  assumes "pool_inv s" and "\<not> in_section (place s t)" and "in_hand (place s t) = None" and "place s t \<noteq> Finished"
    and "\<not> in_section l" and "place_ok l" and "in_hand l = None"
    and "\<And>c ws us. l = Joining c ws us \<Longrightarrow> \<forall>w \<in> set ws - set us. place s w = Finished"
  shows "pool_inv (move t l s)"
  using assms by (intro pool_inv_move [OF assms(1), where t = t and l = l]) (simp_all add: move_def)

lemma pool_inv_flags:
  "pool_inv (s\<lparr>enabled := b\<rparr>) \<longleftrightarrow> pool_inv s" "pool_inv (s\<lparr>threads := ts\<rparr>) \<longleftrightarrow> pool_inv s"
  by (simp_all add: pool_inv_def all_taken_def)

lemma pool_inv_stop_and_join:
  "pool_inv s \<Longrightarrow> place s t = Outside \<Longrightarrow> pool_inv (stop_and_join c t s)"
  unfolding stop_and_join_def by (intro pool_inv_moved) (simp_all add: pool_inv_flags)

lemma pool_inv_AddWorker:
  assumes inv: "pool_inv s" and free: "\<forall>u \<in> set ts. place s u = Outside"
  shows "pool_inv (AddWorker ts s)"
proof -
  define f where "f = (\<lambda>u. if u \<in> set ts then AtTest else place s u)"
  have same: "in_section (f u) = in_section (place s u)" "ahead (f u) = ahead (place s u)" "in_hand (f u) = in_hand (place s u)"
    "place_ok (f u) = place_ok (place s u)" "f u = Joining c ws us \<longleftrightarrow> place s u = Joining c ws us"
    "place s u = Finished \<Longrightarrow> f u = Finished" for u c ws us
    using free by (auto simp: f_def)
  have s': "AddWorker ts s = s\<lparr>threads := threads s @ ts, place := f\<rparr>" by (simp add: AddWorker_def f_def)
  show ?thesis using inv unfolding s' pool_inv_def by (simp add: same hands_def all_taken_def)
qed

lemma pool_inv_call:
  assumes "pool_inv s" and "pool_act (PoolCall t c) s = Some s'"
  shows "pool_inv s'"
proof -
  have out: "place s t = Outside" and call: "do_call t c s = Some s'" using assms(2) by (auto split: if_splits)
  have "pool_inv (move t (enter w p) s)" if "w = ForWorker \<longleftrightarrow> p = Get" for w p
    using assms(1) out that by (intro pool_inv_moved) (simp_all add: place_ok_enter)
  then show ?thesis
    using call out assms(1) pool_inv_stop_and_join [OF assms(1) out]
    by (cases c) (auto simp: pool_inv_flags pool_inv_AddWorker split: if_splits)
qed

text \<open>The instructions of the queue, one after the other.\<close>

lemma place_ok_instr:
  assumes "place_ok (InQueue w p (i # rest) r)"
  shows "i = SpinAcquire \<Longrightarrow> rest = tl (queue_code p) \<and> r = queue_local p"
    and "i = ChangeTasks \<Longrightarrow> r = queue_local p \<and>
      (p = Get \<and> rest = [SpinRelease] \<or> (\<exists>task. p = Put task \<or> p = PutFront task) \<and> rest = [ReadSize, SpinRelease])"
    and "i = ReadSize \<Longrightarrow> p \<noteq> Get \<and> rest = [SpinRelease]"
    and "i = SpinRelease \<Longrightarrow> rest = [] \<and> (p = Get \<longrightarrow> (\<exists>task. r = Task task))"
  using assms by (cases p; auto)+

text \<open>What a thread does while no other one is in the critical section.\<close>

lemma pool_inv_section:
  assumes inv: "pool_inv s" and alone: "\<And>u. u \<noteq> t \<Longrightarrow> \<not> in_section (place s u)" and moved: "place s' = (place s)(t := l)"
    and ok: "place_ok l"
    and busy: "m_busy (queue s') = (if in_section l then SPINLOCK_BUSY else SPINLOCK_FREE)" and logged: "log_ok (log s')"
    and list: "tasks (queue s') = (case ahead l of None \<Rightarrow> logged (log s') | Some p \<Rightarrow> snd (seq_op p (logged (log s'))))"
    and hand: "mset (all_taken s') + mset (finished s) + mset (given (in_hand (place s t))) =
      mset (all_taken s) + mset (finished s') + mset (given (in_hand l))"
    and joins: "\<And>c ws us. l = Joining c ws us \<Longrightarrow> us = ws" and stay: "place s t \<noteq> Finished"
  shows "pool_inv s'"
proof (rule pool_inv_local [OF inv moved ok])
  show "m_busy (queue s') = (if in_section l \<or> (\<exists>u. u \<noteq> t \<and> in_section (place s u)) then SPINLOCK_BUSY else SPINLOCK_FREE)"
    using busy alone by auto
  show "\<forall>u. u \<noteq> t \<longrightarrow> \<not> in_section (place s u)" using alone by blast
  show "tasks (queue s') = snd (seq_op p (logged (log s')))" if "u \<noteq> t" "ahead (place s u) = Some p" for u p
    using alone [OF that(1)] ahead_in_section [OF that(2)] by simp
qed (use logged list hand joins stay in auto)

lemma pool_inv_acquire:
  assumes inv: "pool_inv s" and at: "place s t = InQueue w p (SpinAcquire # rest) r"
    and exec: "queue_exec SpinAcquire p r (queue s) = Some (r', q')"
  shows "pool_inv (move t (InQueue w p rest r') (s\<lparr>queue := q'\<rparr>))" (is "pool_inv ?s'")
proof (rule pool_inv_section [OF inv, where t = t])
  note facts = pool_inv_facts [OF inv]
  have ok: "place_ok (InQueue w p (SpinAcquire # rest) r)" using facts(1) [of t] unfolding at .
  then have shape: "rest = tl (queue_code p)" "r = queue_local p" using place_ok_instr(1) by blast+
  have free: "\<not> in_section (place s u)" and q': "r' = r" "q' = (queue s)\<lparr>m_busy := SPINLOCK_BUSY\<rparr>" for u
    using exec facts(3) by (auto simp: SpinLock_Lock_def BUBI_CAS_def SPINLOCK_FREE_def SPINLOCK_BUSY_def split: if_splits)
  then show "\<not> in_section (place s u)" for u by blast
  have now: "tasks (queue s) = logged (log s)" using facts(6) free ahead_in_section by (metis not_Some_eq)
  have sect: "in_section (InQueue w p rest r')" "ahead (InQueue w p rest r') = None" "in_hand (InQueue w p rest r') = None"
    using shape q' by (cases p; simp)+
  show "place_ok (InQueue w p rest r')" using ok shape q' by simp
  show "m_busy (queue ?s') = (if in_section (InQueue w p rest r') then SPINLOCK_BUSY else SPINLOCK_FREE)"
    using sect(1) q' by (simp add: move_def)
  show "log_ok (log ?s')" using facts(4) by (simp add: move_def)
  show "tasks (queue ?s') = (case ahead (InQueue w p rest r') of None \<Rightarrow> logged (log ?s') | Some p \<Rightarrow> snd (seq_op p (logged (log ?s'))))"
    using now sect(2) q' by (simp add: move_def)
  show "mset (all_taken ?s') + mset (finished s) + mset (given (in_hand (place s t))) =
      mset (all_taken s) + mset (finished ?s') + mset (given (in_hand (InQueue w p rest r')))"
    using sect(3) at by (simp add: move_def all_taken_def)
qed (use at in \<open>simp_all add: move_def\<close>)

lemma pool_inv_change:
  assumes inv: "pool_inv s" and at: "place s t = InQueue w p (ChangeTasks # rest) r"
    and exec: "queue_exec ChangeTasks p r (queue s) = Some (r', q')"
  shows "pool_inv (move t (InQueue w p rest r') (note_result p ChangeTasks r' (s\<lparr>queue := q'\<rparr>)))" (is "pool_inv ?s'")
proof (rule pool_inv_section [OF inv, where t = t])
  note facts = pool_inv_facts [OF inv]
  have sect: "in_section (place s t)" "ahead (place s t) = None" using at by simp_all
  have ok: "place_ok (InQueue w p (ChangeTasks # rest) r)" using facts(1) [of t] unfolding at .
  note shape = place_ok_instr(2) [OF ok refl]
  have "\<forall>u. ahead (place s u) = None" using one_ahead [OF inv sect(1)] sect(2) by metis
  then have now: "tasks (queue s) = logged (log s)" using facts(6) by blast
  have busy: "m_busy q' = SPINLOCK_BUSY" using exec facts(3) sect(1) by (auto split: prod.splits)
  have res: "(r', tasks q') = change_tasks p r (tasks (queue s))" using exec by (auto split: prod.splits)
  show "\<not> in_section (place s u)" if "u \<noteq> t" for u using facts(2) [OF _ that] at by simp
  show "place_ok (InQueue w p rest r')" using ok shape res by (auto split: if_splits)
  show "m_busy (queue ?s') = (if in_section (InQueue w p rest r') then SPINLOCK_BUSY else SPINLOCK_FREE)"
    using shape busy by (auto simp: move_def note_result_def)
  show "log_ok (log ?s')" using shape res now facts(4)
    by (auto simp: move_def note_result_def split: if_splits list.splits)
  show "tasks (queue ?s') = (case ahead (InQueue w p rest r') of None \<Rightarrow> logged (log ?s') | Some p \<Rightarrow> snd (seq_op p (logged (log ?s'))))"
    using shape res now by (auto simp: move_def note_result_def given_def Let_def split: if_splits list.splits option.splits)
  show "mset (all_taken ?s') + mset (finished s) + mset (given (in_hand (place s t))) =
      mset (all_taken s) + mset (finished ?s') + mset (given (in_hand (InQueue w p rest r')))"
    using shape res at by (auto simp: move_def note_result_def all_taken_def given_def split: if_splits)
qed (use at in \<open>simp_all add: move_def note_result_def\<close>)

lemma pool_inv_read:
  assumes inv: "pool_inv s" and at: "place s t = InQueue w p (ReadSize # rest) r"
  shows "pool_inv (move t (InQueue w p rest (Count (of_nat (length (tasks (queue s))))))
           (note_result p ReadSize (Count (of_nat (length (tasks (queue s))))) s))" (is "pool_inv ?s'")
proof (rule pool_inv_section [OF inv, where t = t])
  note facts = pool_inv_facts [OF inv]
  have sect: "in_section (place s t)" using at by simp
  have ok: "place_ok (InQueue w p (ReadSize # rest) r)" using facts(1) [of t] unfolding at .
  note shape = place_ok_instr(3) [OF ok refl]
  have none: "p = Size \<Longrightarrow> \<forall>u. ahead (place s u) = None" using one_ahead [OF inv sect] at by (metis ahead.simps(1))
  have now: "tasks (queue s) = snd (seq_op p (logged (log s)))"
    using facts(5) [of t p] facts(6) [OF none] at by (cases "p = Size") simp_all
  have busy: "m_busy (queue s) = SPINLOCK_BUSY" using facts(3) sect by auto
  show "\<not> in_section (place s u)" if "u \<noteq> t" for u using facts(2) [OF _ that] at by simp
  show "place_ok (InQueue w p rest (Count (of_nat (length (tasks (queue s))))))" using ok shape by simp
  show "m_busy (queue ?s') = (if in_section (InQueue w p rest (Count (of_nat (length (tasks (queue s)))))) then SPINLOCK_BUSY else SPINLOCK_FREE)"
    using shape busy by (simp add: move_def note_result_def)
  have "fst (seq_op p (logged (log s))) = Count (of_nat (length (tasks (queue s))))"
    unfolding now using shape by (cases p) (simp_all add: Let_def)
  then show "log_ok (log ?s')" using facts(4) by (simp add: move_def note_result_def)
  show "tasks (queue ?s') = (case ahead (InQueue w p rest (Count (of_nat (length (tasks (queue s)))))) of
      None \<Rightarrow> logged (log ?s') | Some p \<Rightarrow> snd (seq_op p (logged (log ?s'))))"
    using shape now by (simp add: move_def note_result_def)
  show "mset (all_taken ?s') + mset (finished s) + mset (given (in_hand (place s t))) =
      mset (all_taken s) + mset (finished ?s') + mset (given (in_hand (InQueue w p rest (Count (of_nat (length (tasks (queue s))))))))"
    using shape at by (simp add: move_def note_result_def all_taken_def given_def)
qed (use at in \<open>simp_all add: move_def note_result_def\<close>)

lemma pool_inv_release:
  assumes inv: "pool_inv s" and at: "place s t = InQueue w p (SpinRelease # rest) r"
    and exec: "queue_exec SpinRelease p r (queue s) = Some (r', q')"
  shows "pool_inv (queue_return t w r' (s\<lparr>queue := q'\<rparr>))" (is "pool_inv ?s'")
proof -
  note facts = pool_inv_facts [OF inv]
  have sect: "in_section (place s t)" "ahead (place s t) = None" using at by simp_all
  have ok: "place_ok (InQueue w p (SpinRelease # rest) r)" using facts(1) [of t] unfolding at .
  note shape = place_ok_instr(4) [OF ok refl]
  have "\<forall>u. ahead (place s u) = None" using one_ahead [OF inv sect(1)] sect(2) by metis
  then have now: "tasks (queue s) = logged (log s)" using facts(6) by blast
  have q': "r' = r" "q' = (queue s)\<lparr>m_busy := SPINLOCK_FREE\<rparr>"
    using exec facts(3) sect(1) by (auto simp: SpinLock_Unlock_def BUBI_CAS_def)
  have left: "pool_inv s'"
    if "place s' = (place s)(t := l)" "queue s' = q'" "log s' = log s" "finished s' = finished s"
      "\<not> in_section l" "place_ok l" "in_hand l = in_hand (place s t)" "\<And>c ws us. l = Joining c ws us \<Longrightarrow> us = ws" for s' l
  proof (rule pool_inv_section [OF inv _ that(1,6)])
    show "\<not> in_section (place s u)" if "u \<noteq> t" for u using facts(2) [OF sect(1) that] .
    have "ahead l = None" using that(5) ahead_in_section by (cases "ahead l") auto
    then show "tasks (queue s') = (case ahead l of None \<Rightarrow> logged (log s') | Some p \<Rightarrow> snd (seq_op p (logged (log s'))))"
      using now q' that by simp
  qed (use that q' facts(4) at in \<open>simp_all add: all_taken_def\<close>)
  have hand: "in_hand (place s t) = (case (w, r) of (ForWorker, Task task) \<Rightarrow> task | _ \<Rightarrow> None)"
    using at shape ok by (cases w; cases p; cases r) auto
  have leave: "pool_inv (move t Outside (s\<lparr>queue := q'\<rparr>))" "pool_inv (move t AtTest (s\<lparr>queue := q'\<rparr>))"
    if "in_hand (place s t) = None"
    by (intro left [where l = Outside] left [where l = AtTest]; simp add: move_def that)+
  show ?thesis
  proof (cases w)
    case ForWorker
    show ?thesis
    proof (cases "in_hand (place s t)")
      case None
      then show ?thesis using leave(2) ForWorker hand q' by (cases r) simp_all
    next
      case (Some k)
      then have "r' = Task (Some k)" using hand ForWorker q' by (cases r) simp_all
      then show ?thesis using ForWorker Some by (intro left [where l = "Running k"]) (simp_all add: move_def)
    qed
  next
    case ForClient
    then show ?thesis using leave(1) hand by simp
  next
    case (ForWait j)
    then have none: "in_hand (place s t) = None" using hand by simp
    have "pool_inv (move t (enter (ForWait j) Size) (s\<lparr>queue := q'\<rparr>))"
      by (intro left [where l = "enter (ForWait j) Size"]) (simp_all add: move_def place_ok_enter none)
    moreover have "pool_inv (stop_and_join False t (s\<lparr>queue := q'\<rparr>))"
      by (intro left [where l = "Joining False (threads s) (threads s)"]) (simp_all add: move_def stop_and_join_def none)
    ultimately show ?thesis using leave(1) [OF none] ForWait by (cases r') simp_all
  qed
qed

lemma pool_inv_step:
  assumes inv: "pool_inv s" and step: "pool_step t (place s t) s = Some s'"
  shows "pool_inv s'"
proof (cases "place s t")
  case (InQueue w p code r)
  then obtain i rest where at: "place s t = InQueue w p (i # rest) r" using step by (cases code) auto
  have ok: "place_ok (InQueue w p (i # rest) r)" using pool_inv_facts(1) [OF inv, of t] unfolding at .
  show ?thesis
  proof (cases "queue_exec i p r (queue s)")
    case None
    then show ?thesis using step inv at by simp
  next
    case (Some e)
    then obtain r' q' where e: "queue_exec i p r (queue s) = Some (r', q')" by (cases e) auto
    have s': "s' = (if rest = [] then queue_return t w r' (note_result p i r' (s\<lparr>queue := q'\<rparr>))
      else move t (InQueue w p rest r') (note_result p i r' (s\<lparr>queue := q'\<rparr>)))"
      using step e at by (simp add: Let_def)
    show ?thesis
    proof (cases i)
      case SpinAcquire
      moreover have "rest \<noteq> []" using place_ok_instr(1) [OF ok SpinAcquire] by (cases p) simp_all
      ultimately show ?thesis using pool_inv_acquire [OF inv] at e s' by (simp add: note_result_def)
    next
      case ChangeTasks
      then show ?thesis using pool_inv_change [OF inv] at e s' place_ok_instr(2) [OF ok] by auto
    next
      case ReadSize
      then show ?thesis using pool_inv_read [OF inv] at e s' place_ok_instr(3) [OF ok] by auto
    next
      case SpinRelease
      then show ?thesis using pool_inv_release [OF inv] at e s' place_ok_instr(4) [OF ok] by (simp add: note_result_def)
    qed
  qed
next
  case (Joining c ws us)
  show ?thesis
  proof (cases us)
    case Nil
    then show ?thesis using step inv Joining by (cases c) (auto intro!: pool_inv_moved simp: pool_inv_flags)
  next
    case (Cons u vs)
    have "\<forall>w \<in> set ws - set us. place s w = Finished" using pool_inv_facts(7) [OF inv Joining] by blast
    then have "pool_inv (move t (Joining c ws vs) s)" if "place s u = Finished"
      using that inv Joining Cons by (intro pool_inv_moved) auto
    then show ?thesis using step inv Joining Cons by (auto split: if_splits)
  qed
next
  case (Running k)
  then show ?thesis using step
    by (intro pool_inv_move [OF inv, where t = t and l = AtTest]) (auto simp: move_def given_def)
next
  case AtTest
  then have "pool_inv (move t (enter ForWorker Get) s)" "pool_inv (move t Finished s)"
    using inv by (auto intro!: pool_inv_moved place_ok_enter)
  then show ?thesis using step AtTest by (simp split: if_splits)
qed (use step in simp_all)

lemma pool_act_inv: "pool_inv s \<Longrightarrow> pool_act a s = Some s' \<Longrightarrow> pool_inv s'"
  using pool_inv_call pool_inv_step by (cases a) auto

lemma pool_inv_start: "pool_inv pool_start"
  by (simp add: pool_inv_def pool_start_def ThreadTaskQueue_new_def all_taken_def hands_def)

interpretation tq: critical_sections pool_act pool_inv "\<lambda>s t. in_section (place s t)"
proof (unfold_locales, goal_cases)
  case (1 s a s')
  then show ?case by (rule pool_act_inv)
next
  case (2 s t u)
  then show ?case using pool_inv_facts(2) by blast
qed

section \<open>Properties\<close>

text \<open>The pool with one worker: the waiting operation returns while the worker still runs the task.\<close>

definition early_run :: "'k \<Rightarrow> 'k pool_action list" where
  "early_run k = [PoolCall 1 (Init [2]), PoolCall 1 (AddTask (Some k)), PoolStep 1, PoolStep 1, PoolStep 1, PoolStep 1,
     PoolStep 2, PoolStep 2, PoolStep 2, PoolStep 2, PoolCall 1 WaitTaskComplete, PoolStep 1, PoolStep 1, PoolStep 1]"

lemmas pool_eval = early_run_def pool_start_def ThreadTaskQueue_new_def AddWorker_def move_def enter_def note_result_def
  Let_def SpinLock_Lock_def SpinLock_Unlock_def BUBI_CAS_def SPINLOCK_FREE_def SPINLOCK_BUSY_def word_sless_alt

text \<open>
  Claim C6. The pool hands out every task once: in every run of any number of threads, whatever the order of their
  instructions, the operations of the queue give the results of one after the other on a list, and outside of the
  critical sections, in which at most one thread is, the list is the queue's; every task that was added is waiting in the queue, in the
  hands of a worker, or finished, as often as it was added, and tasks are taken in the order in which \<^verbatim>\<open>AddTask\<close>
  adds them. The joins of \<^verbatim>\<open>Exit\<close> end only when all workers have finished. But \<^verbatim>\<open>WaitTaskComplete\<close> waits only for an empty
  queue and returns while a task is running.
\<close>

theorem pool_runs_tasks:
  assumes "run_actions pool_act as pool_start = Some s"
  shows "(in_section (place s t) \<and> in_section (place s u) \<longrightarrow> t = u) \<and>
         run seq_op (map fst (log s)) [] = (map snd (log s), logged (log s)) \<and>
         ((\<forall>v. \<not> in_section (place s v)) \<longrightarrow> tasks (queue s) = logged (log s)) \<and>
         mset (all_put s) = mset (finished s) + hands (place s) + mset (logged (log s)) \<and>
         ((\<forall>e \<in> set (log s). \<forall>task. fst e \<noteq> PutFront task) \<longrightarrow> all_put s = all_taken s @ logged (log s)) \<and>
         (place s t = Joining c ws [] \<longrightarrow> (\<forall>w \<in> set ws. place s w = Finished)) \<and>
         map_option (\<lambda>s'. (place s' 1, place s' 2)) (run_actions pool_act (early_run k) pool_start) = Some (Outside, Running k)"
proof (intro conjI)
  have inv: "pool_inv s" by (rule tq.run_inv [OF pool_inv_start assms])
  note facts = pool_inv_facts [OF inv]
  show "in_section (place s t) \<and> in_section (place s u) \<longrightarrow> t = u"
    using tq.run_exclusive [OF pool_inv_start assms] by blast
  show "run seq_op (map fst (log s)) [] = (map snd (log s), logged (log s))"
    using facts(4) by (simp add: log_ok_def logged_def prod_eq_iff)
  show "(\<forall>v. \<not> in_section (place s v)) \<longrightarrow> tasks (queue s) = logged (log s)"
    using facts(6) ahead_in_section by (metis not_Some_eq)
  show "mset (all_put s) = mset (finished s) + hands (place s) + mset (logged (log s))"
    using log_conserves [OF facts(4)] inv unfolding pool_inv_def all_put_def all_taken_def by simp
  show "(\<forall>e \<in> set (log s). \<forall>task. fst e \<noteq> PutFront task) \<longrightarrow> all_put s = all_taken s @ logged (log s)"
    using log_fifo [OF facts(4)] unfolding all_put_def all_taken_def by blast
  show "place s t = Joining c ws [] \<longrightarrow> (\<forall>w \<in> set ws. place s w = Finished)"
    using facts(7) [of t c ws "[]"] by simp
  show "map_option (\<lambda>s'. (place s' 1, place s' 2)) (run_actions pool_act (early_run k) pool_start) = Some (Outside, Running k)"
    by (simp add: pool_eval)
qed

theorem pool_runs_tasks_witness:
  "\<exists>s. run_actions pool_act (early_run (7 :: nat)) pool_start = Some s \<and> place s 2 = Running 7 \<and>
       mset (all_put s) = mset (finished s) + hands (place s) + mset (logged (log s)) \<and> all_put s = [7] \<and> finished s = []"
proof -
  obtain s where s: "run_actions pool_act (early_run (7 :: nat)) pool_start = Some s"
      "place s 2 = Running 7" "all_put s = [7]" "finished s = []"
    by (simp add: pool_eval all_put_def given_def)
  note pool_runs_tasks [OF s(1), of 0 0 False "[]" 0]
  then have "mset (all_put s) = mset (finished s) + hands (place s) + mset (logged (log s))" by (elim conjE)
  with s show ?thesis by (intro exI [of _ s] conjI)
qed

end
