(* ===== verification/Paths.thy ===== *)
theory Paths
  imports StringFacts Timer "HOL-Library.Signed_Division"
begin

text \<open>
  The text forms of times of \<^verbatim>\<open>src/utils/timestamp.cpp\<close> and the functions on path names of \<^verbatim>\<open>src/utils/file.cpp\<close>, in
  the branch for systems other than Windows. The time zone enters through \<^verbatim>\<open>localtime\<close>, a parameter. The theory shows what
  the parts of a path are and where \<^verbatim>\<open>GetExtension\<close> looks.
\<close>

section \<open>Timestamp\<close>

text \<open>The formats \<^verbatim>\<open>%0wd\<close> and \<^verbatim>\<open>%wd\<close>: padding with zeros behind the sign, or with blanks before it.\<close>

definition fmt_zeros :: "nat \<Rightarrow> int \<Rightarrow> bytes" where
  "fmt_zeros w v =
     (let ds = dec_nat (nat \<bar>v\<bar>); sign = (if v < 0 then [45] else [])
      in sign @ replicate (w - length sign - length ds) 48 @ ds)"

definition fmt_blanks :: "nat \<Rightarrow> int \<Rightarrow> bytes" where
  "fmt_blanks w v = replicate (w - length (dec_int v)) 32 @ dec_int v"

definition Timestamp_ToString :: "int \<Rightarrow> bytes" where
  "Timestamp_ToString ts =
     (let seconds = ts sdiv kMicroSecondsPerSecond; microseconds = ts smod kMicroSecondsPerSecond
      in snprintf 32 (dec_int seconds @ [46] @ fmt_zeros 6 microseconds))"

definition date_fields :: "(int \<Rightarrow> bytes) \<Rightarrow> tm \<Rightarrow> bytes" where
  "date_fields year tm =
     year (tm_year tm + 1900) @ [45] @ fmt_zeros 2 (tm_mon tm + 1) @ [45] @ fmt_zeros 2 (tm_mday tm) @ [32] @
     fmt_zeros 2 (tm_hour tm) @ [58] @ fmt_zeros 2 (tm_min tm) @ [58] @ fmt_zeros 2 (tm_sec tm)"

definition ToFormatString :: "(int \<Rightarrow> tm) \<Rightarrow> bool \<Rightarrow> int \<Rightarrow> bytes" where
  "ToFormatString localtime with_micro ts =
     (let seconds = ts sdiv kMicroSecondsPerSecond; microseconds = ts smod kMicroSecondsPerSecond; tm = localtime seconds
      in if with_micro then snprintf 32 (date_fields (fmt_blanks 4) tm @ [46] @ fmt_zeros 6 microseconds)
         else snprintf 32 (date_fields (fmt_blanks 4) tm))"

definition Timestamp_Format :: "(int \<Rightarrow> tm) \<Rightarrow> bool \<Rightarrow> int \<Rightarrow> bytes" where
  "Timestamp_Format localtime milli_second ts =
     (let time_value = ts sdiv kMicroSecondsPerSecond; micro_part = ts smod kMicroSecondsPerSecond;
          time_info = localtime time_value
      in if milli_second then date_fields (fmt_zeros 4) time_info @ [46] @ fmt_zeros 3 (micro_part sdiv 1000)
         else date_fields (fmt_zeros 4) time_info @ [46] @ fmt_zeros 6 micro_part)"

definition ToUnixTimestamp :: "int \<Rightarrow> int" where
  "ToUnixTimestamp ts = ts sdiv kMicroSecondsPerSecond"

definition Timestamp_Valid :: "int \<Rightarrow> bool" where
  "Timestamp_Valid ts \<longleftrightarrow> ts > 0"

section \<open>File: path names\<close>

text \<open>\<^verbatim>\<open>find\<close> and \<^verbatim>\<open>rfind\<close> of a character.\<close>

definition find_char :: "byte \<Rightarrow> bytes \<Rightarrow> nat option" where
  "find_char c s = find_from (\<lambda>x. x = c) s 0"

definition rfind :: "byte \<Rightarrow> bytes \<Rightarrow> nat option" where
  "rfind c s = (if c \<in> set s then Some (length s - 1 - length (takeWhile (\<lambda>x. x \<noteq> c) (rev s))) else None)"

definition PATH_CHAR :: byte where
  "PATH_CHAR = 47"

definition RegularPath :: "bytes \<Rightarrow> bytes option" where
  "RegularPath path = Replace path [92] [PATH_CHAR]"

definition GetFileFromPath :: "bytes \<Rightarrow> bytes option" where
  "GetFileFromPath path =
     Option.bind (RegularPath path) (\<lambda>regular_path.
       case rfind PATH_CHAR regular_path of
         None \<Rightarrow> Some regular_path
       | Some nPos \<Rightarrow>
           if nPos + 1 \<ge> length regular_path then Some []
           else Some (substr regular_path (nPos + 1) (length regular_path - nPos - 1)))"

definition IsAbsolute :: "bytes \<Rightarrow> bool option" where
  "IsAbsolute path =
     Option.bind (RegularPath path) (\<lambda>regular_path. Some (length regular_path > 0 \<and> 47 = hd regular_path))"

definition GetUpLevelPath :: "bytes \<Rightarrow> bytes option" where
  "GetUpLevelPath path =
     Option.bind (RegularPath path) (\<lambda>normal_path.
       case rfind PATH_CHAR normal_path of
         None \<Rightarrow> Some []
       | Some nPos \<Rightarrow>
           let nPos = (if 0 = nPos \<and> length normal_path > 0 \<and> hd normal_path = PATH_CHAR then nPos + 1 else nPos)
           in Some (substr normal_path 0 nPos))"

definition GetExtension :: "bytes \<Rightarrow> bytes option" where
  "GetExtension path =
     Option.bind (RegularPath path) (\<lambda>normal_path.
       let normal_path = (case find_char 63 normal_path of Some end_pos \<Rightarrow> substr normal_path 0 end_pos | None \<Rightarrow> normal_path)
       in case rfind 46 normal_path of
            None \<Rightarrow> Some []
          | Some nPos \<Rightarrow>
              if nPos + 1 = length normal_path then Some []
              else Some (substr normal_path (nPos + 1) (length normal_path - (nPos + 1))))"

fun drop_separators :: "nat \<Rightarrow> bytes \<Rightarrow> bytes" where
  "drop_separators 0 path = path"
| "drop_separators (Suc n) path =
     (if length path > 0 \<and> PATH_CHAR = path ! (length path - 1) then drop_separators n (butlast path) else path)"

definition GetTempDirectory :: "bytes" where
  "GetTempDirectory = (let path = lit ''/tmp'' in drop_separators (length path) path)"

definition GetBinDirectory :: "bytes \<Rightarrow> bytes option" where
  "GetBinDirectory bin_path = GetUpLevelPath bin_path"

definition GetBinHome :: "bytes \<Rightarrow> bytes option" where
  "GetBinHome bin_path = Option.bind (GetBinDirectory bin_path) GetUpLevelPath"

section \<open>The mode of fopen\<close>

definition FILE_M_READ :: u32 where "FILE_M_READ = 0x01"
definition FILE_M_WRITE :: u32 where "FILE_M_WRITE = 0x02"
definition FILE_M_APPEND :: u32 where "FILE_M_APPEND = 0x04"
definition FILE_M_TEXT :: u32 where "FILE_M_TEXT = 0x08"
definition FILE_M_BINARY :: u32 where "FILE_M_BINARY = 0x10"

definition open_mode :: "u32 \<Rightarrow> bytes" where
  "open_mode nMode =
     (if nMode AND FILE_M_READ \<noteq> 0 then (if nMode AND FILE_M_WRITE \<noteq> 0 then lit ''r+'' else lit ''r'')
      else if nMode AND FILE_M_WRITE \<noteq> 0 then lit ''w''
      else if nMode AND FILE_M_APPEND \<noteq> 0 then lit ''a''
      else lit ''r+'') @
     (if nMode AND FILE_M_BINARY \<noteq> 0 then lit ''b''
      else if nMode AND FILE_M_TEXT \<noteq> 0 then lit ''t''
      else lit ''b'')"

section \<open>Facts about searching\<close>

lemma rfind_last: "c \<notin> set ys \<Longrightarrow> rfind c (xs @ [c] @ ys) = Some (length xs)"
proof -
  assume "c \<notin> set ys"
  then have "takeWhile (\<lambda>x. x \<noteq> c) (rev ys @ c # rev xs) = rev ys"
    by (subst takeWhile_append2) auto
  then show ?thesis by (simp add: rfind_def)
qed

lemma rfind_none [simp]: "c \<notin> set s \<Longrightarrow> rfind c s = None"
  by (simp add: rfind_def)

lemma find_from_split:
  "\<forall>x \<in> set xs. \<not> P x \<Longrightarrow> P y \<Longrightarrow> p \<le> length xs \<Longrightarrow> find_from P (xs @ y # ys) p = Some (length xs)"
proof (induction "length xs - p" arbitrary: p)
  case 0
  then show ?case by (subst find_from.simps) (simp add: nth_append)
next
  case (Suc n)
  then have "find_from P (xs @ y # ys) (p + 1) = Some (length xs)" by simp
  then show ?case using Suc by (subst find_from.simps) (simp add: nth_append)
qed

lemma find_char_first: "c \<notin> set xs \<Longrightarrow> find_char c (xs @ c # ys) = Some (length xs)"
  unfolding find_char_def by (rule find_from_split) auto

lemma find_char_none: "c \<notin> set xs \<Longrightarrow> find_char c xs = None"
  unfolding find_char_def using find_from_bounds [of "\<lambda>x. x = c" xs 0]
  by (cases "find_from (\<lambda>x. x = c) xs 0") force+

definition slashes :: "bytes \<Rightarrow> bytes" where
  "slashes path = map (\<lambda>x. if x = 92 then PATH_CHAR else x) path"

lemma RegularPath_slashes: "RegularPath path = Some (slashes path)"
  by (simp add: RegularPath_def Replace_correct replace_all_char slashes_def)

text \<open>The extension of a path, cut at a question mark.\<close>

lemma GetExtension_slashes:
  assumes "63 \<notin> set r" and "slashes path = r \<or> (\<exists>q. slashes path = r @ [63] @ q)"
  shows "GetExtension path =
    (case rfind 46 r of None \<Rightarrow> Some [] | Some n \<Rightarrow> Some (if n + 1 = length r then [] else drop (n + 1) r))"
proof -
  have "(case find_char 63 (slashes path) of Some end_pos \<Rightarrow> substr (slashes path) 0 end_pos | None \<Rightarrow> slashes path) = r"
    using assms(2)
  proof (elim disjE exE)
    assume "slashes path = r"
    then show ?thesis using assms(1) by (simp add: find_char_none)
  next
    fix q assume "slashes path = r @ [63] @ q"
    then show ?thesis using assms(1) by (simp add: find_char_first substr_def)
  qed
  then show ?thesis
    by (simp add: GetExtension_def RegularPath_slashes Let_def substr_def split: option.split)
qed

section \<open>Properties\<close>

text \<open>
  The parts of a path, with backslashes read as slashes: \<^verbatim>\<open>GetFileFromPath\<close> is what follows the last slash and
  \<^verbatim>\<open>GetUpLevelPath\<close> what precedes it, the root for a path right under it; without a slash they are the whole path and the
  empty string. \<^verbatim>\<open>IsAbsolute\<close> looks for a leading slash or backslash. \<^verbatim>\<open>GetExtension\<close> is what follows the last dot
  before a question mark, and it does not stop at slashes: the extension of \<^verbatim>\<open>log.d/app\<close> is \<^verbatim>\<open>d/app\<close>.
\<close>

theorem path_parts:
  "(PATH_CHAR \<notin> set f \<and> slashes path = d @ [PATH_CHAR] @ f \<longrightarrow>
      GetFileFromPath path = Some f \<and> GetUpLevelPath path = Some (if d = [] then [PATH_CHAR] else d)) \<and>
   (PATH_CHAR \<notin> set (slashes path) \<longrightarrow> GetFileFromPath path = Some (slashes path) \<and> GetUpLevelPath path = Some []) \<and>
   IsAbsolute path = Some (path \<noteq> [] \<and> hd path \<in> {47, 92}) \<and>
   (46 \<notin> set e \<and> 63 \<notin> set (b @ [46] @ e) \<and>
      (slashes path = b @ [46] @ e \<or> (\<exists>q. slashes path = b @ [46] @ e @ [63] @ q)) \<longrightarrow> GetExtension path = Some e) \<and>
   GetExtension (lit ''log.d/app'') = Some (lit ''d/app'')"
proof (intro conjI impI)
  assume parts: "PATH_CHAR \<notin> set f \<and> slashes path = d @ [PATH_CHAR] @ f"
  then have pos: "rfind PATH_CHAR (slashes path) = Some (length d)" using rfind_last [of PATH_CHAR f d] by simp
  show "GetFileFromPath path = Some f"
    using parts pos by (simp add: GetFileFromPath_def RegularPath_slashes substr_def)
  show "GetUpLevelPath path = Some (if d = [] then [PATH_CHAR] else d)"
    using parts pos by (simp add: GetUpLevelPath_def RegularPath_slashes substr_def)
next
  assume "PATH_CHAR \<notin> set (slashes path)"
  then have pos: "rfind PATH_CHAR (slashes path) = None" by simp
  show "GetFileFromPath path = Some (slashes path)" using pos by (simp add: GetFileFromPath_def RegularPath_slashes)
  show "GetUpLevelPath path = Some []" using pos by (simp add: GetUpLevelPath_def RegularPath_slashes)
next
  show "IsAbsolute path = Some (path \<noteq> [] \<and> hd path \<in> {47, 92})"
    by (cases path) (auto simp: IsAbsolute_def RegularPath_slashes slashes_def PATH_CHAR_def)
next
  assume ext: "46 \<notin> set e \<and> 63 \<notin> set (b @ [46] @ e) \<and>
      (slashes path = b @ [46] @ e \<or> (\<exists>q. slashes path = b @ [46] @ e @ [63] @ q))"
  then have "rfind 46 (b @ [46] @ e) = Some (length b)" using rfind_last [of 46 e b] by simp
  then show "GetExtension path = Some e" using ext GetExtension_slashes [of "b @ [46] @ e" path] by auto
next
  have "slashes (lit ''log.d/app'') = lit ''log'' @ [46] @ lit ''d/app''" by code_simp
  moreover have "63 \<notin> set (lit ''log'' @ [46] @ lit ''d/app'')" by code_simp
  ultimately have "GetExtension (lit ''log.d/app'') =
    (case rfind 46 (lit ''log'' @ [46] @ lit ''d/app'') of None \<Rightarrow> Some []
     | Some n \<Rightarrow> Some (if n + 1 = length (lit ''log'' @ [46] @ lit ''d/app'') then [] else drop (n + 1) (lit ''log'' @ [46] @ lit ''d/app'')))"
    using GetExtension_slashes [of "lit ''log'' @ [46] @ lit ''d/app''" "lit ''log.d/app''"] by simp
  moreover have "46 \<notin> set (lit ''d/app'')" by code_simp
  ultimately show "GetExtension (lit ''log.d/app'') = Some (lit ''d/app'')"
    using rfind_last [of 46 "lit ''d/app''" "lit ''log''"] by (simp add: lit_def)
qed

theorem path_parts_witness:
  "GetFileFromPath (lit ''/var/log/app.txt'') = Some (lit ''app.txt'') \<and>
   GetUpLevelPath (lit ''/var/log/app.txt'') = Some (lit ''/var/log'') \<and> GetExtension (lit ''/var/log/app.txt'') = Some (lit ''txt'')"
proof -
  let ?p = "lit ''/var/log/app.txt''"
  have "PATH_CHAR \<notin> set (lit ''app.txt'') \<and> slashes ?p = lit ''/var/log'' @ [PATH_CHAR] @ lit ''app.txt''" by code_simp
  moreover have "46 \<notin> set (lit ''txt'') \<and> 63 \<notin> set (lit ''/var/log/app'' @ [46] @ lit ''txt'') \<and>
      slashes ?p = lit ''/var/log/app'' @ [46] @ lit ''txt''" by code_simp
  moreover have "lit ''/var/log'' \<noteq> []" by (simp add: lit_def)
  ultimately show ?thesis
    using path_parts [of "lit ''app.txt''" ?p "lit ''/var/log''" "lit ''txt''" "lit ''/var/log/app''"] by simp
qed

end
