(* ===== verification/Logger.thy ===== *)
theory Logger
  imports Paths
begin

text \<open>
  The log files of \<^verbatim>\<open>src/utils/logger.cpp\<close>: the classes \<^verbatim>\<open>LogWriter\<close> and \<^verbatim>\<open>Logger\<close> over a disk that maps names to
  contents. A file that has grown too big or too old is renamed to a backup name that holds the times of its first and
  last line; old backups are deleted after the time in their names. The theory shows that these times are read back, what a
  write does to the files, and when lines are lost. Writing to an open file succeeds; the lock is held throughout.
\<close>

section \<open>Destinations and levels\<close>

definition LOG_DEST_FILE :: u32 where "LOG_DEST_FILE = 0x01"
definition LOG_DEST_OUT :: u32 where "LOG_DEST_OUT = 0x02"
definition LOG_DEST_ERR :: u32 where "LOG_DEST_ERR = 0x04"

definition LOG_LEVEL_NONE :: u32 where "LOG_LEVEL_NONE = 0x00"
definition LOG_LEVEL_TRACE :: u32 where "LOG_LEVEL_TRACE = 0x01"
definition LOG_LEVEL_DEBUG :: u32 where "LOG_LEVEL_DEBUG = 0x02"
definition LOG_LEVEL_INFO :: u32 where "LOG_LEVEL_INFO = 0x04"
definition LOG_LEVEL_WARN :: u32 where "LOG_LEVEL_WARN = 0x08"
definition LOG_LEVEL_ERROR :: u32 where "LOG_LEVEL_ERROR = 0x10"
definition LOG_LEVEL_FATAL :: u32 where "LOG_LEVEL_FATAL = 0x20"
definition LOG_LEVEL_ALL :: u32 where "LOG_LEVEL_ALL = 0xFF"

definition GetLogPrefix :: "u32 \<Rightarrow> bytes" where
  "GetLogPrefix logLevel =
     (if logLevel = LOG_LEVEL_TRACE then lit ''TRC'' else if logLevel = LOG_LEVEL_DEBUG then lit ''DBG''
      else if logLevel = LOG_LEVEL_INFO then lit ''INF'' else if logLevel = LOG_LEVEL_WARN then lit ''WRN''
      else if logLevel = LOG_LEVEL_ERROR then lit ''ERR'' else if logLevel = LOG_LEVEL_FATAL then lit ''FTL'' else [])"

definition SECOND_UNITS_PER_DAY :: int where
  "SECOND_UNITS_PER_DAY = 60 * 60 * 24"

section \<open>The disk\<close>

text \<open>
  The files with their contents and creation times, which files can be opened and renamed, the two standard
  streams, and the clock in microseconds.
\<close>

record disk =
  files :: "bytes \<rightharpoonup> bytes"
  create_time :: "bytes \<Rightarrow> int"
  may_open :: "bytes \<Rightarrow> bool"
  may_rename :: "bytes \<Rightarrow> bytes \<Rightarrow> bool"
  out_text :: bytes
  err_text :: bytes
  clock_us :: int

definition time_now :: "disk \<Rightarrow> int" where
  "time_now d = clock_us d div kMicroSecondsPerSecond"

datatype stream = NullStream | OnFile bytes | Stdout | Stderr

fun fprintf :: "stream \<Rightarrow> bytes \<Rightarrow> disk \<Rightarrow> disk option" where
  "fprintf NullStream t d = None"
| "fprintf (OnFile f) t d = Some (d\<lparr>files := (files d)(f \<mapsto> (case files d f of Some c \<Rightarrow> c | None \<Rightarrow> []) @ t)\<rparr>)"
| "fprintf Stdout t d = Some (d\<lparr>out_text := out_text d @ t\<rparr>)"
| "fprintf Stderr t d = Some (d\<lparr>err_text := err_text d @ t\<rparr>)"

definition fopen :: "bytes \<Rightarrow> bool \<Rightarrow> disk \<Rightarrow> stream \<times> disk" where
  "fopen name app d =
     (if may_open d name then
        (OnFile name, d\<lparr>files := (files d)(name \<mapsto> (if app then (case files d name of Some c \<Rightarrow> c | None \<Rightarrow> []) else []))\<rparr>)
      else (NullStream, d))"

text \<open>\<^verbatim>\<open>File::Move\<close> without and \<^verbatim>\<open>File::Copy\<close> with the permission to overwrite, as they are called here.\<close>

definition Move :: "bytes \<Rightarrow> bytes \<Rightarrow> disk \<Rightarrow> (bool \<times> disk) option" where
  "Move strSource strDest d =
     Option.bind (RegularPath strSource) (\<lambda>s. Option.bind (RegularPath strDest) (\<lambda>t.
       Some (case files d (cstr s) of
               Some c \<Rightarrow>
                 if may_rename d (cstr s) (cstr t) then
                   (True, d\<lparr>files := (files d)(cstr s := None, cstr t := Some c)\<rparr>)
                 else (False, d)
             | None \<Rightarrow> (False, d))))"

definition Copy :: "bytes \<Rightarrow> bytes \<Rightarrow> disk \<Rightarrow> (bool \<times> disk) option" where
  "Copy strSource strDest d =
     Option.bind (RegularPath strSource) (\<lambda>s. Option.bind (RegularPath strDest) (\<lambda>t.
       Some (if s = t then (False, d)
             else case files d (cstr s) of
                    Some c \<Rightarrow>
                      if may_open d (cstr s) \<and> may_open d (cstr t) then
                        (True, d\<lparr>files := (files d)(cstr t \<mapsto> c)\<rparr>)
                      else (False, d)
                  | None \<Rightarrow> (False, d))))"

section \<open>LogWriter\<close>

record LogWriter =
  dest :: u32
  file_ptr :: stream
  log_size :: nat
  begin_time :: int
  file_name :: bytes

definition LogWriter_Close :: "LogWriter \<Rightarrow> LogWriter" where
  "LogWriter_Close w = w\<lparr>file_ptr := NullStream\<rparr>"

definition LogWriter_Init :: "u32 \<Rightarrow> bytes \<Rightarrow> bool \<Rightarrow> LogWriter \<Rightarrow> disk \<Rightarrow> bool \<times> LogWriter \<times> disk" where
  "LogWriter_Init dst name app w d =
     (let w = (LogWriter_Close w)\<lparr>dest := dst, file_name := name\<rparr>
      in if dst = LOG_DEST_FILE then
           case fopen (cstr name) app d of
             (NullStream, d) \<Rightarrow> (False, w\<lparr>file_ptr := NullStream\<rparr>, d)
           | (f, d) \<Rightarrow>
               (True, w\<lparr>file_ptr := f, begin_time := create_time d (cstr name),
                        log_size := length (the (files d (cstr name)))\<rparr>, d)
         else if dst = LOG_DEST_OUT then (True, w\<lparr>file_ptr := Stdout\<rparr>, d)
         else if dst = LOG_DEST_ERR then (True, w\<lparr>file_ptr := Stderr\<rparr>, d)
         else (True, w, d))"

text \<open>The name of a backup: four replacements on each time, and the format \<^verbatim>\<open>%s-(%s~%s)\<close>.\<close>

definition file_time :: "bytes \<Rightarrow> bytes option" where
  "file_time t =
     Option.bind (Replace t (lit ''-'') (lit ''.'')) (\<lambda>t.
     Option.bind (Replace t (lit ''/'') (lit ''.'')) (\<lambda>t.
     Option.bind (Replace t (lit '':'') (lit ''.'')) (\<lambda>t. Replace t (lit '' '') (lit ''-''))))"

definition vsn_text :: "bytes \<Rightarrow> int \<Rightarrow> int \<times> bytes" where
  "vsn_text t n = (int (length t), take (nat n - 1) t)"

definition format_text :: "bytes \<Rightarrow> bytes" where
  "format_text t = (case Format (\<lambda>n. True) (vsn_text t) of Some (Inr r) \<Rightarrow> r | _ \<Rightarrow> [])"

definition backup_file_name :: "(int \<Rightarrow> tm) \<Rightarrow> bytes \<Rightarrow> int \<Rightarrow> int \<Rightarrow> bytes option" where
  "backup_file_name localtime name begin now_us =
     Option.bind (file_time (ToFormatString localtime False (begin * kMicroSecondsPerSecond))) (\<lambda>strBeginTime.
     Option.bind (file_time (ToFormatString localtime False now_us)) (\<lambda>strEndTime.
       Some (format_text (cstr name @ lit ''-('' @ cstr strBeginTime @ lit ''~'' @ cstr strEndTime @ lit '')''))))"

record log_caps =
  time_capacity :: int
  size_capacity :: u64

text \<open>
  \<^verbatim>\<open>Write\<close>: the backup when the file is too big or too old, and the line. No result is a line written to a null
  stream, which is undefined, after the file could not be opened again and a message about it went to \<^verbatim>\<open>stderr\<close>.
\<close>

definition backup_file :: "bytes \<Rightarrow> bytes \<Rightarrow> disk \<Rightarrow> disk option" where
  "backup_file name backup d =
     (case Move name backup d of
        Some (True, d) \<Rightarrow> Some d
      | Some (False, d) \<Rightarrow> map_option snd (Copy name backup d)
      | None \<Rightarrow> None)"

definition new_file_line :: "bytes \<Rightarrow> bytes \<Rightarrow> bytes" where
  "new_file_line current_time backup =
     lit ''['' @ cstr current_time @ lit '' - '' @ GetLogPrefix LOG_LEVEL_INFO @
     lit ''] Log::New file start, previous backup file is '' @ cstr backup @ [13, 10]"

definition rotate :: "(int \<Rightarrow> tm) \<Rightarrow> bytes \<Rightarrow> LogWriter \<Rightarrow> disk \<Rightarrow> (LogWriter \<times> disk) option" where
  "rotate localtime current_time w d =
     Option.bind (backup_file_name localtime (file_name w) (begin_time w) (clock_us d)) (\<lambda>backup.
     Option.bind (backup_file (file_name w) backup d) (\<lambda>d.
       case fopen (cstr (file_name w)) False d of
         (NullStream, d) \<Rightarrow> Some (w\<lparr>file_ptr := NullStream\<rparr>, d)
       | (f, d) \<Rightarrow>
           map_option
             (\<lambda>d. (w\<lparr>file_ptr := f, begin_time := time_now d, log_size := length (the (files d (cstr (file_name w))))\<rparr>, d))
             (fprintf f (new_file_line current_time backup) d)))"

definition log_line :: "u32 \<Rightarrow> bytes \<Rightarrow> nat \<Rightarrow> bytes \<Rightarrow> int \<Rightarrow> bytes \<Rightarrow> bytes" where
  "log_line logLevel current_time thread file lineNum message =
     lit ''['' @ cstr current_time @ lit '' - '' @ GetLogPrefix logLevel @ lit ''] <'' @ hex_nat 65 thread @ lit ''> '' @
     cstr file @ lit ''('' @ dec_int lineNum @ lit ''):'' @ message @ [10]"

definition backup_due :: "log_caps \<Rightarrow> LogWriter \<Rightarrow> disk \<Rightarrow> bool" where
  "backup_due caps w d \<longleftrightarrow> log_size w > unat (size_capacity caps) \<or> begin_time w + time_capacity caps \<le> time_now d"

definition LogWriter_Write ::
  "(int \<Rightarrow> tm) \<Rightarrow> log_caps \<Rightarrow> u32 \<Rightarrow> bytes \<Rightarrow> nat \<Rightarrow> bytes \<Rightarrow> int \<Rightarrow> bytes \<Rightarrow> LogWriter \<Rightarrow> disk \<Rightarrow> (bool \<times> LogWriter \<times> disk) option" where
  "LogWriter_Write localtime caps logLevel current_time thread file lineNum message w d =
     (if file_ptr w = NullStream then Some (False, w, d)
      else
        Option.bind
          (if dest w = LOG_DEST_FILE then
             let w = w\<lparr>log_size := length (the (files d (cstr (file_name w))))\<rparr>
             in if backup_due caps w d then rotate localtime current_time w d else Some (w, d)
           else Some (w, d))
          (\<lambda>(w, d). map_option (\<lambda>d. (True, w, d)) (fprintf (file_ptr w) (log_line logLevel current_time thread file lineNum message) d)))"

section \<open>Logger\<close>

text \<open>The names of the two log files that \<^verbatim>\<open>Initialize\<close> derives from the name it is given.\<close>

definition log_file_names :: "bytes \<Rightarrow> (bytes \<times> bytes) option" where
  "log_file_names name =
     Option.bind (GetExtension name) (\<lambda>file_ext.
       Some (if length file_ext > 0 \<and> length file_ext + 1 < length name then
               let strSubPath = substr name 0 (length name - length file_ext - 1)
               in (format_text (cstr strSubPath @ lit ''-out.'' @ cstr file_ext), format_text (cstr strSubPath @ lit ''-err.'' @ cstr file_ext))
             else (name @ lit ''-out'', name @ lit ''-err'')))"

datatype writer_id = LOG_DEST_FILE_OUT_ID | LOG_DEST_FILE_ERR_ID | LOG_DEST_OUT_ID | LOG_DEST_ERR_ID

text \<open>The writers to which \<^verbatim>\<open>LogStub\<close> gives a message, in this order.\<close>

definition LogStub_writers :: "u32 \<Rightarrow> u32 \<Rightarrow> u32 \<Rightarrow> writer_id list" where
  "LogStub_writers level dst lvl =
     (if lvl \<noteq> LOG_LEVEL_ALL \<and> level AND lvl = LOG_LEVEL_NONE then []
      else
        (if dst AND LOG_DEST_FILE \<noteq> 0 then [if lvl \<le> LOG_LEVEL_INFO then LOG_DEST_FILE_OUT_ID else LOG_DEST_FILE_ERR_ID]
         else []) @
        (if lvl \<le> LOG_LEVEL_WARN \<and> dst AND LOG_DEST_OUT \<noteq> 0 then [LOG_DEST_OUT_ID] else []) @
        (if lvl > LOG_LEVEL_WARN \<and> dst AND LOG_DEST_ERR \<noteq> 0 then [LOG_DEST_ERR_ID] else []))"

text \<open>
  The class: its four writers, levels and limits. \<^verbatim>\<open>Initialize\<close> ignores the results of the writers; a message goes to
  one writer after the other, with the time in milliseconds and the name of the source file without its directory.
\<close>

record Logger =
  log_writers :: "writer_id \<Rightarrow> LogWriter"
  log_level :: u32
  log_dest :: u32
  log_capacity :: log_caps
  expire_days :: u32
  log_path :: bytes

definition Logger_new :: "LogWriter \<Rightarrow> Logger" where
  "Logger_new junk =
     \<lparr>log_writers = (\<lambda>i. junk\<lparr>file_ptr := NullStream\<rparr>), log_level = LOG_LEVEL_ALL AND NOT LOG_LEVEL_TRACE,
      log_dest = LOG_DEST_OUT OR LOG_DEST_ERR, log_capacity = \<lparr>time_capacity = SECOND_UNITS_PER_DAY, size_capacity = 10 * 1024 * 1024\<rparr>,
      expire_days = 10, log_path = []\<rparr>"

definition init_writer :: "writer_id \<Rightarrow> u32 \<Rightarrow> bytes \<Rightarrow> bool \<Rightarrow> Logger \<times> disk \<Rightarrow> Logger \<times> disk" where
  "init_writer i dst name app l =
     (case LogWriter_Init dst name app (log_writers (fst l) i) (snd l) of
        (ok, w, d) \<Rightarrow> ((fst l)\<lparr>log_writers := (log_writers (fst l))(i := w)\<rparr>, d))"

definition Logger_Initialize :: "u32 \<Rightarrow> u32 \<Rightarrow> bytes \<Rightarrow> bool \<Rightarrow> Logger \<times> disk \<Rightarrow> (Logger \<times> disk) option" where
  "Logger_Initialize dst lvl name app l =
     Option.bind (log_file_names name) (\<lambda>(out_file_name, err_file_name).
     Option.bind (GetUpLevelPath name) (\<lambda>path.
       let l = ((fst l)\<lparr>log_level := lvl, log_dest := dst\<rparr>, snd l);
           l = (if dst AND LOG_DEST_FILE \<noteq> 0 \<and> name \<noteq> [] then
                  init_writer LOG_DEST_FILE_ERR_ID LOG_DEST_FILE err_file_name app
                    (init_writer LOG_DEST_FILE_OUT_ID LOG_DEST_FILE out_file_name app l)
                else l);
           l = (if dst AND LOG_DEST_OUT \<noteq> 0 then init_writer LOG_DEST_OUT_ID LOG_DEST_OUT [] False l else l);
           l = (if dst AND LOG_DEST_ERR \<noteq> 0 then init_writer LOG_DEST_ERR_ID LOG_DEST_ERR [] False l else l)
       in Some (if name \<noteq> [] then ((fst l)\<lparr>log_path := path\<rparr>, snd l) else l)))"

definition Logger_Exit :: "Logger \<Rightarrow> Logger" where
  "Logger_Exit l = l\<lparr>log_writers := (\<lambda>i. LogWriter_Close (log_writers l i))\<rparr>"

definition SetCapacity :: "u32 \<Rightarrow> u64 \<Rightarrow> Logger \<Rightarrow> Logger" where
  "SetCapacity time_cap size_cap l = l\<lparr>log_capacity := \<lparr>time_capacity = uint time_cap, size_capacity = size_cap\<rparr>\<rparr>"

definition SetExpireDays :: "u32 \<Rightarrow> Logger \<Rightarrow> Logger" where
  "SetExpireDays days l = l\<lparr>expire_days := days\<rparr>"

definition SetLogLevel :: "u32 \<Rightarrow> Logger \<Rightarrow> Logger" where
  "SetLogLevel lvl l = l\<lparr>log_level := lvl\<rparr>"

fun write_all :: "(LogWriter \<Rightarrow> disk \<Rightarrow> (bool \<times> LogWriter \<times> disk) option) \<Rightarrow> writer_id list \<Rightarrow> Logger \<times> disk \<Rightarrow> (Logger \<times> disk) option" where
  "write_all wr [] l = Some l"
| "write_all wr (i # is) l =
     Option.bind (wr (log_writers (fst l) i) (snd l))
       (\<lambda>(ok, w, d). write_all wr is ((fst l)\<lparr>log_writers := (log_writers (fst l))(i := w)\<rparr>, d))"

definition LogStub :: "(int \<Rightarrow> tm) \<Rightarrow> u32 \<Rightarrow> nat \<Rightarrow> bytes \<Rightarrow> int \<Rightarrow> bytes \<Rightarrow> Logger \<times> disk \<Rightarrow> (Logger \<times> disk) option" where
  "LogStub localtime lvl thread file lineNum message l =
     Option.bind (GetFileFromPath file) (\<lambda>name.
       write_all (LogWriter_Write localtime (log_capacity (fst l)) lvl (Timestamp_Format localtime True (clock_us (snd l))) thread name lineNum message)
         (LogStub_writers (log_level (fst l)) (log_dest (fst l)) lvl) l)"

definition GetBackupNameTime :: "(int \<Rightarrow> tm \<Rightarrow> int) \<Rightarrow> bytes \<Rightarrow> int \<Rightarrow> int \<Rightarrow> (bool \<times> int \<times> int) option" where
  "GetBackupNameTime mktime strBackupName nTimeFrom nTimeTo =
     (case (find_char 40 strBackupName, find_char 126 strBackupName, rfind 41 strBackupName) of
        (Some nBeginPos, Some nMidPos, Some nEndPos) \<Rightarrow>
          if \<not> (nMidPos > nBeginPos \<and> nMidPos < nEndPos) then Some (False, nTimeFrom, nTimeTo)
          else
            let strLogTimeFrom = substr strBackupName (nBeginPos + 1) (nMidPos - nBeginPos - 1);
                strLogTimeTo = substr strBackupName (nMidPos + 1) (nEndPos - nMidPos - 1)
            in Option.bind (ToTimestamp mktime strLogTimeFrom) (\<lambda>from.
               Option.bind (ToTimestamp mktime strLogTimeTo) (\<lambda>to. Some (True, from, to)))
      | _ \<Rightarrow> Some (False, nTimeFrom, nTimeTo))"

record FileAttribute =
  is_directory :: bool
  attr_create_time :: int
  attr_modify_time :: int

text \<open>The test of \<^verbatim>\<open>CheckExpiredLog\<close> on one file of the directory: whether it is deleted.\<close>

definition log_expired :: "(int \<Rightarrow> tm \<Rightarrow> int) \<Rightarrow> u32 \<Rightarrow> int \<Rightarrow> bytes \<Rightarrow> FileAttribute \<Rightarrow> bool option" where
  "log_expired mktime days now strName nAttr =
     (if is_directory nAttr then Some False
      else
        Option.bind (GetBackupNameTime mktime strName 0 0) (\<lambda>(ok, nTimeFrom, nTimeTo).
          let nTimeTo = (if \<not> ok then max (attr_create_time nAttr) (attr_modify_time nAttr) else nTimeTo)
          in Some (nTimeTo + uint days * SECOND_UNITS_PER_DAY < now)))"

section \<open>Times in names\<close>

lemma format_text_id: "0 \<notin> set t \<Longrightarrow> length t < 2 ^ 27 \<Longrightarrow> format_text t = t"
proof -
  assume t: "0 \<notin> set t" "length t < 2 ^ 27"
  have "vsnprintf_law (vsn_text t) t" by (simp add: vsnprintf_law_def vsn_text_def)
  moreover have "cstr t = t" by (rule cstr_id(1) [OF t(1)])
  ultimately show ?thesis using format_all(1) [of "vsn_text t" t "\<lambda>n. True"] t(2) by (simp add: format_text_def)
qed

text \<open>A dot in a directory name moves the log files to another directory.\<close>

lemma log_file_names_directory: "log_file_names (lit ''log.d/app'') = Some (lit ''log-out.d/app'', lit ''log-err.d/app'')"
proof -
  have ext: "GetExtension (lit ''log.d/app'') = Some (lit ''d/app'')"
    using GetExtension_slashes [of "lit ''log.d/app''" "lit ''log.d/app''"] rfind_last [of 46 "lit ''d/app''" "lit ''log''"]
    by (simp add: slashes_def PATH_CHAR_def lit_def)
  have "substr (lit ''log.d/app'') 0 3 = lit ''log''" by (simp add: substr_def lit_def)
  moreover have "cstr (lit ''log'') = lit ''log''" "cstr (lit ''d/app'') = lit ''d/app''" by code_simp+
  moreover have "format_text (lit ''log-out.d/app'') = lit ''log-out.d/app''" "format_text (lit ''log-err.d/app'') = lit ''log-err.d/app''"
    by (rule format_text_id; simp add: lit_def)+
  ultimately show ?thesis using ext by (simp add: log_file_names_def lit_def Let_def numeral_3_eq_3)
qed

text \<open>The times whose fields have the ordinary ranges, in a year of four digits.\<close>

definition tm_ok :: "tm \<Rightarrow> bool" where
  "tm_ok tm \<longleftrightarrow> -900 \<le> tm_year tm \<and> tm_year tm < 8100 \<and> 0 \<le> tm_mon tm \<and> tm_mon tm < 12 \<and> 0 < tm_mday tm \<and> tm_mday tm < 32 \<and>
     0 \<le> tm_hour tm \<and> tm_hour tm < 24 \<and> 0 \<le> tm_min tm \<and> tm_min tm < 60 \<and> 0 \<le> tm_sec tm \<and> tm_sec tm < 61"

text \<open>A field of a time: digits that read as its value.\<close>

definition reads_as :: "bytes \<Rightarrow> int \<Rightarrow> bool" where
  "reads_as t v \<longleftrightarrow> t \<noteq> [] \<and> list_all IS_DIGIT t \<and> digits_value t = v \<and> 0 \<le> v \<and> v < 2 ^ 31"

lemma digits_value_zeros: "digits_value (replicate n 48 @ t) = digits_value t"
  by (induction n) (simp_all add: digits_value_def)

lemma fmt_zeros_reads: "0 \<le> v \<Longrightarrow> v < 2 ^ 31 \<Longrightarrow> reads_as (fmt_zeros w v) v"
  using dec_nat_digits [of "nat v"]
  by (auto simp: reads_as_def fmt_zeros_def Let_def digits_value_zeros digits_value_dec_nat list_all_iff IS_DIGIT_iff)

lemma atoi_reads: "reads_as t v \<Longrightarrow> atoi t = v"
proof -
  assume t: "reads_as t v"
  then have tw: "takeWhile IS_DIGIT t = t" by (simp add: reads_as_def list_all_iff)
  have "digits_value (takeWhile IS_DIGIT t) = v" unfolding tw using t by (simp add: reads_as_def)
  moreover have "IS_DIGIT (hd t)" using t by (simp add: reads_as_def list_all_iff)
  ultimately have "strtol10 t = v"
    using t digit_no_space [of "hd t"] by (simp add: reads_as_def strtol10_def dropWhile_hd peek_hd Let_def)
  then show ?thesis using t by (simp add: reads_as_def atoi_def signed_of_int signed_take_bit_int_eq_self)
qed

lemma length_dec_nat_2: "n < 100 \<Longrightarrow> length (dec_nat n) \<le> 2" "n < 10000 \<Longrightarrow> length (dec_nat n) \<le> 4"
  using length_dec_nat [of n 2] length_dec_nat [of n 4] by simp_all

lemma length_fmt_zeros: "0 \<le> v \<Longrightarrow> v < 100 \<Longrightarrow> length (fmt_zeros 2 v) = 2"
  using length_dec_nat_2(1) [of "nat v"] by (simp add: fmt_zeros_def Let_def)

lemma length_dec_nat_4:
  assumes "1000 \<le> n" "n < 10000"
  shows "length (dec_nat n) = 4"
proof -
  have "\<not> n < 10" "\<not> n div 10 < 10" "\<not> n div 10 div 10 < 10" "n div 10 div 10 div 10 < 10" using assms by auto
  then show ?thesis
    by (simp only: dec_nat.simps [of n] dec_nat.simps [of "n div 10"] dec_nat.simps [of "n div 10 div 10"]
        dec_nat.simps [of "n div 10 div 10 div 10"] if_False if_True length_append list.size)
qed

lemma fmt_blanks_reads:
  assumes "1000 \<le> v" "v < 10000"
  shows "reads_as (fmt_blanks 4 v) v" "length (fmt_blanks 4 v) = 4"
proof -
  have "fmt_blanks 4 v = dec_nat (nat v)" "length (dec_nat (nat v)) = 4"
    using assms length_dec_nat_4 [of "nat v"] by (simp_all add: fmt_blanks_def dec_int_def)
  then show "reads_as (fmt_blanks 4 v) v" "length (fmt_blanks 4 v) = 4"
    using assms dec_nat_digits [of "nat v"] by (simp_all add: reads_as_def digits_value_dec_nat)
qed

lemma reads_as_map:
  "reads_as t v \<Longrightarrow> a \<in> {45, 32, 58, 47, 46} \<Longrightarrow> map (\<lambda>x. if x = a then b else x) t = t"
  using digits_no_sep [of t a] by (auto simp: reads_as_def intro!: map_idI)

lemma ToTimestamp_fields:
  assumes "reads_as y vy" "reads_as mo vmo" "reads_as da vda" "reads_as h vh" "reads_as mi vmi" "reads_as s vs"
    and seps: "{d, t, c} \<subseteq> {45, 32, 58, 47, 46}"
  shows "ToTimestamp mktime (y @ [d] @ mo @ [d] @ da @ [t] @ h @ [c] @ mi @ [c] @ s) =
    Some (mktime 0 \<lparr>tm_year = vy - 1900, tm_mon = vmo - 1, tm_mday = vda, tm_hour = vh, tm_min = vmi, tm_sec = vs\<rparr>)"
proof -
  let ?r = "\<lambda>a. map (\<lambda>x. if x = a then 45 else x)"
  let ?xs = "[y, mo, da, h, mi, s]"
  note same = assms(1-6) [THEN reads_as_map]
  have joined: "?r 46 (?r 47 (?r 32 (?r 58 (y @ [d] @ mo @ [d] @ da @ [t] @ h @ [c] @ mi @ [c] @ s)))) = join [45] ?xs"
    using seps by (auto simp: same simp del: map_map)
  have "list_all (list_all (\<lambda>c. \<not> c = 45)) ?xs"
    using assms(1-6) digits_no_sep [of _ 45] by (auto simp: list_all_iff reads_as_def)
  then have "pieces (\<lambda>c. c = 45) (join [45] ?xs) = ?xs" by (intro pieces_join) simp_all
  then have "Strtok_into (join [45] ?xs) 45 [] = (?xs, 6)"
    using assms(1-6) by (simp add: Strtok_into_def Strtok_loop_pieces reads_as_def)
  then show ?thesis
    using joined assms(1-6) [THEN atoi_reads]
    by (simp add: ToTimestamp_def Replace_correct lit_def replace_all_char del: map_map append.simps join.simps)
qed

definition backup_time :: "tm \<Rightarrow> bytes" where
  "backup_time tm =
     fmt_blanks 4 (tm_year tm + 1900) @ [46] @ fmt_zeros 2 (tm_mon tm + 1) @ [46] @ fmt_zeros 2 (tm_mday tm) @ [45] @
     fmt_zeros 2 (tm_hour tm) @ [46] @ fmt_zeros 2 (tm_min tm) @ [46] @ fmt_zeros 2 (tm_sec tm)"

lemma tm_fields:
  assumes "tm_ok tm"
  shows "reads_as (fmt_blanks 4 (tm_year tm + 1900)) (tm_year tm + 1900)" "reads_as (fmt_zeros 2 (tm_mon tm + 1)) (tm_mon tm + 1)"
    "reads_as (fmt_zeros 2 (tm_mday tm)) (tm_mday tm)" "reads_as (fmt_zeros 2 (tm_hour tm)) (tm_hour tm)"
    "reads_as (fmt_zeros 2 (tm_min tm)) (tm_min tm)" "reads_as (fmt_zeros 2 (tm_sec tm)) (tm_sec tm)"
  using assms by (auto simp: tm_ok_def intro!: fmt_blanks_reads fmt_zeros_reads)

lemma length_tm_fields:
  assumes "tm_ok tm"
  shows "length (date_fields (fmt_blanks 4) tm) = 19" "length (backup_time tm) = 19"
  using assms fmt_blanks_reads(2) [of "tm_year tm + 1900"] length_fmt_zeros [of "tm_mon tm + 1"] length_fmt_zeros [of "tm_mday tm"]
    length_fmt_zeros [of "tm_hour tm"] length_fmt_zeros [of "tm_min tm"] length_fmt_zeros [of "tm_sec tm"]
  by (simp_all add: date_fields_def backup_time_def tm_ok_def)

lemma file_time_format:
  assumes "tm_ok (localtime (ts sdiv kMicroSecondsPerSecond))"
  shows "file_time (ToFormatString localtime False ts) = Some (backup_time (localtime (ts sdiv kMicroSecondsPerSecond)))"
proof -
  let ?tm = "localtime (ts sdiv kMicroSecondsPerSecond)"
  note same = tm_fields [OF assms, THEN reads_as_map]
  have "ToFormatString localtime False ts = date_fields (fmt_blanks 4) ?tm"
    using length_tm_fields(1) [OF assms] by (simp add: ToFormatString_def Let_def snprintf_def)
  then show ?thesis
    by (simp add: file_time_def Replace_correct lit_def replace_all_char date_fields_def backup_time_def same del: map_map)
qed

lemma backup_time_chars:
  "tm_ok tm \<Longrightarrow> set (backup_time tm) \<inter> {0, 40, 41, 92, 126} = {}"
proof -
  assume "tm_ok tm"
  note digits = tm_fields [OF this, unfolded reads_as_def list_all_iff IS_DIGIT_iff]
  have "uint c \<in> {45, 46} \<union> {48..57}" if "c \<in> set (backup_time tm)" for c
    using that digits by (auto simp: backup_time_def)
  then show ?thesis by fastforce
qed

lemma ToTimestamp_backup:
  "tm_ok (tm :: tm) \<Longrightarrow> ToTimestamp mktime (backup_time tm) = Some (mktime 0 tm)"
proof -
  assume "tm_ok tm"
  let ?tm = "\<lparr>tm_year = tm_year tm, tm_mon = tm_mon tm, tm_mday = tm_mday tm, tm_hour = tm_hour tm, tm_min = tm_min tm, tm_sec = tm_sec tm\<rparr>"
  have same: "?tm = tm" by (cases tm) simp
  have "ToTimestamp mktime (backup_time tm) = Some (mktime 0 ?tm)"
    using ToTimestamp_fields [OF tm_fields [OF \<open>tm_ok tm\<close>], of 46 45 46 mktime] by (simp add: backup_time_def)
  then show ?thesis by (simp only: same)
qed

text \<open>The name of a backup and the times in it.\<close>

lemma backup_file_name_text:
  assumes ok: "tm_ok (localtime begin)" "tm_ok (localtime (now_us sdiv kMicroSecondsPerSecond))"
    and name: "0 \<notin> set name" "length name < 2 ^ 20"
  shows "backup_file_name localtime name begin now_us =
    Some (name @ [45] @ [40] @ backup_time (localtime begin) @ [126] @
          backup_time (localtime (now_us sdiv kMicroSecondsPerSecond)) @ [41])"
proof -
  let ?b = "backup_time (localtime begin)" and ?e = "backup_time (localtime (now_us sdiv kMicroSecondsPerSecond))"
  have begun: "begin * kMicroSecondsPerSecond sdiv kMicroSecondsPerSecond = begin"
    by (simp add: kMicroSecondsPerSecond_def signed_divide_int_def sgn_mult abs_mult mult.commute [of "sgn begin"] abs_mult_sgn)
  have no_zero: "0 \<notin> set ?b" "0 \<notin> set ?e" using backup_time_chars [OF ok(1)] backup_time_chars [OF ok(2)] by auto
  note whole = cstr_id(1)
  have "format_text (name @ [45] @ [40] @ ?b @ [126] @ ?e @ [41]) = name @ [45] @ [40] @ ?b @ [126] @ ?e @ [41]"
    using name no_zero length_tm_fields(2) [OF ok(1)] length_tm_fields(2) [OF ok(2)] by (intro format_text_id) auto
  then show ?thesis
    using file_time_format [of localtime "begin * kMicroSecondsPerSecond"] file_time_format [of localtime now_us] ok
    by (simp add: backup_file_name_def begun whole name(1) no_zero lit_def)
qed

lemma GetBackupNameTime_backup:
  assumes ok: "tm_ok b" "tm_ok e" and name: "40 \<notin> set name" "126 \<notin> set name"
  shows "GetBackupNameTime mktime (name @ [45] @ [40] @ backup_time b @ [126] @ backup_time e @ [41]) from0 to0 =
    Option.bind (ToTimestamp mktime (backup_time b)) (\<lambda>f. Option.bind (ToTimestamp mktime (backup_time e)) (\<lambda>t. Some (True, f, t)))"
    (is "GetBackupNameTime mktime ?s from0 to0 = _")
proof -
  note chars = backup_time_chars [OF ok(1)] backup_time_chars [OF ok(2)]
  let ?n = "length name"
  have "find_char 40 ((name @ [45]) @ 40 # (backup_time b @ [126] @ backup_time e @ [41])) = Some (length (name @ [45]))"
    using name by (intro find_char_first) simp
  moreover have "find_char 126 ((name @ [45] @ [40] @ backup_time b) @ 126 # (backup_time e @ [41])) = Some (length (name @ [45] @ [40] @ backup_time b))"
    using name chars by (intro find_char_first) auto
  moreover have "rfind 41 ((name @ [45] @ [40] @ backup_time b @ [126] @ backup_time e) @ [41] @ []) =
      Some (length (name @ [45] @ [40] @ backup_time b @ [126] @ backup_time e))"
    by (rule rfind_last) simp
  ultimately show ?thesis
    by (simp add: GetBackupNameTime_def substr_def numeral_3_eq_3)
qed

section \<open>Properties\<close>

text \<open>
  Claim C20. The times in the name of a backup: the name that \<^verbatim>\<open>Write\<close> gives to a backup of a log file, from
  the time the file was begun and the current time, is taken apart by \<^verbatim>\<open>GetBackupNameTime\<close> into these two times, for a file name without
  parenthesis and tilde, but a time in summer is read late by the hour that the clock is ahead, because
  \<^verbatim>\<open>ToTimestamp\<close> leaves \<^verbatim>\<open>tm_isdst\<close> at 0. The hypothesis is what the C library documents of \<^verbatim>\<open>mktime\<close>: with \<^verbatim>\<open>tm_isdst\<close> 0 it reads the
  fields as standard time, of which \<^verbatim>\<open>localtime\<close> is ahead by \<open>saving t\<close> seconds, 0 outside of summer time. So \<^verbatim>\<open>CheckExpiredLog\<close> deletes a
  backup when its last line is older than the days to keep, and up to the saving later. But it also deletes every other file of the
  directory that was not changed for so long, whatever its name.
\<close>

theorem log_backup_times:
  assumes "tm_ok (localtime begin)" and "tm_ok (localtime (now_us sdiv kMicroSecondsPerSecond))"
    and "{0, 40, 126} \<inter> set name = {}" and "length name < 2 ^ 20"
    and "\<And>t. tm_ok (localtime t) \<Longrightarrow> mktime 0 (localtime t) = t + saving t"
  shows "(\<exists>backup. backup_file_name localtime name begin now_us = Some backup \<and>
           (let finish = now_us sdiv kMicroSecondsPerSecond
            in GetBackupNameTime mktime backup from0 to0 = Some (True, begin + saving begin, finish + saving finish) \<and>
              (\<not> is_directory attr \<longrightarrow> log_expired mktime days now backup attr =
                 Some (finish + saving finish + uint days * SECOND_UNITS_PER_DAY < now)))) \<and>
         (\<not> is_directory attr \<and> 40 \<notin> set other \<longrightarrow> log_expired mktime days now other attr =
           Some (max (attr_create_time attr) (attr_modify_time attr) + uint days * SECOND_UNITS_PER_DAY < now))"
proof (intro conjI impI)
  let ?e = "now_us sdiv kMicroSecondsPerSecond"
  let ?name = "name @ [45] @ [40] @ backup_time (localtime begin) @ [126] @ backup_time (localtime ?e) @ [41]"
  have "backup_file_name localtime name begin now_us = Some ?name"
    using backup_file_name_text [OF assms(1,2)] assms(3,4) by auto
  moreover have "GetBackupNameTime mktime ?name f t = Some (True, begin + saving begin, ?e + saving ?e)" for f t
    using GetBackupNameTime_backup [OF assms(1,2), of name] assms(3) ToTimestamp_backup [OF assms(1), of mktime]
      ToTimestamp_backup [OF assms(2), of mktime] assms(5) [OF assms(1)] assms(5) [OF assms(2)]
    by simp
  ultimately show "\<exists>backup. backup_file_name localtime name begin now_us = Some backup \<and>
      (let finish = ?e
       in GetBackupNameTime mktime backup from0 to0 = Some (True, begin + saving begin, finish + saving finish) \<and>
         (\<not> is_directory attr \<longrightarrow> log_expired mktime days now backup attr =
            Some (finish + saving finish + uint days * SECOND_UNITS_PER_DAY < now)))"
    by (intro exI [of _ ?name]) (simp add: log_expired_def Let_def)
next
  assume "\<not> is_directory attr \<and> 40 \<notin> set other"
  then show "log_expired mktime days now other attr =
      Some (max (attr_create_time attr) (attr_modify_time attr) + uint days * SECOND_UNITS_PER_DAY < now)"
    by (simp add: log_expired_def GetBackupNameTime_def find_char_none)
qed

text \<open>A calendar of one day, the 5th of March 2018, for the clock of one second of the day each.\<close>

definition one_day :: "int \<Rightarrow> tm" where
  "one_day t = \<lparr>tm_year = 118, tm_mon = 2, tm_mday = 5 + t div 86400, tm_hour = t div 3600 mod 24, tm_min = t div 60 mod 60, tm_sec = t mod 60\<rparr>"

definition one_day_seconds :: "tm \<Rightarrow> int" where
  "one_day_seconds tm = (tm_mday tm - 5) * 86400 + tm_hour tm * 3600 + tm_min tm * 60 + tm_sec tm"

lemma one_day_inverse: "one_day_seconds (one_day t) = t"
proof -
  have "t div 60 div 60 = t div 3600" "t div 3600 div 24 = t div 86400" by (simp_all add: zdiv_zmult2_eq [symmetric])
  then show ?thesis
    unfolding one_day_def one_day_seconds_def
    using div_mult_mod_eq [of t 60] div_mult_mod_eq [of "t div 60" 60] div_mult_mod_eq [of "t div 3600" 24] by (simp; linarith)
qed

text \<open>A zone in which the clock is set an hour ahead at two o'clock of this day.\<close>

definition summer :: "int \<Rightarrow> int" where
  "summer t = (if t < 7200 then 0 else 3600)"

definition summer_localtime :: "int \<Rightarrow> tm" where
  "summer_localtime t = one_day (t + summer t)"

definition summer_mktime :: "int \<Rightarrow> tm \<Rightarrow> int" where
  "summer_mktime isdst tm = one_day_seconds tm - (if isdst > 0 then 3600 else 0)"

theorem log_backup_times_witness:
  "summer_mktime 1 (summer_localtime 7384) = 7384 \<and>
   (\<exists>backup. backup_file_name summer_localtime (lit ''run.log'') 3600 7384000000 = Some backup \<and>
      GetBackupNameTime summer_mktime backup 0 0 = Some (True, 3600, 7384 + 3600))"
proof -
  have "tm_ok (summer_localtime 3600)" "tm_ok (summer_localtime (7384000000 sdiv kMicroSecondsPerSecond))"
    by (simp_all add: tm_ok_def summer_localtime_def summer_def one_day_def kMicroSecondsPerSecond_def signed_divide_int_def)
  moreover have "{0, 40, 126} \<inter> set (lit ''run.log'') = {}" "length (lit ''run.log'') < 2 ^ 20" by (simp_all add: lit_def)
  moreover have law: "summer_mktime 0 (summer_localtime t) = t + summer t" "summer_mktime 1 (summer_localtime t) = t + summer t - 3600" for t
    by (simp_all add: summer_mktime_def summer_localtime_def one_day_inverse)
  moreover have last: "(7384000000 :: int) sdiv kMicroSecondsPerSecond = 7384"
    by (simp add: kMicroSecondsPerSecond_def signed_divide_int_def)
  ultimately have "\<exists>backup. backup_file_name summer_localtime (lit ''run.log'') 3600 7384000000 = Some backup \<and>
      GetBackupNameTime summer_mktime backup 0 0 = Some (True, 3600 + summer 3600, 7384 + summer 7384)"
    using log_backup_times [of summer_localtime 3600 7384000000 "lit ''run.log''" summer_mktime summer 0 0]
    by (fastforce simp: Let_def)
  then show ?thesis using law(2) by (simp add: summer_def)
qed

text \<open>
  Claim C19. What a write does to the files: to a file that is not due for a backup it appends the line. A file that is due is first
  renamed, with all its lines, to the backup name, and the new file holds the line that names the backup and the
  new line; every other file is kept. A backup of the same name is replaced, so that its lines are lost: the names count seconds,
  and files begun and filled in the same second have the same name. When the file cannot be opened again, the line goes to a null stream.
\<close>

theorem log_lines_kept:
  assumes w: "dest w = LOG_DEST_FILE" "file_ptr w = OnFile (file_name w)" and old: "files d (file_name w) = Some old"
    and name: "0 \<notin> set (file_name w)" "92 \<notin> set (file_name w)" and backup: "0 \<notin> set b" "92 \<notin> set b"
    and b: "backup_file_name localtime (file_name w) (begin_time w) (clock_us d) = Some b"
    and rename: "may_rename d (file_name w) b"
  shows "let line = log_line logLevel current_time thread file lineNum message;
             result = LogWriter_Write localtime caps logLevel current_time thread file lineNum message w d;
             due = backup_due caps (w\<lparr>log_size := length old\<rparr>) d
         in (\<not> due \<longrightarrow> (\<exists>w' d'. result = Some (True, w', d') \<and> files d' = (files d)(file_name w \<mapsto> old @ line))) \<and>
            (due \<and> may_open d (file_name w) \<longrightarrow>
               (\<exists>w' d'. result = Some (True, w', d') \<and> begin_time w' = time_now d \<and> file_ptr w' = OnFile (file_name w) \<and>
                  files d' = (files d)(b \<mapsto> old, file_name w \<mapsto> new_file_line current_time b @ line))) \<and>
            (due \<and> \<not> may_open d (file_name w) \<longrightarrow> result = None) \<and>
            (now1 sdiv kMicroSecondsPerSecond = now2 sdiv kMicroSecondsPerSecond \<longrightarrow>
               backup_file_name localtime n begin now1 = backup_file_name localtime n begin now2)"
proof -
  note whole = cstr_id(1)
  have path: "RegularPath t = Some t" if "92 \<notin> set t" for t
    using that by (auto simp: RegularPath_slashes slashes_def intro!: map_idI)
  have "Move (file_name w) b d = Some (True, d\<lparr>files := (files d)(file_name w := None, b := Some old)\<rparr>)"
    using name backup old rename by (simp add: Move_def path whole)
  then have moved: "backup_file (file_name w) b d = Some (d\<lparr>files := (files d)(file_name w := None, b := Some old)\<rparr>)"
    by (simp add: backup_file_def)
  have now: "time_now (d\<lparr>files := f\<rparr>) = time_now d" for f by (simp add: time_now_def)
  let ?w = "w\<lparr>log_size := length old\<rparr>"
  have rot: "rotate localtime current_time ?w d =
      (if may_open d (file_name w) then
         Some (?w\<lparr>file_ptr := OnFile (file_name w), begin_time := time_now d, log_size := length (new_file_line current_time b)\<rparr>,
               d\<lparr>files := (files d)(file_name w := None, b \<mapsto> old, file_name w \<mapsto> [], file_name w \<mapsto> new_file_line current_time b)\<rparr>)
       else Some (?w\<lparr>file_ptr := NullStream\<rparr>, d\<lparr>files := (files d)(file_name w := None, b \<mapsto> old)\<rparr>))"
    using b moved name(1) by (simp add: rotate_def fopen_def whole now)
  have upd: "(files d)(file_name w := None, b \<mapsto> old, file_name w \<mapsto> x, file_name w \<mapsto> y, file_name w \<mapsto> z) =
      (files d)(b \<mapsto> old, file_name w \<mapsto> z)" for x y z by auto
  show ?thesis
    unfolding Let_def
  proof (intro conjI impI, goal_cases)
    case 1
    then show ?case using w old name(1) by (simp add: LogWriter_Write_def whole)
  next
    case 2
    then show ?case using w old name(1) rot by (simp add: LogWriter_Write_def whole upd)
  next
    case 3
    then show ?case using w old name(1) rot by (simp add: LogWriter_Write_def whole)
  next
    case 4
    then show ?case by (simp add: backup_file_name_def ToFormatString_def Let_def)
  qed
qed

definition full_writer :: LogWriter where
  "full_writer = \<lparr>dest = LOG_DEST_FILE, file_ptr = OnFile (lit ''log''), log_size = 0, begin_time = 3600, file_name = lit ''log''\<rparr>"

definition full_disk :: disk where
  "full_disk = \<lparr>files = [lit ''log'' \<mapsto> [65]], create_time = (\<lambda>f. 0), may_open = (\<lambda>f. True), may_rename = (\<lambda>f g. True),
     out_text = [], err_text = [], clock_us = 7384000000\<rparr>"

theorem log_lines_kept_witness:
  "\<exists>b w' d'. backup_file_name one_day (lit ''log'') 3600 7384000000 = Some b \<and>
     LogWriter_Write one_day \<lparr>time_capacity = 86400, size_capacity = 0\<rparr> LOG_LEVEL_INFO [] 1 [] 1 [66] full_writer full_disk =
       Some (True, w', d') \<and> files d' b = Some [65]"
proof -
  let ?b = "lit ''log'' @ [45] @ [40] @ backup_time (one_day 3600) @ [126] @ backup_time (one_day 7384) @ [41]"
  have sec: "(7384000000 :: int) sdiv kMicroSecondsPerSecond = 7384"
    by (simp add: kMicroSecondsPerSecond_def signed_divide_int_def)
  have ok: "tm_ok (one_day 3600)" "tm_ok (one_day 7384)" by (simp_all add: tm_ok_def one_day_def)
  then have b: "backup_file_name one_day (lit ''log'') 3600 7384000000 = Some ?b"
    using backup_file_name_text [of one_day 3600 7384000000 "lit ''log''"] by (simp add: sec lit_def)
  have chars: "0 \<notin> set ?b" "92 \<notin> set ?b"
    using backup_time_chars [OF ok(1)] backup_time_chars [OF ok(2)] by (auto simp: lit_def)
  have other: "?b \<noteq> lit ''log''" by (simp add: lit_def)
  let ?caps = "\<lparr>time_capacity = 86400, size_capacity = 0\<rparr>"
  have due: "backup_due ?caps (full_writer\<lparr>log_size := length [65 :: byte]\<rparr>) full_disk \<and> may_open full_disk (file_name full_writer)"
    by (simp add: backup_due_def full_disk_def)
  have start: "dest full_writer = LOG_DEST_FILE" "file_ptr full_writer = OnFile (file_name full_writer)"
    "files full_disk (file_name full_writer) = Some [65]" "0 \<notin> set (file_name full_writer)" "92 \<notin> set (file_name full_writer)"
    "backup_file_name one_day (file_name full_writer) (begin_time full_writer) (clock_us full_disk) = Some ?b"
    "may_rename full_disk (file_name full_writer) ?b"
    using b by (simp_all add: full_writer_def full_disk_def lit_def)
  note log_lines_kept [OF start(1-5) chars start(6,7), of LOG_LEVEL_INFO "[]" 1 "[]" 1 "[66]" ?caps 0 0 "[]" 0, unfolded Let_def]
  then obtain w' d' where
    "LogWriter_Write one_day ?caps LOG_LEVEL_INFO [] 1 [] 1 [66] full_writer full_disk = Some (True, w', d')"
    "files d' = (files full_disk)(?b \<mapsto> [65], file_name full_writer \<mapsto> new_file_line [] ?b @ log_line LOG_LEVEL_INFO [] 1 [] 1 [66])"
    using due by blast
  moreover have "file_name full_writer = lit ''log''" by (simp add: full_writer_def)
  ultimately show ?thesis using b other by (intro exI conjI) (assumption | simp)+
qed

end
