(* ===== verification/IniConfig.thy ===== *)
theory IniConfig
  imports StringFacts
begin

text \<open>
  The configuration file of \<^verbatim>\<open>src/config/ReadConfig.cpp\<close>: the reader \<^verbatim>\<open>ReadIniConfig\<close> and \<^verbatim>\<open>ReadIni\<close>. The field \<open>szBuffer\<close> is the memory
  from the start of the buffer on, longer than the text that was read, since \<^verbatim>\<open>strncmp\<close> may look behind it; writing outside of a buffer is the
  error \<open>Overrun\<close>. The theory shows which value a lookup finds in every file of the usual form, whatever is in the memory behind it, and
  what \<^verbatim>\<open>ReadIni\<close> makes of it.
\<close>

section \<open>The reader\<close>

datatype ini_fault = Overrun

definition MAX_BUFFER_SIZE :: nat where "MAX_BUFFER_SIZE = 6000"

definition MAX_VALUE_BUFFER_SIZE :: nat where "MAX_VALUE_BUFFER_SIZE = 256"

record ReadIniConfig =
  szBuffer :: bytes
  iBufferLen :: nat
  fp :: bool

text \<open>The file is its contents, or \<open>None\<close> when it cannot be opened.\<close>

definition OpenIniFile :: "bytes option \<Rightarrow> ReadIniConfig \<Rightarrow> ini_fault + int \<times> ReadIniConfig" where
  "OpenIniFile pFile this =
     (let this = this\<lparr>iBufferLen := 0\<rparr>
      in case pFile of
           None \<Rightarrow> Inr (-1, this\<lparr>fp := False\<rparr>)
         | Some contents \<Rightarrow>
             if contents = [] then Inr (-2, this\<lparr>fp := False\<rparr>)
             else if MAX_BUFFER_SIZE < length contents then Inl Overrun
             else Inr (0, this\<lparr>fp := True, szBuffer := contents @ drop (length contents) (szBuffer this), iBufferLen := length contents\<rparr>))"

definition CloseIniFile :: "bool \<Rightarrow> ReadIniConfig \<Rightarrow> int" where
  "CloseIniFile fclose_ok this = (if fp this then if fclose_ok then 0 else -1 else 0)"

text \<open>The byte at an index, and the loops over the buffer: blanks, the rest of a line, blanks backwards.\<close>

definition at :: "bytes \<Rightarrow> nat \<Rightarrow> byte" where
  "at m i = (if i < length m then m ! i else 0)"

definition strncmp_eq :: "bytes \<Rightarrow> nat \<Rightarrow> bytes \<Rightarrow> bool" where
  "strncmp_eq m i p \<longleftrightarrow> take (length p) (drop i m) = p"

function skip_blanks :: "bytes \<Rightarrow> nat \<Rightarrow> nat \<Rightarrow> nat" where
  "skip_blanks m n i = (if i < n \<and> (at m i = 32 \<or> at m i = 9) then skip_blanks m n (i + 1) else i)"
  by auto
termination by (relation "measure (\<lambda>(m, n, i). n - i)") auto

function skip_line :: "bytes \<Rightarrow> nat \<Rightarrow> nat \<Rightarrow> nat" where
  "skip_line m n i = (if i < n \<and> at m i \<noteq> 10 then skip_line m n (i + 1) else i)"
  by auto
termination by (relation "measure (\<lambda>(m, n, i). n - i)") auto

fun skip_back :: "bytes \<Rightarrow> nat \<Rightarrow> nat" where
  "skip_back m 0 = 0"
| "skip_back m (Suc j) = (if at m (Suc j) = 32 \<or> at m (Suc j) = 9 then skip_back m j else Suc j)"

declare skip_blanks.simps [simp del] skip_line.simps [simp del] skip_back.simps [simp del]

lemma skip_blanks_ge: "i \<le> skip_blanks m n i"
  by (induction m n i rule: skip_blanks.induct) (subst skip_blanks.simps, auto)

lemma skip_line_ge: "i \<le> skip_line m n i"
  by (induction m n i rule: skip_line.induct) (subst skip_line.simps, auto)

text \<open>The value behind the equals sign at index \<open>i\<close>, or the end of the buffer.\<close>

definition read_value :: "bytes \<Rightarrow> nat \<Rightarrow> nat \<Rightarrow> ini_fault + bytes option" where
  "read_value m n i =
     (let i = skip_blanks m n (i + 1)
      in if n \<le> i then Inr None
         else let j = skip_back m (skip_line m n i - 1)
              in if j + 1 < i then Inl Overrun else Inr (Some (take (j + 1 - i) (drop i m))))"

text \<open>One line, from its first character that is not blank: the result of the search, or where it goes on and whether the section was found.\<close>

datatype ini_step = Result "ini_fault + bytes option" | Continue nat bool

definition next_line :: "bytes \<Rightarrow> nat \<Rightarrow> nat \<Rightarrow> bool \<Rightarrow> ini_step" where
  "next_line m n i iKeyFound = (let i = skip_line m n i in if n \<le> i then Result (Inr None) else Continue (i + 1) iKeyFound)"

definition ini_line :: "bytes \<Rightarrow> nat \<Rightarrow> bytes \<Rightarrow> bytes \<Rightarrow> nat \<Rightarrow> bool \<Rightarrow> ini_step" where
  "ini_line m n pSection pIdent i iKeyFound =
     (let i = skip_blanks m n i
      in if n \<le> i then Result (Inr None)
         else if at m i = 35 then next_line m n i iKeyFound
         else if at m i = 91 then
           let i = skip_blanks m n (i + 1)
           in if n \<le> i then Result (Inr None)
              else if strncmp_eq m i pSection then
                let i = skip_blanks m n (i + length pSection)
                in if n \<le> i then Result (Inr None)
                   else next_line m n (i + 1) (if at m i = 93 then True else iKeyFound)
              else next_line m n i iKeyFound
         else if \<not> iKeyFound then next_line m n i iKeyFound
         else if strncmp_eq m i pIdent then
           let i = i + length pIdent
           in if n \<le> i then Result (Inr None)
              else
                let i = skip_blanks m n i
                in if at m i = 61 then Result (read_value m n i) else next_line m n i iKeyFound
         else next_line m n i iKeyFound)"

lemma next_line_advances: "next_line m n i f = Continue j g \<Longrightarrow> i < j"
  using skip_line_ge [of i m n] by (auto simp: next_line_def Let_def split: if_splits)

lemma ini_line_advances: "ini_line m n s p i f = Continue j g \<Longrightarrow> i < j"
proof -
  assume step: "ini_line m n s p i f = Continue j g"
  have b: "k \<le> skip_blanks m n k" for k by (rule skip_blanks_ge)
  note bs = b [of i] b [of "skip_blanks m n i + 1"] b [of "skip_blanks m n (skip_blanks m n i + 1) + length s"]
    b [of "skip_blanks m n i + length p"]
  show ?thesis using step bs next_line_advances
    unfolding ini_line_def Let_def by (fastforce split: if_splits)
qed

function ini_loop :: "bytes \<Rightarrow> nat \<Rightarrow> bytes \<Rightarrow> bytes \<Rightarrow> nat \<Rightarrow> bool \<Rightarrow> ini_fault + bytes option" where
  "ini_loop m n pSection pIdent i iKeyFound =
     (if i < n then
        case ini_line m n pSection pIdent i iKeyFound of
          Result r \<Rightarrow> r
        | Continue i iKeyFound \<Rightarrow> ini_loop m n pSection pIdent i iKeyFound
      else Inr None)"
  by auto
termination
  by (relation "measure (\<lambda>(m, n, s, p, i, f). n - i)") (auto dest: ini_line_advances)

declare ini_loop.simps [simp del]

text \<open>The value is \<open>None\<close> where the code returns -1 and leaves the caller's buffer alone.\<close>

definition GetIniString :: "bytes \<Rightarrow> bytes \<Rightarrow> ReadIniConfig \<Rightarrow> ini_fault + bytes option" where
  "GetIniString pSection pIdent this =
     (if length pSection = 0 \<or> length pIdent = 0 \<or> \<not> fp this then Inr None
      else ini_loop (szBuffer this) (iBufferLen this) pSection pIdent 0 False)"

text \<open>\<^verbatim>\<open>strncpy\<close> of a value and its terminator into a buffer of \<open>cap\<close> bytes; the text the buffer then holds.\<close>

definition store_value :: "nat \<Rightarrow> bytes \<Rightarrow> ini_fault + bytes" where
  "store_value cap v = (if length v < cap then Inr (cstr v) else Inl Overrun)"

definition GetIni :: "nat \<Rightarrow> bytes \<Rightarrow> bytes \<Rightarrow> ReadIniConfig \<Rightarrow> ini_fault + bytes option" where
  "GetIni cap pSection pIdent this =
     (case GetIniString pSection pIdent this of
        Inl e \<Rightarrow> Inl e
      | Inr None \<Rightarrow> Inr None
      | Inr (Some v) \<Rightarrow> map_sum id Some (store_value cap v))"

definition hex_value :: "byte \<Rightarrow> int" where
  "hex_value c = (if IS_DIGIT c then uint c - 48 else if char_range 97 102 c then uint c - 87 else uint c - 55)"

definition strtol16 :: "bytes \<Rightarrow> int" where
  "strtol16 s =
     (let p = dropWhile isspace s;
          neg = (peek p = 45);
          p = (if peek p = 45 \<or> peek p = 43 then tl p else p);
          p = (if peek p = 48 \<and> (peek (tl p) = 120 \<or> peek (tl p) = 88) then tl (tl p) else p);
          v = foldl (\<lambda>v c. v * 16 + hex_value c) 0 (takeWhile (\<lambda>c. IS_DIGIT c \<or> IS_HEX_DIGIT c) p)
      in max (- (2 ^ 63)) (min (2 ^ 63 - 1) (if neg then - v else v)))"

definition is_hex_text :: "bytes \<Rightarrow> bool" where
  "is_hex_text t \<longleftrightarrow> 2 < length t \<and> t ! 0 = 48 \<and> (t ! 1 = 120 \<or> t ! 1 = 88)"

definition ini_integer :: "bytes \<Rightarrow> int" where
  "ini_integer t = (if is_hex_text t then sint (word_of_int (strtol16 t) :: u32) else atoi t)"

definition ini_long :: "bytes \<Rightarrow> int" where
  "ini_long t = (if is_hex_text t then strtol16 t else strtol10 t)"

definition GetIniInteger :: "bytes \<Rightarrow> bytes \<Rightarrow> ReadIniConfig \<Rightarrow> ini_fault + int" where
  "GetIniInteger pSection pIdent this =
     map_sum id (\<lambda>v. case v of Some t \<Rightarrow> ini_integer t | None \<Rightarrow> 0) (GetIni MAX_VALUE_BUFFER_SIZE pSection pIdent this)"

definition GetIniLong :: "bytes \<Rightarrow> bytes \<Rightarrow> ReadIniConfig \<Rightarrow> ini_fault + int" where
  "GetIniLong pSection pIdent this =
     map_sum id (\<lambda>v. case v of Some t \<Rightarrow> ini_long t | None \<Rightarrow> 0) (GetIni MAX_VALUE_BUFFER_SIZE pSection pIdent this)"

definition GetIniDouble :: "(bytes \<Rightarrow> 'd) \<Rightarrow> 'd \<Rightarrow> bytes \<Rightarrow> bytes \<Rightarrow> ReadIniConfig \<Rightarrow> ini_fault + 'd" where
  "GetIniDouble atof zero pSection pIdent this =
     map_sum id (\<lambda>v. case v of Some t \<Rightarrow> atof t | None \<Rightarrow> zero) (GetIni MAX_VALUE_BUFFER_SIZE pSection pIdent this)"

section \<open>The settings of the program\<close>

record SConfigPara =
  m_DebugLog :: int
  m_DBAddr :: bytes
  m_DBPort :: int
  m_DBUser :: bytes
  m_DBPassWd :: bytes
  m_DBName :: bytes

text \<open>A call of \<^verbatim>\<open>GetIniString\<close> with the buffer \<open>temp\<close> of 1024 bytes, whose return value is not looked at.\<close>

definition into_temp :: "ReadIniConfig \<Rightarrow> bytes \<Rightarrow> bytes \<Rightarrow> bytes \<Rightarrow> ini_fault + bytes" where
  "into_temp this pSection pIdent temp = map_sum id (\<lambda>v. case v of Some t \<Rightarrow> t | None \<Rightarrow> temp) (GetIni 1024 pSection pIdent this)"

definition bind_ini :: "ini_fault + 'a \<Rightarrow> ('a \<Rightarrow> ini_fault + 'b) \<Rightarrow> ini_fault + 'b" where
  "bind_ini r f = (case r of Inl e \<Rightarrow> Inl e | Inr a \<Rightarrow> f a)"

definition ReadIni :: "bytes option \<Rightarrow> ReadIniConfig \<Rightarrow> SConfigPara \<Rightarrow> ini_fault + int \<times> SConfigPara" where
  "ReadIni file new conf =
     bind_ini (OpenIniFile file new) (\<lambda>(_, pMyconfig).
     bind_ini (GetIniInteger (lit ''Config'') (lit ''DebugLog'') pMyconfig) (\<lambda>v.
     let conf = conf\<lparr>m_DebugLog := v\<rparr> in if v < 0 then Inr (-1, conf) else
     bind_ini (into_temp pMyconfig (lit ''MySQL'') (lit ''DBAddr'') []) (\<lambda>temp.
     let conf = conf\<lparr>m_DBAddr := temp\<rparr> in if temp = [] then Inr (-1, conf) else
     bind_ini (GetIniInteger (lit ''MySQL'') (lit ''DBPort'') pMyconfig) (\<lambda>v.
     let conf = conf\<lparr>m_DBPort := v\<rparr> in if v < 0 then Inr (-1, conf) else
     bind_ini (into_temp pMyconfig (lit ''MySQL'') (lit ''DBUser'') temp) (\<lambda>temp.
     let conf = conf\<lparr>m_DBUser := temp\<rparr> in if temp = [] then Inr (-1, conf) else
     bind_ini (into_temp pMyconfig (lit ''MySQL'') (lit ''DBPassWd'') temp) (\<lambda>temp.
     let conf = conf\<lparr>m_DBPassWd := temp\<rparr> in if temp = [] then Inr (-1, conf) else
     bind_ini (into_temp pMyconfig (lit ''MySQL'') (lit ''DBName'') temp) (\<lambda>temp.
     let conf = conf\<lparr>m_DBName := temp\<rparr> in if temp = [] then Inr (-1, conf) else
     Inr (1, conf))))))))"

section \<open>Files of the usual form\<close>

text \<open>The lines of a file with their blanks, the text of a file, and the settings below the header of a section.\<close>

datatype ini_item =
    Empty bytes
  | Comment bytes bytes
  | Header bytes bytes bytes bytes bytes
  | Setting bytes bytes bytes bytes bytes bytes

fun item_text :: "ini_item \<Rightarrow> bytes" where
  "item_text (Empty b) = b"
| "item_text (Comment b t) = b @ 35 # t"
| "item_text (Header b b1 s b2 t) = b @ 91 # b1 @ s @ b2 @ 93 # t"
| "item_text (Setting b k b1 b2 v b3) = b @ k @ b1 @ 61 # b2 @ v @ b3"

definition ini_text :: "ini_item list \<Rightarrow> bytes" where
  "ini_text items = concat (map (\<lambda>x. item_text x @ [10]) items)"

definition blanks :: "bytes \<Rightarrow> bool" where
  "blanks b \<longleftrightarrow> list_all IS_BLANK b"

definition ini_word :: "bytes \<Rightarrow> bool" where
  "ini_word s \<longleftrightarrow> s \<noteq> [] \<and> hd s \<noteq> 35 \<and> hd s \<noteq> 91 \<and> list_all (\<lambda>c. \<not> IS_BLANK c \<and> c \<noteq> 10 \<and> c \<noteq> 61 \<and> c \<noteq> 93) s"

definition ini_value :: "bytes \<Rightarrow> bool" where
  "ini_value v \<longleftrightarrow> v \<noteq> [] \<and> \<not> IS_BLANK (hd v) \<and> \<not> IS_BLANK (last v) \<and> 10 \<notin> set v"

fun item_ok :: "ini_item \<Rightarrow> bool" where
  "item_ok (Empty b) \<longleftrightarrow> blanks b"
| "item_ok (Comment b t) \<longleftrightarrow> blanks b \<and> 10 \<notin> set t"
| "item_ok (Header b b1 s b2 t) \<longleftrightarrow> blanks b \<and> blanks b1 \<and> ini_word s \<and> blanks b2 \<and> 10 \<notin> set t"
| "item_ok (Setting b k b1 b2 v b3) \<longleftrightarrow> blanks b \<and> ini_word k \<and> blanks b1 \<and> blanks b2 \<and> ini_value v \<and> blanks b3"

fun settings :: "ini_item list \<Rightarrow> (bytes \<times> bytes) list" where
  "settings [] = []"
| "settings (Setting b k b1 b2 v b3 # items) = (k, v) # settings items"
| "settings (_ # items) = settings items"

fun is_header :: "bytes \<Rightarrow> ini_item \<Rightarrow> bool" where
  "is_header sec (Header b b1 s b2 t) \<longleftrightarrow> s = sec"
| "is_header sec _ \<longleftrightarrow> False"

definition setting_of :: "ini_item list \<Rightarrow> bytes \<Rightarrow> bytes \<Rightarrow> bytes option" where
  "setting_of items sec key = map_of (settings (dropWhile (\<lambda>x. \<not> is_header sec x) items)) key"

section \<open>Reading a line\<close>

text \<open>The loops, at a position where the rest of the memory is known.\<close>

lemma at_drop: "drop i m = c # ys \<Longrightarrow> at m i = c"
proof -
  assume "drop i m = c # ys"
  moreover from this have "i < length m" by (metis drop_eq_Nil leI list.distinct(1))
  ultimately show ?thesis by (simp add: at_def Cons_nth_drop_Suc [symmetric])
qed

lemma skip_blanks_at:
  "drop i m = b @ c # ys \<Longrightarrow> blanks b \<Longrightarrow> \<not> IS_BLANK c \<Longrightarrow> i + length b < n \<Longrightarrow> skip_blanks m n i = i + length b"
proof (induction b arbitrary: i)
  case Nil
  then show ?case using at_drop [of i m c ys] by (subst skip_blanks.simps) (auto simp: IS_BLANK_def)
next
  case (Cons x b)
  have "at m i = x" using at_drop Cons.prems(1) by simp
  moreover have "IS_BLANK x" "blanks b" using Cons.prems(2) by (simp_all add: blanks_def)
  moreover have "drop (i + 1) m = b @ c # ys" using cursor_Suc Cons.prems(1) by simp
  ultimately show ?case using Cons.IH [of "i + 1"] Cons.prems
    by (subst skip_blanks.simps) (auto simp: IS_BLANK_def)
qed

lemma skip_line_at: "drop i m = l @ 10 # ys \<Longrightarrow> 10 \<notin> set l \<Longrightarrow> i + length l < n \<Longrightarrow> skip_line m n i = i + length l"
proof (induction l arbitrary: i)
  case Nil
  then show ?case using at_drop [of i m 10 ys] by (subst skip_line.simps) simp
next
  case (Cons x l)
  have "at m i = x" using at_drop Cons.prems(1) by simp
  moreover have "drop (i + 1) m = l @ 10 # ys" using cursor_Suc Cons.prems(1) by simp
  ultimately show ?case using Cons.IH [of "i + 1"] Cons.prems by (subst skip_line.simps) auto
qed

lemma next_line_at:
  "drop i m = l @ 10 # ys \<Longrightarrow> 10 \<notin> set l \<Longrightarrow> i + length l < n \<Longrightarrow> next_line m n i f = Continue (i + length l + 1) f"
  using skip_line_at [of i m l ys n] by (simp add: next_line_def Let_def)

lemma skip_back_at:
  "\<not> IS_BLANK (at m j) \<Longrightarrow> \<forall>k. j < k \<and> k \<le> j + d \<longrightarrow> IS_BLANK (at m k) \<Longrightarrow> skip_back m (j + d) = j"
proof (induction d)
  case 0
  then show ?case by (cases j) (auto simp: skip_back.simps IS_BLANK_def)
next
  case (Suc d)
  then have "IS_BLANK (at m (Suc (j + d)))" by auto
  moreover have "skip_back m (j + d) = j" using Suc by simp
  ultimately show ?case by (simp add: skip_back.simps IS_BLANK_def)
qed

lemma strncmp_at: "drop i m = ys \<Longrightarrow> strncmp_eq m i p \<longleftrightarrow> take (length p) ys = p"
  by (simp add: strncmp_eq_def)

text \<open>A word that is a prefix of the text of another word goes on with a character of that word.\<close>

lemma word_prefix:
  assumes "take (length p) (w @ b @ c # ys) = p" and p: "list_all (\<lambda>c. \<not> IS_BLANK c \<and> c \<noteq> e) p" and b: "blanks b" and c: "c = e"
    and "w \<noteq> p"
  shows "\<exists>d w'. w = p @ d # w'"
proof (cases "length p < length w")
  case True
  then have "take (length p) w = p" using assms(1) by simp
  then have "w = p @ drop (length p) w" "drop (length p) w \<noteq> []" using True by (metis append_take_drop_id, simp)
  then show ?thesis by (metis neq_Nil_conv)
next
  case False
  have "take (length w) p = w" using False assms(1) by (metis append_eq_conv_conj min.absorb1 not_less take_take)
  then obtain r where r: "p = w @ r" by (metis append_take_drop_id)
  then have "r \<noteq> []" "take (length r) (b @ c # ys) = r" using assms by auto
  then have "hd r = hd (b @ c # ys)" by (cases r; cases "b @ c # ys") auto
  moreover have "\<not> IS_BLANK (hd r) \<and> hd r \<noteq> e" using p r \<open>r \<noteq> []\<close> by (cases r) auto
  ultimately show ?thesis using b c by (cases b) (auto simp: blanks_def)
qed

lemma ini_wordD:
  assumes "ini_word w"
  shows "w \<noteq> []" "\<not> IS_BLANK (hd w)" "hd w \<noteq> 35" "hd w \<noteq> 91" "10 \<notin> set w" "hd w # tl w = w"
    "list_all (\<lambda>c. \<not> IS_BLANK c \<and> c \<noteq> 61) w" "list_all (\<lambda>c. \<not> IS_BLANK c \<and> c \<noteq> 93) w"
  using assms by (cases w; auto simp: ini_word_def list_all_iff)+

lemma no_newline: "blanks b \<Longrightarrow> 10 \<notin> set b"
  by (auto simp: blanks_def list_all_iff IS_BLANK_def)

lemmas no_newlines = no_newline ini_wordD(5)

text \<open>A header: the section is found if the names are the same.\<close>

lemma ini_line_header:
  assumes mem: "drop i m = b @ 91 # b1 @ s @ b2 @ 93 # t @ 10 # ys" and n: "i + length (b @ 91 # b1 @ s @ b2 @ 93 # t) < n"
    and ok: "item_ok (Header b b1 s b2 t)" and sec: "ini_word sec"
  shows "ini_line m n sec key i f = Continue (i + length (b @ 91 # b1 @ s @ b2 @ 93 # t) + 1) (if s = sec then True else f)"
proof -
  have ok': "blanks b" "blanks b1" "ini_word s" "blanks b2" "10 \<notin> set t" using ok by simp_all
  let ?i1 = "i + length b" and ?i2 = "i + length b + 1 + length b1"
  have i1: "skip_blanks m n i = ?i1" "at m ?i1 = 91"
    using skip_blanks_at [OF mem ok'(1)] at_drop [OF cursor [OF mem]] n by (simp_all add: IS_BLANK_def)
  have "drop (?i1 + 1) m = b1 @ s @ b2 @ 93 # t @ 10 # ys" using cursor_Suc [OF cursor [OF mem]] by simp
  then have d1: "drop (?i1 + 1) m = b1 @ hd s # tl s @ b2 @ 93 # t @ 10 # ys" using ini_wordD(6) [OF ok'(3)] by (metis append_Cons)
  have i2: "skip_blanks m n (?i1 + 1) = ?i2"
    using skip_blanks_at [OF d1 ok'(2) ini_wordD(2) [OF ok'(3)]] n by simp
  have d2: "drop ?i2 m = s @ b2 @ 93 # t @ 10 # ys"
    using cursor [OF d1] ini_wordD(6) [OF ok'(3)] by (metis append_Cons)
  note line = ini_line_def [of m n sec key i f, unfolded Let_def, unfolded i1, unfolded i2]
  have go_on: "next_line m n ?i2 f = Continue (i + length (b @ 91 # b1 @ s @ b2 @ 93 # t) + 1) f"
    using next_line_at [of ?i2 m "s @ b2 @ 93 # t"] d2 n no_newlines ok' by simp
  show ?thesis
  proof (cases "strncmp_eq m ?i2 sec")
    case False
    then have "s \<noteq> sec" using strncmp_at [OF d2, of sec] by auto
    then show ?thesis using line False go_on n by simp
  next
    case True
    then have pre: "take (length sec) (s @ b2 @ 93 # t @ 10 # ys) = sec" using strncmp_at [OF d2] by simp
    show ?thesis
    proof (cases "s = sec")
      case True
      have d3: "drop (?i2 + length sec) m = b2 @ 93 # t @ 10 # ys" using cursor [OF d2] True by simp
      then have i3: "skip_blanks m n (?i2 + length sec) = ?i2 + length sec + length b2" "at m (?i2 + length sec + length b2) = 93"
        using skip_blanks_at [OF d3 ok'(4)] at_drop [OF cursor [OF d3]] n True by (simp_all add: IS_BLANK_def)
      have "next_line m n (?i2 + length sec + length b2 + 1) True = Continue (i + length (b @ 91 # b1 @ s @ b2 @ 93 # t) + 1) True"
        using next_line_at [of "?i2 + length sec + length b2 + 1" m t] cursor_Suc [OF cursor [OF d3]] n ok'(5) True by simp
      then show ?thesis using line \<open>strncmp_eq m ?i2 sec\<close> i3 n True by simp
    next
      case False
      obtain c w where w: "s = sec @ c # w" using word_prefix [OF pre ini_wordD(8) [OF sec] ok'(4) refl False] by blast
      have c: "\<not> IS_BLANK c" "c \<noteq> 93" using ini_wordD(8) [OF ok'(3)] w by simp_all
      have d3: "drop (?i2 + length sec) m = c # w @ b2 @ 93 # t @ 10 # ys" using cursor [of ?i2 m sec] d2 w by simp
      then have i3: "skip_blanks m n (?i2 + length sec) = ?i2 + length sec" "at m (?i2 + length sec) = c"
        using skip_blanks_at [of "?i2 + length sec" m "[]" c] at_drop [OF d3] n w c by (simp_all add: blanks_def)
      have "10 \<notin> set w" using ini_wordD(5) [OF ok'(3)] w by simp
      then have "next_line m n (?i2 + length sec + 1) f = Continue (i + length (b @ 91 # b1 @ s @ b2 @ 93 # t) + 1) f"
        using next_line_at [of "?i2 + length sec + 1" m "w @ b2 @ 93 # t"] cursor_Suc [OF d3] n no_newlines ok' w by simp
      then show ?thesis using line \<open>strncmp_eq m ?i2 sec\<close> i3 n w c False by simp
    qed
  qed
qed

text \<open>A value, and a setting below the header.\<close>

lemma read_value_at:
  assumes mem: "drop i m = 61 # b2 @ v @ b3 @ 10 # ys" and n: "i + length (61 # b2 @ v @ b3) < n"
    and ok: "blanks b2" "ini_value v" "blanks b3"
  shows "read_value m n i = Inr (Some v)"
proof -
  let ?i = "i + 1 + length b2"
  have v: "v \<noteq> []" "\<not> IS_BLANK (hd v)" "\<not> IS_BLANK (last v)" "10 \<notin> set v" using ok(2) by (simp_all add: ini_value_def)
  have d1: "drop (i + 1) m = b2 @ hd v # tl v @ b3 @ 10 # ys" using cursor_Suc [OF mem] v(1) by simp
  have i1: "skip_blanks m n (i + 1) = ?i" using skip_blanks_at [OF d1 ok(1) v(2)] n by simp
  have d2: "drop ?i m = v @ b3 @ 10 # ys" using cursor [OF d1] v(1) by simp
  have l: "skip_line m n ?i = ?i + length (v @ b3)"
    using skip_line_at [of ?i m "v @ b3"] d2 n v(4) no_newlines(1) [OF ok(3)] by simp
  have nth: "at m (?i + k) = (v @ b3) ! k" if "k < length (v @ b3)" for k
  proof -
    have "drop ?i m = (v @ b3) @ 10 # ys" using d2 by simp
    then have "drop (?i + k) m = drop k (v @ b3) @ 10 # ys" using that by (metis add.commute drop_append drop_drop diff_is_0_eq' drop0 less_imp_le_nat)
    then show ?thesis using at_drop [of "?i + k" m "(v @ b3) ! k"] that by (simp add: Cons_nth_drop_Suc [symmetric] del: drop_append)
  qed
  let ?j = "?i + (length v - 1)"
  have "length v - 1 < length (v @ b3)" using v(1) by (cases v) simp_all
  then have "at m ?j = last v" using nth v(1) by (simp add: nth_append last_conv_nth)
  moreover have "IS_BLANK (at m k)" if k: "?j < k" "k \<le> ?j + length b3" for k
  proof -
    define d where "d = k - (?i + length v)"
    have "0 < length v" using v(1) by simp
    then have d: "k = ?i + (length v + d)" "d < length b3" using k unfolding d_def by linarith+
    then show ?thesis using nth [of "length v + d"] ok(3) by (simp add: nth_append blanks_def list_all_length)
  qed
  ultimately have "skip_back m (?j + length b3) = ?j" using v(3) by (intro skip_back_at) auto
  moreover have "?i + length (v @ b3) - 1 = ?j + length b3" "?j + 1 - ?i = length v" using v(1) by (cases v; simp)+
  ultimately show ?thesis using i1 l d2 n by (simp add: read_value_def Let_def)
qed

lemma ini_line_setting:
  assumes mem: "drop i m = b @ k @ b1 @ 61 # b2 @ v @ b3 @ 10 # ys" and n: "i + length (b @ k @ b1 @ 61 # b2 @ v @ b3) < n"
    and ok: "item_ok (Setting b k b1 b2 v b3)" and key: "ini_word key"
  shows "ini_line m n sec key i f =
    (if f \<and> k = key then Result (Inr (Some v)) else Continue (i + length (b @ k @ b1 @ 61 # b2 @ v @ b3) + 1) f)"
proof -
  have ok': "blanks b" "ini_word k" "blanks b1" "blanks b2" "ini_value v" "blanks b3" using ok by simp_all
  have v: "10 \<notin> set v" using ok'(5) by (simp add: ini_value_def)
  let ?i1 = "i + length b"
  have d1: "drop ?i1 m = k @ b1 @ 61 # b2 @ v @ b3 @ 10 # ys" using cursor [OF mem] by simp
  have mem': "drop i m = b @ hd k # tl k @ b1 @ 61 # b2 @ v @ b3 @ 10 # ys" using mem ini_wordD(6) [OF ok'(2)] by (metis append_Cons)
  have i1: "skip_blanks m n i = ?i1" "at m ?i1 = hd k"
    using skip_blanks_at [OF mem' ok'(1) ini_wordD(2) [OF ok'(2)]] at_drop [OF cursor [OF mem']] n by simp_all
  note line = ini_line_def [of m n sec key i f, unfolded Let_def, unfolded i1]
  have go_on: "next_line m n ?i1 f = Continue (i + length (b @ k @ b1 @ 61 # b2 @ v @ b3) + 1) f"
    using next_line_at [of ?i1 m "k @ b1 @ 61 # b2 @ v @ b3"] d1 n no_newlines ok' v by simp
  have line: "ini_line m n sec key i f =
      (if f \<and> strncmp_eq m ?i1 key
       then if n \<le> ?i1 + length key then Result (Inr None)
            else let i = skip_blanks m n (?i1 + length key)
                 in if at m i = 61 then Result (read_value m n i) else next_line m n i f
       else Continue (i + length (b @ k @ b1 @ 61 # b2 @ v @ b3) + 1) f)"
    using line n ini_wordD(3,4) [OF ok'(2)] go_on by (cases f) (simp_all add: Let_def)
  show ?thesis
  proof (cases "strncmp_eq m ?i1 key")
    case False
    then have "k \<noteq> key" using strncmp_at [OF d1, of key] by auto
    then show ?thesis using line False by simp
  next
    case True
    then have pre: "take (length key) (k @ b1 @ 61 # b2 @ v @ b3 @ 10 # ys) = key" using strncmp_at [OF d1] by simp
    show ?thesis
    proof (cases "k = key")
      case same: True
      have d2: "drop (?i1 + length key) m = b1 @ 61 # b2 @ v @ b3 @ 10 # ys" using cursor [OF d1] same by simp
      have i2: "skip_blanks m n (?i1 + length key) = ?i1 + length key + length b1"
        using skip_blanks_at [OF d2 ok'(3)] n same by (simp add: IS_BLANK_def)
      note d3 = cursor [OF d2]
      have "read_value m n (?i1 + length key + length b1) = Inr (Some v)"
        using read_value_at [OF d3] ok' n same by simp
      then show ?thesis using line True i2 at_drop [OF d3] n same by (simp add: Let_def)
    next
      case False
      obtain c w where w: "k = key @ c # w" using word_prefix [OF pre ini_wordD(7) [OF key] ok'(3) refl False] by blast
      have c: "\<not> IS_BLANK c" "c \<noteq> 61" using ini_wordD(7) [OF ok'(2)] w by simp_all
      have d2: "drop (?i1 + length key) m = c # w @ b1 @ 61 # b2 @ v @ b3 @ 10 # ys" using cursor [of ?i1 m key] d1 w by simp
      have i2: "skip_blanks m n (?i1 + length key) = ?i1 + length key" "at m (?i1 + length key) = c"
        using skip_blanks_at [of "?i1 + length key" m "[]" c] at_drop [OF d2] d2 n w c by (simp_all add: blanks_def)
      have "10 \<notin> set (c # w)" using ini_wordD(5) [OF ok'(2)] w by simp
      then have "next_line m n (?i1 + length key) f = Continue (i + length (b @ k @ b1 @ 61 # b2 @ v @ b3) + 1) f"
        using next_line_at [of "?i1 + length key" m "c # w @ b1 @ 61 # b2 @ v @ b3"] d2 n no_newlines ok' v w by simp
      then show ?thesis using line True i2 n w c by (cases f) (simp_all add: Let_def)
    qed
  qed
qed

lemma ini_line_rest:
  assumes mem: "drop i m = item_text x @ 10 # ys" and n: "i + length (item_text x) < n" and ok: "item_ok x"
    and x: "\<And>b b1 s b2 t. x \<noteq> Header b b1 s b2 t" "\<And>b k b1 b2 v b3. x \<noteq> Setting b k b1 b2 v b3" and key: "ini_word key"
  shows "ini_line m n sec key i f = Continue (i + length (item_text x) + 1) f"
proof (cases x)
  case (Empty b)
  then have d: "drop i m = b @ 10 # ys" and b: "blanks b" using mem ok by simp_all
  have "skip_blanks m n i = i + length b" using skip_blanks_at [OF d b] n Empty by (simp add: IS_BLANK_def)
  moreover have d1: "drop (i + length b) m = 10 # ys" by (rule cursor [OF d])
  moreover have "\<not> strncmp_eq m (i + length b) key"
    using strncmp_at [OF d1, of key] ini_wordD(5,6) [OF key] by (cases key) auto
  moreover have "next_line m n (i + length b) f = Continue (i + length b + 1) f" using next_line_at [of "i + length b" m "[]"] d1 n Empty by simp
  ultimately show ?thesis using Empty at_drop [OF d1] n by (cases f) (simp_all add: ini_line_def Let_def)
next
  case (Comment b t)
  then have d: "drop i m = b @ 35 # t @ 10 # ys" and b: "blanks b" "10 \<notin> set t" using mem ok by simp_all
  have "skip_blanks m n i = i + length b" using skip_blanks_at [OF d b(1)] n Comment by (simp add: IS_BLANK_def)
  moreover have d1: "drop (i + length b) m = 35 # t @ 10 # ys" by (rule cursor [OF d])
  moreover have "next_line m n (i + length b) f = Continue (i + length b + length t + 2) f"
    using next_line_at [of "i + length b" m "35 # t"] d1 n b(2) Comment by simp
  ultimately show ?thesis using Comment at_drop [OF d1] n by (simp add: ini_line_def Let_def)
qed (use x in blast)+

text \<open>The search goes through the lines.\<close>

lemma ini_loop_items:
  assumes sec: "ini_word sec" and key: "ini_word key"
  shows "list_all item_ok items \<Longrightarrow> drop i m = ini_text items @ junk \<Longrightarrow> n = i + length (ini_text items) \<Longrightarrow>
    ini_loop m n sec key i f = Inr (map_of (settings (if f then items else dropWhile (\<lambda>x. \<not> is_header sec x) items)) key)"
proof (induction items arbitrary: i f)
  case Nil
  then show ?case by (subst ini_loop.simps) (simp add: ini_text_def)
next
  case (Cons x items)
  let ?i = "i + length (item_text x) + 1"
  have mem: "drop i m = item_text x @ 10 # ini_text items @ junk" and len: "n = ?i + length (ini_text items)"
    using Cons.prems by (simp_all add: ini_text_def)
  have ok: "item_ok x" "list_all item_ok items" and lt: "i + length (item_text x) < n" using Cons.prems len by simp_all
  have rest: "drop ?i m = ini_text items @ junk" using cursor_Suc [OF cursor [OF mem]] by simp
  note IH = Cons.IH [OF ok(2) rest len]
  have loop: "ini_loop m n sec key i f = (case ini_line m n sec key i f of Result r \<Rightarrow> r | Continue i f \<Rightarrow> ini_loop m n sec key i f)"
    using lt by (subst ini_loop.simps) simp
  consider (header) b b1 s b2 t where "x = Header b b1 s b2 t" | (setting) b k b1 b2 v b3 where "x = Setting b k b1 b2 v b3"
    | (rest) "\<And>b b1 s b2 t. x \<noteq> Header b b1 s b2 t" "\<And>b k b1 b2 v b3. x \<noteq> Setting b k b1 b2 v b3" by (cases x) auto
  then show ?case
  proof cases
    case header
    then show ?thesis using loop ini_line_header [of i m b b1 s b2 t "ini_text items @ junk" n sec key f] mem lt ok(1) sec IH by simp
  next
    case setting
    then show ?thesis using loop ini_line_setting [of i m b k b1 b2 v b3 "ini_text items @ junk" n key sec f] mem lt ok(1) key IH by simp
  next
    case rest
    then show ?thesis using loop ini_line_rest [OF mem lt ok(1) rest key] IH by (cases x) (simp_all, blast+)
  qed
qed

lemma OpenIniFile_items:
  assumes "items \<noteq> []" "length (ini_text items) \<le> MAX_BUFFER_SIZE"
  obtains rd junk where "OpenIniFile (Some (ini_text items)) new = Inr (0, rd)" "fp rd" "szBuffer rd = ini_text items @ junk"
    "iBufferLen rd = length (ini_text items)"
proof -
  have "ini_text items \<noteq> []" using assms(1) by (cases items) (simp_all add: ini_text_def)
  then show thesis using assms(2) that by (simp add: OpenIniFile_def Let_def)
qed

lemma GetIniString_items:
  assumes "list_all item_ok items" "ini_word sec" "ini_word key" "fp rd" "szBuffer rd = ini_text items @ junk"
    "iBufferLen rd = length (ini_text items)"
  shows "GetIniString sec key rd = Inr (setting_of items sec key)"
proof -
  have "sec \<noteq> []" "key \<noteq> []" using ini_wordD(1) assms(2,3) by auto
  moreover have "ini_loop (szBuffer rd) (iBufferLen rd) sec key 0 False = Inr (setting_of items sec key)"
    using ini_loop_items [OF assms(2,3,1), of 0 "szBuffer rd" junk "iBufferLen rd" False] assms(5,6) by (simp add: setting_of_def)
  ultimately show ?thesis using assms(4) by (simp add: GetIniString_def)
qed

text \<open>The values of a file that fit the buffers.\<close>

definition values_fit :: "ini_item list \<Rightarrow> bool" where
  "values_fit items \<longleftrightarrow> list_all (\<lambda>(k, v). 0 \<notin> set v \<and> length v < 256) (settings items)"

lemma settings_ok: "list_all item_ok items \<Longrightarrow> list_all (\<lambda>(k, v). v \<noteq> []) (settings items)"
  by (induction items rule: settings.induct) (auto simp: ini_value_def)

lemma settings_dropWhile: "set (settings (dropWhile P items)) \<subseteq> set (settings items)"
  by (induction items rule: settings.induct) auto

lemma setting_value:
  assumes "list_all item_ok items" "values_fit items" "setting_of items sec key = Some v"
  shows "v \<noteq> []" "cstr v = v" "length v < 256"
proof -
  have v: "(key, v) \<in> set (settings items)"
    using map_of_SomeD [OF assms(3) [unfolded setting_of_def]] settings_dropWhile by (rule rev_subsetD)
  show "v \<noteq> []" using settings_ok [OF assms(1)] v by (auto simp: list_all_iff)
  have fit: "0 \<notin> set v" "length v < 256" using assms(2) v by (auto simp: values_fit_def list_all_iff)
  show "cstr v = v" by (rule cstr_id(1) [OF fit(1)])
  show "length v < 256" by (rule fit(2))
qed

lemma GetIni_items:
  assumes "list_all item_ok items" "values_fit items" "GetIniString sec key rd = Inr (setting_of items sec key)" "256 \<le> cap"
  shows "GetIni cap sec key rd = Inr (setting_of items sec key)"
proof (cases "setting_of items sec key")
  case (Some v)
  then show ?thesis using assms(3,4) setting_value [OF assms(1,2) Some] by (simp add: GetIni_def store_value_def)
qed (use assms(3) in \<open>simp add: GetIni_def\<close>)

definition integer_setting :: "bytes option \<Rightarrow> int" where
  "integer_setting v = (case v of Some t \<Rightarrow> ini_integer t | None \<Rightarrow> 0)"

lemma ini_words:
  "ini_word (lit ''Config'')" "ini_word (lit ''MySQL'')" "ini_word (lit ''DebugLog'')" "ini_word (lit ''DBAddr'')" "ini_word (lit ''DBPort'')"
  "ini_word (lit ''DBUser'')" "ini_word (lit ''DBPassWd'')" "ini_word (lit ''DBName'')"
  by (simp_all add: ini_word_def lit_def IS_BLANK_def)

section \<open>Properties\<close>

text \<open>
  Claim C26. Lookups: in every configuration file of the usual form (empty lines, comments, headers and settings with any blanks) that fits
  the buffer, \<^verbatim>\<open>GetIniString\<close> returns the value of the first setting of that name below the first header of the section, and no value if there is
  none, whatever the memory behind the text holds. Settings of other sections that follow are found too: the section is never left. A setting
  whose value is only blanks makes \<^verbatim>\<open>strncpy\<close> write with a negative length.
\<close>

theorem ini_lookup:
  assumes "list_all item_ok items" "items \<noteq> []" "length (ini_text items) \<le> MAX_BUFFER_SIZE" "ini_word sec" "ini_word key"
  shows "(\<exists>rd. OpenIniFile (Some (ini_text items)) new = Inr (0, rd) \<and> GetIniString sec key rd = Inr (setting_of items sec key)) \<and>
    GetIniString (lit ''a'') (lit ''k'') \<lparr>szBuffer = lit ''[a]'' @ 10 # lit ''k= '' @ [10], iBufferLen = 8, fp = True\<rparr> = Inl Overrun"
proof (intro conjI)
  obtain rd junk where rd: "OpenIniFile (Some (ini_text items)) new = Inr (0, rd)" "fp rd" "szBuffer rd = ini_text items @ junk"
      "iBufferLen rd = length (ini_text items)" by (rule OpenIniFile_items [OF assms(2,3)])
  then show "\<exists>rd. OpenIniFile (Some (ini_text items)) new = Inr (0, rd) \<and> GetIniString sec key rd = Inr (setting_of items sec key)"
    using GetIniString_items [OF assms(1,4,5)] by blast
  show "GetIniString (lit ''a'') (lit ''k'') \<lparr>szBuffer = lit ''[a]'' @ 10 # lit ''k= '' @ [10], iBufferLen = 8, fp = True\<rparr> = Inl Overrun"
    by code_simp
qed

theorem ini_lookup_witness:
  "\<exists>rd. OpenIniFile (Some (ini_text [Header [] [] (lit ''a'') [] [], Header [] [] (lit ''b'') [] [], Setting [32] (lit ''key'') [32] [32] (lit ''v'') []]))
       \<lparr>szBuffer = replicate 6000 1, iBufferLen = 0, fp = False\<rparr> = Inr (0, rd) \<and>
     GetIniString (lit ''a'') (lit ''key'') rd = Inr (Some (lit ''v''))"
proof -
  let ?items = "[Header [] [] (lit ''a'') [] [], Header [] [] (lit ''b'') [] [], Setting [32] (lit ''key'') [32] [32] (lit ''v'') []]"
  have "list_all item_ok ?items" "ini_word (lit ''a'')" "ini_word (lit ''key'')"
    by (simp_all add: ini_word_def ini_value_def blanks_def lit_def IS_BLANK_def)
  moreover have "length (ini_text ?items) \<le> MAX_BUFFER_SIZE" by (simp add: ini_text_def lit_def MAX_BUFFER_SIZE_def)
  moreover have "setting_of ?items (lit ''a'') (lit ''key'') = Some (lit ''v'')" by (simp add: setting_of_def)
  ultimately show ?thesis
    using ini_lookup [of ?items "lit ''a''" "lit ''key''" "\<lparr>szBuffer = replicate 6000 1, iBufferLen = 0, fp = False\<rparr>"] by auto
qed

text \<open>
  Claim C27. The program's settings: from a file of that form whose values fit, \<^verbatim>\<open>ReadIni\<close> takes the address, the port and the debug level of the
  file, and fails without an address or with a negative number. It does not notice that another setting is missing: a missing user, password or
  database is replaced by the text that was read before it, the address for the user.
\<close>

theorem ReadIni_settings:
  assumes ok: "list_all item_ok items" "items \<noteq> []" "length (ini_text items) \<le> MAX_BUFFER_SIZE" "values_fit items"
  defines "val \<equiv> setting_of items (lit ''MySQL'')"
    and "log \<equiv> integer_setting (setting_of items (lit ''Config'') (lit ''DebugLog''))"
    and "port \<equiv> integer_setting (setting_of items (lit ''MySQL'') (lit ''DBPort''))"
  shows "ReadIni (Some (ini_text items)) new conf =
    (if log < 0 then Inr (-1, conf\<lparr>m_DebugLog := log\<rparr>)
     else case val (lit ''DBAddr'') of
       None \<Rightarrow> Inr (-1, conf\<lparr>m_DebugLog := log, m_DBAddr := []\<rparr>)
     | Some addr \<Rightarrow>
         if port < 0 then Inr (-1, conf\<lparr>m_DebugLog := log, m_DBAddr := addr, m_DBPort := port\<rparr>)
         else
           let user = (case val (lit ''DBUser'') of Some v \<Rightarrow> v | None \<Rightarrow> addr);
               passwd = (case val (lit ''DBPassWd'') of Some v \<Rightarrow> v | None \<Rightarrow> user);
               name = (case val (lit ''DBName'') of Some v \<Rightarrow> v | None \<Rightarrow> passwd)
           in Inr (1, conf\<lparr>m_DebugLog := log, m_DBAddr := addr, m_DBPort := port, m_DBUser := user, m_DBPassWd := passwd, m_DBName := name\<rparr>))"
proof -
  obtain rd junk where rd: "OpenIniFile (Some (ini_text items)) new = Inr (0, rd)" "fp rd" "szBuffer rd = ini_text items @ junk"
      "iBufferLen rd = length (ini_text items)" by (rule OpenIniFile_items [OF ok(2,3)])
  have get: "GetIni cap sec key rd = Inr (setting_of items sec key)" if "ini_word sec" "ini_word key" "256 \<le> cap" for sec key cap
    using GetIni_items [OF ok(1,4) GetIniString_items [OF ok(1) that(1,2) rd(2-4)] that(3)] .
  have int: "GetIniInteger sec key rd = Inr (integer_setting (setting_of items sec key))" if "ini_word sec" "ini_word key" for sec key
    using get [OF that] by (simp add: GetIniInteger_def integer_setting_def MAX_VALUE_BUFFER_SIZE_def)
  have temp: "into_temp rd (lit ''MySQL'') key t = Inr (case val key of Some v \<Rightarrow> v | None \<Rightarrow> t)" if "ini_word key" for key t
    using get [OF ini_words(2) that] by (simp add: into_temp_def val_def)
  have full: "(case val key of Some v \<Rightarrow> v | None \<Rightarrow> t) \<noteq> []" if "t \<noteq> []" for key t
    using setting_value(1) [OF ok(1,4)] that by (auto simp: val_def split: option.split)
  show ?thesis
  proof (cases "val (lit ''DBAddr'')")
    case None
    then show ?thesis by (simp add: ReadIni_def bind_ini_def rd(1) int temp ini_words log_def Let_def)
  next
    case (Some addr)
    then have "addr \<noteq> []" using full [of "[0]" "lit ''DBAddr''"] by simp
    then show ?thesis using Some
      by (simp add: ReadIni_def bind_ini_def rd(1) int temp ini_words full log_def port_def Let_def)
  qed
qed

definition small_file :: "ini_item list" where
  "small_file = [Header [] [] (lit ''MySQL'') [] [], Setting [] (lit ''DBAddr'') [32] [32] (lit ''db'') [],
     Setting [] (lit ''DBPort'') [] [] (lit ''0xCEA'') []]"

theorem ReadIni_settings_witness:
  "ReadIni (Some (ini_text small_file)) \<lparr>szBuffer = [], iBufferLen = 0, fp = False\<rparr>
     \<lparr>m_DebugLog = 7, m_DBAddr = [], m_DBPort = 0, m_DBUser = [], m_DBPassWd = [], m_DBName = []\<rparr> =
   Inr (1, \<lparr>m_DebugLog = 0, m_DBAddr = lit ''db'', m_DBPort = 3306, m_DBUser = lit ''db'', m_DBPassWd = lit ''db'', m_DBName = lit ''db''\<rparr>)"
proof -
  have ok: "list_all item_ok small_file" "small_file \<noteq> []" "length (ini_text small_file) \<le> MAX_BUFFER_SIZE" "values_fit small_file"
    by (simp_all add: small_file_def ini_word_def ini_value_def blanks_def lit_def IS_BLANK_def ini_text_def MAX_BUFFER_SIZE_def values_fit_def)
  have val: "setting_of small_file (lit ''MySQL'') (lit ''DBAddr'') = Some (lit ''db'')"
    "setting_of small_file (lit ''MySQL'') (lit ''DBPort'') = Some (lit ''0xCEA'')"
    "setting_of small_file (lit ''MySQL'') (lit ''DBUser'') = None" "setting_of small_file (lit ''MySQL'') (lit ''DBPassWd'') = None"
    "setting_of small_file (lit ''MySQL'') (lit ''DBName'') = None" "setting_of small_file (lit ''Config'') (lit ''DebugLog'') = None"
    by (simp_all add: setting_of_def small_file_def lit_def)
  have port: "integer_setting (Some (lit ''0xCEA'')) = 3306" by code_simp
  have none: "integer_setting None = 0" by (simp add: integer_setting_def)
  show ?thesis by (simp add: ReadIni_settings [OF ok] val port none Let_def)
qed

end
