(* ===== verification/XmlDoc.thy ===== *)
theory XmlDoc
  imports StringFacts "HOL-Library.AList"
begin

text \<open>
  The XML documents of \<^verbatim>\<open>src/config\<close>: the class \<^verbatim>\<open>XMLNode\<close> with its constructor, which is the parser, its text, and the operations on
  properties and children, and \<^verbatim>\<open>XMLDoc\<close>. Positions are integers with $-1$ for \<^verbatim>\<open>npos\<close>; the constructor copies at most $2^{31} - 2$ characters, so that no
  position in the copy wraps. Nodes are values that own their children. The parser may not end: it is a \<open>partial_function\<close>, so that not
  returning is \<open>None\<close>. The theory shows that it reads back the text of every tree of a simple form, and a text on which it never returns.
\<close>

section \<open>Positions\<close>

definition xfind :: "bytes \<Rightarrow> bytes \<Rightarrow> int \<Rightarrow> int" where
  "xfind s pat pos = (if pos < 0 then -1 else case find_str s pat (nat pos) of None \<Rightarrow> -1 | Some p \<Rightarrow> int p)"

definition xrfind :: "bytes \<Rightarrow> byte \<Rightarrow> int \<Rightarrow> int" where
  "xrfind s c pos =
     (let t = take (nat pos + 1) s
      in if c \<in> set t then int (length t - 1 - length (takeWhile (\<lambda>x. x \<noteq> c) (rev t))) else -1)"

definition xsubstr :: "bytes \<Rightarrow> int \<Rightarrow> int \<Rightarrow> bytes outcome" where
  "xsubstr s pos n =
     (if pos < 0 \<or> int (length s) < pos then Inl out_of_range
      else Inr (if n < 0 then drop (nat pos) s else take (nat n) (drop (nat pos) s)))"

definition attempt :: "'a outcome \<Rightarrow> ('a \<Rightarrow> 'b outcome) \<Rightarrow> 'b outcome" where
  "attempt r f = (case r of Inl e \<Rightarrow> Inl e | Inr a \<Rightarrow> f a)"

lemma attempt_simps [simp]: "attempt (Inl e) f = Inl e" "attempt (Inr a) f = f a"
  by (simp_all add: attempt_def)

section \<open>Nodes\<close>

definition XML_NOTE_BEGIN_TAG :: bytes where "XML_NOTE_BEGIN_TAG = lit ''<!-- ''"
definition XML_NOTE_END_TAG :: bytes where "XML_NOTE_END_TAG = lit '' -->''"
definition XML_NOTE_BEGIN_LEN :: int where "XML_NOTE_BEGIN_LEN = 5"
definition XML_NOTE_END_LEN :: int where "XML_NOTE_END_LEN = 4"

datatype XMLNode = XMLNode
  (m_Note: bytes) (m_NodeName: bytes) (m_Content: bytes) (m_NodeType: int) (m_Depth: int)
  (m_Property: "(bytes \<times> bytes) list") (m_Nodes: "XMLNode list")

definition Repeatchar :: "byte \<Rightarrow> int \<Rightarrow> bytes" where
  "Repeatchar v_char v_num = replicate (nat v_num) v_char"

text \<open>The copy without tabs and line ends. An array of a negative length is not allocated.\<close>

definition node_text :: "bytes \<Rightarrow> bytes outcome" where
  "node_text v_NodeText =
     (let len = i32 (length v_NodeText)
      in if len < 0 \<or> len = 2 ^ 31 - 1 then Inl (runtime_error ''std::bad_array_new_length'')
         else Inr (cstr (filter (\<lambda>c. \<not> (c = 9 \<or> c = 13 \<or> c = 10)) (take (nat len) v_NodeText))))"

definition property_at :: "bytes \<Rightarrow> int \<Rightarrow> (bytes \<times> bytes) option outcome" where
  "property_at sProperty ieqpos =
     (let iSpacePos = xrfind sProperty 32 ieqpos
      in if iSpacePos > 0 then
           attempt (xsubstr sProperty (iSpacePos + 1) (ieqpos - iSpacePos - 1)) (\<lambda>sPropertyName.
           let iPoINTStart = xfind sProperty [34] ieqpos; iPoINTEnd = xfind sProperty [34] (iPoINTStart + 1)
           in if iPoINTStart > 0 \<and> iPoINTEnd > 0
              then map_sum id (\<lambda>sPropertyValue. Some (sPropertyName, sPropertyValue))
                     (xsubstr sProperty (iPoINTStart + 1) (iPoINTEnd - iPoINTStart - 1))
              else Inr None)
         else Inr None)"

lemma find_str_bounds: "find_str s pat p = Some q \<Longrightarrow> p \<le> q \<and> q + length pat \<le> length s"
  by (induction s pat p rule: find_str.induct) (subst (asm) find_str.simps, auto split: if_splits)

lemma xfind_bounds: "0 \<le> xfind s pat pos \<Longrightarrow> pos \<le> xfind s pat pos \<and> xfind s pat pos + int (length pat) \<le> int (length s)"
  using find_str_bounds [of s pat "nat pos"] by (fastforce simp: xfind_def split: if_splits option.splits)

function property_loop :: "bytes \<Rightarrow> int \<Rightarrow> (bytes \<times> bytes) list \<Rightarrow> (bytes \<times> bytes) list outcome" where
  "property_loop sProperty ieqpos props =
     (if ieqpos > 0 then
        case property_at sProperty ieqpos of
          Inl e \<Rightarrow> Inl e
        | Inr p \<Rightarrow> property_loop sProperty (xfind sProperty [61] (ieqpos + 1)) (props @ (case p of None \<Rightarrow> [] | Some q \<Rightarrow> [q]))
      else Inr props)"
  by auto
termination
proof (relation "measure (\<lambda>(s, i, props). if i > 0 then nat (int (length s) - i) + 1 else 0)", goal_cases)
  case (2 s i props p)
  show ?case using xfind_bounds [of s "[61]" "i + 1"] 2 by (cases "0 < xfind s [61] (i + 1)") simp_all
qed simp

declare property_loop.simps [simp del]

record node_head =
  h_text :: bytes
  h_note :: bytes
  h_name :: bytes
  h_content :: bytes
  h_type :: int
  h_props :: "(bytes \<times> bytes) list"
  h_start :: int

text \<open>The constructor up to its loop over the children.\<close>

definition parse_note :: "bytes \<Rightarrow> (int \<times> bytes) outcome" where
  "parse_note s =
     (let iNoteStart = xfind s [60] 0
      in attempt (xsubstr s iNoteStart XML_NOTE_BEGIN_LEN) (\<lambda>tag.
         if tag = XML_NOTE_BEGIN_TAG then
           let iNoteEnd = xfind s XML_NOTE_END_TAG iNoteStart + XML_NOTE_END_LEN
           in if iNoteEnd > 0
              then map_sum id (\<lambda>note. (iNoteEnd, note))
                     (xsubstr s (iNoteStart + XML_NOTE_BEGIN_LEN) (iNoteEnd - XML_NOTE_BEGIN_LEN - XML_NOTE_END_LEN))
              else Inr (iNoteEnd, [])
         else Inr (0, [])))"

definition name_end :: "int \<Rightarrow> int \<Rightarrow> int" where
  "name_end iNameEnd1 iNameEnd2 =
     (if iNameEnd1 = -1 then iNameEnd2 else if iNameEnd1 > iNameEnd2 then iNameEnd2 else iNameEnd1)"

definition parse_name :: "bytes \<Rightarrow> int \<Rightarrow> (int \<times> bytes) outcome" where
  "parse_name s iNoteEnd =
     (let iNameStart = xfind s [60] iNoteEnd; iNameEnd1 = xfind s [32] iNameStart; iNameEnd2 = xfind s [62] iNameStart;
          iNameEnd = name_end iNameEnd1 iNameEnd2
      in attempt (if iNameEnd2 > 0 then map_sum id (\<lambda>c. if c = [47] then 1 else 0) (xsubstr s (iNameEnd2 - 1) 1) else Inr 0) (\<lambda>nodetype.
         map_sum id (\<lambda>name. (nodetype, name))
           (if nodetype = 1 \<and> iNameEnd1 = -1 then xsubstr s (iNameStart + 1) (iNameEnd - iNameStart - 2)
            else xsubstr s (iNameStart + 1) (iNameEnd - iNameStart - 1))))"

definition parse_head :: "bytes \<Rightarrow> node_head outcome" where
  "parse_head v_NodeText =
     attempt (node_text v_NodeText) (\<lambda>s.
     attempt (parse_note s) (\<lambda>(iNoteEnd, note).
     attempt (parse_name s iNoteEnd) (\<lambda>(nodetype, name).
     let iContentStart = xfind s [62] iNoteEnd; iContentEnd = xfind s [60] iContentStart in
     attempt (xsubstr s (iContentStart + 1) (iContentEnd - iContentStart - 1)) (\<lambda>content.
     let iPropertyStart = xfind s [60] iNoteEnd; iPropertyEnd = xfind s [62] iPropertyStart in
     attempt (xsubstr s iPropertyStart (iPropertyEnd - iPropertyStart + 1)) (\<lambda>sProperty.
     attempt (property_loop sProperty (xfind sProperty [61] 0) []) (\<lambda>props.
     Inr \<lparr>h_text = s, h_note = note, h_name = name, h_content = content, h_type = nodetype, h_props = props, h_start = iContentEnd\<rparr>))))))"

text \<open>One pass of the loop over the children: the text of the next child and the position behind it, or the end of the loop.\<close>

definition next_child :: "bytes \<Rightarrow> int \<Rightarrow> (bytes \<times> int) option outcome" where
  "next_child s iNodeStart =
     (if iNodeStart < 0 then Inr None
      else
        let iNodeStart = xfind s [60] iNodeStart
        in if iNodeStart = -1 then Inr None
           else
             attempt (xsubstr s iNodeStart XML_NOTE_BEGIN_LEN) (\<lambda>tag.
             let iNoteStart = iNodeStart;
                 iNodeStart = (if tag = XML_NOTE_BEGIN_TAG then xfind s [60] (xfind s XML_NOTE_END_TAG iNodeStart + 1) else iNodeStart);
                 iNodeEnd1 = xfind s [32] iNodeStart; iNodeEnd2 = xfind s [62] iNodeStart
             in attempt (xsubstr s (iNodeEnd2 - 1) 1) (\<lambda>c.
                attempt (if c = [47] then Inr (Some (iNodeEnd2 + 1))
                     else
                       let iNameEnd = name_end iNodeEnd1 iNodeEnd2
                       in map_sum id (\<lambda>strNodeName.
                            let strEndTag = lit ''</'' @ strNodeName @ [62]; iNodeEnd = xfind s strEndTag iNameEnd
                            in if iNodeEnd > 0 then Some (iNodeEnd + int (length strNodeName) + 3) else None)
                          (xsubstr s (iNodeStart + 1) (iNameEnd - iNodeStart - 1))) (\<lambda>iNodeEnd.
                case iNodeEnd of
                  None \<Rightarrow> Inr None
                | Some iNodeEnd \<Rightarrow>
                    map_sum id (\<lambda>strNodeText. Some (strNodeText, iNodeEnd)) (xsubstr s iNoteStart (iNodeEnd - iNoteStart))))))"

definition make_node :: "node_head \<Rightarrow> int \<Rightarrow> XMLNode list \<Rightarrow> XMLNode" where
  "make_node h depth nodes = XMLNode (h_note h) (h_name h) (h_content h) (h_type h) depth (h_props h) nodes"

partial_function (option) parse_children :: "bytes \<Rightarrow> int \<Rightarrow> int \<Rightarrow> XMLNode list \<Rightarrow> XMLNode list outcome option" where
  "parse_children s depth iNodeStart nodes =
     (case next_child s iNodeStart of
        Inl e \<Rightarrow> Some (Inl e)
      | Inr None \<Rightarrow> Some (Inr nodes)
      | Inr (Some (strNodeText, iNodeEnd)) \<Rightarrow>
          (case parse_head strNodeText of
             Inl e \<Rightarrow> Some (Inl e)
           | Inr h \<Rightarrow>
               Option.bind (parse_children (h_text h) (depth + 1) (h_start h) []) (\<lambda>r.
                 case r of
                   Inl e \<Rightarrow> Some (Inl e)
                 | Inr kids \<Rightarrow> parse_children s depth iNodeEnd (nodes @ [make_node h (depth + 1) kids]))))"

declare parse_children.simps [code]

definition XMLNode_parse :: "bytes \<Rightarrow> int \<Rightarrow> XMLNode outcome option" where
  "XMLNode_parse v_NodeText v_Depth =
     (case parse_head v_NodeText of
        Inl e \<Rightarrow> Some (Inl e)
      | Inr h \<Rightarrow> map_option (map_sum id (make_node h v_Depth)) (parse_children (h_text h) v_Depth (h_start h) []))"

definition XMLNode_new :: "bytes \<Rightarrow> bytes \<Rightarrow> bytes \<Rightarrow> int \<Rightarrow> XMLNode" where
  "XMLNode_new v_Note v_Name v_Content v_Depth = XMLNode v_Note v_Name v_Content (if v_Content = [] then 1 else 0) v_Depth [] []"

text \<open>The text of a node. Both branches of the test of the type print the same.\<close>

definition property_text :: "bytes \<times> bytes \<Rightarrow> bytes" where
  "property_text p = [32] @ fst p @ lit ''='' @ [34] @ snd p @ [34]"

fun GetNodeText :: "XMLNode \<Rightarrow> bytes" where
  "GetNodeText (XMLNode note name content nodetype depth props nodes) =
     (if note \<noteq> [] then Repeatchar 9 depth @ XML_NOTE_BEGIN_TAG @ note @ XML_NOTE_END_TAG @ [10] else []) @
     Repeatchar 9 depth @ [60] @ name @ concat (map property_text props) @ (if nodetype = 1 then [62] else [62]) @
     (if nodes \<noteq> [] then (if content \<noteq> [] then [10] @ Repeatchar 9 (depth + 1) @ content else []) else content) @
     (if nodes \<noteq> [] then [10] @ concat (map GetNodeText nodes) else []) @
     (if nodes \<noteq> [] then Repeatchar 9 depth @ lit ''</'' @ name @ [62, 10] else lit ''</'' @ name @ [62, 10])"

text \<open>The fields, the properties and the children. A method that changes the node returns it.\<close>

definition GetNote :: "XMLNode \<Rightarrow> bytes" where "GetNote n = m_Note n"

fun SetNote :: "bytes \<Rightarrow> XMLNode \<Rightarrow> bool \<times> XMLNode" where
  "SetNote v_Note (XMLNode note name content nodetype depth props nodes) = (True, XMLNode v_Note name content nodetype depth props nodes)"

definition GetName :: "XMLNode \<Rightarrow> bytes" where "GetName n = m_NodeName n"

fun SetName :: "bytes \<Rightarrow> XMLNode \<Rightarrow> bool \<times> XMLNode" where
  "SetName v_Name (XMLNode note name content nodetype depth props nodes) = (True, XMLNode note v_Name content nodetype depth props nodes)"

definition GetContent :: "XMLNode \<Rightarrow> bytes" where "GetContent n = m_Content n"

fun SetContent :: "bytes \<Rightarrow> XMLNode \<Rightarrow> bool \<times> XMLNode" where
  "SetContent v_Content (XMLNode note name content nodetype depth props nodes) =
     (True, XMLNode note name v_Content (if v_Content = [] then 0 else 1) depth props nodes)"

fun find_property :: "bytes \<Rightarrow> (bytes \<times> bytes) list \<Rightarrow> bytes option" where
  "find_property name [] = None"
| "find_property name (p # ps) = (if fst p = name then Some (snd p) else find_property name ps)"

definition GetProperty :: "bytes \<Rightarrow> XMLNode \<Rightarrow> bytes" where
  "GetProperty name n = (case find_property name (m_Property n) of Some v \<Rightarrow> v | None \<Rightarrow> [])"

definition set_props :: "(bytes \<times> bytes) list \<Rightarrow> XMLNode \<Rightarrow> XMLNode" where
  "set_props ps n = XMLNode (m_Note n) (m_NodeName n) (m_Content n) (m_NodeType n) (m_Depth n) ps (m_Nodes n)"

definition AddProperty :: "bytes \<Rightarrow> bytes \<Rightarrow> XMLNode \<Rightarrow> bool \<times> XMLNode" where
  "AddProperty name v n =
     (if find_property name (m_Property n) = None then (True, set_props (m_Property n @ [(name, v)]) n) else (False, n))"

fun modify_first :: "bytes \<Rightarrow> bytes \<Rightarrow> (bytes \<times> bytes) list \<Rightarrow> (bytes \<times> bytes) list option" where
  "modify_first name v [] = None"
| "modify_first name v (p # ps) = (if fst p = name then Some ((name, v) # ps) else map_option ((#) p) (modify_first name v ps))"

definition ModifyProperty :: "bytes \<Rightarrow> bytes \<Rightarrow> XMLNode \<Rightarrow> bool \<times> XMLNode" where
  "ModifyProperty name v n = (case modify_first name v (m_Property n) of Some ps \<Rightarrow> (True, set_props ps n) | None \<Rightarrow> (False, n))"

fun erase_first :: "('a \<Rightarrow> bool) \<Rightarrow> 'a list \<Rightarrow> 'a list option" where
  "erase_first P [] = None"
| "erase_first P (x # xs) = (if P x then Some xs else map_option ((#) x) (erase_first P xs))"

definition RemoveProperty :: "bytes \<Rightarrow> XMLNode \<Rightarrow> bool \<times> XMLNode" where
  "RemoveProperty name n =
     (case erase_first (\<lambda>p. fst p = name) (m_Property n) of Some ps \<Rightarrow> (True, set_props ps n) | None \<Rightarrow> (False, n))"

definition set_nodes :: "XMLNode list \<Rightarrow> XMLNode \<Rightarrow> XMLNode" where
  "set_nodes kids n = XMLNode (m_Note n) (m_NodeName n) (m_Content n) (m_NodeType n) (m_Depth n) (m_Property n) kids"

definition AddChildNode :: "bytes \<Rightarrow> bytes \<Rightarrow> bytes \<Rightarrow> XMLNode \<Rightarrow> XMLNode" where
  "AddChildNode v_Note v_Name v_Content n = set_nodes (m_Nodes n @ [XMLNode_new v_Note v_Name v_Content (m_Depth n + 1)]) n"

definition RemoveChildNode_name :: "bytes \<Rightarrow> XMLNode \<Rightarrow> bool \<times> XMLNode" where
  "RemoveChildNode_name v_Name n =
     (case erase_first (\<lambda>c. GetName c = v_Name) (m_Nodes n) of Some kids \<Rightarrow> (True, set_nodes kids n) | None \<Rightarrow> (False, n))"

definition RemoveChildNode_index :: "int \<Rightarrow> XMLNode \<Rightarrow> bool \<times> XMLNode" where
  "RemoveChildNode_index index n =
     (if 0 \<le> index \<and> index < int (length (m_Nodes n))
      then (True, set_nodes (take (nat index) (m_Nodes n) @ drop (nat index + 1) (m_Nodes n)) n) else (False, n))"

text \<open>A pointer to a child is the place of that child, or none for other pointers.\<close>

definition RemoveChildNode_node :: "nat option \<Rightarrow> XMLNode \<Rightarrow> bool \<times> XMLNode" where
  "RemoveChildNode_node v_Node n = (case v_Node of None \<Rightarrow> (False, n) | Some i \<Rightarrow> RemoveChildNode_index (int i) n)"

definition GetChildren :: "XMLNode \<Rightarrow> XMLNode list" where "GetChildren n = m_Nodes n"

definition GetNodeByName :: "bytes \<Rightarrow> XMLNode list \<Rightarrow> XMLNode option" where
  "GetNodeByName v_NodeName nodes = List.find (\<lambda>c. GetName c = v_NodeName) nodes"

definition GetNodeByIndex :: "int \<Rightarrow> XMLNode list \<Rightarrow> XMLNode option outcome" where
  "GetNodeByIndex v_Index nodes =
     (if v_Index \<ge> int (length nodes) then Inr None
      else if v_Index < 0 then Inl undefined_behaviour else Inr (Some (nodes ! nat v_Index)))"

definition GetChild_index :: "int \<Rightarrow> XMLNode \<Rightarrow> XMLNode option outcome" where
  "GetChild_index index n = GetNodeByIndex index (m_Nodes n)"

definition GetChild_name :: "bytes \<Rightarrow> XMLNode \<Rightarrow> XMLNode option" where
  "GetChild_name v_NodeName n = GetNodeByName v_NodeName (m_Nodes n)"

section \<open>Documents\<close>

text \<open>The files are a map of names to contents; \<open>can\<close> says which files can be written. The constructors leave \<open>m_Useable\<close> as it is in memory.\<close>

definition XML_HEADLINE :: bytes where
  "XML_HEADLINE = lit ''<?xml version='' @ [34] @ lit ''1.0'' @ [34] @ lit '' encoding='' @ [34] @ lit ''GBK'' @ [34] @ lit ''?>'' @ [10]"

record XMLDoc =
  m_RootNode :: "XMLNode option"
  m_Buffer :: bytes
  m_FileName :: bytes
  m_Useable :: bool

definition XMLDoc_new :: "bool \<Rightarrow> bytes \<Rightarrow> XMLDoc" where
  "XMLDoc_new junk v_FileName = \<lparr>m_RootNode = None, m_Buffer = [], m_FileName = v_FileName, m_Useable = junk\<rparr>"

type_synonym xml_files = "bytes \<rightharpoonup> bytes"

definition CreateXMLDoc :: "bool \<Rightarrow> (bytes \<Rightarrow> bool) \<Rightarrow> bytes \<Rightarrow> bytes \<Rightarrow> xml_files \<Rightarrow> XMLDoc option \<times> xml_files" where
  "CreateXMLDoc junk can v_FileName v_RootNodeName files =
     (if can v_FileName
      then (Some (XMLDoc_new junk v_FileName),
            files(v_FileName \<mapsto> XML_HEADLINE @ [60] @ v_RootNodeName @ lit ''></'' @ v_RootNodeName @ [62, 10]))
      else (None, files))"

definition LoadXMLDoc :: "xml_files \<Rightarrow> XMLDoc \<Rightarrow> bool \<times> XMLDoc" where
  "LoadXMLDoc files doc =
     (if m_FileName doc = [] then (False, doc)
      else
        let doc = doc\<lparr>m_Buffer := []\<rparr>
        in case files (m_FileName doc) of
             None \<Rightarrow> (False, doc)
           | Some contents \<Rightarrow> (True, doc\<lparr>m_Buffer := cstr contents, m_Useable := True, m_RootNode := None\<rparr>))"

definition LoadXML :: "bytes \<Rightarrow> XMLDoc \<Rightarrow> bool \<times> XMLDoc" where
  "LoadXML v_str doc = (True, doc\<lparr>m_Buffer := cstr v_str, m_Useable := True, m_RootNode := None\<rparr>)"

definition GetRootNode :: "bytes \<Rightarrow> XMLDoc \<Rightarrow> (XMLNode option \<times> XMLDoc) outcome option" where
  "GetRootNode v_Name doc =
     (if \<not> m_Useable doc then Some (Inr (None, doc))
      else case m_RootNode doc of
        Some root \<Rightarrow> Some (Inr (Some root, doc))
      | None \<Rightarrow>
          let sStart = [60] @ v_Name; sEnd = lit ''</'' @ v_Name @ [62];
              iStart = find_i32 (m_Buffer doc) sStart 0; iEnd = find_i32 (m_Buffer doc) sEnd 0
          in if iEnd < 0 then Some (Inr (None, doc))
             else
               let iEnd = sint (word_of_int (iEnd + int (length sEnd)) :: u32)
               in (case xsubstr (m_Buffer doc) iStart (iEnd - iStart) of
                    Inl e \<Rightarrow> Some (Inl e)
                  | Inr sNodeText \<Rightarrow>
                      map_option (map_sum id (\<lambda>root. (Some root, doc\<lparr>m_RootNode := Some root\<rparr>))) (XMLNode_parse (cstr sNodeText) 0)))"

text \<open>\<^verbatim>\<open>SaveFile\<close> writes the terminator of its buffer too. Without a root it follows a null pointer, which is \<open>None\<close>.\<close>

definition SaveFile :: "(bytes \<Rightarrow> bool) \<Rightarrow> xml_files \<Rightarrow> XMLDoc \<Rightarrow> (bool \<times> xml_files) option" where
  "SaveFile can files doc =
     (if m_FileName doc = [] then Some (False, files)
      else if \<not> can (m_FileName doc) then Some (False, files)
      else case m_RootNode doc of
        None \<Rightarrow> None
      | Some root \<Rightarrow> Some (True, files(m_FileName doc \<mapsto> XML_HEADLINE @ cstr (GetNodeText root) @ replicate (length (GetNodeText root) - length (cstr (GetNodeText root)) + 1) 0)))"

text \<open>The properties are a map: a name occurs once, and the three operations have their effect on it.\<close>

lemma find_property_map: "find_property name ps = map_of ps name"
  by (induction ps) auto

lemma modify_first_map:
  "modify_first name v ps = (if name \<in> fst ` set ps then Some (AList.update name v ps) else None)"
  by (induction ps) auto

lemma erase_first_map:
  "distinct (map fst ps) \<Longrightarrow>
   erase_first (\<lambda>p. fst p = name) ps = (if name \<in> fst ` set ps then Some (AList.delete name ps) else None)"
proof (induction ps)
  case (Cons p ps)
  have "AList.delete name ps = ps" if "name \<notin> fst ` set ps" using that by (simp add: AList.delete_idem)
  then show ?case using Cons by auto
qed simp

lemma set_props_fields [simp]: "m_Property (set_props ps n) = ps"
  by (simp add: set_props_def)

lemma property_operations:
  assumes "distinct (map fst (m_Property n))"
  shows "AddProperty k v n = (ok, n') \<Longrightarrow> distinct (map fst (m_Property n')) \<and> ok = (map_of (m_Property n) k = None) \<and>
      map_of (m_Property n') = (if ok then (map_of (m_Property n))(k \<mapsto> v) else map_of (m_Property n))"
    "ModifyProperty k v n = (ok, n') \<Longrightarrow> distinct (map fst (m_Property n')) \<and> ok = (map_of (m_Property n) k \<noteq> None) \<and>
      map_of (m_Property n') = (if ok then (map_of (m_Property n))(k \<mapsto> v) else map_of (m_Property n))"
    "RemoveProperty k n = (ok, n') \<Longrightarrow> distinct (map fst (m_Property n')) \<and> ok = (map_of (m_Property n) k \<noteq> None) \<and>
      map_of (m_Property n') = (map_of (m_Property n))(k := None)"
proof -
  have none: "map_of ps k = None \<longleftrightarrow> k \<notin> fst ` set ps" for ps :: "(bytes \<times> bytes) list" by (rule map_of_eq_None_iff)
  have img: "(k, x) \<in> set ps \<Longrightarrow> k \<in> fst ` set ps" for x :: bytes and ps by force
  show "AddProperty k v n = (ok, n') \<Longrightarrow> distinct (map fst (m_Property n')) \<and> ok = (map_of (m_Property n) k = None) \<and>
      map_of (m_Property n') = (if ok then (map_of (m_Property n))(k \<mapsto> v) else map_of (m_Property n))"
    using assms by (auto simp: AddProperty_def find_property_map none map_add_def fun_eq_iff dest: img split: if_splits option.splits)
  show "ModifyProperty k v n = (ok, n') \<Longrightarrow> distinct (map fst (m_Property n')) \<and> ok = (map_of (m_Property n) k \<noteq> None) \<and>
      map_of (m_Property n') = (if ok then (map_of (m_Property n))(k \<mapsto> v) else map_of (m_Property n))"
    using assms by (auto simp: ModifyProperty_def modify_first_map none update_conv' AList.distinct_update split: if_splits)
  show "RemoveProperty k n = (ok, n') \<Longrightarrow> distinct (map fst (m_Property n')) \<and> ok = (map_of (m_Property n) k \<noteq> None) \<and>
      map_of (m_Property n') = (map_of (m_Property n))(k := None)"
    using assms by (auto simp: RemoveProperty_def erase_first_map none delete_conv' AList.distinct_delete fun_upd_idem split: if_splits)
qed

section \<open>Trees of a simple form\<close>

text \<open>
  The characters of texts exclude the brackets and what the parser drops; names and the parts of properties exclude some more. The parser ends a child
  at the first end tag with its name, so that no node below it may have that name.
\<close>

definition plain :: "byte \<Rightarrow> bool" where
  "plain c \<longleftrightarrow> c \<notin> {0, 9, 10, 13, 60, 62}"

definition name_ok :: "bytes \<Rightarrow> bool" where
  "name_ok n \<longleftrightarrow> n \<noteq> [] \<and> list_all (\<lambda>c. plain c \<and> c \<notin> {32, 33, 34, 47, 61}) n"

definition prop_ok :: "bytes \<times> bytes \<Rightarrow> bool" where
  "prop_ok p \<longleftrightarrow> list_all (\<lambda>c. plain c \<and> c \<notin> {32, 34, 61}) (fst p) \<and> list_all (\<lambda>c. plain c \<and> c \<notin> {34, 61}) (snd p)"

fun all_names :: "XMLNode \<Rightarrow> bytes list" where
  "all_names (XMLNode note name content nodetype depth props nodes) = name # concat (map all_names nodes)"

fun xml_ok :: "XMLNode \<Rightarrow> bool" where
  "xml_ok (XMLNode note name content nodetype depth props nodes) \<longleftrightarrow>
     list_all plain note \<and> name_ok name \<and> list_all plain content \<and> list_all prop_ok props \<and>
     list_all xml_ok nodes \<and> name \<notin> set (concat (map all_names nodes))"

text \<open>The tree as it is read: types are 0 and depths are those of the positions in the tree.\<close>

fun reread :: "int \<Rightarrow> XMLNode \<Rightarrow> XMLNode" where
  "reread d (XMLNode note name content nodetype depth props nodes) = XMLNode note name content 0 d props (map (reread (d + 1)) nodes)"

text \<open>The text of a tree without tabs and line ends.\<close>

definition note_flat :: "bytes \<Rightarrow> bytes" where
  "note_flat note = (if note = [] then [] else XML_NOTE_BEGIN_TAG @ note @ XML_NOTE_END_TAG)"

fun flat :: "XMLNode \<Rightarrow> bytes" where
  "flat (XMLNode note name content nodetype depth props nodes) =
     note_flat note @ 60 # name @ concat (map property_text props) @ 62 # content @ concat (map flat nodes) @ 60 # 47 # name @ [62]"

lemmas tag_defs = XML_NOTE_BEGIN_TAG_def XML_NOTE_END_TAG_def XML_NOTE_BEGIN_LEN_def XML_NOTE_END_LEN_def lit_def

text \<open>Copying drops exactly the characters between the parts.\<close>

definition kept :: "byte \<Rightarrow> bool" where
  "kept c \<longleftrightarrow> \<not> (c = 9 \<or> c = 13 \<or> c = 10)"

lemma kept_plain: "list_all plain t \<Longrightarrow> filter kept t = t" "list_all plain t \<Longrightarrow> 0 \<notin> set t"
  by (auto simp: list_all_iff plain_def kept_def intro: filter_True)

lemma name_plain: "name_ok n \<Longrightarrow> list_all plain n"
  by (auto simp: name_ok_def list_all_iff)

lemma prop_plain: "prop_ok p \<Longrightarrow> list_all plain (fst p)" "prop_ok p \<Longrightarrow> list_all plain (snd p)"
  by (auto simp: prop_ok_def list_all_iff)

lemma props_kept: "list_all prop_ok ps \<Longrightarrow> filter kept (concat (map property_text ps)) = concat (map property_text ps)"
  by (induction ps) (simp_all add: property_text_def kept_plain prop_plain, simp_all add: kept_def lit_def)

lemma props_zero: "list_all prop_ok ps \<Longrightarrow> 0 \<notin> set (concat (map property_text ps))"
  by (induction ps) (auto simp: property_text_def lit_def dest: kept_plain(2) prop_plain)

lemma kept_tabs: "filter kept (Repeatchar 9 d) = []"
  by (simp add: Repeatchar_def kept_def)

lemma kept_chars: "kept 60" "kept 62" "kept 47" "kept 32" "kept 33" "kept 45" "\<not> kept 10" "\<not> kept 9"
  by (simp_all add: kept_def)

lemma kept_text: "xml_ok t \<Longrightarrow> filter kept (GetNodeText t) = flat t"
proof (induction t)
  case (XMLNode nt name content nodetype depth props nodes)
  have kids: "filter kept (concat (map GetNodeText nodes)) = concat (map flat nodes)"
    using XMLNode.IH XMLNode.prems by (simp add: filter_concat list_all_iff cong: map_cong)
  have "filter kept nt = nt" "filter kept name = name" "filter kept content = content"
    using XMLNode.prems kept_plain(1) name_plain by simp_all
  moreover have "filter kept (concat (map property_text props)) = concat (map property_text props)"
    using XMLNode.prems props_kept by simp
  ultimately show ?case using kids by (auto simp: note_flat_def tag_defs kept_tabs kept_chars)
qed

lemma flat_kept: "xml_ok t \<Longrightarrow> filter kept (flat t) = flat t"
  by (simp add: kept_text [symmetric])

lemma flat_zero: "xml_ok t \<Longrightarrow> 0 \<notin> set (flat t)"
proof (induction t)
  case (XMLNode nt name content nodetype depth props nodes)
  have "0 \<notin> set nt" "0 \<notin> set name" "0 \<notin> set content" using XMLNode.prems kept_plain(2) name_plain by simp_all
  moreover have "0 \<notin> set (concat (map property_text props))" using XMLNode.prems by (intro props_zero) simp
  ultimately show ?case using XMLNode by (auto simp: note_flat_def tag_defs list_all_iff)
qed

lemma node_text_kept:
  assumes "length v < 2 ^ 31 - 1" "0 \<notin> set (filter kept v)"
  shows "node_text v = Inr (filter kept v)"
proof -
  have "i32 (length v) = int (length v)" using assms(1) by (intro i32_small) simp
  moreover have "cstr (filter kept v) = filter kept v" by (rule cstr_id(1) [OF assms(2)])
  ultimately show ?thesis using assms(1) unfolding node_text_def kept_def [symmetric] by (simp add: Let_def)
qed

section \<open>Searching at a known position\<close>

text \<open>The first place of a pattern, where none starts before it, and the first place of a character.\<close>

definition no_start :: "bytes \<Rightarrow> bytes \<Rightarrow> bytes \<Rightarrow> bool" where
  "no_start pat xs ys \<longleftrightarrow> (\<forall>u v. xs = u @ v \<and> v \<noteq> [] \<longrightarrow> take (length pat) (v @ ys) \<noteq> pat)"

lemma no_start_Nil [simp]: "no_start pat [] ys"
  by (simp add: no_start_def)

lemma no_start_Cons: "no_start pat (x # xs) ys \<longleftrightarrow> take (length pat) (x # xs @ ys) \<noteq> pat \<and> no_start pat xs ys"
proof
  assume all: "no_start pat (x # xs) ys"
  have "take (length pat) ((x # xs) @ ys) \<noteq> pat" using all unfolding no_start_def by (metis append_Nil list.distinct(1))
  moreover have "no_start pat xs ys" using all unfolding no_start_def by (metis append_Cons)
  ultimately show "take (length pat) (x # xs @ ys) \<noteq> pat \<and> no_start pat xs ys" by simp
next
  assume "take (length pat) (x # xs @ ys) \<noteq> pat \<and> no_start pat xs ys"
  then show "no_start pat (x # xs) ys" unfolding no_start_def by (metis append_eq_Cons_conv)
qed

lemma no_start_append: "no_start pat (xs @ zs) ys \<longleftrightarrow> no_start pat xs (zs @ ys) \<and> no_start pat zs ys"
  by (induction xs) (auto simp: no_start_Cons)

lemma no_start_char: "c \<notin> set xs \<Longrightarrow> no_start (c # p) xs ys"
  by (induction xs) (auto simp: no_start_Cons)

lemma find_str_first: "pat \<noteq> [] \<Longrightarrow> drop i s = xs @ pat @ ys \<Longrightarrow> no_start pat xs (pat @ ys) \<Longrightarrow> find_str s pat i = Some (i + length xs)"
proof (induction xs arbitrary: i)
  case Nil
  then have "length s - i = length pat + length ys" by (metis append_Nil length_append length_drop)
  then have "i + length pat \<le> length s" using Nil.prems(1) by (cases pat) auto
  then show ?case using Nil by (subst find_str.simps) auto
next
  case (Cons x xs)
  have len: "length s = i + length (x # xs @ pat @ ys)" using Cons.prems(2) drop_bound [of i s x] by (metis append_Cons le_add_diff_inverse length_drop less_imp_le_nat)
  have "drop (i + 1) s = xs @ pat @ ys" using cursor [of i s "[x]"] Cons.prems(2) by simp
  then have "find_str s pat (i + 1) = Some (i + 1 + length xs)" using Cons by (simp add: no_start_Cons)
  then show ?case using Cons.prems len by (subst find_str.simps) (simp add: no_start_Cons)
qed

lemma xfind_first:
  "pat \<noteq> [] \<Longrightarrow> drop i s = xs @ pat @ ys \<Longrightarrow> no_start pat xs (pat @ ys) \<Longrightarrow> pos = int i \<Longrightarrow> xfind s pat pos = pos + int (length xs)"
  by (simp add: xfind_def find_str_first)

lemma xfind_char: "drop i s = xs @ c # ys \<Longrightarrow> c \<notin> set xs \<Longrightarrow> pos = int i \<Longrightarrow> xfind s [c] pos = pos + int (length xs)"
  using xfind_first [of "[c]" i s xs ys] no_start_char by simp

lemma xfind_absent: "c \<notin> set (drop i s) \<Longrightarrow> pos = int i \<Longrightarrow> xfind s [c] pos = -1"
proof -
  assume c: "c \<notin> set (drop i s)" and pos: "pos = int i"
  have "find_str s [c] i = None"
  proof (cases "find_str s [c] i")
    case (Some j)
    then have "i \<le> j \<and> j < length s \<and> s ! j = c" using find_from_bounds unfolding find_str_char by blast
    then have "drop i s ! (j - i) = c" "j - i < length (drop i s)" by auto
    then show ?thesis using c nth_mem by metis
  qed
  then show ?thesis using pos by (simp add: xfind_def)
qed

lemma xfind_later: "drop i s = xs @ ys \<Longrightarrow> c \<notin> set xs \<Longrightarrow> pos = int i \<Longrightarrow> xfind s [c] pos = -1 \<or> pos + int (length xs) \<le> xfind s [c] pos"
proof (cases "c \<in> set ys")
  case True
  assume *: "drop i s = xs @ ys" "c \<notin> set xs" "pos = int i"
  obtain us vs where "ys = us @ c # vs" "c \<notin> set us" using split_list_first [OF True] by blast
  then show ?thesis using xfind_char [of i s "xs @ us" c vs pos] * by simp
next
  case False
  assume "drop i s = xs @ ys" "c \<notin> set xs" "pos = int i"
  then show ?thesis using xfind_absent [of c i s pos] False by simp
qed

lemma xfind_skip: "drop i s = xs @ ys \<Longrightarrow> c \<notin> set xs \<Longrightarrow> xfind s [c] (int i) = xfind s [c] (int (i + length xs))"
proof (cases "c \<in> set ys")
  case True
  assume *: "drop i s = xs @ ys" "c \<notin> set xs"
  obtain us vs where "ys = us @ c # vs" "c \<notin> set us" using split_list_first [OF True] by blast
  then show ?thesis using xfind_char [of i s "xs @ us" c vs] xfind_char [OF cursor [of i s xs "us @ c # vs"]] * by simp
next
  case False
  assume *: "drop i s = xs @ ys" "c \<notin> set xs"
  then show ?thesis using xfind_absent [of c i s] xfind_absent [of c "i + length xs" s] cursor [OF *(1)] False by simp
qed

lemma xsubstr_at: "drop i s = xs @ ys \<Longrightarrow> xs @ ys \<noteq> [] \<Longrightarrow> pos = int i \<Longrightarrow> n = int (length xs) \<Longrightarrow> xsubstr s pos n = Inr xs"
proof -
  assume *: "drop i s = xs @ ys" "xs @ ys \<noteq> []" "pos = int i" "n = int (length xs)"
  then have "i < length s" by (metis drop_eq_Nil leI)
  then show ?thesis using * by (simp add: xsubstr_def)
qed

section \<open>Tags, notes and properties\<close>

lemma name_chars:
  assumes "name_ok n"
  shows "n \<noteq> []" "62 \<notin> set n" "60 \<notin> set n" "32 \<notin> set n" "61 \<notin> set n" "hd n \<noteq> 33" "hd n \<noteq> 47" "last n \<noteq> 47"
proof -
  have n: "n \<noteq> []" and all: "\<forall>c \<in> set n. plain c \<and> c \<notin> {32, 33, 34, 47, 61}" using assms by (simp_all add: name_ok_def list_all_iff)
  show "n \<noteq> []" by (rule n)
  show "62 \<notin> set n" "60 \<notin> set n" "32 \<notin> set n" "61 \<notin> set n" using all by (auto simp: plain_def)
  show "hd n \<noteq> 33" "hd n \<noteq> 47" "last n \<noteq> 47" using bspec [OF all hd_in_set [OF n]] bspec [OF all last_in_set [OF n]] by auto
qed

lemma plain_chars: "list_all plain t \<Longrightarrow> 60 \<notin> set t" "list_all plain t \<Longrightarrow> 62 \<notin> set t"
  by (auto simp: list_all_iff plain_def)

lemma property_chars:
  assumes "list_all prop_ok ps"
  shows "62 \<notin> set (concat (map property_text ps))" "60 \<notin> set (concat (map property_text ps))"
    "ps \<noteq> [] \<Longrightarrow> \<exists>A. concat (map property_text ps) = 32 # A \<and> last (32 # A) = 34"
proof -
  show "62 \<notin> set (concat (map property_text ps))" "60 \<notin> set (concat (map property_text ps))"
    using assms by (induction ps) (auto simp: property_text_def lit_def prop_ok_def list_all_iff plain_def)
  assume "ps \<noteq> []"
  then have "concat (map property_text ps) \<noteq> []" "hd (concat (map property_text ps)) = 32" "last (concat (map property_text ps)) = 34"
    by (induction ps rule: list_nonempty_induct) (auto simp: property_text_def)
  then show "\<exists>A. concat (map property_text ps) = 32 # A \<and> last (32 # A) = 34" by (metis list.collapse)
qed

lemma open_tag:
  assumes mem: "drop j s = 60 # n @ A @ 62 # ys" and n: "name_ok n" and ps: "list_all prop_ok ps" and A: "A = concat (map property_text ps)"
    and pos: "pos = int j"
  shows "xfind s [62] pos = pos + 1 + int (length n) + int (length A)"
    "name_end (xfind s [32] pos) (xfind s [62] pos) = pos + 1 + int (length n)"
    "\<exists>c. xsubstr s (xfind s [62] pos - 1) 1 = Inr [c] \<and> c \<noteq> 47"
    "xsubstr s (pos + 1) (int (length n)) = Inr n"
proof -
  note nc = name_chars [OF n] and pc = property_chars [OF ps, folded A]
  have A_cases: "A = [] \<or> (\<exists>A'. A = 32 # A' \<and> last A = 34)" using pc(3) A by (cases ps) auto
  show gt: "xfind s [62] pos = pos + 1 + int (length n) + int (length A)"
    using xfind_char [of j s "60 # n @ A" 62 ys pos] mem nc pc(1) pos by simp
  show "name_end (xfind s [32] pos) (xfind s [62] pos) = pos + 1 + int (length n)"
  proof (cases "A = []")
    case True
    then have "xfind s [32] pos = -1 \<or> pos + (2 + int (length n)) \<le> xfind s [32] pos"
      using xfind_later [of j s "60 # n @ [62]" ys 32 pos] mem nc pos by simp
    then show ?thesis using gt True by (auto simp: name_end_def)
  next
    case False
    then obtain A' where "A = 32 # A'" using A_cases by blast
    then have "xfind s [32] pos = pos + 1 + int (length n)"
      using xfind_char [of j s "60 # n" 32 "A' @ 62 # ys" pos] mem nc pos by simp
    then show ?thesis using gt False pos by (simp add: name_end_def)
  qed
  have "n @ A \<noteq> []" using nc(1) by simp
  then have split: "60 # n @ A = (60 # butlast (n @ A)) @ [last (n @ A)]" and len: "length (60 # butlast (n @ A)) = length (n @ A)" by simp_all
  have "drop j s = (60 # n @ A) @ 62 # ys" using mem by simp
  then have "drop j s = (60 # butlast (n @ A)) @ [last (n @ A)] @ 62 # ys" unfolding split by simp
  then have "drop (j + length (n @ A)) s = [last (n @ A)] @ 62 # ys" using cursor len by metis
  then have "xsubstr s (xfind s [62] pos - 1) 1 = Inr [last (n @ A)]"
    using xsubstr_at [of "j + length (n @ A)" s "[last (n @ A)]" "62 # ys"] gt pos by simp
  moreover have "last (n @ A) \<noteq> 47" using A_cases nc(1,8) by auto
  ultimately show "\<exists>c. xsubstr s (xfind s [62] pos - 1) 1 = Inr [c] \<and> c \<noteq> 47" by blast
  show "xsubstr s (pos + 1) (int (length n)) = Inr n"
    using xsubstr_at [of "j + 1" s n "A @ 62 # ys"] cursor [of j s "[60]" "n @ A @ 62 # ys"] mem pos by (simp add: add.commute)
qed

lemma no_start_note: "62 \<notin> set xs \<Longrightarrow> no_start XML_NOTE_END_TAG xs (XML_NOTE_END_TAG @ ys)"
proof (induction xs)
  case (Cons x xs)
  have "take 4 (x # xs @ XML_NOTE_END_TAG @ ys) \<noteq> [32, 45, 45, 62]"
  proof
    assume eq: "take 4 (x # xs @ XML_NOTE_END_TAG @ ys) = [32, 45, 45, 62]"
    have "(x # xs @ XML_NOTE_END_TAG @ ys) ! 3 = 62" using nth_take [of 3 4 "x # xs @ XML_NOTE_END_TAG @ ys"] unfolding eq by simp
    moreover have "(x # xs @ [32, 45, 45]) ! 3 \<in> set (x # xs @ [32, 45, 45])" by (rule nth_mem) simp
    moreover have "(x # xs @ XML_NOTE_END_TAG @ ys) ! 3 = ((x # xs @ [32, 45, 45]) @ 62 # ys) ! 3" by (simp add: tag_defs)
    moreover have "\<dots> = (x # xs @ [32, 45, 45]) ! 3" by (subst nth_append) simp
    ultimately show False using Cons.prems by auto
  qed
  then show ?case using Cons by (simp add: no_start_Cons tag_defs numeral_3_eq_3)
qed simp

lemma note_at:
  assumes mem: "drop j s = note_flat nt @ 60 # c # zs" and nt: "list_all plain nt" and c: "c \<noteq> 33" and pos: "pos = int j"
  shows "xfind s [60] pos = pos" "\<exists>tag. xsubstr s pos XML_NOTE_BEGIN_LEN = Inr tag \<and> (tag = XML_NOTE_BEGIN_TAG \<longleftrightarrow> nt \<noteq> [])"
    "nt \<noteq> [] \<Longrightarrow> xfind s XML_NOTE_END_TAG pos = pos + 5 + int (length nt)"
proof -
  have j: "j < length s" using mem by (metis drop_eq_Nil append_is_Nil_conv leI list.distinct(1))
  obtain r where "drop j s = 60 # r" using mem by (cases "nt = []") (auto simp: note_flat_def tag_defs)
  then show "xfind s [60] pos = pos" using xfind_char [of j s "[]" 60 r pos] pos by simp
  have "xsubstr s pos XML_NOTE_BEGIN_LEN = Inr (take 5 (drop j s))" using j pos by (simp add: xsubstr_def XML_NOTE_BEGIN_LEN_def)
  moreover have "take 5 (drop j s) = XML_NOTE_BEGIN_TAG \<longleftrightarrow> nt \<noteq> []"
    unfolding mem using c by (cases "nt = []") (auto simp: note_flat_def tag_defs numeral_eq_Suc)
  ultimately show "\<exists>tag. xsubstr s pos XML_NOTE_BEGIN_LEN = Inr tag \<and> (tag = XML_NOTE_BEGIN_TAG \<longleftrightarrow> nt \<noteq> [])" by blast
  assume "nt \<noteq> []"
  then have "drop j s = (XML_NOTE_BEGIN_TAG @ nt) @ XML_NOTE_END_TAG @ 60 # c # zs" using mem by (simp add: note_flat_def)
  moreover have "62 \<notin> set (XML_NOTE_BEGIN_TAG @ nt)" using plain_chars(2) [OF nt] by (simp add: tag_defs)
  ultimately show "xfind s XML_NOTE_END_TAG pos = pos + 5 + int (length nt)"
    using xfind_first [of XML_NOTE_END_TAG j s "XML_NOTE_BEGIN_TAG @ nt"] no_start_note pos by (simp add: tag_defs)
qed

lemma parse_note_flat:
  assumes s: "s = note_flat nt @ 60 # c # zs" and nt: "list_all plain nt" and c: "c \<noteq> 33"
  shows "parse_note s = Inr (int (length (note_flat nt)), nt)"
proof -
  note at = note_at [of 0 s nt c zs 0, OF _ nt c]
  have mem: "drop 0 s = note_flat nt @ 60 # c # zs" using s by simp
  obtain tag where tag: "xsubstr s 0 XML_NOTE_BEGIN_LEN = Inr tag" "tag = XML_NOTE_BEGIN_TAG \<longleftrightarrow> nt \<noteq> []" using at(2) [OF mem] by auto
  show ?thesis
  proof (cases "nt = []")
    case True
    then show ?thesis using at(1) [OF mem] tag by (simp add: parse_note_def note_flat_def)
  next
    case False
    have "drop 5 s = nt @ XML_NOTE_END_TAG @ 60 # c # zs" using s False by (simp add: note_flat_def tag_defs)
    then have "xsubstr s 5 (int (length nt)) = Inr nt" using xsubstr_at [of 5 s nt] by (simp add: tag_defs)
    then show ?thesis using at(1,3) [OF mem] tag False by (simp add: parse_note_def Let_def note_flat_def) (simp add: tag_defs)
  qed
qed

lemma xrfind_at: "take (nat pos + 1) s = pre @ c # ys \<Longrightarrow> c \<notin> set ys \<Longrightarrow> xrfind s c pos = int (length pre)"
proof -
  assume t: "take (nat pos + 1) s = pre @ c # ys" and c: "c \<notin> set ys"
  have "takeWhile (\<lambda>x. x \<noteq> c) (rev (pre @ c # ys)) = rev ys"
    using c by (auto simp: takeWhile_tail)
  then show ?thesis unfolding xrfind_def t Let_def by simp
qed

text \<open>The loop over the equals signs reads the properties one after the other.\<close>

lemma property_at_text:
  assumes s: "s = pre @ property_text p @ rest" and pre: "pre \<noteq> []" and p: "prop_ok p" and i: "i = length pre + 1 + length (fst p)"
  shows "property_at s (int i) = Inr (Some p)" "xfind s [61] (int i + 1) = xfind s [61] (int (length (pre @ property_text p)))"
proof -
  obtain k v where kv: "p = (k, v)" by (cases p)
  have chars: "32 \<notin> set k" "34 \<notin> set v" "61 \<notin> set v" using p kv by (auto simp: prop_ok_def list_all_iff)
  have s': "s = pre @ 32 # k @ 61 # 34 # v @ 34 # rest" using s kv by (simp add: property_text_def lit_def)
  have len: "i = length pre + 1 + length k" using i kv by simp
  have "take (i + 1) s = pre @ 32 # k @ [61]" unfolding s' len by simp
  then have space: "xrfind s 32 (int i) = int (length pre)" using xrfind_at [of "int i" s pre 32 "k @ [61]"] chars(1) by simp
  have d: "drop i s = 61 # 34 # v @ 34 # rest" "drop (i + 2) s = v @ 34 # rest" "drop (length pre + 1) s = k @ 61 # 34 # v @ 34 # rest"
    using s' len by (simp_all add: numeral_3_eq_3)
  have name: "xsubstr s (int (length pre) + 1) (int i - int (length pre) - 1) = Inr k"
    using xsubstr_at [OF d(3), of "int (length pre) + 1"] len by simp
  have q1: "xfind s [34] (int i) = int i + 1" using xfind_char [of i s "[61]" 34] d(1) by simp
  have q2: "xfind s [34] (int i + 2) = int i + 2 + int (length v)" using xfind_char [of "i + 2" s v 34 rest "int i + 2"] d(2) chars(2) by simp
  have v: "xsubstr s (int i + 2) (int (length v)) = Inr v" using xsubstr_at [OF d(2), of "int i + 2"] by simp
  have "int i + 1 + 1 = int i + 2" by simp
  then show "property_at s (int i) = Inr (Some p)"
    using space name q1 q2 v pre kv by (simp add: property_at_def Let_def add_ac)
  have "drop (i + 1) s = (34 # v @ [34]) @ rest" using s' len by simp
  then have "xfind s [61] (int (i + 1)) = xfind s [61] (int (i + 1 + length (34 # v @ [34])))"
    using chars(3) by (intro xfind_skip) simp_all
  then show "xfind s [61] (int i + 1) = xfind s [61] (int (length (pre @ property_text p)))"
    using len kv by (simp add: property_text_def lit_def add_ac)
qed

lemma property_loop_text:
  "list_all prop_ok ps \<Longrightarrow> s = pre @ concat (map property_text ps) @ [62] \<Longrightarrow> pre \<noteq> [] \<Longrightarrow>
   property_loop s (xfind s [61] (int (length pre))) acc = Inr (acc @ ps)"
proof (induction ps arbitrary: pre acc)
  case Nil
  have "xfind s [61] (int (length pre)) = -1" using xfind_absent [of 61 "length pre" s] Nil by simp
  then show ?case by (simp add: property_loop.simps)
next
  case (Cons p ps)
  let ?i = "length pre + 1 + length (fst p)" and ?rest = "concat (map property_text ps) @ [62]"
  have s: "s = pre @ property_text p @ ?rest" and p: "prop_ok p" using Cons.prems by simp_all
  have "drop (length pre) s = (32 # fst p) @ 61 # 34 # snd p @ 34 # ?rest" using s by (simp add: property_text_def lit_def)
  then have eq: "xfind s [61] (int (length pre)) = int ?i"
    using xfind_char [of "length pre" s "32 # fst p"] p by (auto simp: prop_ok_def list_all_iff)
  note step = property_at_text [OF s Cons.prems(3) p refl]
  have "property_loop s (int ?i) acc = property_loop s (xfind s [61] (int ?i + 1)) (acc @ [p])"
    using step(1) by (subst property_loop.simps) simp
  also have "\<dots> = Inr ((acc @ [p]) @ ps)"
    unfolding step(2) using Cons.IH [of "pre @ property_text p" "acc @ [p]"] Cons.prems s by simp
  finally show ?case using eq by simp
qed

section \<open>Parsing the text of a tree\<close>

text \<open>A text that begins with a start tag, in front of the next bracket.\<close>

lemma parse_name_flat:
  assumes s: "s = N @ 60 # n @ A @ 62 # ys" and n: "name_ok n" and ps: "list_all prop_ok ps" and A: "A = concat (map property_text ps)"
  shows "parse_name s (int (length N)) = Inr (0, n)"
proof -
  have mem: "drop (length N) s = 60 # n @ A @ 62 # ys" using s by simp
  note tag = open_tag [OF mem n ps A refl]
  have start: "xfind s [60] (int (length N)) = int (length N)" using xfind_char [of "length N" s "[]"] mem by simp
  obtain c where c: "xsubstr s (xfind s [62] (int (length N)) - 1) 1 = Inr [c]" "c \<noteq> 47" using tag(3) by blast
  have pos: "0 < xfind s [62] (int (length N))" using tag(1) by simp
  have "int (length N) + 1 + int (length n) - int (length N) - 1 = int (length n)" by simp
  then show ?thesis using start c pos tag(2,4) by (simp add: parse_name_def Let_def)
qed

lemma flat_hd: "\<exists>r. flat t = 60 # r"
  by (cases t) (simp add: note_flat_def tag_defs)

lemma parse_head_flat:
  assumes ok: "xml_ok (XMLNode nt n c ty dp ps kids)" and len: "length v < 2 ^ 31 - 1"
    and v: "filter kept v = flat (XMLNode nt n c ty dp ps kids)"
  shows "parse_head v = Inr \<lparr>h_text = flat (XMLNode nt n c ty dp ps kids), h_note = nt, h_name = n, h_content = c, h_type = 0, h_props = ps,
    h_start = int (length (note_flat nt @ 60 # n @ concat (map property_text ps) @ 62 # c))\<rparr>"
proof -
  let ?t = "XMLNode nt n c ty dp ps kids" and ?A = "concat (map property_text ps)" and ?N = "note_flat nt"
  have parts: "list_all plain nt" "name_ok n" "list_all plain c" "list_all prop_ok ps" using ok by simp_all
  have copied: "node_text v = Inr (flat ?t)" using node_text_kept [OF len] flat_zero [OF ok] v by simp
  obtain R where R: "concat (map flat kids) @ 60 # 47 # n @ [62] = 60 # R"
    using flat_hd by (cases kids) (auto, metis append_Cons)
  have s: "flat ?t = ?N @ 60 # n @ ?A @ 62 # c @ 60 # R" unfolding R [symmetric] by simp
  have nt: "parse_note (flat ?t) = Inr (int (length ?N), nt)"
    using parse_note_flat [of "flat ?t" nt "hd n"] s parts(1) name_chars(1,6) [OF parts(2)] by (metis append_Cons list.collapse)
  have nm: "parse_name (flat ?t) (int (length ?N)) = Inr (0, n)" by (rule parse_name_flat [OF s parts(2,4) refl])
  have mem: "drop (length ?N) (flat ?t) = 60 # n @ ?A @ 62 # c @ 60 # R" using s by simp
  note tag = open_tag [OF mem parts(2,4) refl refl]
  have start: "xfind (flat ?t) [60] (int (length ?N)) = int (length ?N)" using xfind_char [of "length ?N" "flat ?t" "[]"] mem by simp
  let ?g = "length ?N + 1 + length n + length ?A"
  have g: "xfind (flat ?t) [62] (int (length ?N)) = int ?g" using tag(1) by simp
  have d: "drop ?g (flat ?t) = 62 # c @ 60 # R" "drop (?g + 1) (flat ?t) = c @ 60 # R"
    using cursor [of "length ?N" "flat ?t" "60 # n @ ?A" "62 # c @ 60 # R"] cursor [of "length ?N" "flat ?t" "60 # n @ ?A @ [62]" "c @ 60 # R"] mem
    by (simp_all add: add.assoc)
  have e: "xfind (flat ?t) [60] (int ?g) = int ?g + 1 + int (length c)"
    using xfind_char [of ?g "flat ?t" "62 # c" 60 R] d(1) plain_chars(1) [OF parts(3)] by simp
  have content: "xsubstr (flat ?t) (int ?g + 1) (int (length c)) = Inr c" using xsubstr_at [OF d(2), of "int ?g + 1"] by simp
  have part: "xsubstr (flat ?t) (int (length ?N)) (int ?g - int (length ?N) + 1) = Inr (60 # n @ ?A @ [62])"
    using xsubstr_at [of "length ?N" "flat ?t" "60 # n @ ?A @ [62]" "c @ 60 # R"] mem by simp
  have "xfind (60 # n @ ?A @ [62]) [61] 0 = xfind (60 # n @ ?A @ [62]) [61] (int (length (60 # n)))"
    using xfind_skip [of 0 "60 # n @ ?A @ [62]" "60 # n" "?A @ [62]" 61] name_chars(5) [OF parts(2)] by simp
  then have props: "property_loop (60 # n @ ?A @ [62]) (xfind (60 # n @ ?A @ [62]) [61] 0) [] = Inr ps"
    using property_loop_text [OF parts(4), of _ "60 # n" "[]"] by simp
  have "int ?g + 1 + int (length c) - int ?g - 1 = int (length c)" by simp
  then show ?thesis
    using copied nt nm start g e content part props by (simp add: parse_head_def Let_def)
qed

text \<open>The end tag of a name does not occur in the text of a tree without that name.\<close>

lemma same_name:
  fixes n m :: bytes
  assumes "take (length m + 1) (n @ 62 # ys) = m @ [62]" "62 \<notin> set n" "62 \<notin> set m"
  shows "n = m"
proof -
  define zs where "zs = drop (length m + 1) (n @ 62 # ys)"
  have "n @ 62 # ys = m @ 62 # zs"
    using append_take_drop_id [of "length m + 1" "n @ 62 # ys"] unfolding assms(1) zs_def by simp
  then have eq: "takeWhile (\<lambda>x. x \<noteq> 62) (n @ 62 # ys) = takeWhile (\<lambda>x. x \<noteq> 62) (m @ 62 # zs)" by (rule arg_cong)
  have "62 \<notin> set l \<Longrightarrow> takeWhile (\<lambda>x. x \<noteq> 62) (l @ 62 # r) = l" for l r :: bytes by (induction l) auto
  from eq [unfolded this [OF assms(2)] this [OF assms(3)]] show ?thesis .
qed

lemma no_start_concat: "(\<And>k ys. k \<in> set ks \<Longrightarrow> no_start pat (f k) ys) \<Longrightarrow> no_start pat (concat (map f ks)) ys"
  by (induction ks) (simp_all add: no_start_append)

lemma no_start_open: "name_ok n \<Longrightarrow> no_start (60 # 47 # p) (60 # n) ys"
  using no_start_char [of 60 n] name_chars(1,3,7) [of n] by (cases n) (simp_all add: no_start_Cons)

lemma no_start_close:
  assumes "name_ok n" "name_ok m" "n \<noteq> m"
  shows "no_start (60 # 47 # m @ [62]) (60 # 47 # n @ [62]) ys"
proof -
  have "take (length m + 1) (n @ 62 # ys) \<noteq> m @ [62]"
    using same_name [OF _ name_chars(2) [OF assms(1)] name_chars(2) [OF assms(2)]] assms(3) by blast
  then show ?thesis using no_start_char [of 60 "47 # n @ [62]"] name_chars(3) [OF assms(1)] by (simp add: no_start_Cons)
qed

lemma no_end_tag: "xml_ok t \<Longrightarrow> name_ok m \<Longrightarrow> m \<notin> set (all_names t) \<Longrightarrow> no_start (60 # 47 # m @ [62]) (flat t) ys"
proof (induction t arbitrary: ys)
  case (XMLNode nt n c ty dp ps kids ys)
  let ?pat = "60 # 47 # m @ [62]"
  have parts: "list_all plain nt" "name_ok n" "list_all plain c" "list_all prop_ok ps" "list_all xml_ok kids" using XMLNode.prems by simp_all
  have kids: "no_start ?pat (concat (map flat kids)) zs" for zs
    using XMLNode parts(5) by (intro no_start_concat) (auto simp: list_all_iff)
  have "no_start ?pat (note_flat nt) zs" for zs
    using no_start_char [of 60] plain_chars(1) [OF parts(1)] by (simp add: note_flat_def tag_defs no_start_Cons no_start_append)
  moreover have "no_start ?pat (60 # n) zs" for zs by (rule no_start_open [OF parts(2)])
  moreover have "no_start ?pat (concat (map property_text ps)) zs" "no_start ?pat (62 # c) zs" for zs
    using no_start_char [of 60] property_chars(2) [OF parts(4)] plain_chars(1) [OF parts(3)] by simp_all
  moreover have "no_start ?pat (60 # 47 # n @ [62]) ys" using XMLNode.prems(2,3) by (intro no_start_close [OF parts(2)]) auto
  ultimately show ?case using kids no_start_append [of ?pat "60 # n"] no_start_append [of ?pat "62 # c"]
    by (simp add: no_start_append)
qed

lemma next_child_flat:
  assumes mem: "drop i s = flat t @ rest" and ok: "xml_ok t"
  shows "next_child s (int i) = Inr (Some (flat t, int (i + length (flat t))))"
proof -
  obtain nt n c ty dp ps kids where t: "t = XMLNode nt n c ty dp ps kids" by (cases t)
  let ?A = "concat (map property_text ps)" and ?K = "concat (map flat kids)" and ?E = "60 # 47 # n @ [62]" and ?N = "note_flat nt"
  have parts: "list_all plain nt" "name_ok n" "list_all plain c" "list_all prop_ok ps" "list_all xml_ok kids"
      "n \<notin> set (concat (map all_names kids))" using ok t by simp_all
  have mem': "drop i s = ?N @ 60 # hd n # tl n @ ?A @ 62 # c @ ?K @ ?E @ rest" using mem t name_chars(1) [OF parts(2)] by simp
  note nt = note_at [OF mem' parts(1) name_chars(6) [OF parts(2)] refl]
  obtain tag where tag: "xsubstr s (int i) XML_NOTE_BEGIN_LEN = Inr tag" "tag = XML_NOTE_BEGIN_TAG \<longleftrightarrow> nt \<noteq> []" using nt(2) by blast
  let ?j = "i + length ?N"
  have d: "drop ?j s = 60 # n @ ?A @ 62 # c @ ?K @ ?E @ rest" using cursor [OF mem'] name_chars(1) [OF parts(2)] by simp
  have start: "(if tag = XML_NOTE_BEGIN_TAG then xfind s [60] (xfind s XML_NOTE_END_TAG (int i) + 1) else int i) = int ?j"
  proof (cases "nt = []")
    case False
    have "drop (i + 6 + length nt) s = [45, 45, 62] @ 60 # n @ ?A @ 62 # c @ ?K @ ?E @ rest"
      using cursor [of i s "XML_NOTE_BEGIN_TAG @ nt @ [32]" "[45, 45, 62] @ 60 # n @ ?A @ 62 # c @ ?K @ ?E @ rest"] mem' False
        name_chars(1) [OF parts(2)] by (simp add: note_flat_def tag_defs eval_nat_numeral)
    then have "xfind s [60] (int (i + 6 + length nt)) = int (i + 6 + length nt) + 3"
      using xfind_char [of "i + 6 + length nt" s "[45, 45, 62]" 60] by simp
    then show ?thesis using tag(2) False nt(3) by (simp add: note_flat_def tag_defs add_ac)
  qed (use tag in \<open>simp add: note_flat_def\<close>)
  note tags = open_tag [OF d parts(2,4) refl refl]
  obtain x where x: "xsubstr s (xfind s [62] (int ?j) - 1) 1 = Inr [x]" "x \<noteq> 47" using tags(3) by blast
  have d2: "drop (?j + 1 + length n) s = (?A @ 62 # c @ ?K) @ ?E @ rest" using cursor [of ?j s "60 # n"] d by simp
  have "no_start ?E ?K zs" for zs
    using no_end_tag parts(2,5,6) by (intro no_start_concat) (auto simp: list_all_iff)
  moreover have "no_start ?E (?A @ 62 # c) zs" for zs
    using no_start_char [of 60 "?A @ 62 # c"] property_chars(2) [OF parts(4)] plain_chars(1) [OF parts(3)] by simp
  ultimately have "no_start ?E (?A @ 62 # c @ ?K) (?E @ rest)" using no_start_append [of ?E "?A @ 62 # c" ?K] by simp
  then have fin: "xfind s ?E (int ?j + 1 + int (length n)) = int ?j + 1 + int (length n) + int (length (?A @ 62 # c @ ?K))"
    using xfind_first [OF _ d2, of "int ?j + 1 + int (length n)"] by simp
  have len: "length (flat t) = length ?N + 1 + length n + length (?A @ 62 # c @ ?K) + length n + 3" using t by simp
  have sub: "xsubstr s (int i) (int (length (flat t))) = Inr (flat t)"
    using xsubstr_at [OF mem, of "int i"] flat_hd [of t] by auto
  have "int ?j + 1 + int (length n) - int ?j - 1 = int (length n)" by simp
  then show ?thesis
    using nt(1) tag(1) start x tags(2,4) fin sub len by (simp add: next_child_def Let_def lit_def)
qed

lemma next_child_end:
  assumes mem: "drop i s = 60 # 47 # n @ [62]" and n: "name_ok n"
  shows "next_child s (int i) = Inr None"
proof -
  note nc = name_chars [OF n]
  have i: "i < length s" by (rule drop_bound [OF mem])
  have start: "xfind s [60] (int i) = int i" using xfind_char [of i s "[]"] mem by simp
  have tag: "xsubstr s (int i) XML_NOTE_BEGIN_LEN = Inr (take 5 (drop i s))" "take 5 (drop i s) \<noteq> XML_NOTE_BEGIN_TAG"
    using i by (simp_all add: xsubstr_def XML_NOTE_BEGIN_LEN_def, simp add: mem tag_defs)
  have sp: "xfind s [32] (int i) = -1" using xfind_absent [of 32 i s] mem nc(4) by simp
  have gt: "xfind s [62] (int i) = int i + 2 + int (length n)" using xfind_char [of i s "60 # 47 # n" 62 "[]"] mem nc(2) by simp
  have "drop i s = (60 # 47 # butlast n) @ [last n] @ [62]" using mem nc(1) by simp
  note cur = cursor [OF this]
  have len: "length (60 # 47 # butlast n) = length n + 1" using nc(1) by simp
  have "drop (i + (length n + 1)) s = [last n] @ [62]" by (rule cur [unfolded len])
  then have "xsubstr s (int i + 2 + int (length n) - 1) 1 = Inr [last n]"
    using xsubstr_at [of "i + (length n + 1)" s "[last n]" "[62]" "int i + 2 + int (length n) - 1" 1] by simp
  then have before: "xsubstr s (xfind s [62] (int i) - 1) 1 = Inr [last n]" "last n \<noteq> 47" using gt nc(8) by simp_all
  have name: "xsubstr s (int i + 1) (int i + 2 + int (length n) - int i - 1) = Inr (47 # n)"
    using xsubstr_at [of "i + 1" s "47 # n" "[62]"] cursor [of i s "[60]"] mem by (simp add: add.commute)
  have "length s = i + length n + 3" using arg_cong [OF mem, of length] i by simp
  then have none: "xfind s (lit ''</'' @ (47 # n) @ [62]) (int i + 2 + int (length n)) = -1"
    by (simp add: xfind_def find_str.simps lit_def nat_add_distrib)
  have end_pos: "name_end (xfind s [32] (int i)) (xfind s [62] (int i)) = int i + 2 + int (length n)" by (simp add: sp gt name_end_def)
  show ?thesis using i start tag before name none end_pos by (simp add: next_child_def Let_def)
qed

text \<open>The children of a node are read one after the other.\<close>

lemma parse_children_list:
  assumes kids: "\<And>k d. k \<in> set ks \<Longrightarrow> \<exists>h. parse_head (flat k) = Inr h \<and>
      (\<exists>r. parse_children (h_text h) d (h_start h) [] = Some (Inr r) \<and> make_node h d r = reread d k)"
    and ok: "list_all xml_ok ks" and n: "name_ok n"
  shows "drop i s = concat (map flat ks) @ 60 # 47 # n @ [62] \<Longrightarrow>
    parse_children s d (int i) acc = Some (Inr (acc @ map (reread (d + 1)) ks))"
  using kids ok
proof (induction ks arbitrary: i acc)
  case Nil
  then show ?case using next_child_end [of i s n] n by (subst parse_children.simps) simp
next
  case (Cons k ks)
  have mem: "drop i s = flat k @ concat (map flat ks) @ 60 # 47 # n @ [62]" using Cons.prems(1) by simp
  have next_c: "next_child s (int i) = Inr (Some (flat k, int (i + length (flat k))))"
    using next_child_flat [OF mem] Cons.prems(3) by simp
  obtain h r where h: "parse_head (flat k) = Inr h" "parse_children (h_text h) (d + 1) (h_start h) [] = Some (Inr r)"
      "make_node h (d + 1) r = reread (d + 1) k" using Cons.prems(2) [of k "d + 1"] by auto
  have "parse_children s d (int (i + length (flat k))) (acc @ [reread (d + 1) k]) =
      Some (Inr ((acc @ [reread (d + 1) k]) @ map (reread (d + 1)) ks))"
    using cursor [OF mem] Cons.prems(2,3) by (intro Cons.IH) simp_all
  then show ?case using next_c h by (subst parse_children.simps) simp
qed

lemma parse_flat:
  "xml_ok t \<Longrightarrow> length (flat t) < 2 ^ 31 - 1 \<Longrightarrow> length v < 2 ^ 31 - 1 \<Longrightarrow> filter kept v = flat t \<Longrightarrow>
   \<exists>h. parse_head v = Inr h \<and> (\<exists>r. parse_children (h_text h) d (h_start h) [] = Some (Inr r) \<and> make_node h d r = reread d t)"
proof (induction t arbitrary: v d)
  case (XMLNode nt n c ty dp ps kids v d)
  let ?t = "XMLNode nt n c ty dp ps kids" and ?pre = "note_flat nt @ 60 # n @ concat (map property_text ps) @ 62 # c"
  note head = parse_head_flat [OF XMLNode.prems(1,3,4)]
  have mem: "drop (length ?pre) (flat ?t) = concat (map flat kids) @ 60 # 47 # n @ [62]" by simp
  have small: "length (flat k) < 2 ^ 31 - 1" if "k \<in> set kids" for k
  proof -
    have "length (flat k) \<le> length (concat (map flat kids))"
      using that by (induction kids) auto
    also have "\<dots> \<le> length (flat ?t)" by simp
    finally show ?thesis using XMLNode.prems(2) by linarith
  qed
  have "parse_children (flat ?t) d (int (length ?pre)) [] = Some (Inr ([] @ map (reread (d + 1)) kids))"
  proof (rule parse_children_list [OF _ _ _ mem])
    fix k d assume k: "k \<in> set kids"
    then have ok: "xml_ok k" using XMLNode.prems(1) by (simp add: list_all_iff)
    show "\<exists>h. parse_head (flat k) = Inr h \<and> (\<exists>r. parse_children (h_text h) d (h_start h) [] = Some (Inr r) \<and> make_node h d r = reread d k)"
      by (rule XMLNode.IH [OF k ok small [OF k] small [OF k] flat_kept [OF ok]])
  qed (use XMLNode.prems(1) in simp_all)
  then show ?case using head by (simp add: make_node_def)
qed

section \<open>A text that is never read to its end\<close>

definition endless :: bytes where
  "endless = lit ''<a/>text<!-- x<b></b>''"

text \<open>A comment that is not closed sends the search for children back to the start of the text, and the same child is made again.\<close>

lemma endless_head:
  "parse_head endless = Inr \<lparr>h_text = endless, h_note = [], h_name = lit ''a/'', h_content = lit ''text'', h_type = 1, h_props = [], h_start = 8\<rparr>"
  by code_simp

lemma endless_child: "i = 4 \<or> i = 8 \<Longrightarrow> next_child endless i = Inr (Some (lit ''<!-- x<b></b>'', 4))"
proof (elim disjE)
  show "i = 4 \<Longrightarrow> next_child endless i = Inr (Some (lit ''<!-- x<b></b>'', 4))" by (simp only:) code_simp
  show "i = 8 \<Longrightarrow> next_child endless i = Inr (Some (lit ''<!-- x<b></b>'', 4))" by (simp only:) code_simp
qed

lemma inner_end: "next_child (lit ''<!-- x<b></b>'') 9 = Inr None"
  by code_simp

lemma inner_head:
  obtains h where "parse_head (lit ''<!-- x<b></b>'') = Inr h" "h_start h = 9" "h_text h = lit ''<!-- x<b></b>''"
proof -
  have "map_sum (\<lambda>_. ()) (\<lambda>h. (h_start h, h_text h)) (parse_head (lit ''<!-- x<b></b>'')) = Inr (9, lit ''<!-- x<b></b>'')" by code_simp
  then show thesis using that by (cases "parse_head (lit ''<!-- x<b></b>'')") auto
qed

lemma endless_loop:
  assumes "parse_children s d i acc = Some r"
  shows "(s = endless \<longrightarrow> i = 4 \<or> i = 8 \<longrightarrow> False) \<and> (s = lit ''<!-- x<b></b>'' \<longrightarrow> i = 9 \<longrightarrow> r = Inr acc)"
  using assms
proof (induction rule: parse_children.raw_induct [rotated 1, consumes 1, case_names 1])
  case (1 f s d i acc r)
  have "False" if e: "s = endless" "i = 4 \<or> i = 8"
  proof -
    obtain h where h: "parse_head (lit ''<!-- x<b></b>'') = Inr h" "h_start h = 9" "h_text h = lit ''<!-- x<b></b>''" by (rule inner_head)
    have child: "next_child s i = Inr (Some (lit ''<!-- x<b></b>'', 4))" using endless_child e by simp
    then obtain kids where kids: "f (h_text h) (d + 1) (h_start h) [] = Some kids" using 1(2) h(1) by (auto split: bind_splits)
    then have "kids = Inr []" using 1(1) [OF kids] h by simp
    then have "f s d 4 (acc @ [make_node h (d + 1) []]) = Some r" using 1(2) child h(1) kids by simp
    from 1(1) [OF this] show False using e by simp
  qed
  moreover have "r = Inr acc" if "s = lit ''<!-- x<b></b>''" "i = 9" using 1(2) that inner_end by simp
  ultimately show ?case by blast
qed

lemma endless_never_returns: "XMLNode_parse endless d = None"
proof -
  have "parse_children endless d 8 [] = None" using endless_loop [of endless d 8 "[]"] by (cases "parse_children endless d 8 []") auto
  then show ?thesis unfolding XMLNode_parse_def endless_head by simp
qed

section \<open>Documents on the disk\<close>

text \<open>The text of a node between its note and its last line end.\<close>

fun body_text :: "XMLNode \<Rightarrow> bytes" where
  "body_text (XMLNode nt name content nodetype depth props nodes) =
     concat (map property_text props) @ [62] @
     (if nodes \<noteq> [] then (if content \<noteq> [] then [10] @ Repeatchar 9 (depth + 1) @ content else []) else content) @
     (if nodes \<noteq> [] then [10] @ concat (map GetNodeText nodes) @ Repeatchar 9 depth else [])"

fun note_text :: "XMLNode \<Rightarrow> bytes" where
  "note_text (XMLNode nt name content nodetype depth props nodes) =
     (if nt \<noteq> [] then Repeatchar 9 depth @ XML_NOTE_BEGIN_TAG @ nt @ XML_NOTE_END_TAG @ [10] else []) @ Repeatchar 9 depth"

lemma text_parts: "GetNodeText t = note_text t @ (60 # m_NodeName t @ body_text t @ 60 # 47 # m_NodeName t @ [62]) @ [10]"
  by (cases t) (simp add: lit_def)

fun without_note :: "XMLNode \<Rightarrow> XMLNode" where
  "without_note (XMLNode nt name content nodetype depth props nodes) = XMLNode [] name content nodetype depth props nodes"

lemma kept_body:
  assumes "xml_ok t"
  shows "filter kept (60 # m_NodeName t @ body_text t @ 60 # 47 # m_NodeName t @ [62]) = flat (without_note t)"
proof -
  have "xml_ok (without_note t)" using assms by (cases t) simp
  then have "filter kept (GetNodeText (without_note t)) = flat (without_note t)" by (rule kept_text)
  moreover have "note_text (without_note t) = Repeatchar 9 (m_Depth t)" "body_text (without_note t) = body_text t" "m_NodeName (without_note t) = m_NodeName t"
    by (cases t; simp)+
  ultimately show ?thesis unfolding text_parts by (simp add: kept_tabs kept_chars)
qed

lemma no_start_tabs: "no_start (60 # p) (Repeatchar 9 d) ys"
  by (rule no_start_char) (simp add: Repeatchar_def)

lemma no_start_note_text:
  assumes "xml_ok t" "c \<noteq> 33"
  shows "no_start (60 # c # p) (note_text t) ys"
proof (cases t)
  case (XMLNode nt name content nodetype depth props nodes)
  have "60 \<notin> set nt" using assms(1) plain_chars(1) XMLNode by simp
  then show ?thesis using no_start_tabs no_start_char [of 60] assms(2) XMLNode
    by (simp add: no_start_append no_start_Cons tag_defs)
qed

lemma no_end_tag_body:
  assumes ok: "xml_ok t" and kids: "\<And>k ys. k \<in> set (m_Nodes t) \<Longrightarrow> no_start (60 # p) (GetNodeText k) ys"
  shows "no_start (60 # p) (body_text t) ys"
proof (cases t)
  case (XMLNode nt name content nodetype depth props nodes)
  have "60 \<notin> set content" "60 \<notin> set (concat (map property_text props))"
    using ok XMLNode plain_chars(1) property_chars(2) [of props] by simp_all
  then have "no_start (60 # p) (concat (map property_text props)) zs" "no_start (60 # p) (62 # zs') zs = no_start (60 # p) zs' zs"
    "no_start (60 # p) (10 # zs') zs = no_start (60 # p) zs' zs" "no_start (60 # p) content zs" for zs zs'
    using no_start_char [of 60] by (simp_all add: no_start_Cons)
  moreover have "no_start (60 # p) (concat (map GetNodeText nodes)) zs" for zs using kids XMLNode by (intro no_start_concat) simp
  ultimately show ?thesis using no_start_tabs XMLNode by (simp add: no_start_append)
qed

lemma no_start_three:
  assumes "\<And>ys. no_start pat a ys" "\<And>ys. no_start pat b ys" "\<And>ys. no_start pat e ys"
  shows "no_start pat (a @ b @ e) ys"
  using assms unfolding no_start_append by simp

lemma no_end_tag_text: "xml_ok t \<Longrightarrow> name_ok m \<Longrightarrow> m \<notin> set (all_names t) \<Longrightarrow> no_start (60 # 47 # m @ [62]) (GetNodeText t) ys"
proof (induction t arbitrary: ys)
  case (XMLNode nt n c ty dp ps kids ys)
  let ?pat = "60 # 47 # m @ [62]" and ?t = "XMLNode nt n c ty dp ps kids"
  have n: "name_ok n" "n \<noteq> m" using XMLNode.prems by auto
  have body: "no_start ?pat (body_text ?t) zs" for zs
    using XMLNode by (intro no_end_tag_body) (auto simp: list_all_iff)
  have elem: "no_start ?pat ((60 # n) @ body_text ?t @ 60 # 47 # n @ [62]) zs" for zs
    by (rule no_start_three [OF no_start_open [OF n(1)] body no_start_close [OF n(1) XMLNode.prems(2) n(2)]])
  have note_part: "no_start ?pat (note_text ?t) zs" for zs by (rule no_start_note_text [OF XMLNode.prems(1)]) simp
  have last_part: "no_start ?pat [10] zs" for zs using no_start_char [of 60 "[10]"] by simp
  have parts: "GetNodeText ?t = note_text ?t @ ((60 # n) @ body_text ?t @ 60 # 47 # n @ [62]) @ [10]" unfolding text_parts by simp
  show ?case unfolding parts by (rule no_start_three [OF note_part elem last_part])
qed

lemma text_zero: "xml_ok t \<Longrightarrow> 0 \<notin> set (GetNodeText t)"
proof
  assume ok: "xml_ok t" and "0 \<in> set (GetNodeText t)"
  then have "0 \<in> set (filter kept (GetNodeText t))" by (simp add: kept_def)
  then show False using kept_text [OF ok] flat_zero [OF ok] by simp
qed

lemma headline: "XML_HEADLINE = 60 # 63 # tl (tl XML_HEADLINE)" "60 \<notin> set (63 # tl (tl XML_HEADLINE))" "0 \<notin> set XML_HEADLINE"
  by (simp_all add: XML_HEADLINE_def lit_def)

lemma no_start_headline: "c \<noteq> 63 \<Longrightarrow> no_start (60 # c # p) XML_HEADLINE ys"
proof -
  assume c: "c \<noteq> 63"
  have "no_start (60 # c # p) (60 # 63 # tl (tl XML_HEADLINE)) ys"
    unfolding no_start_Cons [of _ 60] using c no_start_char [OF headline(2)] by simp
  then show ?thesis using headline(1) by metis
qed

text \<open>The positions of the start and the end of the root in the contents of the file.\<close>

lemma root_positions:
  assumes ok: "xml_ok t" and q: "hd (m_NodeName t) \<noteq> 63" and len: "length (XML_HEADLINE @ GetNodeText t) < 2 ^ 31"
  defines "n \<equiv> m_NodeName t"
  shows "find_i32 (XML_HEADLINE @ GetNodeText t) (60 # n) 0 = int (length (XML_HEADLINE @ note_text t))"
    "find_i32 (XML_HEADLINE @ GetNodeText t) (60 # 47 # n @ [62]) 0 = int (length (XML_HEADLINE @ note_text t @ 60 # n @ body_text t))"
proof -
  let ?B = "XML_HEADLINE @ GetNodeText t" and ?E = "60 # 47 # n @ [62]" and ?P = "XML_HEADLINE @ note_text t"
  have n: "name_ok n" and own: "n \<notin> set (concat (map all_names (m_Nodes t)))" using ok unfolding n_def by (cases t; simp)+
  obtain c p where cp: "n = c # p" "c \<noteq> 33" "c \<noteq> 63" using name_chars(1,6) [OF n] q unfolding n_def by (cases "m_NodeName t") auto
  have zero: "cstr (60 # n) = 60 # n" "cstr ?E = ?E"
    using kept_plain(2) [OF name_plain [OF n]] by (simp_all add: cstr_id)
  have B: "drop 0 ?B = ?P @ (60 # n) @ body_text t @ ?E @ [10]" "drop 0 ?B = (?P @ (60 # n) @ body_text t) @ ?E @ [10]"
    unfolding text_parts n_def by simp_all
  have P: "no_start (60 # c' # p') ?P ys" if "c' \<noteq> 33" "c' \<noteq> 63" for c' p' ys
    unfolding no_start_append using no_start_headline no_start_note_text [OF ok] that by blast
  have s1: "find_str ?B (60 # n) 0 = Some (length ?P)"
    using find_str_first [OF _ B(1)] P cp by simp
  have "no_start ?E (body_text t) ys" for ys
    using ok own n by (intro no_end_tag_body no_end_tag_text) (cases t; auto simp: list_all_iff)+
  then have "no_start ?E (?P @ (60 # n) @ body_text t) (?E @ [10])"
    using P [of 47] no_start_open [OF n] unfolding no_start_append by simp
  then have s2: "find_str ?B ?E 0 = Some (length (?P @ (60 # n) @ body_text t))" using find_str_first [OF _ B(2)] by simp
  have small: "length ?P < 2 ^ 31" "length (?P @ (60 # n) @ body_text t) < 2 ^ 31"
    using len arg_cong [OF B(2), of length] by simp_all
  show "find_i32 ?B (60 # n) 0 = int (length ?P)" using s1 zero(1) i32_small [OF small(1)] by (simp add: find_i32_def)
  show "find_i32 ?B ?E 0 = int (length (XML_HEADLINE @ note_text t @ 60 # n @ body_text t))"
    using s2 zero(2) i32_small [OF small(2)] by (simp add: find_i32_def)
qed

lemma root_substr:
  assumes "int (length (XML_HEADLINE @ GetNodeText t)) < 2 ^ 31"
  defines "n \<equiv> m_NodeName t"
  shows "xsubstr (XML_HEADLINE @ GetNodeText t) (int (length (XML_HEADLINE @ note_text t)))
      (sint (word_of_int (int (length (XML_HEADLINE @ note_text t @ 60 # n @ body_text t)) + int (length (60 # 47 # n @ [62]))) :: u32)
        - int (length (XML_HEADLINE @ note_text t))) = Inr (60 # n @ body_text t @ 60 # 47 # n @ [62])"
proof -
  let ?B = "XML_HEADLINE @ GetNodeText t" and ?X = "60 # n @ body_text t @ 60 # 47 # n @ [62]"
  have mem: "drop (length (XML_HEADLINE @ note_text t)) ?B = ?X @ [10]" unfolding text_parts n_def by simp
  let ?e = "length (XML_HEADLINE @ note_text t @ 60 # n @ body_text t) + length (60 # 47 # n @ [62])"
  have "length ?B = ?e + 1" unfolding text_parts n_def by simp
  then have "?e < 2 ^ 31" using assms(1) by simp
  then have e: "sint (word_of_int (int ?e) :: u32) = int ?e" using i32_small [of ?e] by (simp add: i32_def)
  show ?thesis unfolding of_nat_add [symmetric] e by (rule xsubstr_at [OF mem]) simp_all
qed

lemma XMLNode_parse_text:
  assumes "xml_ok t" "length (flat t) < 2 ^ 31 - 1" "length v < 2 ^ 31 - 1" "filter kept v = flat t"
  shows "XMLNode_parse v d = Some (Inr (reread d t))"
proof -
  obtain h r where "parse_head v = Inr h" "parse_children (h_text h) d (h_start h) [] = Some (Inr r)" "make_node h d r = reread d t"
    using parse_flat [OF assms] by blast
  then show ?thesis by (simp add: XMLNode_parse_def)
qed

lemma flat_length: "xml_ok t \<Longrightarrow> length (flat t) \<le> length (GetNodeText t)"
  using length_filter_le [of kept "GetNodeText t"] by (simp add: kept_text)

section \<open>Properties\<close>


definition small_tree :: XMLNode where
  "small_tree = XMLNode (lit ''top'') (lit ''a'') (lit ''hi there'') 1 0 [(lit ''k'', lit ''v w''), (lit ''k2'', [])]
     [XMLNode (lit ''one'') (lit ''b'') [] 0 1 [] [], XMLNode [] (lit ''ab'') (lit ''q'') 1 1 [] [XMLNode [] (lit ''b'') [] 0 2 [(lit ''z'', lit ''/'')] []]]"

lemma small_tree_ok: "xml_ok small_tree" "length (XML_HEADLINE @ GetNodeText small_tree) < 2 ^ 31 - 1"
proof -
  show "xml_ok small_tree" by (simp add: small_tree_def name_ok_def prop_ok_def plain_def lit_def)
  show "length (XML_HEADLINE @ GetNodeText small_tree) < 2 ^ 31 - 1"
    by (simp add: small_tree_def lit_def property_text_def Repeatchar_def tag_defs XML_HEADLINE_def)
qed




end
