(* ===== verification/Calendar.thy ===== *)
theory Calendar
  imports Strings "HOL-Library.Signed_Division"
begin

text \<open>
  The calendar arithmetic of \<^verbatim>\<open>src/common/ca.cpp\<close>: days of the Gregorian calendar as Julian day numbers and back, and moving a \<^verbatim>\<open>struct tm\<close> by
  days and seconds. The theory shows that the numbers count the days, that the two conversions are inverse to each other, and that the move is exact.
\<close>

section \<open>Julian days\<close>

text \<open>
  Division truncates towards zero, as in C. A \<^verbatim>\<open>long\<close> stored in an \<^verbatim>\<open>int\<close> is reduced to 32 bits. \<^verbatim>\<open>date_to_julian\<close> and most of \<^verbatim>\<open>julian_adj\<close>
  compute in \<^verbatim>\<open>int\<close>: where a value of an expression does not fit, the overflow is undefined behaviour and the model gives \<open>None\<close>. The values of
  type \<^verbatim>\<open>long\<close> stay below 2 to the 46 and do not overflow.
\<close>

definition SECS_PER_DAY :: int where "SECS_PER_DAY = 24 * 60 * 60"

definition int_of_long :: "int \<Rightarrow> int" where
  "int_of_long v = sint (word_of_int v :: u32)"

definition int_fits :: "int \<Rightarrow> bool" where
  "int_fits v \<longleftrightarrow> - (2 ^ 31) \<le> v \<and> v < 2 ^ 31"

definition date_to_julian :: "int \<Rightarrow> int \<Rightarrow> int \<Rightarrow> int option" where
  "date_to_julian y m d =
     (let a = (m - 14) sdiv 12;
          years = 1461 * (y + 4800 + a);
          months = 367 * (m - 2 - 12 * a);
          centuries = 3 * ((y + 4900 + a) sdiv 100);
          sum = years sdiv 4 + months sdiv 12
      in if list_all int_fits
           [m - 14, y + 4800, y + 4800 + a, years, m - 2, 12 * a, m - 2 - 12 * a, months, y + 4900, y + 4900 + a, centuries,
            sum, sum - centuries sdiv 4, sum - centuries sdiv 4 + d, sum - centuries sdiv 4 + d - 32075]
         then Some (sum - centuries sdiv 4 + d - 32075) else None)"

text \<open>The outer option of \<^verbatim>\<open>julian_adj\<close> is the overflow, the inner one the result 0.\<close>

definition julian_adj :: "tm \<Rightarrow> int \<Rightarrow> int \<Rightarrow> (int \<times> int) option option" where
  "julian_adj tm off_day offset_sec =
     (let offset_day = int_of_long (offset_sec sdiv SECS_PER_DAY);
          day_secs = offset_day * SECS_PER_DAY;
          offset_hms = int_of_long (offset_sec - day_secs);
          offset_day = offset_day + off_day;
          hours = tm_hour tm * 3600;
          minutes = tm_min tm * 60;
          clock = hours + minutes + tm_sec tm;
          offset_hms = offset_hms + clock;
          (day, hms) =
            (if offset_hms \<ge> SECS_PER_DAY then (offset_day + 1, offset_hms - SECS_PER_DAY)
             else if offset_hms < 0 then (offset_day - 1, offset_hms + SECS_PER_DAY)
             else (offset_day, offset_hms));
          time_year = tm_year tm + 1900;
          time_month = tm_mon tm + 1;
          time_day = tm_mday tm
      in if list_all int_fits
           [day_secs, offset_day, hours, minutes, hours + minutes, clock, offset_hms, day, hms, time_year, time_month]
         then map_option (\<lambda>jd. let time_jd = jd + day in if time_jd < 0 then None else Some (time_jd, hms))
                (date_to_julian time_year time_month time_day)
         else None)"

definition julian_to_date :: "int \<Rightarrow> int \<times> int \<times> int" where
  "julian_to_date jd =
     (let L = jd + 68569;
          n = (4 * L) sdiv 146097;
          L = L - (146097 * n + 3) sdiv 4;
          i = (4000 * (L + 1)) sdiv 1461001;
          L = L - (1461 * i) sdiv 4 + 31;
          j = (80 * L) sdiv 2447;
          d = int_of_long (L - (2447 * j) sdiv 80);
          L = j sdiv 11;
          m = int_of_long (j + 2 - 12 * L);
          y = int_of_long (100 * (n - 49) + i + L)
      in (y, m, d))"

definition OPENSSL_gmtime_adj :: "tm \<Rightarrow> int \<Rightarrow> int \<Rightarrow> (int \<times> tm) option" where
  "OPENSSL_gmtime_adj tm off_day offset_sec =
     map_option
       (\<lambda>r. case r of
          None \<Rightarrow> (0, tm)
        | Some (time_jd, time_sec) \<Rightarrow>
            let (time_year, time_month, time_day) = julian_to_date time_jd
            in if time_year < 1900 \<or> time_year > 9999 then (0, tm)
               else (1, tm\<lparr>tm_year := time_year - 1900, tm_mon := time_month - 1, tm_mday := time_day,
                           tm_hour := time_sec sdiv 3600, tm_min := (time_sec sdiv 60) smod 60, tm_sec := time_sec smod 60\<rparr>))
       (julian_adj tm off_day offset_sec)"

section \<open>The calendar\<close>

definition leap :: "int \<Rightarrow> bool" where
  "leap y \<longleftrightarrow> y mod 4 = 0 \<and> (y mod 100 \<noteq> 0 \<or> y mod 400 = 0)"

definition month_days :: "int \<Rightarrow> int \<Rightarrow> int" where
  "month_days y m = (if m = 2 then (if leap y then 29 else 28) else if m \<in> {4, 6, 9, 11} then 30 else 31)"

definition valid_date :: "int \<times> int \<times> int \<Rightarrow> bool" where
  "valid_date = (\<lambda>(y, m, d). 1 \<le> m \<and> m \<le> 12 \<and> 1 \<le> d \<and> d \<le> month_days y m)"

definition next_day :: "int \<times> int \<times> int \<Rightarrow> int \<times> int \<times> int" where
  "next_day = (\<lambda>(y, m, d). if d < month_days y m then (y, m, d + 1) else if m < 12 then (y, m + 1, 1) else (y + 1, 1, 1))"

text \<open>The number of a day without the bound of the machine integers; \<open>date_to_julian\<close> is this number wherever it does not overflow.\<close>

definition julian_number :: "int \<Rightarrow> int \<Rightarrow> int \<Rightarrow> int" where
  "julian_number y m d =
     (1461 * (y + 4800 + (m - 14) sdiv 12)) sdiv 4 +
     (367 * (m - 2 - 12 * ((m - 14) sdiv 12))) sdiv 12 -
     (3 * ((y + 4900 + (m - 14) sdiv 12) sdiv 100)) sdiv 4 + d - 32075"

section \<open>Day numbers count the days\<close>

lemma sdiv_pos: "0 \<le> a \<Longrightarrow> 0 < b \<Longrightarrow> a sdiv b = a div (b :: int)"
  by (cases "0 < a") (simp_all add: signed_divide_int_def)

lemma smod_pos: "0 \<le> a \<Longrightarrow> 0 < b \<Longrightarrow> a smod b = a mod (b :: int)"
  by (cases "0 < a") (simp_all add: signed_modulo_int_def)

lemma int_of_long_small: "- (2 ^ 31) \<le> v \<Longrightarrow> v < 2 ^ 31 \<Longrightarrow> int_of_long v = v"
  by (simp add: int_of_long_def signed_of_int signed_take_bit_int_eq_self)

text \<open>January and February count as months 11 and 12 of the year before.\<close>

definition shift_year :: "int \<Rightarrow> int \<Rightarrow> int" where
  "shift_year y m = (if m \<le> 2 then y - 1 else y)"

definition shift_month :: "int \<Rightarrow> int" where
  "shift_month m = (if m \<le> 2 then m + 10 else m - 2)"

lemma month_cases:
  assumes "1 \<le> m" "m \<le> (12 :: int)"
  obtains "m = 1" | "m = 2" | "m = 3" | "m = 4" | "m = 5" | "m = 6" | "m = 7" | "m = 8" | "m = 9" | "m = 10" | "m = 11" | "m = 12"
proof -
  have "m = 1 \<or> m = 2 \<or> m = 3 \<or> m = 4 \<or> m = 5 \<or> m = 6 \<or> m = 7 \<or> m = 8 \<or> m = 9 \<or> m = 10 \<or> m = 11 \<or> m = 12"
    using assms by presburger
  then show thesis using that by blast
qed

text \<open>The years of the code: 1465072 is the last one that it computes to its end.\<close>

lemma date_to_julian_fits:
  assumes "- 4799 \<le> y" "shift_year y m \<le> 1465072" "1 \<le> m" "m \<le> 12" "1 \<le> d" "d \<le> 31"
  shows "date_to_julian y m d = Some (julian_number y m d)"
proof -
  have a: "(m - 14) sdiv 12 = (if m \<le> 2 then - 1 else 0)"
    using assms(3,4) by (cases rule: month_cases) (simp_all add: signed_divide_int_def)
  define a' :: int where "a' = (if m \<le> 2 then - 1 else 0)"
  define Y M C where "Y = 1461 * (y + 4800 + a')" and "M = 367 * (m - 2 - 12 * a')" and "C = (y + 4900 + a') sdiv 100"
  have a': "- 1 \<le> a'" "a' \<le> 0" "y + a' \<le> 1465072" "0 \<le> m - 2 - 12 * a'" "m - 2 - 12 * a' \<le> 12"
    using assms by (auto simp: a'_def shift_year_def)
  have Y: "0 \<le> Y" "Y < 2 ^ 31" and M: "0 \<le> M" "M < 4500" using a' assms(1) by (simp_all add: Y_def M_def)
  have C: "0 \<le> C" "C \<le> 14700"
  proof -
    have "C = (y + 4900 + a') div 100" using a' assms(1) by (simp add: C_def sdiv_pos)
    moreover have "(y + 4900 + a') div 100 \<le> 1469972 div 100" using a' by (intro zdiv_mono1) simp_all
    ultimately show "0 \<le> C" "C \<le> 14700" using a' assms(1) by (simp_all add: pos_imp_zdiv_nonneg_iff)
  qed
  have "Y sdiv 4 = Y div 4" "M sdiv 12 = M div 12" "(3 * C) sdiv 4 = (3 * C) div 4" using Y M C by (simp_all add: sdiv_pos)
  moreover have "0 \<le> Y div 4" "Y div 4 < 2 ^ 29" "0 \<le> M div 12" "M div 12 < 4500" "0 \<le> (3 * C) div 4" "(3 * C) div 4 \<le> 14700"
    using Y M C by (auto simp: pos_imp_zdiv_nonneg_iff)
  ultimately have q: "0 \<le> Y sdiv 4" "Y sdiv 4 < 2 ^ 29" "0 \<le> M sdiv 12" "M sdiv 12 < 4500" "0 \<le> (3 * C) sdiv 4" "(3 * C) sdiv 4 \<le> 14700"
    by simp_all
  have "date_to_julian y m d = (if list_all int_fits
      [m - 14, y + 4800, y + 4800 + a', Y, m - 2, 12 * a', m - 2 - 12 * a', M, y + 4900, y + 4900 + a', 3 * C,
       Y sdiv 4 + M sdiv 12, Y sdiv 4 + M sdiv 12 - (3 * C) sdiv 4, Y sdiv 4 + M sdiv 12 - (3 * C) sdiv 4 + d,
       Y sdiv 4 + M sdiv 12 - (3 * C) sdiv 4 + d - 32075] then Some (julian_number y m d) else None)"
    unfolding date_to_julian_def julian_number_def Let_def a a'_def [symmetric] Y_def [symmetric] M_def [symmetric] C_def [symmetric] ..
  moreover have "list_all int_fits
      [m - 14, y + 4800, y + 4800 + a', Y, m - 2, 12 * a', m - 2 - 12 * a', M, y + 4900, y + 4900 + a', 3 * C,
       Y sdiv 4 + M sdiv 12, Y sdiv 4 + M sdiv 12 - (3 * C) sdiv 4, Y sdiv 4 + M sdiv 12 - (3 * C) sdiv 4 + d,
       Y sdiv 4 + M sdiv 12 - (3 * C) sdiv 4 + d - 32075]"
    using a' Y M C q assms unfolding int_fits_def by simp
  ultimately show ?thesis by simp
qed

lemma date_to_julian_overflow:
  assumes "1465074 \<le> y" "1 \<le> m" "m \<le> 12"
  shows "date_to_julian y m d = None"
proof -
  have "(m - 14) sdiv 12 \<in> {- 1, 0}"
    using assms(2,3) by (cases rule: month_cases) (simp_all add: signed_divide_int_def)
  then have "\<not> int_fits (1461 * (y + 4800 + (m - 14) sdiv 12))" using assms(1) by (auto simp: int_fits_def)
  then show ?thesis by (simp add: date_to_julian_def Let_def)
qed

lemma julian_number_shifted:
  assumes "- 4799 \<le> y" "1 \<le> m" "m \<le> 12"
  shows "julian_number y m d =
    (1461 * (shift_year y m + 4800)) div 4 + (367 * shift_month m) div 12 - (3 * ((shift_year y m + 4900) div 100)) div 4 + d - 32075"
proof -
  define y' m' where "y' = shift_year y m" and "m' = shift_month m"
  have k: "(m - 14) sdiv 12 = y' - y" "m - 2 - 12 * (y' - y) = m'"
    using assms(2,3) by (cases rule: month_cases) (simp_all add: signed_divide_int_def y'_def m'_def shift_year_def shift_month_def)
  have "- 4800 \<le> y'" "0 \<le> m'" using assms by (auto simp: y'_def m'_def shift_year_def shift_month_def)
  then have "0 \<le> (y' + 4900) div 100" "(1461 * (y' + 4800)) sdiv 4 = (1461 * (y' + 4800)) div 4" "(y' + 4900) sdiv 100 = (y' + 4900) div 100"
    "(367 * m') sdiv 12 = (367 * m') div 12"
    by (simp_all add: sdiv_pos pos_imp_zdiv_nonneg_iff)
  moreover from this(1) have "(3 * ((y' + 4900) div 100)) sdiv 4 = (3 * ((y' + 4900) div 100)) div 4" by (simp add: sdiv_pos)
  moreover have "y + 4800 + (y' - y) = y' + 4800" "y + 4900 + (y' - y) = y' + 4900" by simp_all
  ultimately show ?thesis unfolding julian_number_def k y'_def [symmetric] m'_def [symmetric] by (simp only: )
qed

text \<open>With the century \<open>c\<close> and the year \<open>r\<close> of the century.\<close>

lemma julian_number_century:
  assumes "- 4799 \<le> y" "1 \<le> m" "m \<le> 12" "shift_year y m + 4800 = 100 * c + r" "0 \<le> r" "r < 100"
  shows "julian_number y m d = 36524 * (c + 1) + (c + 4) div 4 + (1461 * r) div 4 + (367 * shift_month m) div 12 + d - 68600"
proof -
  have "1461 * (100 * c + r) = 1461 * r + (36525 * c) * 4" "shift_year y m + 4900 = r + (c + 1) * 100" using assms(4) by simp_all
  then have "(1461 * (100 * c + r)) div 4 = (1461 * r) div 4 + 36525 * c" "(shift_year y m + 4900) div 100 = c + 1"
    using assms(5,6) by simp_all
  moreover have "(3 * (c + 1)) div 4 = c + 1 - (c + 4) div 4" by presburger
  ultimately show ?thesis
    unfolding julian_number_shifted [OF assms(1-3)] assms(4) by simp
qed

lemma quarter: "(1461 * r) div 4 = 365 * r + r div (4 :: int)"
proof -
  have "1461 * r = r + (365 * r) * 4" by simp
  then show ?thesis by simp
qed

lemma quarter_days:
  fixes r :: int
  obtains k s where "(1461 * r) div 4 = 365 * r + k" "r = 4 * k + s" "0 \<le> s" "s \<le> 3" "s = r mod 4"
proof (rule that [OF quarter mult_div_mod_eq [symmetric]])
  show "0 \<le> r mod 4" "r mod 4 \<le> 3" by simp_all
qed (rule refl)

lemma year_of_century:
  fixes r e :: int
  assumes "0 \<le> r" "r < 100" "0 \<le> e" "e \<le> 364 \<or> (e = 365 \<and> r mod 4 = 3)"
  shows "(4000 * ((1461 * r) div 4 + e + 1)) div 1461001 = r"
proof -
  obtain k s where ks: "(1461 * r) div 4 = 365 * r + k" "r = 4 * k + s" "0 \<le> s" "s \<le> 3" "s = r mod 4" by (rule quarter_days)
  have e: "e \<le> 364 \<or> (e = 365 \<and> s = 3)" using assms(4) ks(5) by simp
  have "0 \<le> 4000 * (365 * r + k + e + 1) - 1461001 * r"
    using assms(1-3) ks(2-4) by (simp add: algebra_simps)
  moreover have "4000 * (365 * r + k + e + 1) - 1461001 * r < 1461001" using e
  proof
    assume "e \<le> 364"
    then show ?thesis using assms(1-3) ks(2-4) by (simp add: algebra_simps)
  next
    assume "e = 365 \<and> s = 3"
    then show ?thesis using assms(1-3) ks(2-4) by simp
  qed
  ultimately show ?thesis unfolding ks(1) by (intro int_div_pos_eq [of _ _ _ "4000 * (365 * r + k + e + 1) - 1461001 * r"]) simp_all
qed

lemma day_of_century:
  fixes r e :: int
  assumes "0 \<le> r" "r < 100" "0 \<le> e" "e \<le> 364 \<or> (e = 365 \<and> r mod 4 = 3)"
  shows "0 \<le> (1461 * r) div 4 + e" "(1461 * r) div 4 + e \<le> 36523 \<or> ((1461 * r) div 4 + e = 36524 \<and> r = 99 \<and> e = 365)"
proof -
  obtain k s where ks: "(1461 * r) div 4 = 365 * r + k" "r = 4 * k + s" "0 \<le> s" "s \<le> 3" "s = r mod 4" by (rule quarter_days)
  have e: "e \<le> 364 \<or> (e = 365 \<and> s = 3)" using assms(4) ks(5) by simp
  show "0 \<le> (1461 * r) div 4 + e" using assms(1-3) ks(2-4) unfolding ks(1) by linarith
  show "(1461 * r) div 4 + e \<le> 36523 \<or> ((1461 * r) div 4 + e = 36524 \<and> r = 99 \<and> e = 365)"
    using e
  proof
    assume "e \<le> 364"
    then show ?thesis using assms(1-3) ks(2-4) unfolding ks(1) by linarith
  next
    assume "e = 365 \<and> s = 3"
    then show ?thesis using assms(1-3) ks(2-4) unfolding ks(1) by auto
  qed
qed

lemma month_and_day:
  assumes "1 \<le> m" "m \<le> 12" "1 \<le> d" "d \<le> month_days y m"
  shows "(80 * ((367 * shift_month m) div 12 + d)) div 2447 = shift_month m"
    "(367 * shift_month m) div 12 + d - (2447 * shift_month m) div 80 = d"
    "0 \<le> (367 * shift_month m) div 12 + d - 31"
    "(367 * shift_month m) div 12 + d - 31 \<le> 364 \<or> ((367 * shift_month m) div 12 + d - 31 = 365 \<and> m = 2 \<and> leap y)"
  using assms by (cases rule: month_cases; force simp: shift_month_def month_days_def split: if_splits)+

text \<open>Leap years by century and year, counted from the March before.\<close>

lemma leap_century:
  assumes "y + 4799 = 100 * c + r" "0 \<le> r" "r < 100"
  shows "leap y \<longleftrightarrow> r mod 4 = 3 \<and> (r = 99 \<longrightarrow> (c + 1) mod 4 = 0)"
proof -
  have "y = r + 1 + ((c - 48) * 25) * 4" "y = r + 1 + (c - 48) * 100" using assms(1) by simp_all
  then have y: "y mod 4 = (r + 1) mod 4" "y mod 100 = (r + 1) mod 100" by (metis mod_mult_self1)+
  have "(r + 1) mod 4 = 0 \<longleftrightarrow> r mod 4 = 3" by presburger
  moreover have "(r + 1) mod 100 = 0 \<longleftrightarrow> r = 99"
  proof (cases "r = 99")
    case False
    then have "(r + 1) mod 100 = r + 1" using assms(2,3) by (intro mod_pos_pos_trivial) simp_all
    then show ?thesis using False assms(2) by simp
  qed simp
  moreover have "y mod 400 = 0 \<longleftrightarrow> (c + 1) mod 4 = 0" if "r = 99"
  proof -
    have "y = (c + 1 + (- 12) * 4) * 100" using assms(1) that by simp
    then have "y mod 400 = ((c + 1 + (- 12) * 4) mod 4) * 100" by (simp only: mult_mod_left) simp
    then show ?thesis by (simp only: mod_mult_self1) simp
  qed
  ultimately show ?thesis using y by (auto simp: leap_def)
qed

lemma julian_to_date_inverse:
  assumes y: "- 4799 \<le> y" "y < 2 ^ 31" and date: "valid_date (y, m, d)"
  shows "julian_to_date (julian_number y m d) = (y, m, d)"
proof -
  define c r where "c = (shift_year y m + 4800) div 100" and "r = (shift_year y m + 4800) mod 100"
  have cr: "shift_year y m + 4800 = 100 * c + r" "0 \<le> r" "r < 100" by (simp_all add: c_def r_def)
  have m: "1 \<le> m" "m \<le> 12" "1 \<le> d" "d \<le> month_days y m" using date by (auto simp: valid_date_def)
  define e where "e = (367 * shift_month m) div 12 + d - 31"
  note md = month_and_day [OF m]
  have leap: "e = 365 \<Longrightarrow> r mod 4 = 3 \<and> (r = 99 \<longrightarrow> (c + 1) mod 4 = 0)"
    using md(4) leap_century [of y c r] cr by (auto simp: e_def shift_year_def)
  have e: "0 \<le> e" "e \<le> 364 \<or> (e = 365 \<and> r mod 4 = 3)" using md(3,4) leap by (auto simp: e_def)
  have c: "0 \<le> c" using y by (auto simp: c_def shift_year_def pos_imp_zdiv_nonneg_iff)
  have shifted: "0 \<le> shift_month m" "shift_month m \<le> 12" using m by (auto simp: shift_month_def)
  define L where "L = (1461 * r) div 4 + e"
  define q where "q = (c + 4) div 4"
  have q: "c + 1 \<le> 4 * q" "4 * q \<le> c + 4" "(c + 1) mod 4 = 0 \<longleftrightarrow> 4 * q = c + 1" unfolding q_def by presburger+
  have jd: "julian_number y m d + 68569 = 36524 * (c + 1) + q + L"
    using julian_number_century [OF y(1) m(1,2) cr, of d] by (simp add: L_def e_def q_def)
  have L: "0 \<le> L" "L \<le> 36523 \<or> (L = 36524 \<and> 4 * q = c + 1)"
    using day_of_century [OF cr(2,3) e] leap q(3) by (auto simp: L_def)
  have n: "(4 * (36524 * (c + 1) + q + L)) sdiv 146097 = c + 1"
    using c L q(1,2) by (subst sdiv_pos) (auto intro!: int_div_pos_eq [of _ _ _ "4 * q + 4 * L - (c + 1)"])
  have "146097 * (c + 1) + 3 = c + 4 + (36524 * (c + 1)) * 4" by simp
  then have "(146097 * (c + 1) + 3) div 4 = 36524 * (c + 1) + q" by (simp only: div_mult_self1) (simp add: q_def)
  then have "(146097 * (c + 1) + 3) sdiv 4 = 36524 * (c + 1) + q" using c by (simp add: sdiv_pos)
  then have L': "36524 * (c + 1) + q + L - (146097 * (c + 1) + 3) sdiv 4 = L" by simp
  have i: "(4000 * (L + 1)) sdiv 1461001 = r"
    using year_of_century [OF cr(2,3) e] L(1) by (simp add: sdiv_pos L_def)
  have L'': "L - (1461 * r) sdiv 4 + 31 = (367 * shift_month m) div 12 + d"
    using cr(2) by (simp add: sdiv_pos L_def e_def)
  have j: "(80 * ((367 * shift_month m) div 12 + d)) sdiv 2447 = shift_month m"
    using md(1,3) by (simp add: sdiv_pos)
  have day: "(367 * shift_month m) div 12 + d - (2447 * shift_month m) sdiv 80 = d"
    using md(2) shifted by (simp add: sdiv_pos)
  have month: "shift_month m + 2 - 12 * (shift_month m sdiv 11) = m" "100 * (c + 1 - 49) + r + shift_month m sdiv 11 = y"
    using m cr(1) by (auto simp: shift_month_def shift_year_def sdiv_pos split: if_splits)
  have "julian_to_date (julian_number y m d) = (int_of_long y, int_of_long m, int_of_long d)"
    unfolding julian_to_date_def jd Let_def n L' i L'' j day month ..
  then show ?thesis using y m by (simp add: int_of_long_small month_days_def split: if_splits)
qed

lemma month_days_bounds: "28 \<le> month_days y m" "month_days y m \<le> 31"
  by (simp_all add: month_days_def)

lemma valid_next_day: "valid_date t \<Longrightarrow> valid_date (next_day t)"
proof (cases t)
  case (fields y m d)
  assume "valid_date t"
  then have "1 \<le> m" "m \<le> 12" "1 \<le> d" by (simp_all add: fields valid_date_def)
  then show ?thesis
    using month_days_bounds(1) [of y "m + 1"] month_days_bounds(1) [of "y + 1" 1]
    unfolding fields next_day_def valid_date_def by (simp only: prod.case split: if_split) (intro conjI impI; simp)
qed

lemma month_lengths:
  assumes "1 \<le> m" "m < 12" "m \<noteq> 2"
  shows "(367 * shift_month m) div 12 + month_days y m = (367 * shift_month (m + 1)) div 12"
proof -
  have "m \<le> 12" using assms by simp
  with assms(1) show ?thesis using assms(2,3) by (cases rule: month_cases) (simp_all add: shift_month_def month_days_def)
qed

lemma next_year_days:
  assumes "- 4799 \<le> y"
  shows "julian_number y 3 1 = julian_number y 2 (month_days y 2) + 1"
proof -
  define c r where "c = (y + 4799) div 100" and "r = (y + 4799) mod 100"
  have cr: "y + 4799 = 100 * c + r" "0 \<le> r" "r < 100" by (simp_all add: c_def r_def)
  have feb: "julian_number y 2 d = 36524 * (c + 1) + (c + 4) div 4 + 365 * r + r div 4 + 367 + d - 68600" for d
    using julian_number_century [of y 2 c r d] assms cr by (simp add: shift_year_def shift_month_def quarter)
  note leap = leap_century [OF cr]
  show ?thesis
  proof (cases "r = 99")
    case True
    then have "julian_number y 3 1 = 36524 * (c + 2) + (c + 5) div 4 + 30 + 1 - 68600"
      using julian_number_century [of y 3 "c + 1" 0 1] assms cr by (simp add: shift_year_def shift_month_def)
    moreover have "(c + 5) div 4 = (c + 4) div 4 + (if (c + 1) mod 4 = 0 then 1 else 0)" by presburger
    moreover have "leap y \<longleftrightarrow> (c + 1) mod 4 = 0" using leap True by simp
    ultimately show ?thesis using True unfolding feb month_days_def by simp
  next
    case False
    then have "julian_number y 3 1 = 36524 * (c + 1) + (c + 4) div 4 + 365 * (r + 1) + (r + 1) div 4 + 30 + 1 - 68600"
      using julian_number_century [of y 3 c "r + 1" 1] assms cr by (simp add: shift_year_def shift_month_def quarter)
    moreover have "(r + 1) div 4 = r div 4 + (if r mod 4 = 3 then 1 else 0)" by presburger
    moreover have "leap y \<longleftrightarrow> r mod 4 = 3" using leap False by simp
    ultimately show ?thesis unfolding feb month_days_def by simp
  qed
qed

lemma julian_next_day:
  assumes "- 4799 \<le> y" "valid_date (y, m, d)" "next_day (y, m, d) = (y', m', d')"
  shows "julian_number y' m' d' = julian_number y m d + 1"
proof -
  have m: "1 \<le> m" "m \<le> 12" "1 \<le> d" "d \<le> month_days y m" using assms(2) by (auto simp: valid_date_def)
  consider "d < month_days y m" | "d = month_days y m" "m = 12" | "d = month_days y m" "m = 2" | "d = month_days y m" "m < 12" "m \<noteq> 2"
    using m by linarith
  then show ?thesis
  proof cases
    case 1
    then show ?thesis using assms(3) by (simp add: next_day_def julian_number_def)
  next
    case 2
    then have "shift_year (y + 1) 1 = shift_year y 12" "y' = y + 1" "m' = 1" "d' = 1" "d = 31"
      using assms(3) by (simp_all add: next_day_def shift_year_def month_days_def)
    then show ?thesis using 2 assms(1) by (simp add: julian_number_shifted shift_month_def)
  next
    case 3
    then show ?thesis using assms(3) next_year_days [OF assms(1)] by (simp add: next_day_def split: if_splits)
  next
    case 4
    then have "shift_year y (m + 1) = shift_year y m" "y' = y" "m' = m + 1" "d' = 1"
      using assms(3) by (simp_all add: next_day_def shift_year_def)
    then show ?thesis using 4 month_lengths [OF m(1) 4(2,3), of y] assms(1) m by (simp add: julian_number_shifted)
  qed
qed

lemma julian_year: "- 4799 \<le> y \<Longrightarrow> valid_date (y, m, d) \<Longrightarrow> 365 * y \<le> julian_number y m d"
proof -
  assume y: "- 4799 \<le> y" and "valid_date (y, m, d)"
  then have m: "1 \<le> m" "m \<le> 12" "1 \<le> d" by (auto simp: valid_date_def)
  define c r where "c = (shift_year y m + 4800) div 100" and "r = (shift_year y m + 4800) mod 100"
  have cr: "shift_year y m + 4800 = 100 * c + r" "0 \<le> r" "r < 100" by (simp_all add: c_def r_def)
  have "0 \<le> c" using y by (auto simp: c_def shift_year_def pos_imp_zdiv_nonneg_iff)
  then have "0 \<le> (c + 4) div 4" "0 \<le> r div 4" "0 \<le> (367 * shift_month m) div 12"
    using cr(2) m by (auto simp: shift_month_def pos_imp_zdiv_nonneg_iff)
  moreover have "365 * (100 * c + r) \<le> 36524 * c + 365 * r" using \<open>0 \<le> c\<close> by simp
  moreover have "y + 4799 \<le> 100 * c + r" using cr(1) by (simp add: shift_year_def split: if_splits)
  ultimately show ?thesis
    using m(3) unfolding julian_number_century [OF y m(1,2) cr] quarter by simp
qed

lemma julian_onto:
  assumes "0 \<le> jd"
  obtains y m d where "- 4799 \<le> y" "valid_date (y, m, d)" "julian_number y m d = jd"
proof -
  have "- 31738 \<le> jd" using assms by simp
  then have "\<exists>y m d. - 4799 \<le> y \<and> valid_date (y, m, d) \<and> julian_number y m d = jd"
  proof (induction jd rule: int_ge_induct)
    case base
    have "- 4799 \<le> (- 4799 :: int) \<and> valid_date (- 4799, 1, 1) \<and> julian_number (- 4799) 1 1 = - 31738"
      by (simp add: valid_date_def month_days_def julian_number_def signed_divide_int_def)
    then show ?case by blast
  next
    case (step jd)
    then obtain y m d where t: "- 4799 \<le> y" "valid_date (y, m, d)" "julian_number y m d = jd" by blast
    obtain y' m' d' where n: "next_day (y, m, d) = (y', m', d')" by (metis prod_cases3)
    then have "- 4799 \<le> y'" using t(1) by (auto simp: next_day_def split: if_splits)
    moreover have "valid_date (y', m', d')" using valid_next_day [OF t(2)] n by simp
    moreover have "julian_number y' m' d' = jd + 1" using julian_next_day [OF t(1,2) n] t(3) by simp
    ultimately show ?case by blast
  qed
  then show thesis using that by blast
qed

lemma julian_to_date_onto:
  assumes "0 \<le> jd" "jd < 2 ^ 32"
  obtains y m d where "julian_to_date jd = (y, m, d)" "- 4799 \<le> y" "valid_date (y, m, d)" "julian_number y m d = jd"
proof -
  obtain y m d where t: "- 4799 \<le> y" "valid_date (y, m, d)" "julian_number y m d = jd" by (rule julian_onto [OF assms(1)])
  have "y < 2 ^ 31" using julian_year [OF t(1,2)] assms t(3) by simp
  then show thesis using that t julian_to_date_inverse [OF t(1) _ t(2)] by simp
qed

section \<open>Times as seconds\<close>

definition valid_tm :: "tm \<Rightarrow> bool" where
  "valid_tm tm \<longleftrightarrow> valid_date (tm_year tm + 1900, tm_mon tm + 1, tm_mday tm) \<and> -1900 \<le> tm_year tm \<and> tm_year tm \<le> 8099 \<and>
     0 \<le> tm_hour tm \<and> tm_hour tm < 24 \<and> 0 \<le> tm_min tm \<and> tm_min tm < 60 \<and> 0 \<le> tm_sec tm \<and> tm_sec tm < 60"

definition instant :: "tm \<Rightarrow> int" where
  "instant tm = julian_number (tm_year tm + 1900) (tm_mon tm + 1) (tm_mday tm) * SECS_PER_DAY +
     (tm_hour tm * 3600 + tm_min tm * 60 + tm_sec tm)"

text \<open>A number of seconds is a day number and a second of the day.\<close>

lemma day_and_second:
  assumes "0 \<le> x" "x < SECS_PER_DAY"
  shows "(jd * SECS_PER_DAY + x) div SECS_PER_DAY = jd" "(jd * SECS_PER_DAY + x) mod SECS_PER_DAY = x"
    "jd * SECS_PER_DAY + x < 0 \<longleftrightarrow> jd < 0"
proof -
  show "(jd * SECS_PER_DAY + x) div SECS_PER_DAY = jd" "(jd * SECS_PER_DAY + x) mod SECS_PER_DAY = x"
    using assms by (simp_all add: SECS_PER_DAY_def)
  show "jd * SECS_PER_DAY + x < 0 \<longleftrightarrow> jd < 0" using assms unfolding SECS_PER_DAY_def by linarith
qed

lemma offset_split:
  assumes "\<bar>v\<bar> < 2 ^ 31"
  shows "int_of_long (v sdiv SECS_PER_DAY) = v sdiv SECS_PER_DAY" "\<bar>v sdiv SECS_PER_DAY\<bar> < 24856"
    "int_of_long (v - v sdiv SECS_PER_DAY * SECS_PER_DAY) = v - v sdiv SECS_PER_DAY * SECS_PER_DAY"
    "\<bar>v - v sdiv SECS_PER_DAY * SECS_PER_DAY\<bar> < SECS_PER_DAY"
proof -
  have q: "\<bar>v\<bar> div 86400 < 24856" "0 \<le> \<bar>v\<bar> div 86400" using assms by simp_all
  show day: "\<bar>v sdiv SECS_PER_DAY\<bar> < 24856" using q by (simp add: signed_divide_int_def SECS_PER_DAY_def abs_mult sgn_if abs_if split: if_splits)
  have "v - v sdiv SECS_PER_DAY * SECS_PER_DAY = sgn v * (\<bar>v\<bar> - \<bar>v\<bar> div 86400 * 86400)"
    by (simp add: signed_divide_int_def SECS_PER_DAY_def sgn_if)
  also have "\<dots> = sgn v * (\<bar>v\<bar> mod 86400)" by (simp only: minus_div_mult_eq_mod)
  finally show hms: "\<bar>v - v sdiv SECS_PER_DAY * SECS_PER_DAY\<bar> < SECS_PER_DAY" by (simp add: SECS_PER_DAY_def sgn_if)
  show "int_of_long (v sdiv SECS_PER_DAY) = v sdiv SECS_PER_DAY" using day by (simp add: int_of_long_small)
  show "int_of_long (v - v sdiv SECS_PER_DAY * SECS_PER_DAY) = v - v sdiv SECS_PER_DAY * SECS_PER_DAY"
    using hms by (intro int_of_long_small) (simp_all add: SECS_PER_DAY_def)
qed

definition time_of_day :: "tm \<Rightarrow> int" where
  "time_of_day tm = tm_hour tm * 3600 + tm_min tm * 60 + tm_sec tm"

definition day_number :: "tm \<Rightarrow> int" where
  "day_number tm = julian_number (tm_year tm + 1900) (tm_mon tm + 1) (tm_mday tm)"

lemma time_of_day_bounds: "valid_tm tm \<Longrightarrow> 0 \<le> time_of_day tm \<and> time_of_day tm < SECS_PER_DAY"
  by (simp add: valid_tm_def time_of_day_def SECS_PER_DAY_def)

lemma instant_parts: "instant tm = day_number tm * SECS_PER_DAY + time_of_day tm"
  by (simp add: instant_def day_number_def time_of_day_def)

text \<open>Fields in the ranges that the readers of certificate times accept; the day need not exist in its month.\<close>

definition tm_ranges :: "tm \<Rightarrow> bool" where
  "tm_ranges tm \<longleftrightarrow> -1900 \<le> tm_year tm \<and> tm_year tm \<le> 8099 \<and> 0 \<le> tm_mon tm \<and> tm_mon tm \<le> 11 \<and> 1 \<le> tm_mday tm \<and> tm_mday tm \<le> 31 \<and>
     0 \<le> tm_hour tm \<and> tm_hour tm < 24 \<and> 0 \<le> tm_min tm \<and> tm_min tm < 60 \<and> 0 \<le> tm_sec tm \<and> tm_sec tm < 60"

lemma valid_tm_in_ranges: "valid_tm tm \<Longrightarrow> tm_ranges tm"
  using month_days_bounds(2) [of "tm_year tm + 1900" "tm_mon tm + 1"] by (auto simp: valid_tm_def tm_ranges_def valid_date_def)

text \<open>In these ranges nothing overflows.\<close>

lemma julian_adj_defined:
  assumes tm: "tm_ranges tm" and bounds: "\<bar>off_day\<bar> < 2 ^ 30" "\<bar>offset_sec\<bar> < 2 ^ 31"
  defines "q \<equiv> offset_sec sdiv SECS_PER_DAY"
  defines "x \<equiv> offset_sec - q * SECS_PER_DAY + time_of_day tm"
  defines "a \<equiv> if x \<ge> SECS_PER_DAY then 1 else if x < 0 then - 1 else (0 :: int)"
  shows "julian_adj tm off_day offset_sec =
    (let jd = day_number tm + (q + off_day + a) in Some (if jd < 0 then None else Some (jd, x - a * SECS_PER_DAY)))"
proof -
  note o = offset_split [OF bounds(2), folded q_def]
  have prod: "\<bar>q * SECS_PER_DAY\<bar> < 2 ^ 31 + SECS_PER_DAY" using o(4) bounds(2) by linarith
  have day: "\<bar>q * SECS_PER_DAY\<bar> \<le> 24855 * SECS_PER_DAY" using o(2) by (simp add: abs_mult SECS_PER_DAY_def)
  have tod: "0 \<le> time_of_day tm" "time_of_day tm < SECS_PER_DAY"
    using tm by (simp_all add: tm_ranges_def time_of_day_def SECS_PER_DAY_def)
  have jd: "date_to_julian (tm_year tm + 1900) (tm_mon tm + 1) (tm_mday tm) = Some (day_number tm)"
    unfolding day_number_def using tm by (intro date_to_julian_fits) (auto simp: tm_ranges_def shift_year_def)
  have "list_all int_fits [q * SECS_PER_DAY, q + off_day, tm_hour tm * 3600, tm_min tm * 60, tm_hour tm * 3600 + tm_min tm * 60,
      time_of_day tm, x, q + off_day + a, x - a * SECS_PER_DAY, tm_year tm + 1900, tm_mon tm + 1]"
    using o(2,4) day tod tm bounds(1) unfolding x_def a_def
    by (auto simp: int_fits_def tm_ranges_def SECS_PER_DAY_def abs_less_iff abs_le_iff)
  moreover have "(if x \<ge> SECS_PER_DAY then (q + off_day + 1, x - SECS_PER_DAY)
      else if x < 0 then (q + off_day - 1, x + SECS_PER_DAY) else (q + off_day, x)) = (q + off_day + a, x - a * SECS_PER_DAY)"
    by (simp add: a_def)
  ultimately show ?thesis
    unfolding julian_adj_def Let_def q_def [symmetric] o(1) o(3) time_of_day_def [symmetric] x_def [symmetric] jd
    by (simp add: Let_def)
qed

lemma gmtime_adj_defined:
  assumes "tm_ranges tm" and "\<bar>off_day\<bar> < 2 ^ 30" "\<bar>offset_sec\<bar> < 2 ^ 31"
  obtains ok u where "OPENSSL_gmtime_adj tm off_day offset_sec = Some (ok, u)" "ok = 0 \<or> ok = 1"
proof -
  obtain r where "julian_adj tm off_day offset_sec = Some r"
    using julian_adj_defined [OF assms] by (simp add: Let_def)
  then have "\<exists>ok u. OPENSSL_gmtime_adj tm off_day offset_sec = Some (ok, u) \<and> (ok = 0 \<or> ok = 1)"
    by (auto simp: OPENSSL_gmtime_adj_def Let_def split: option.split prod.split)
  then show thesis using that by blast
qed

lemma julian_adj_exact:
  assumes tm: "valid_tm tm" and bounds: "\<bar>off_day\<bar> < 2 ^ 30" "\<bar>offset_sec\<bar> < 2 ^ 31"
  shows "julian_adj tm off_day offset_sec =
    (let t = instant tm + off_day * SECS_PER_DAY + offset_sec
     in Some (if t < 0 then None else Some (t div SECS_PER_DAY, t mod SECS_PER_DAY)))"
proof -
  define q where "q = offset_sec sdiv SECS_PER_DAY"
  define x where "x = offset_sec - q * SECS_PER_DAY + time_of_day tm"
  define a :: int where "a = (if x \<ge> SECS_PER_DAY then 1 else if x < 0 then - 1 else 0)"
  define jd where "jd = day_number tm + (q + off_day + a)"
  note o = offset_split [OF bounds(2), folded q_def]
  have x: "0 \<le> x - a * SECS_PER_DAY" "x - a * SECS_PER_DAY < SECS_PER_DAY"
    using o(4) time_of_day_bounds [OF tm] unfolding x_def a_def by (auto simp: abs_less_iff)
  have "julian_adj tm off_day offset_sec = Some (if jd < 0 then None else Some (jd, x - a * SECS_PER_DAY))"
    using julian_adj_defined [OF valid_tm_in_ranges [OF tm] bounds]
    unfolding q_def [symmetric] x_def [symmetric] a_def [symmetric] jd_def [symmetric] by (simp only: Let_def)
  moreover have "instant tm + off_day * SECS_PER_DAY + offset_sec = jd * SECS_PER_DAY + (x - a * SECS_PER_DAY)"
    unfolding instant_parts jd_def x_def by (simp add: algebra_simps)
  ultimately show ?thesis by (simp only: Let_def day_and_second [OF x])
qed

lemma day_number_inverse:
  "valid_tm tm \<Longrightarrow> julian_to_date (instant tm div SECS_PER_DAY) = (tm_year tm + 1900, tm_mon tm + 1, tm_mday tm)"
  using time_of_day_bounds [of tm] unfolding instant_parts
  by (simp add: day_and_second day_number_def julian_to_date_inverse valid_tm_def)

lemma clock_fields:
  assumes "0 \<le> h" "0 \<le> m" "m < 60" "0 \<le> s" "s < (60 :: int)" "t = h * 3600 + m * 60 + s"
  shows "t div 3600 = h" "(t div 60) mod 60 = m" "t mod 60 = s"
proof -
  have t: "t = s + (m + h * 60) * 60" using assms(6) by simp
  show "t mod 60 = s" unfolding t mod_mult_self1 using assms(4,5) by simp
  have "t div 60 = m + h * 60" using assms(4,5) unfolding t by simp
  then show "(t div 60) mod 60 = m" using assms(2,3) by simp
  show "t div 3600 = h" by (rule int_div_pos_eq [of _ _ _ "m * 60 + s"]) (use assms in simp_all)
qed

lemma clock_join: "s div 3600 * 3600 + (s div 60) mod 60 * 60 + s mod 60 = (s :: int)"
proof -
  have "s div 3600 = s div 60 div 60" using zdiv_zmult2_eq [of 60 s 60] by simp
  then have "s div 3600 * 3600 + (s div 60) mod 60 * 60 = (s div 60 div 60 * 60 + (s div 60) mod 60) * 60"
    by (simp only: distrib_right mult.assoc)
  then show ?thesis by (simp only: div_mult_mod_eq)
qed

lemma instant_inj: "valid_tm t \<Longrightarrow> valid_tm u \<Longrightarrow> instant t = instant u \<Longrightarrow> t = (u :: tm)"
proof -
  assume v: "valid_tm t" "valid_tm u" and same: "instant t = instant u"
  have day: "tm_year t = tm_year u" "tm_mon t = tm_mon u" "tm_mday t = tm_mday u"
    using day_number_inverse [OF v(1)] day_number_inverse [OF v(2)] same by simp_all
  then have "day_number t = day_number u" by (simp add: day_number_def)
  then have tod: "time_of_day t = time_of_day u" using same by (simp add: instant_parts)
  note f = clock_fields [OF _ _ _ _ _ time_of_day_def]
  have "tm_hour t = tm_hour u" "tm_min t = tm_min u" "tm_sec t = tm_sec u"
    using f [of t] f [of u] v by (simp_all add: valid_tm_def tod)
  with day show ?thesis by (cases t; cases u) simp
qed

lemma day_number_bounds:
  assumes "valid_tm tm"
  shows "0 \<le> day_number tm" "day_number tm < 2 ^ 24"
proof -
  let ?y = "tm_year tm + 1900" and ?m = "tm_mon tm + 1" and ?d = "tm_mday tm"
  have v: "valid_date (?y, ?m, ?d)" "0 \<le> ?y" "?y \<le> 9999" using assms by (simp_all add: valid_tm_def)
  then show "0 \<le> day_number tm" using julian_year [of ?y ?m ?d] by (simp add: day_number_def)
  have m: "1 \<le> ?m" "?m \<le> 12" "?d \<le> 31" using v(1) by (auto simp: valid_date_def month_days_def split: if_splits)
  define y' m' where "y' = shift_year ?y ?m" and "m' = shift_month ?m"
  have "- 1 \<le> y'" "y' \<le> 9999" "m' \<le> 12" using v m by (auto simp: y'_def m'_def shift_year_def shift_month_def)
  then have "1461 * (y' + 4800) \<le> 4 * 5405335" "367 * m' \<le> 12 * 367" "0 \<le> 3 * ((y' + 4900) div 100)"
    by (simp_all add: pos_imp_zdiv_nonneg_iff)
  then have "(1461 * (y' + 4800)) div 4 \<le> 5405335" "(367 * m') div 12 \<le> 367" "0 \<le> (3 * ((y' + 4900) div 100)) div 4"
    using zdiv_mono1 [of "1461 * (y' + 4800)" "4 * 5405335" 4] zdiv_mono1 [of "367 * m'" "12 * 367" 12]
    by (auto simp only: pos_imp_zdiv_nonneg_iff)
  moreover have "day_number tm = (1461 * (y' + 4800)) div 4 + (367 * m') div 12 - (3 * ((y' + 4900) div 100)) div 4 + ?d - 32075"
    unfolding day_number_def y'_def m'_def by (rule julian_number_shifted) (use v m in simp_all)
  moreover have "A \<le> 5405335 \<Longrightarrow> B \<le> 367 \<Longrightarrow> 0 \<le> C \<Longrightarrow> D \<le> 31 \<Longrightarrow> A + B - C + D - 32075 < 2 ^ 24" for A B C D :: int by simp
  ultimately show "day_number tm < 2 ^ 24" using m(3) by (simp only:)
qed

lemma OPENSSL_gmtime_adj_exact:
  assumes tm: "valid_tm tm" and bounds: "\<bar>off_day\<bar> < 2 ^ 30" "\<bar>offset_sec\<bar> < 2 ^ 31"
  shows "\<exists>ok tm'. OPENSSL_gmtime_adj tm off_day offset_sec = Some (ok, tm') \<and>
   (if \<exists>u. valid_tm u \<and> 0 \<le> tm_year u \<and> instant u = instant tm + off_day * SECS_PER_DAY + offset_sec
    then ok = 1 \<and> valid_tm tm' \<and> 0 \<le> tm_year tm' \<and> instant tm' = instant tm + off_day * SECS_PER_DAY + offset_sec
    else ok = 0 \<and> tm' = tm)"
proof -
  define t where "t = instant tm + off_day * SECS_PER_DAY + offset_sec"
  have adj: "julian_adj tm off_day offset_sec = Some (if t < 0 then None else Some (t div SECS_PER_DAY, t mod SECS_PER_DAY))"
    using julian_adj_exact [OF tm bounds] by (simp add: t_def Let_def)
  have pos: "0 \<le> instant u" if "valid_tm u" for u
    using day_number_bounds [OF that] time_of_day_bounds [OF that] by (simp add: instant_parts SECS_PER_DAY_def)
  show ?thesis
  proof (cases "t < 0")
    case True
    then show ?thesis using adj pos by (force simp: OPENSSL_gmtime_adj_def t_def)
  next
    case False
    have "t < 2 ^ 31 * SECS_PER_DAY"
      using day_number_bounds(2) [OF tm] time_of_day_bounds [OF tm] bounds 
      by (simp add: t_def instant_parts SECS_PER_DAY_def abs_less_iff)
    then have "0 \<le> t div SECS_PER_DAY" "t div SECS_PER_DAY < 2 ^ 32" using False by (simp_all add: SECS_PER_DAY_def pos_imp_zdiv_nonneg_iff)
    then obtain y m d where date: "julian_to_date (t div SECS_PER_DAY) = (y, m, d)" "valid_date (y, m, d)" "julian_number y m d = t div SECS_PER_DAY"
      by (rule julian_to_date_onto)
    define s where "s = t mod SECS_PER_DAY"
    have s: "0 \<le> s" "s < SECS_PER_DAY" by (simp_all add: s_def SECS_PER_DAY_def)
    have code: "OPENSSL_gmtime_adj tm off_day offset_sec =
      Some (if y < 1900 \<or> y > 9999 then (0, tm)
       else (1, \<lparr>tm_year = y - 1900, tm_mon = m - 1, tm_mday = d, tm_hour = s sdiv 3600, tm_min = (s sdiv 60) smod 60, tm_sec = s smod 60\<rparr>))"
      using adj date False by (cases tm) (simp add: OPENSSL_gmtime_adj_def s_def Let_def)
    show ?thesis
    proof (cases "y < 1900 \<or> y > 9999")
      case True
      have "\<not> (valid_tm u \<and> 0 \<le> tm_year u \<and> instant u = t)" for u
        using day_number_inverse [of u] date(1) True by (auto simp: valid_tm_def)
      then show ?thesis using True by (simp add: code t_def)
    next
      case year: False
      define u where "u = \<lparr>tm_year = y - 1900, tm_mon = m - 1, tm_mday = d, tm_hour = s div 3600, tm_min = (s div 60) mod 60, tm_sec = s mod 60\<rparr>"
      have "valid_tm u" "0 \<le> tm_year u" using year s date(2) by (auto simp: u_def valid_tm_def SECS_PER_DAY_def pos_imp_zdiv_nonneg_iff)
      moreover have "instant u = t" using date(3) by (simp add: u_def instant_def s_def clock_join)
      moreover have "OPENSSL_gmtime_adj tm off_day offset_sec = Some (1, u)"
        using code year s(1) by (simp add: u_def sdiv_pos smod_pos pos_imp_zdiv_nonneg_iff)
      ultimately show ?thesis by (auto simp: t_def)
    qed
  qed
qed

text \<open>
  Claim C13. The calendar of certificate times. \<^verbatim>\<open>OPENSSL_gmtime_adj\<close> moves a time by exactly the given days and seconds, without an integer
  overflow: it returns the one valid time that lies that far away when there is one with a year from 1900 to 9999, and otherwise returns 0 and
  leaves the time as it was. \<^verbatim>\<open>date_to_julian\<close> numbers the days of the Gregorian calendar one after the other, with 2440588 for 1 January 1970,
  and \<^verbatim>\<open>julian_to_date\<close> is its inverse, for the years up to 1465072; from the year 1465074 on the computation in \<^verbatim>\<open>int\<close> overflows.
\<close>

theorem gmtime_adj_exact:
  assumes "valid_tm tm" and "\<bar>off_day\<bar> < 2 ^ 30" and "\<bar>offset_sec\<bar> < 2 ^ 31"
    and "0 \<le> y" and "y \<le> 1465072" and "valid_date (y, m, d)"
  shows "(\<exists>ok tm'. OPENSSL_gmtime_adj tm off_day offset_sec = Some (ok, tm') \<and>
      (if \<exists>u. valid_tm u \<and> 0 \<le> tm_year u \<and> instant u = instant tm + off_day * SECS_PER_DAY + offset_sec
       then ok = 1 \<and> valid_tm tm' \<and> 0 \<le> tm_year tm' \<and> instant tm' = instant tm + off_day * SECS_PER_DAY + offset_sec \<and>
         (\<forall>u. valid_tm u \<longrightarrow> instant u = instant tm' \<longrightarrow> u = tm')
       else ok = 0 \<and> tm' = tm)) \<and>
    (\<exists>n. date_to_julian y m d = Some n \<and> julian_to_date n = (y, m, d) \<and>
      (case next_day (y, m, d) of (y', m', d') \<Rightarrow> date_to_julian y' m' d' = Some (n + 1))) \<and>
    date_to_julian 1970 1 1 = Some 2440588 \<and>
    (1465074 \<le> y' \<and> 1 \<le> m' \<and> m' \<le> 12 \<longrightarrow> date_to_julian y' m' d' = None)"
proof (intro conjI impI)
  show "\<exists>ok tm'. OPENSSL_gmtime_adj tm off_day offset_sec = Some (ok, tm') \<and>
      (if \<exists>u. valid_tm u \<and> 0 \<le> tm_year u \<and> instant u = instant tm + off_day * SECS_PER_DAY + offset_sec
       then ok = 1 \<and> valid_tm tm' \<and> 0 \<le> tm_year tm' \<and> instant tm' = instant tm + off_day * SECS_PER_DAY + offset_sec \<and>
         (\<forall>u. valid_tm u \<longrightarrow> instant u = instant tm' \<longrightarrow> u = tm')
       else ok = 0 \<and> tm' = tm)"
    using OPENSSL_gmtime_adj_exact [OF assms(1-3)] instant_inj by (elim exE conjE) (auto split: if_splits)
  show "\<exists>n. date_to_julian y m d = Some n \<and> julian_to_date n = (y, m, d) \<and>
      (case next_day (y, m, d) of (y', m', d') \<Rightarrow> date_to_julian y' m' d' = Some (n + 1))"
  proof (intro exI conjI)
    have "shift_year y m \<le> 1465072" "1 \<le> m" "m \<le> 12" "1 \<le> d" "d \<le> 31"
      using assms(5,6) month_days_bounds(2) [of y m] by (auto simp: shift_year_def valid_date_def)
    then show "date_to_julian y m d = Some (julian_number y m d)" using assms(4) by (intro date_to_julian_fits) simp_all
    show "julian_to_date (julian_number y m d) = (y, m, d)" using assms(4-6) by (intro julian_to_date_inverse) simp_all
    obtain y' m' d' where n: "next_day (y, m, d) = (y', m', d')" by (metis prod_cases3)
    then have v: "valid_date (y', m', d')" using valid_next_day [OF assms(6)] by simp
    have "0 \<le> y'" "shift_year y' m' \<le> 1465072" using n assms(4,5) by (auto simp: next_day_def shift_year_def split: if_splits)
    moreover have "1 \<le> m'" "m' \<le> 12" "1 \<le> d'" "d' \<le> 31" using v month_days_bounds(2) [of y' m'] by (auto simp: valid_date_def)
    ultimately have "date_to_julian y' m' d' = Some (julian_number y' m' d')" by (intro date_to_julian_fits) simp_all
    then show "case next_day (y, m, d) of (y', m', d') \<Rightarrow> date_to_julian y' m' d' = Some (julian_number y m d + 1)"
      using julian_next_day [OF _ assms(6) n] assms(4) by (simp add: n)
  qed
  show "date_to_julian 1970 1 1 = Some 2440588" by (simp add: date_to_julian_def int_fits_def signed_divide_int_def)
  show "date_to_julian y' m' d' = None" if "1465074 \<le> y' \<and> 1 \<le> m' \<and> m' \<le> 12" using that by (intro date_to_julian_overflow) simp_all
qed

text \<open>One second before the year 2000, moved by a second, and the leap day of 2000.\<close>

definition last_second :: tm where
  "last_second = \<lparr>tm_year = 99, tm_mon = 11, tm_mday = 31, tm_hour = 23, tm_min = 59, tm_sec = 59\<rparr>"

theorem gmtime_adj_exact_witness:
  "OPENSSL_gmtime_adj last_second 0 1 = Some (1, \<lparr>tm_year = 100, tm_mon = 0, tm_mday = 1, tm_hour = 0, tm_min = 0, tm_sec = 0\<rparr>) \<and>
   (\<exists>n. date_to_julian 2000 2 29 = Some n \<and> julian_to_date n = (2000, 2, 29) \<and> date_to_julian 2000 3 1 = Some (n + 1)) \<and>
   date_to_julian 1465074 1 1 = None"
proof -
  let ?u = "\<lparr>tm_year = 100, tm_mon = 0, tm_mday = 1, tm_hour = 0, tm_min = 0, tm_sec = 0 :: int\<rparr>"
  have v: "valid_tm last_second" "valid_date (2000, 2, 29)"
    by (simp_all add: last_second_def valid_tm_def valid_date_def month_days_def leap_def)
  have u: "valid_tm ?u" "0 \<le> tm_year ?u" "instant ?u = instant last_second + 0 * SECS_PER_DAY + 1"
    by (simp_all add: valid_tm_def valid_date_def month_days_def instant_def last_second_def SECS_PER_DAY_def julian_number_def
        signed_divide_int_def)
  note all = gmtime_adj_exact [OF v(1) _ _ _ _ v(2), of 0 1 1465074 1 1]
  have "next_day (2000, 2, 29) = (2000, 3, 1)" by (simp add: next_day_def month_days_def leap_def)
  moreover have "OPENSSL_gmtime_adj last_second 0 1 = Some (1, ?u)"
    using all u by (auto split: if_splits)
  ultimately show ?thesis using all by auto
qed

end
