(* ===== verification/CertTime.thy ===== *)
theory CertTime
  imports Calendar Logger
begin

text \<open>
  Reading the times of certificates, \<^verbatim>\<open>asn1_time_to_tm\<close> of \<^verbatim>\<open>src/common/ca.cpp\<close> with the two formats UTCTime and GeneralizedTime. All calls pass
  the address of a local \<^verbatim>\<open>struct tm\<close>, so that the pointer is not null; its contents come in as an argument and go out with the result. The theory
  shows that reading stays inside of the buffer, which texts are read back, and what a time zone does to the result.
\<close>

section \<open>Times of ASN.1\<close>

text \<open>
  \<open>asn1_data\<close> is the memory from \<^verbatim>\<open>data\<close> on, which may be longer than \<open>asn1_length\<close>. Undefined behaviour is \<open>None\<close>: reading
  behind its end, or an integer overflow of \<^verbatim>\<open>OPENSSL_gmtime_adj\<close>. Inside, \<open>None\<close> as the result of a step is the jump to \<^verbatim>\<open>err\<close>.
\<close>

definition V_ASN1_UTCTIME :: nat where "V_ASN1_UTCTIME = 23"

definition V_ASN1_GENERALIZEDTIME :: nat where "V_ASN1_GENERALIZEDTIME = 24"

record ASN1_TIME =
  asn1_type :: nat
  asn1_length :: nat
  asn1_data :: bytes

definition read_at :: "bytes \<Rightarrow> nat \<Rightarrow> byte option" where
  "read_at a p = (if p < length a then Some (a ! p) else None)"

definition two_digits :: "bytes \<Rightarrow> nat \<Rightarrow> nat \<Rightarrow> (int \<times> nat) option option" where
  "two_digits a l p =
     Option.bind (read_at a p) (\<lambda>c.
       if \<not> IS_DIGIT c then Some None
       else let n = sint c - 48; p = p + 1
            in if p > l then Some None
               else Option.bind (read_at a p) (\<lambda>c.
                      if \<not> IS_DIGIT c then Some None
                      else let n = n * 10 + sint c - 48; p = p + 1
                           in if p > l then Some None else Some (Some (n, p))))"

text \<open>
  The loop over the fields of two digits is the same in both functions, up to the number of fields, the tables and the \<^verbatim>\<open>switch\<close>; so is the offset behind it.
\<close>

function time_fields :: "(nat \<Rightarrow> int \<Rightarrow> tm \<Rightarrow> tm) \<Rightarrow> int list \<Rightarrow> int list \<Rightarrow> nat \<Rightarrow> bytes \<Rightarrow> nat \<Rightarrow> nat \<Rightarrow> nat \<Rightarrow> tm \<Rightarrow> (tm \<times> nat option) option" where
  "time_fields set_field mins maxs count a l i p tm =
     (if i \<ge> count then Some (tm, Some p)
      else Option.bind (read_at a p) (\<lambda>c.
             if i = count - 1 \<and> (c = 90 \<or> c = 43 \<or> c = 45) then Some (tm\<lparr>tm_sec := 0\<rparr>, Some p)
             else Option.bind (two_digits a l p) (\<lambda>r.
                    case r of
                      None \<Rightarrow> Some (tm, None)
                    | Some (n, p) \<Rightarrow>
                        if n < mins ! i \<or> n > maxs ! i then Some (tm, None)
                        else time_fields set_field mins maxs count a l (i + 1) p (set_field i n tm))))"
  by auto
termination by (relation "measure (\<lambda>(s, mi, ma, n, a, l, i, p, tm). n - i)") auto

fun zone_fields :: "int list \<Rightarrow> int list \<Rightarrow> bytes \<Rightarrow> (nat \<times> int) list \<Rightarrow> int \<Rightarrow> nat \<Rightarrow> (int \<times> nat) option option" where
  "zone_fields mins maxs a [] offset p = Some (Some (offset, p))"
| "zone_fields mins maxs a ((i, unit) # fs) offset p =
     Option.bind (read_at a p) (\<lambda>c.
       if \<not> IS_DIGIT c then Some None
       else let n = sint c - 48; p = p + 1
            in Option.bind (read_at a p) (\<lambda>c.
                 if \<not> IS_DIGIT c then Some None
                 else let n = n * 10 + sint c - 48
                      in if n < mins ! i \<or> n > maxs ! i then Some None
                         else zone_fields mins maxs a fs (offset + n * unit) (p + 1)))"

definition time_zone :: "int list \<Rightarrow> int list \<Rightarrow> nat \<Rightarrow> bytes \<Rightarrow> nat \<Rightarrow> nat \<Rightarrow> byte \<Rightarrow> tm \<Rightarrow> (int \<times> tm) option" where
  "time_zone mins maxs i a l p c tm =
     (let offsign = (if c = 45 then -1 else 1); p = p + 1
      in if p + 4 > l then Some (0, tm)
         else Option.bind (zone_fields mins maxs a [(i, 3600), (i + 1, 60)] 0 p) (\<lambda>r.
                case r of
                  None \<Rightarrow> Some (0, tm)
                | Some (offset, p) \<Rightarrow>
                    if offset \<noteq> 0 then
                      Option.bind (OPENSSL_gmtime_adj tm 0 (offset * offsign))
                        (\<lambda>(ok, tm). if ok = 0 then Some (0, tm) else Some (if p = l then 1 else 0, tm))
                    else Some (if p = l then 1 else 0, tm)))"

definition utc_min :: "int list" where "utc_min = [0, 1, 1, 0, 0, 0, 0, 0]"

definition utc_max :: "int list" where "utc_max = [99, 12, 31, 23, 59, 59, 12, 59]"

definition utc_set :: "nat \<Rightarrow> int \<Rightarrow> tm \<Rightarrow> tm" where
  "utc_set i n tm =
     (if i = 0 then tm\<lparr>tm_year := (if n < 50 then n + 100 else n)\<rparr>
      else if i = 1 then tm\<lparr>tm_mon := n - 1\<rparr>
      else if i = 2 then tm\<lparr>tm_mday := n\<rparr>
      else if i = 3 then tm\<lparr>tm_hour := n\<rparr>
      else if i = 4 then tm\<lparr>tm_min := n\<rparr>
      else if i = 5 then tm\<lparr>tm_sec := n\<rparr> else tm)"

definition asn1_utctime_to_tm :: "tm \<Rightarrow> ASN1_TIME \<Rightarrow> (int \<times> tm) option" where
  "asn1_utctime_to_tm tm d =
     (if asn1_type d \<noteq> V_ASN1_UTCTIME then Some (0, tm)
      else let l = asn1_length d; a = asn1_data d
           in if l < 11 then Some (0, tm)
              else Option.bind (time_fields utc_set utc_min utc_max 6 a l 0 0 tm) (\<lambda>(tm, r).
                     case r of
                       None \<Rightarrow> Some (0, tm)
                     | Some p \<Rightarrow>
                         Option.bind (read_at a p) (\<lambda>c.
                           if c = 90 then Some (if p + 1 = l then 1 else 0, tm)
                           else if c = 43 \<or> c = 45 then time_zone utc_min utc_max 6 a l p c tm
                           else Some (if p = l then 1 else 0, tm))))"

definition gen_min :: "int list" where "gen_min = [0, 0, 1, 1, 0, 0, 0, 0, 0]"

definition gen_max :: "int list" where "gen_max = [99, 99, 12, 31, 23, 59, 59, 12, 59]"

definition gen_set :: "nat \<Rightarrow> int \<Rightarrow> tm \<Rightarrow> tm" where
  "gen_set i n tm =
     (if i = 0 then tm\<lparr>tm_year := n * 100 - 1900\<rparr>
      else if i = 1 then tm\<lparr>tm_year := tm_year tm + n\<rparr>
      else if i = 2 then tm\<lparr>tm_mon := n - 1\<rparr>
      else if i = 3 then tm\<lparr>tm_mday := n\<rparr>
      else if i = 4 then tm\<lparr>tm_hour := n\<rparr>
      else if i = 5 then tm\<lparr>tm_min := n\<rparr>
      else if i = 6 then tm\<lparr>tm_sec := n\<rparr> else tm)"

function skip_digits :: "bytes \<Rightarrow> nat \<Rightarrow> nat \<Rightarrow> nat option" where
  "skip_digits a l p =
     (case read_at a p of
        None \<Rightarrow> None
      | Some c \<Rightarrow> if IS_DIGIT c \<and> p \<le> l then skip_digits a l (p + 1) else Some p)"
  by auto
termination by (relation "measure (\<lambda>(a, l, p). length a - p)") (auto simp: read_at_def split: if_splits)

definition fraction :: "bytes \<Rightarrow> nat \<Rightarrow> nat \<Rightarrow> nat option option" where
  "fraction a l p =
     Option.bind (read_at a p) (\<lambda>c.
       if c = 46 then
         let p = p + 1
         in if p > l then Some None
            else Option.bind (skip_digits a l p) (\<lambda>p'. if p = p' then Some None else Some (Some p'))
       else Some (Some p))"

definition asn1_generalizedtime_to_tm :: "tm \<Rightarrow> ASN1_TIME \<Rightarrow> (int \<times> tm) option" where
  "asn1_generalizedtime_to_tm tm d =
     (if asn1_type d \<noteq> V_ASN1_GENERALIZEDTIME then Some (0, tm)
      else let l = asn1_length d; a = asn1_data d
           in if l < 13 then Some (0, tm)
              else Option.bind (time_fields gen_set gen_min gen_max 7 a l 0 0 tm) (\<lambda>(tm, r).
                     case r of
                       None \<Rightarrow> Some (0, tm)
                     | Some p \<Rightarrow>
                         Option.bind (fraction a l p) (\<lambda>r.
                           case r of
                             None \<Rightarrow> Some (0, tm)
                           | Some p \<Rightarrow>
                               Option.bind (read_at a p) (\<lambda>c.
                                 if c = 90 then Some (if p + 1 = l then 1 else 0, tm)
                                 else if c = 43 \<or> c = 45 then time_zone gen_min gen_max 7 a l p c tm
                                 else if c \<noteq> 0 then Some (0, tm)
                                 else Some (if p = l then 1 else 0, tm)))))"

text \<open>For a null pointer the result is the present time, as \<^verbatim>\<open>gmtime\<close> gives it.\<close>

definition asn1_time_to_tm :: "tm option \<Rightarrow> tm \<Rightarrow> ASN1_TIME option \<Rightarrow> (int \<times> tm) option" where
  "asn1_time_to_tm gmtime_now tm t =
     (case t of
        None \<Rightarrow> (case gmtime_now of None \<Rightarrow> Some (0, tm) | Some now \<Rightarrow> Some (1, now))
      | Some t \<Rightarrow>
          if asn1_type t = V_ASN1_UTCTIME then asn1_utctime_to_tm tm t
          else if asn1_type t = V_ASN1_GENERALIZEDTIME then asn1_generalizedtime_to_tm tm t
          else Some (0, tm))"

section \<open>Reading the texts back\<close>

declare time_fields.simps [simp del] skip_digits.simps [simp del]

lemma read_at_drop: "drop p a = c # ys \<Longrightarrow> read_at a p = Some c"
  using drop_bound [of p a c ys] by (auto simp: read_at_def) (metis hd_drop_conv_nth list.sel(1))

lemma fmt_zeros_2:
  assumes "0 \<le> v" "v < 100"
  obtains c c' where "fmt_zeros 2 v = [c, c']" "IS_DIGIT c" "IS_DIGIT c'" "(sint c - 48) * 10 + sint c' - 48 = v"
proof -
  have len: "length (fmt_zeros 2 v) = 2" using assms by (rule length_fmt_zeros)
  have r: "reads_as (fmt_zeros 2 v) v" using assms by (intro fmt_zeros_reads) simp_all
  obtain c u where "fmt_zeros 2 v = c # u" "length u = 1" using len by (cases "fmt_zeros 2 v") simp_all
  then obtain c' where t: "fmt_zeros 2 v = [c, c']" by (cases u) simp_all
  then have "IS_DIGIT c" "IS_DIGIT c'" "digits_value [c, c'] = v" using r by (simp_all add: reads_as_def)
  moreover from this have "sint c = uint c" "sint c' = uint c'" by (simp_all add: IS_DIGIT_iff sint_byte)
  ultimately show thesis using that t by (simp add: digits_value_def)
qed

lemma two_digits_text:
  assumes "drop p a = fmt_zeros 2 v @ ys" "0 \<le> v" "v < 100" "p + 2 \<le> l"
  shows "two_digits a l p = Some (Some (v, p + 2))"
proof -
  obtain c c' where c: "fmt_zeros 2 v = [c, c']" "IS_DIGIT c" "IS_DIGIT c'" "(sint c - 48) * 10 + sint c' - 48 = v"
    using assms(2,3) by (rule fmt_zeros_2)
  have d: "drop p a = c # c' # ys" using assms(1) c(1) by simp
  then show ?thesis
    using c assms(4) read_at_drop [OF d] read_at_drop [OF cursor_Suc [OF d]] by (simp add: two_digits_def Let_def)
qed

lemma digit_no_zone: "IS_DIGIT c \<Longrightarrow> c \<noteq> 90 \<and> c \<noteq> 43 \<and> c \<noteq> 45 \<and> c \<noteq> 46"
  by (auto simp: IS_DIGIT_iff)

lemma time_fields_step:
  assumes "drop p a = fmt_zeros 2 v @ ys" "0 \<le> v" "v < 100" "p + 2 \<le> l" "i < n" "mins ! i \<le> v" "v \<le> maxs ! i"
  shows "time_fields set_field mins maxs n a l i p tm = time_fields set_field mins maxs n a l (i + 1) (p + 2) (set_field i v tm)"
proof -
  obtain c c' where c: "fmt_zeros 2 v = [c, c']" "IS_DIGIT c" using assms(2,3) by (rule fmt_zeros_2)
  have "read_at a p = Some c" using assms(1) c(1) by (intro read_at_drop [of p a c "c' # ys"]) simp
  then show ?thesis
    using assms(4-7) two_digits_text [OF assms(1-4)] digit_no_zone [OF c(2)] by (simp add: time_fields.simps [of _ _ _ _ _ _ i p])
qed

lemma time_fields_text:
  assumes "drop p a = concat (map (fmt_zeros 2) vs) @ ys" "p + 2 * length vs \<le> l" "i + length vs \<le> n"
    and "list_all2 (\<lambda>v k. 0 \<le> v \<and> v < 100 \<and> mins ! k \<le> v \<and> v \<le> maxs ! k) vs [i..<i + length vs]"
  shows "time_fields set_field mins maxs n a l i p tm =
    time_fields set_field mins maxs n a l (i + length vs) (p + 2 * length vs) (fold (\<lambda>(k, v). set_field k v) (enumerate i vs) tm)"
  using assms
proof (induction vs arbitrary: i p tm)
  case (Cons v vs)
  have upt: "[i..<i + length (v # vs)] = i # [Suc i..<Suc i + length vs]" by (simp add: upt_rec)
  have v: "0 \<le> v" "v < 100" "mins ! i \<le> v" "v \<le> maxs ! i" using Cons.prems(4) unfolding upt by simp_all
  have d: "drop p a = fmt_zeros 2 v @ (concat (map (fmt_zeros 2) vs) @ ys)" using Cons.prems(1) by simp
  have "drop (p + 2) a = concat (map (fmt_zeros 2) vs) @ ys" using cursor [OF d] length_fmt_zeros [OF v(1,2)] by simp
  moreover have "list_all2 (\<lambda>v k. 0 \<le> v \<and> v < 100 \<and> mins ! k \<le> v \<and> v \<le> maxs ! k) vs [Suc i..<Suc i + length vs]"
    using Cons.prems(4) unfolding upt by simp
  moreover have "time_fields set_field mins maxs n a l i p tm = time_fields set_field mins maxs n a l (i + 1) (p + 2) (set_field i v tm)"
    using Cons.prems(2,3) by (intro time_fields_step [OF d v(1,2) _ _ v(3,4)]) simp_all
  ultimately show ?case using Cons.IH [of "p + 2" "Suc i" "set_field i v tm"] Cons.prems(2,3) by simp
qed simp

text \<open>The text of a time zone: none, \<^verbatim>\<open>Z\<close>, or a sign with hours and minutes.\<close>

datatype zone = NoZone | Zulu | Offset bool int int

fun zone_text :: "zone \<Rightarrow> bytes" where
  "zone_text NoZone = []"
| "zone_text Zulu = [90]"
| "zone_text (Offset west h m) = (if west then 45 else 43) # fmt_zeros 2 h @ fmt_zeros 2 m"

fun zone_shift :: "zone \<Rightarrow> int" where
  "zone_shift NoZone = 0"
| "zone_shift Zulu = 0"
| "zone_shift (Offset west h m) = (if west then - 1 else 1) * (h * 3600 + m * 60)"

fun zone_ok :: "zone \<Rightarrow> bool" where
  "zone_ok (Offset west h m) \<longleftrightarrow> 0 \<le> h \<and> h \<le> 12 \<and> 0 \<le> m \<and> m \<le> 59"
| "zone_ok _ \<longleftrightarrow> True"

definition shifted :: "tm \<Rightarrow> int \<Rightarrow> (int \<times> tm) option" where
  "shifted tm s = (if s = 0 then Some (1, tm) else OPENSSL_gmtime_adj tm 0 s)"

lemma zone_shift_bound: "zone_ok z \<Longrightarrow> \<bar>zone_shift z\<bar> < 2 ^ 31"
  by (cases z) (auto simp: abs_if)

lemma zone_fields_step:
  assumes "drop p a = fmt_zeros 2 v @ ys" "0 \<le> v" "v < 100" "mins ! i \<le> v" "v \<le> maxs ! i"
  shows "zone_fields mins maxs a ((i, u) # fs) off p = zone_fields mins maxs a fs (off + v * u) (p + 2)" "drop (p + 2) a = ys"
proof -
  obtain c c' where c: "fmt_zeros 2 v = [c, c']" "IS_DIGIT c" "IS_DIGIT c'" "(sint c - 48) * 10 + sint c' - 48 = v"
    using assms(2,3) by (rule fmt_zeros_2)
  have d: "drop p a = c # c' # ys" using assms(1) c(1) by simp
  show "zone_fields mins maxs a ((i, u) # fs) off p = zone_fields mins maxs a fs (off + v * u) (p + 2)"
    using c assms(4,5) read_at_drop [OF d] read_at_drop [OF cursor_Suc [OF d]] by (simp add: Let_def)
  show "drop (p + 2) a = ys" using cursor_Suc [OF cursor_Suc [OF d]] by simp
qed

lemma gmtime_adj_ok: "OPENSSL_gmtime_adj tm o' s = Some (ok, u) \<Longrightarrow> ok = 0 \<or> ok = 1"
  unfolding OPENSSL_gmtime_adj_def by (cases "julian_adj tm o' s") (auto simp: Let_def case_prod_beta split: option.splits if_splits)

lemma time_zone_text:
  assumes "drop p a = zone_text (Offset west h m) @ ys" "zone_ok (Offset west h m)"
    and "l = p + 5" "mins ! i = 0" "maxs ! i = 12" "mins ! (i + 1) = 0" "maxs ! (i + 1) = 59"
  shows "time_zone mins maxs i a l p (if west then 45 else 43) tm = shifted tm (zone_shift (Offset west h m))"
proof -
  have "drop (p + 1) a = fmt_zeros 2 h @ (fmt_zeros 2 m @ ys)" using cursor_Suc assms(1) by fastforce
  note h = zone_fields_step [OF this, of mins i maxs]
  have b: "0 \<le> h" "h < 100" "h \<le> 12" "0 \<le> m" "m < 100" "m \<le> 59" using assms(2) by simp_all
  have "drop (p + 1 + 2) a = fmt_zeros 2 m @ ys" using b assms(4,5) by (intro h(2)) simp_all
  note m = zone_fields_step [OF this, of mins "i + 1" maxs]
  have z: "zone_fields mins maxs a [(i, 3600), (i + 1, 60)] 0 (p + 1) = Some (Some (h * 3600 + m * 60, p + 5))"
    using b assms(4-7) by (subst h(1); (subst m(1))?) simp_all
  have "Option.bind (OPENSSL_gmtime_adj tm 0 s) (\<lambda>(ok, tm). if ok = 0 then Some (0, tm) else Some (1, tm)) = OPENSSL_gmtime_adj tm 0 s" for s
    using gmtime_adj_ok [of tm 0 s] by (cases "OPENSSL_gmtime_adj tm 0 s") auto
  then show ?thesis using z assms(3) by (auto simp: time_zone_def Let_def shifted_def mult.commute)
qed

text \<open>The fields of a text, with or without the seconds, and what stands behind them.\<close>

lemma time_fields_read:
  assumes "a = concat (map (fmt_zeros 2) (vs @ (if secs then [s] else []))) @ tail" "length vs + 1 = n"
    and "2 * length (vs @ (if secs then [s] else [])) \<le> l"
    and "\<not> secs \<Longrightarrow> tail \<noteq> [] \<and> hd tail \<in> {90, 43, 45}"
    and "list_all2 (\<lambda>v k. 0 \<le> v \<and> v < 100 \<and> mins ! k \<le> v \<and> v \<le> maxs ! k) (vs @ [s]) [0..<n]"
  shows "time_fields set_field mins maxs n a l 0 0 tm =
    (let u = fold (\<lambda>(k, v). set_field k v) (enumerate 0 vs) tm
     in Some (if secs then set_field (length vs) s u else u\<lparr>tm_sec := 0\<rparr>, Some (2 * length (vs @ (if secs then [s] else [])))))"
proof -
  let ?ws = "vs @ (if secs then [s] else [])"
  have "[0..<n] = [0..<length vs] @ [length vs]" using assms(2) by auto
  then have ranges: "list_all2 (\<lambda>v k. 0 \<le> v \<and> v < 100 \<and> mins ! k \<le> v \<and> v \<le> maxs ! k) ?ws [0..<0 + length ?ws]"
    using assms(5) by (auto simp: list_all2_append)
  have len: "length (concat (map (fmt_zeros 2) ?ws)) = 2 * length ?ws"
  proof -
    have "list_all (\<lambda>v. length (fmt_zeros 2 v) = 2) ?ws"
      using ranges length_fmt_zeros by (auto simp: list_all2_conv_all_nth list_all_length)
    then show ?thesis by (induction ?ws rule: rev_induct) (simp_all add: length_concat list_all_iff sum_list_triv comp_def cong: map_cong)
  qed
  have "time_fields set_field mins maxs n a l 0 0 tm = time_fields set_field mins maxs n a l (0 + length ?ws) (0 + 2 * length ?ws)
      (fold (\<lambda>(k, v). set_field k v) (enumerate 0 ?ws) tm)"
    using assms(1-3) ranges by (intro time_fields_text [where ys = tail]) simp_all
  also have "\<dots> = Some ((if secs then id else (\<lambda>u. u\<lparr>tm_sec := 0\<rparr>)) (fold (\<lambda>(k, v). set_field k v) (enumerate 0 ?ws) tm), Some (2 * length ?ws))"
  proof (cases secs)
    case True
    then show ?thesis using assms(2) by (simp add: time_fields.simps)
  next
    case False
    then have "tail = hd tail # tl tail" using assms(4) by simp
    then have "drop (2 * length vs) a = hd tail # tl tail" using assms(1) len False by simp
    then have "read_at a (2 * length vs) = Some (hd tail)" by (rule read_at_drop)
    then show ?thesis using False assms(2,4) by (simp add: time_fields.simps) auto
  qed
  finally show ?thesis by (simp add: Let_def enumerate_append_eq)
qed

definition utc_text :: "bool \<Rightarrow> tm \<Rightarrow> bytes" where
  "utc_text secs tm = concat (map (fmt_zeros 2)
     ([tm_year tm mod 100, tm_mon tm + 1, tm_mday tm, tm_hour tm, tm_min tm] @ (if secs then [tm_sec tm] else [])))"

definition gen_text :: "bool \<Rightarrow> tm \<Rightarrow> bytes" where
  "gen_text secs tm = concat (map (fmt_zeros 2)
     ([(tm_year tm + 1900) div 100, (tm_year tm + 1900) mod 100, tm_mon tm + 1, tm_mday tm, tm_hour tm, tm_min tm] @
      (if secs then [tm_sec tm] else [])))"

lemma valid_tm_ranges:
  assumes "valid_tm tm"
  shows "1 \<le> tm_mon tm + 1" "tm_mon tm + 1 \<le> 12" "1 \<le> tm_mday tm" "tm_mday tm \<le> 31" "0 \<le> tm_hour tm" "tm_hour tm \<le> 23"
    "0 \<le> tm_min tm" "tm_min tm \<le> 59" "0 \<le> tm_sec tm" "tm_sec tm \<le> 59"
  using assms month_days_bounds(2) [of "tm_year tm + 1900" "tm_mon tm + 1"] by (auto simp: valid_tm_def valid_date_def)

lemma zone_tail: "z \<noteq> NoZone \<Longrightarrow> zone_text z @ 0 # rest \<noteq> [] \<and> hd (zone_text z @ 0 # rest) \<in> {90, 43, 45}"
  by (cases z) auto

lemma utc_fields_read:
  assumes tm: "valid_tm tm" "50 \<le> tm_year tm" "tm_year tm < 150" and secs: "secs \<or> tm_sec tm = 0"
    and tail: "\<not> secs \<Longrightarrow> tail \<noteq> [] \<and> hd tail \<in> {90, 43, 45}" and l: "length (utc_text secs tm) \<le> l"
  shows "time_fields utc_set utc_min utc_max 6 (utc_text secs tm @ tail) l 0 0 tm0 = Some (tm, Some (length (utc_text secs tm)))"
    "length (utc_text secs tm) = (if secs then 12 else 10)"
proof -
  let ?vs = "[tm_year tm mod 100, tm_mon tm + 1, tm_mday tm, tm_hour tm, tm_min tm]"
  note r = valid_tm_ranges [OF tm(1)]
  show len: "length (utc_text secs tm) = (if secs then 12 else 10)"
    using r by (simp add: utc_text_def length_fmt_zeros)
  have l2: "2 * length (?vs @ (if secs then [tm_sec tm] else [])) \<le> l" using l len by (cases secs) simp_all
  have upt: "[0..<6] = [0, 1, 2, 3, 4, 5 :: nat]" by (simp add: upt_rec)
  have ranges: "list_all2 (\<lambda>v k. 0 \<le> v \<and> v < 100 \<and> utc_min ! k \<le> v \<and> v \<le> utc_max ! k) (?vs @ [tm_sec tm]) [0..<6]"
    using r unfolding upt by (simp add: utc_min_def utc_max_def)
  have year: "(if tm_year tm mod 100 < 50 then tm_year tm mod 100 + 100 else tm_year tm mod 100) = tm_year tm"
    using tm(2,3) by presburger
  have read_tm: "(if secs then utc_set (length ?vs) (tm_sec tm) (fold (\<lambda>(k, v). utc_set k v) (enumerate 0 ?vs) tm0)
      else (fold (\<lambda>(k, v). utc_set k v) (enumerate 0 ?vs) tm0)\<lparr>tm_sec := 0\<rparr>) = tm"
    using year secs by (cases tm; cases tm0) (auto simp: utc_set_def)
  have len': "2 * length (?vs @ (if secs then [tm_sec tm] else [])) = length (utc_text secs tm)" using len by (cases secs) simp_all
  have "time_fields utc_set utc_min utc_max 6 (utc_text secs tm @ tail) l 0 0 tm0 =
    (let u = fold (\<lambda>(k, v). utc_set k v) (enumerate 0 ?vs) tm0
     in Some (if secs then utc_set (length ?vs) (tm_sec tm) u else u\<lparr>tm_sec := 0\<rparr>, Some (2 * length (?vs @ (if secs then [tm_sec tm] else [])))))"
    by (rule time_fields_read [OF _ _ l2 tail ranges]) (simp_all add: utc_text_def)
  also have "\<dots> = Some (tm, Some (length (utc_text secs tm)))"
    unfolding Let_def read_tm len' ..
  finally show "time_fields utc_set utc_min utc_max 6 (utc_text secs tm @ tail) l 0 0 tm0 = Some (tm, Some (length (utc_text secs tm)))" .
qed

text \<open>The same for a GeneralizedTime, whose year has two fields.\<close>

lemma gen_set_all:
  assumes "a * 100 - 1900 + b = tm_year tm" "secs \<or> tm_sec tm = 0"
    and "vs = [a, b, tm_mon tm + 1, tm_mday tm, tm_hour tm, tm_min tm]"
  shows "(if secs then gen_set (length vs) (tm_sec tm) (fold (\<lambda>(k, v). gen_set k v) (enumerate 0 vs) tm0)
      else (fold (\<lambda>(k, v). gen_set k v) (enumerate 0 vs) tm0)\<lparr>tm_sec := 0\<rparr>) = tm"
  using assms by (cases tm; cases tm0; cases secs) (simp_all add: gen_set_def)

lemma gen_fields_read:
  assumes tm: "valid_tm tm" and secs: "secs \<or> tm_sec tm = 0"
    and tail: "\<not> secs \<Longrightarrow> tail \<noteq> [] \<and> hd tail \<in> {90, 43, 45}" and l: "length (gen_text secs tm) \<le> l"
  shows "time_fields gen_set gen_min gen_max 7 (gen_text secs tm @ tail) l 0 0 tm0 = Some (tm, Some (length (gen_text secs tm)))"
    "length (gen_text secs tm) = (if secs then 14 else 12)"
proof -
  let ?y = "tm_year tm + 1900"
  let ?vs = "[?y div 100, ?y mod 100, tm_mon tm + 1, tm_mday tm, tm_hour tm, tm_min tm]"
  note r = valid_tm_ranges [OF tm(1)]
  have "0 \<le> ?y" "?y < 100 * 100" using tm by (simp_all add: valid_tm_def)
  then have y: "0 \<le> ?y div 100" "?y div 100 < 100" by (simp_all add: pos_imp_zdiv_nonneg_iff)
  show len: "length (gen_text secs tm) = (if secs then 14 else 12)"
    using r y by (simp add: gen_text_def length_fmt_zeros)
  have l2: "2 * length (?vs @ (if secs then [tm_sec tm] else [])) \<le> l" using l len by (cases secs) simp_all
  have upt: "[0..<7] = [0, 1, 2, 3, 4, 5, 6 :: nat]" by (simp add: upt_rec)
  have ranges: "list_all2 (\<lambda>v k. 0 \<le> v \<and> v < 100 \<and> gen_min ! k \<le> v \<and> v \<le> gen_max ! k) (?vs @ [tm_sec tm]) [0..<7]"
    using r y unfolding upt by (simp add: gen_min_def gen_max_def)
  have year: "?y div 100 * 100 - 1900 + ?y mod 100 = tm_year tm"
  proof -
    have "a + b = ?y \<Longrightarrow> a - 1900 + b = tm_year tm" for a b by simp
    then show ?thesis by (simp only: div_mult_mod_eq)
  qed
  have read_tm: "(if secs then gen_set (length ?vs) (tm_sec tm) (fold (\<lambda>(k, v). gen_set k v) (enumerate 0 ?vs) tm0)
      else (fold (\<lambda>(k, v). gen_set k v) (enumerate 0 ?vs) tm0)\<lparr>tm_sec := 0\<rparr>) = tm"
    by (rule gen_set_all [OF year secs refl])
  have len': "2 * length (?vs @ (if secs then [tm_sec tm] else [])) = length (gen_text secs tm)" using len by (cases secs) simp_all
  have "time_fields gen_set gen_min gen_max 7 (gen_text secs tm @ tail) l 0 0 tm0 =
    (let u = fold (\<lambda>(k, v). gen_set k v) (enumerate 0 ?vs) tm0
     in Some (if secs then gen_set (length ?vs) (tm_sec tm) u else u\<lparr>tm_sec := 0\<rparr>, Some (2 * length (?vs @ (if secs then [tm_sec tm] else [])))))"
    by (rule time_fields_read [OF _ _ l2 tail ranges]) (simp_all add: gen_text_def)
  also have "\<dots> = Some (tm, Some (length (gen_text secs tm)))"
    unfolding Let_def read_tm len' ..
  finally show "time_fields gen_set gen_min gen_max 7 (gen_text secs tm @ tail) l 0 0 tm0 = Some (tm, Some (length (gen_text secs tm)))" .
qed

text \<open>Digits behind a decimal point are skipped.\<close>

lemma skip_digits_text:
  assumes "drop p a = ds @ c # ys" "list_all IS_DIGIT ds" "\<not> IS_DIGIT c" "p + length ds \<le> l"
  shows "skip_digits a l p = Some (p + length ds)"
  using assms
proof (induction ds arbitrary: p)
  case Nil
  then show ?case using read_at_drop [of p a c ys] by (simp add: skip_digits.simps [of a l p])
next
  case (Cons x ds)
  then have d: "drop p a = x # (ds @ c # ys)" by simp
  then show ?case
    using Cons.IH [of "Suc p"] Cons.prems read_at_drop [OF d] cursor_Suc [OF d] by (simp add: skip_digits.simps [of a l p])
qed

fun frac_ok :: "bytes \<Rightarrow> bool" where
  "frac_ok [] \<longleftrightarrow> True"
| "frac_ok (c # ds) \<longleftrightarrow> c = 46 \<and> ds \<noteq> [] \<and> list_all IS_DIGIT ds"

lemma zone_head:
  obtains c ys where "zone_text z @ 0 # rest = c # ys" "\<not> IS_DIGIT c" "c \<noteq> 46"
  by (cases z) (auto simp: IS_DIGIT_iff)

lemma fraction_text:
  assumes "drop p a = frac @ zone_text z @ 0 # rest" "frac_ok frac" "p + length frac \<le> l"
  shows "fraction a l p = Some (Some (p + length frac))"
proof -
  obtain c ys where c: "zone_text z @ 0 # rest = c # ys" "\<not> IS_DIGIT c" "c \<noteq> 46" by (rule zone_head)
  show ?thesis
  proof (cases frac)
    case Nil
    then show ?thesis using read_at_drop [of p a c ys] assms(1) c by (simp add: fraction_def)
  next
    case (Cons b ds)
    then have d: "drop p a = 46 # (ds @ c # ys)" "ds \<noteq> []" "list_all IS_DIGIT ds" using assms(1,2) c(1) by simp_all
    have "skip_digits a l (Suc p) = Some (Suc p + length ds)"
      using cursor_Suc [OF d(1)] d(3) c(2) assms(3) Cons by (intro skip_digits_text) simp_all
    then show ?thesis using read_at_drop [OF d(1)] d(2) assms(3) Cons by (simp add: fraction_def Let_def)
  qed
qed

text \<open>The whole texts.\<close>

lemma length_zone_text: "zone_ok z \<Longrightarrow> length (zone_text z) = (case z of NoZone \<Rightarrow> 0 | Zulu \<Rightarrow> 1 | Offset _ _ _ \<Rightarrow> 5)"
  by (cases z) (simp_all add: length_fmt_zeros)

lemma utctime_text:
  assumes tm: "valid_tm tm" "50 \<le> tm_year tm" "tm_year tm < 150" and secs: "secs \<or> tm_sec tm = 0 \<and> z \<noteq> NoZone" and z: "zone_ok z"
    and d: "asn1_type d = V_ASN1_UTCTIME" "asn1_data d = utc_text secs tm @ zone_text z @ 0 # rest"
      "asn1_length d = length (utc_text secs tm @ zone_text z)"
  shows "asn1_utctime_to_tm tm0 d = shifted tm (zone_shift z)"
proof -
  have "secs \<or> tm_sec tm = 0" using secs by blast
  note read = utc_fields_read [OF tm this, of "zone_text z @ 0 # rest" "asn1_length d"]
  let ?p = "length (utc_text secs tm)"
  have fields: "time_fields utc_set utc_min utc_max 6 (asn1_data d) (asn1_length d) 0 0 tm0 = Some (tm, Some ?p)"
    and p: "?p = (if secs then 12 else 10)"
    using read secs zone_tail [of z rest] d(2,3) by auto
  have drop: "drop ?p (asn1_data d) = zone_text z @ 0 # rest" using d(2) by simp
  have long: "\<not> asn1_length d < 11" using p d(3) length_zone_text [OF z] secs by (cases z) (auto split: if_splits)
  show ?thesis
  proof (cases z)
    case NoZone
    then show ?thesis using drop d fields long read_at_drop [of ?p "asn1_data d" 0 rest]
      by (simp add: asn1_utctime_to_tm_def Let_def shifted_def)
  next
    case Zulu
    then show ?thesis using drop d fields long read_at_drop [of ?p "asn1_data d" 90 "0 # rest"]
      by (simp add: asn1_utctime_to_tm_def Let_def shifted_def)
  next
    case (Offset west h m)
    have c: "read_at (asn1_data d) ?p = Some (if west then 45 else 43)" using drop Offset by (intro read_at_drop) simp
    have "time_zone utc_min utc_max 6 (asn1_data d) (asn1_length d) ?p (if west then 45 else 43) tm = shifted tm (zone_shift z)"
      unfolding Offset using drop z d(3) length_zone_text [OF z] Offset
      by (intro time_zone_text) (simp_all add: utc_min_def utc_max_def)
    then show ?thesis using c d(1) fields long by (auto simp: asn1_utctime_to_tm_def Let_def)
  qed
qed

lemma generalizedtime_text:
  assumes tm: "valid_tm tm" and secs: "secs \<or> tm_sec tm = 0 \<and> z \<noteq> NoZone \<and> frac = []" and z: "zone_ok z" and frac: "frac_ok frac"
    and d: "asn1_type d = V_ASN1_GENERALIZEDTIME" "asn1_data d = gen_text secs tm @ frac @ zone_text z @ 0 # rest"
      "asn1_length d = length (gen_text secs tm @ frac @ zone_text z)"
  shows "asn1_generalizedtime_to_tm tm0 d = shifted tm (zone_shift z)"
proof -
  have "secs \<or> tm_sec tm = 0" using secs by blast
  note read = gen_fields_read [OF tm this, of "frac @ zone_text z @ 0 # rest" "asn1_length d"]
  let ?p = "length (gen_text secs tm)" and ?q = "length (gen_text secs tm) + length frac"
  have fields: "time_fields gen_set gen_min gen_max 7 (asn1_data d) (asn1_length d) 0 0 tm0 = Some (tm, Some ?p)"
    and p: "?p = (if secs then 14 else 12)"
    using read secs zone_tail [of z rest] d(2,3) by auto
  have "drop ?p (asn1_data d) = frac @ zone_text z @ 0 # rest" using d(2) by simp
  then have fr: "fraction (asn1_data d) (asn1_length d) ?p = Some (Some ?q)" using frac d(3) by (intro fraction_text) simp_all
  have drop: "drop ?q (asn1_data d) = zone_text z @ 0 # rest" using d(2) by simp
  have long: "\<not> asn1_length d < 13" using p d(3) length_zone_text [OF z] secs by (cases z) (auto split: if_splits)
  show ?thesis
  proof (cases z)
    case NoZone
    then show ?thesis using drop d fields fr long read_at_drop [of ?q "asn1_data d" 0 rest]
      by (simp add: asn1_generalizedtime_to_tm_def Let_def shifted_def)
  next
    case Zulu
    then show ?thesis using drop d fields fr long read_at_drop [of ?q "asn1_data d" 90 "0 # rest"]
      by (simp add: asn1_generalizedtime_to_tm_def Let_def shifted_def)
  next
    case (Offset west h m)
    have c: "read_at (asn1_data d) ?q = Some (if west then 45 else 43)" using drop Offset by (intro read_at_drop) simp
    have "time_zone gen_min gen_max 7 (asn1_data d) (asn1_length d) ?q (if west then 45 else 43) tm = shifted tm (zone_shift z)"
      unfolding Offset using drop z d(3) length_zone_text [OF z] Offset
      by (intro time_zone_text) (simp_all add: gen_min_def gen_max_def)
    then show ?thesis using c d(1) fields fr long by (auto simp: asn1_generalizedtime_to_tm_def Let_def)
  qed
qed

section \<open>Reading stays in the buffer\<close>

definition terminated :: "ASN1_TIME \<Rightarrow> bool" where
  "terminated d \<longleftrightarrow> asn1_length d < length (asn1_data d) \<and> asn1_data d ! asn1_length d = 0"

lemma read_at_safe: "p < length a \<Longrightarrow> read_at a p = Some (a ! p)"
  by (simp add: read_at_def)

lemma two_digits_safe: "p \<le> l \<Longrightarrow> l < length a \<Longrightarrow> \<exists>r. two_digits a l p = Some r \<and> (\<forall>n q. r = Some (n, q) \<longrightarrow> q \<le> l)"
  by (auto simp: two_digits_def read_at_safe Let_def)

lemma time_fields_safe:
  "p \<le> l \<Longrightarrow> l < length a \<Longrightarrow> \<exists>u r. time_fields sf mins maxs n a l i p tm = Some (u, r) \<and> (\<forall>q. r = Some q \<longrightarrow> q \<le> l)"
proof (induction sf mins maxs n a l i p tm rule: time_fields.induct)
  case (1 sf mins maxs n a l i p tm)
  obtain r where r: "two_digits a l p = Some r" "\<forall>n q. r = Some (n, q) \<longrightarrow> q \<le> l" using two_digits_safe [OF 1(2,3)] by blast
  show ?case using 1 r by (subst time_fields.simps) (auto simp: read_at_safe split: option.split)
qed

lemma zone_fields_safe: "p + 2 * length fs \<le> length a \<Longrightarrow> \<exists>r. zone_fields mins maxs a fs off p = Some r"
  by (induction mins maxs a fs off p rule: zone_fields.induct) (auto simp: read_at_safe Let_def)

text \<open>The offset of a time zone is at most 12 hours and 59 minutes.\<close>

lemma zone_fields_taken:
  assumes "zone_fields mins maxs a ((i, unit) # fs) offset p = Some (Some (r, q))"
  obtains n p' where "mins ! i \<le> n" "n \<le> maxs ! i" "zone_fields mins maxs a fs (offset + n * unit) p' = Some (Some (r, q))"
  using assms unfolding zone_fields.simps Let_def by (auto simp only: bind_eq_Some_conv split: if_split_asm) (simp_all add: not_less)

lemma zone_fields_bound:
  assumes "zone_fields mins maxs a [(i, 3600), (i + 1, 60)] 0 p = Some (Some (offset, q))"
    and "mins ! i = 0" "maxs ! i = 12" "mins ! (i + 1) = 0" "maxs ! (i + 1) = 59"
  shows "0 \<le> offset \<and> offset \<le> 46740"
proof -
  obtain h p' where h: "0 \<le> h" "h \<le> 12" "zone_fields mins maxs a [(i + 1, 60)] (0 + h * 3600) p' = Some (Some (offset, q))"
    by (rule zone_fields_taken [OF assms(1)]) (simp only: assms(2,3))
  obtain m p' where "0 \<le> m" "m \<le> 59" "zone_fields mins maxs a [] (0 + h * 3600 + m * 60) p' = Some (Some (offset, q))"
    by (rule zone_fields_taken [OF h(3)]) (simp only: assms(4,5))
  then show ?thesis using h(1,2) by simp
qed

lemma time_zone_safe:
  assumes "p \<le> l" "l < length a" and tm: "tm_ranges tm"
    and tables: "mins ! i = 0" "maxs ! i = 12" "mins ! (i + 1) = 0" "maxs ! (i + 1) = 59"
  shows "\<exists>r. time_zone mins maxs i a l p c tm = Some r"
proof (cases "p + 1 + 4 > l")
  case False
  then obtain r where r: "zone_fields mins maxs a [(i, 3600), (i + 1, 60)] 0 (p + 1) = Some r"
    using zone_fields_safe [of "p + 1" "[(i, 3600), (i + 1, 60)]" a mins maxs 0] assms(2) by auto
  have adj: "\<exists>ok u. OPENSSL_gmtime_adj tm 0 (offset * (if c = 45 then -1 else 1)) = Some (ok, u)" if "r = Some (offset, q)" for offset q
  proof -
    have "0 \<le> offset \<and> offset \<le> 46740" using zone_fields_bound [OF _ tables] r that by blast
    then have "\<bar>0 :: int\<bar> < 2 ^ 30" "\<bar>offset * (if c = 45 then -1 else 1)\<bar> < 2 ^ 31" by (simp_all add: abs_if)
    from gmtime_adj_defined [OF tm this] show ?thesis by blast
  qed
  show ?thesis using False r adj by (cases r) (fastforce simp: time_zone_def Let_def simp del: zone_fields.simps)+
qed (simp add: time_zone_def Let_def)

lemma time_fields_taken:
  assumes "time_fields sf mins maxs n a l i p tm = Some (u, Some q)" and "i < n"
  obtains (sec) "Suc i = n" "u = tm\<lparr>tm_sec := 0\<rparr>"
    | (field) v p' where "mins ! i \<le> v" "v \<le> maxs ! i" "time_fields sf mins maxs n a l (Suc i) p' (sf i v tm) = Some (u, Some q)"
proof -
  obtain c where c: "read_at a p = Some c"
    using assms time_fields.simps [of sf mins maxs n a l i p tm] by (cases "read_at a p") simp_all
  note run = assms(1) [unfolded time_fields.simps [of sf mins maxs n a l i p tm] c]
  show thesis
  proof (cases "i = n - 1 \<and> (c = 90 \<or> c = 43 \<or> c = 45)")
    case True
    then show thesis using run assms(2) by (intro that(1)) simp_all
  next
    case False
    then obtain r where "two_digits a l p = Some (Some r)" using run assms(2) by (cases "two_digits a l p") (auto split: option.splits)
    moreover obtain v p' where "r = (v, p')" by (cases r)
    ultimately show thesis using run assms(2) False by (intro that(2) [of v p']) (auto split: if_splits)
  qed
qed

text \<open>When the fields have been read, an invariant of the fields read so far holds for all of them.\<close>

lemma time_fields_invariant:
  assumes "time_fields sf mins maxs n a l i p tm = Some (u, Some q)" and "Q i tm" and "i \<le> n"
    and set: "\<And>k v tm. k < n \<Longrightarrow> Q k tm \<Longrightarrow> mins ! k \<le> v \<Longrightarrow> v \<le> maxs ! k \<Longrightarrow> Q (Suc k) (sf k v tm)"
    and sec: "\<And>k tm. Suc k = n \<Longrightarrow> Q k tm \<Longrightarrow> Q n (tm\<lparr>tm_sec := 0\<rparr>)"
  shows "Q n u"
  using assms(1-3)
proof (induction "n - i" arbitrary: i p tm)
  case 0
  then show ?case by (simp add: time_fields.simps)
next
  case (Suc m)
  then have i: "i < n" by simp
  from Suc.prems(1) i show ?case
  proof (cases rule: time_fields_taken)
    case sec
    then show ?thesis using assms(5) [of i tm] Suc.prems(2) by simp
  next
    case (field v p')
    then show ?thesis using Suc.hyps(1) [of "Suc i"] Suc.hyps(2) set [OF i Suc.prems(2)] i by simp
  qed
qed

definition utc_read :: "nat \<Rightarrow> tm \<Rightarrow> bool" where
  "utc_read i tm \<longleftrightarrow> (i > 0 \<longrightarrow> -1900 \<le> tm_year tm \<and> tm_year tm \<le> 8099) \<and> (i > 1 \<longrightarrow> 0 \<le> tm_mon tm \<and> tm_mon tm \<le> 11) \<and>
     (i > 2 \<longrightarrow> 1 \<le> tm_mday tm \<and> tm_mday tm \<le> 31) \<and> (i > 3 \<longrightarrow> 0 \<le> tm_hour tm \<and> tm_hour tm < 24) \<and>
     (i > 4 \<longrightarrow> 0 \<le> tm_min tm \<and> tm_min tm < 60) \<and> (i > 5 \<longrightarrow> 0 \<le> tm_sec tm \<and> tm_sec tm < 60)"

definition gen_read :: "nat \<Rightarrow> tm \<Rightarrow> bool" where
  "gen_read i tm \<longleftrightarrow> (i > 0 \<longrightarrow> -1900 \<le> tm_year tm \<and> tm_year tm \<le> (if i = 1 then 8000 else 8099)) \<and> utc_read (i - 1) tm"

lemma less_6_cases: "k < 6 \<Longrightarrow> k = 0 \<or> k = 1 \<or> k = 2 \<or> k = 3 \<or> k = 4 \<or> k = (5 :: nat)"
  by linarith

lemma less_7_cases: "k < 7 \<Longrightarrow> k = 0 \<or> k = 1 \<or> k = 2 \<or> k = 3 \<or> k = 4 \<or> k = 5 \<or> k = (6 :: nat)"
  by linarith

lemma utc_read_step:
  assumes "k < 6" "utc_read k tm" "utc_min ! k \<le> v" "v \<le> utc_max ! k"
  shows "utc_read (Suc k) (utc_set k v tm)"
proof -
  consider "k = 0" | "k = 1" | "k = 2" | "k = 3" | "k = 4" | "k = 5" using less_6_cases [OF assms(1)] by blast
  then show ?thesis
    by cases (use assms(2-) in \<open>simp_all add: utc_read_def utc_set_def utc_min_def utc_max_def\<close>)
qed

lemma gen_read_step:
  assumes "k < 7" "gen_read k tm" "gen_min ! k \<le> v" "v \<le> gen_max ! k"
  shows "gen_read (Suc k) (gen_set k v tm)"
proof -
  consider "k = 0" | "k = 1" | "k = 2" | "k = 3" | "k = 4" | "k = 5" | "k = 6" using less_7_cases [OF assms(1)] by blast
  then show ?thesis
    by cases (use assms(2-) in \<open>simp_all add: gen_read_def utc_read_def gen_set_def gen_min_def gen_max_def\<close>)
qed

lemma utc_fields_ranges:
  assumes "time_fields utc_set utc_min utc_max 6 a l 0 0 tm = Some (u, Some q)"
  shows "tm_ranges u"
proof -
  have "utc_read 6 u"
  proof (rule time_fields_invariant [OF assms])
    show "utc_read (Suc k) (utc_set k v tm)"
      if "k < 6" "utc_read k tm" "utc_min ! k \<le> v" "v \<le> utc_max ! k" for k v and tm :: tm
      using that by (rule utc_read_step)
    show "utc_read 6 (tm\<lparr>tm_sec := 0\<rparr>)" if "Suc k = 6" "utc_read k tm" for k and tm :: tm
      using that by (simp add: utc_read_def)
  qed (simp_all add: utc_read_def)
  then show ?thesis by (simp add: utc_read_def tm_ranges_def)
qed

lemma gen_fields_ranges:
  assumes "time_fields gen_set gen_min gen_max 7 a l 0 0 tm = Some (u, Some q)"
  shows "tm_ranges u"
proof -
  have "gen_read 7 u"
  proof (rule time_fields_invariant [OF assms])
    show "gen_read (Suc k) (gen_set k v tm)"
      if "k < 7" "gen_read k tm" "gen_min ! k \<le> v" "v \<le> gen_max ! k" for k v and tm :: tm
      using that by (rule gen_read_step)
    show "gen_read 7 (tm\<lparr>tm_sec := 0\<rparr>)" if "Suc k = 7" "gen_read k tm" for k and tm :: tm
      using that by (simp add: gen_read_def utc_read_def)
  qed (simp_all add: gen_read_def utc_read_def)
  then show ?thesis by (simp add: gen_read_def utc_read_def tm_ranges_def)
qed

lemma skip_digits_safe: "p \<le> l \<Longrightarrow> l < length a \<Longrightarrow> a ! l = 0 \<Longrightarrow> \<exists>q \<le> l. skip_digits a l p = Some q"
proof (induction a l p rule: skip_digits.induct)
  case (1 a l p)
  show ?case
  proof (cases "IS_DIGIT (a ! p)")
    case True
    then have "p + 1 \<le> l" using 1(2,4) by (cases "p = l") simp_all
    then show ?thesis using 1 True by (subst skip_digits.simps) (simp add: read_at_safe)
  next
    case False
    then show ?thesis using 1 by (subst skip_digits.simps) (simp add: read_at_safe)
  qed
qed

lemma fraction_safe: "p \<le> l \<Longrightarrow> l < length a \<Longrightarrow> a ! l = 0 \<Longrightarrow> \<exists>r. fraction a l p = Some r \<and> (\<forall>q. r = Some q \<longrightarrow> q \<le> l)"
  using skip_digits_safe [of "Suc p" l a] by (auto simp: fraction_def read_at_safe Let_def)

lemma utctime_safe: "terminated d \<Longrightarrow> asn1_utctime_to_tm tm d \<noteq> None"
proof -
  assume d: "terminated d"
  let ?a = "asn1_data d" and ?l = "asn1_length d"
  obtain u r where f: "time_fields utc_set utc_min utc_max 6 ?a ?l 0 0 tm = Some (u, r)" "\<forall>q. r = Some q \<longrightarrow> q \<le> ?l"
    using time_fields_safe [of 0 ?l ?a utc_set utc_min utc_max 6 0 tm] d by (auto simp: terminated_def)
  show ?thesis
  proof (cases r)
    case None
    then show ?thesis using f by (simp add: asn1_utctime_to_tm_def Let_def)
  next
    case (Some p)
    then have p: "p \<le> ?l" "?l < length ?a" using f(2) d by (auto simp: terminated_def)
    have "tm_ranges u" using utc_fields_ranges f(1) Some by blast
    then have "\<exists>r. time_zone utc_min utc_max 6 ?a ?l p c u = Some r" for c
      by (intro time_zone_safe [OF p]) (simp_all add: utc_min_def utc_max_def)
    then have "time_zone utc_min utc_max 6 ?a ?l p c u \<noteq> None" for c by simp
    then show ?thesis using f(1) Some p by (simp add: asn1_utctime_to_tm_def Let_def read_at_safe)
  qed
qed

lemma generalizedtime_safe: "terminated d \<Longrightarrow> asn1_generalizedtime_to_tm tm d \<noteq> None"
proof -
  assume d: "terminated d"
  let ?a = "asn1_data d" and ?l = "asn1_length d"
  obtain u r where f: "time_fields gen_set gen_min gen_max 7 ?a ?l 0 0 tm = Some (u, r)" "\<forall>q. r = Some q \<longrightarrow> q \<le> ?l"
    using time_fields_safe [of 0 ?l ?a gen_set gen_min gen_max 7 0 tm] d by (auto simp: terminated_def)
  show ?thesis
  proof (cases r)
    case None
    then show ?thesis using f by (simp add: asn1_generalizedtime_to_tm_def Let_def)
  next
    case (Some p)
    then obtain r' where r': "fraction ?a ?l p = Some r'" "\<forall>q. r' = Some q \<longrightarrow> q \<le> ?l"
      using fraction_safe [of p ?l ?a] f(2) d by (auto simp: terminated_def)
    have l: "?l < length ?a" using d by (simp add: terminated_def)
    have u: "tm_ranges u" using gen_fields_ranges f(1) Some by blast
    have "\<exists>r. time_zone gen_min gen_max 7 ?a ?l q c u = Some r" if "q \<le> ?l" for q c
      by (intro time_zone_safe [OF that l u]) (simp_all add: gen_min_def gen_max_def)
    then have zone: "time_zone gen_min gen_max 7 ?a ?l q c u \<noteq> None" if "q \<le> ?l" for q c using that by fastforce
    show ?thesis
    proof (cases r')
      case None
      then show ?thesis using f(1) Some r'(1) by (simp add: asn1_generalizedtime_to_tm_def Let_def)
    next
      case (Some q)
      then have "q \<le> ?l" using r'(2) by simp
      then show ?thesis using f(1) r'(1) \<open>r = Some p\<close> Some l zone by (simp add: asn1_generalizedtime_to_tm_def Let_def read_at_safe)
    qed
  qed
qed

section \<open>What the texts denote\<close>

text \<open>
  \<open>denotes d tm z\<close>: the text of \<open>d\<close> is one of the forms of UTCTime or GeneralizedTime for the clock reading \<open>tm\<close> in the time zone \<open>z\<close>: seconds
  may be left out when they are zero and a time zone follows, a GeneralizedTime may have a fraction behind the seconds. A zone with \<open>+\<close> is ahead
  of universal time, so that the moment meant is \<open>instant tm - zone_shift z\<close>.
\<close>

definition utc_form :: "ASN1_TIME \<Rightarrow> tm \<Rightarrow> zone \<Rightarrow> bool \<Rightarrow> bytes \<Rightarrow> bool" where
  "utc_form d tm z secs rest \<longleftrightarrow> asn1_type d = V_ASN1_UTCTIME \<and> 50 \<le> tm_year tm \<and> tm_year tm < 150 \<and>
     (secs \<or> tm_sec tm = 0 \<and> z \<noteq> NoZone) \<and> asn1_data d = utc_text secs tm @ zone_text z @ 0 # rest \<and>
     asn1_length d = length (utc_text secs tm @ zone_text z)"

definition gen_form :: "ASN1_TIME \<Rightarrow> tm \<Rightarrow> zone \<Rightarrow> bool \<Rightarrow> bytes \<Rightarrow> bytes \<Rightarrow> bool" where
  "gen_form d tm z secs frac rest \<longleftrightarrow> asn1_type d = V_ASN1_GENERALIZEDTIME \<and> frac_ok frac \<and>
     (secs \<or> tm_sec tm = 0 \<and> z \<noteq> NoZone \<and> frac = []) \<and> asn1_data d = gen_text secs tm @ frac @ zone_text z @ 0 # rest \<and>
     asn1_length d = length (gen_text secs tm @ frac @ zone_text z)"

definition denotes :: "ASN1_TIME \<Rightarrow> tm \<Rightarrow> zone \<Rightarrow> bool" where
  "denotes d tm z \<longleftrightarrow> valid_tm tm \<and> zone_ok z \<and>
     ((\<exists>secs rest. utc_form d tm z secs rest) \<or> (\<exists>secs frac rest. gen_form d tm z secs frac rest))"

lemma asn1_time_denotes:
  assumes "denotes d tm z"
  shows "asn1_time_to_tm now tm0 (Some d) = shifted tm (zone_shift z)"
  using assms unfolding denotes_def
proof (elim conjE disjE exE)
  fix secs rest
  assume "valid_tm tm" "zone_ok z" "utc_form d tm z secs rest"
  then show ?thesis using utctime_text [of tm secs z d rest tm0] by (simp add: utc_form_def asn1_time_to_tm_def)
next
  fix secs frac rest
  assume "valid_tm tm" "zone_ok z" "gen_form d tm z secs frac rest"
  then show ?thesis using generalizedtime_text [of tm secs z frac d rest tm0]
    by (simp add: gen_form_def asn1_time_to_tm_def V_ASN1_UTCTIME_def V_ASN1_GENERALIZEDTIME_def)
qed

text \<open>
  Claim C15. Reading a time of a certificate: on a buffer that ends with a zero byte \<^verbatim>\<open>asn1_time_to_tm\<close> never reads outside of it, and no integer overflows. A text without a time
  zone, with \<^verbatim>\<open>Z\<close> or with a zero offset is read back exactly as its clock reading. With an offset the result is the clock reading moved by the
  offset, when its year is from 1900 to 9999 (otherwise the time is refused and the clock reading is left): the offset is added, so that the result
  lies twice the offset away from the moment that the text denotes.
\<close>

theorem asn1_time_read:
  assumes "denotes d tm z"
  shows "(terminated d' \<longrightarrow> asn1_time_to_tm now tm0 (Some d') \<noteq> None) \<and>
    (zone_shift z = 0 \<longrightarrow> asn1_time_to_tm now tm0 (Some d) = Some (1, tm)) \<and>
    (zone_shift z \<noteq> 0 \<longrightarrow>
      (\<exists>ok tm'. asn1_time_to_tm now tm0 (Some d) = Some (ok, tm') \<and>
        (if \<exists>u. valid_tm u \<and> 0 \<le> tm_year u \<and> instant u = instant tm + zone_shift z
         then ok = 1 \<and> valid_tm tm' \<and> instant tm' = (instant tm - zone_shift z) + 2 * zone_shift z
         else ok = 0 \<and> tm' = tm)))"
proof (intro conjI impI)
  assume "terminated d'"
  then show "asn1_time_to_tm now tm0 (Some d') \<noteq> None"
    using utctime_safe [of d' tm0] generalizedtime_safe [of d' tm0] by (simp add: asn1_time_to_tm_def)
next
  assume "zone_shift z = 0"
  then show "asn1_time_to_tm now tm0 (Some d) = Some (1, tm)" using asn1_time_denotes [OF assms] by (simp add: shifted_def)
next
  assume "zone_shift z \<noteq> 0"
  then have "asn1_time_to_tm now tm0 (Some d) = OPENSSL_gmtime_adj tm 0 (zone_shift z)"
    using asn1_time_denotes [OF assms] by (simp add: shifted_def)
  moreover have "valid_tm tm" "\<bar>zone_shift z\<bar> < 2 ^ 31" using assms zone_shift_bound [of z] by (simp_all add: denotes_def)
  then obtain ok tm' where adj: "OPENSSL_gmtime_adj tm 0 (zone_shift z) = Some (ok, tm')"
    by (elim gmtime_adj_defined [of tm 0 "zone_shift z", OF valid_tm_in_ranges, rotated 2]) simp_all
  moreover have "if \<exists>u. valid_tm u \<and> 0 \<le> tm_year u \<and> instant u = instant tm + zone_shift z
      then ok = 1 \<and> valid_tm tm' \<and> instant tm' = (instant tm - zone_shift z) + 2 * zone_shift z else ok = 0 \<and> tm' = tm"
    using OPENSSL_gmtime_adj_exact [of tm 0 "zone_shift z"] adj \<open>valid_tm tm\<close> \<open>\<bar>zone_shift z\<bar> < 2 ^ 31\<close> by (simp split: if_splits)
  ultimately show "\<exists>ok tm'. asn1_time_to_tm now tm0 (Some d) = Some (ok, tm') \<and>
      (if \<exists>u. valid_tm u \<and> 0 \<le> tm_year u \<and> instant u = instant tm + zone_shift z
       then ok = 1 \<and> valid_tm tm' \<and> instant tm' = (instant tm - zone_shift z) + 2 * zone_shift z else ok = 0 \<and> tm' = tm)"
    by simp
qed

text \<open>A quarter past eight on the evening of the leap day of 2024, eight hours ahead of universal time.\<close>

definition eve :: tm where
  "eve = \<lparr>tm_year = 124, tm_mon = 1, tm_mday = 29, tm_hour = 20, tm_min = 15, tm_sec = 0\<rparr>"

definition eve_text :: ASN1_TIME where
  "eve_text = \<lparr>asn1_type = 23, asn1_length = 15, asn1_data = utc_text False eve @ zone_text (Offset False 8 0) @ [0]\<rparr>"

lemma valid_eve: "valid_tm eve"
  by (simp add: eve_def valid_tm_def valid_date_def month_days_def leap_def)

lemma denotes_eve: "denotes eve_text eve (Offset False 8 0)"
proof -
  have "length (utc_text False eve) = 10" by (simp add: utc_text_def eve_def length_fmt_zeros)
  then have "utc_form eve_text eve (Offset False 8 0) False []"
    by (simp add: utc_form_def eve_text_def V_ASN1_UTCTIME_def eve_def length_fmt_zeros)
  then show ?thesis using valid_eve by (auto simp: denotes_def)
qed

theorem asn1_time_read_witness:
  "asn1_time_to_tm None eve (Some eve_text) =
     Some (1, \<lparr>tm_year = 124, tm_mon = 2, tm_mday = 1, tm_hour = 4, tm_min = 15, tm_sec = 0\<rparr>)"
proof -
  let ?u = "\<lparr>tm_year = 124, tm_mon = 2, tm_mday = 1, tm_hour = 4, tm_min = 15, tm_sec = 0 :: int\<rparr>"
  have u: "valid_tm ?u" "0 \<le> tm_year ?u" "instant ?u = instant eve + zone_shift (Offset False 8 0)"
    by (simp_all add: valid_tm_def valid_date_def month_days_def instant_def eve_def SECS_PER_DAY_def julian_number_def signed_divide_int_def)
  have "zone_shift (Offset False 8 0) \<noteq> 0" by simp
  then obtain ok tm' where read: "asn1_time_to_tm None eve (Some eve_text) = Some (ok, tm')"
    and r: "if \<exists>u. valid_tm u \<and> 0 \<le> tm_year u \<and> instant u = instant eve + zone_shift (Offset False 8 0)
      then ok = 1 \<and> valid_tm tm' \<and>
        instant tm' = (instant eve - zone_shift (Offset False 8 0)) + 2 * zone_shift (Offset False 8 0)
      else ok = 0 \<and> tm' = eve"
    using asn1_time_read [OF denotes_eve, of eve_text None eve] by blast
  have "\<exists>u. valid_tm u \<and> 0 \<le> tm_year u \<and> instant u = instant eve + zone_shift (Offset False 8 0)" using u by blast
  then have "ok = 1" "valid_tm tm'" "instant tm' = instant ?u" using r u(3) by (simp_all only: if_True)
  then show ?thesis using read instant_inj [OF _ u(1)] by simp
qed

end
