(* ===== verification/RootCert.thy ===== *)
theory RootCert
  imports CertTime Crypto
begin

text \<open>
  Root certificates in \<^verbatim>\<open>src/common/ca.cpp\<close>: \<^verbatim>\<open>CheckCertValidity\<close>, \<^verbatim>\<open>GetExtensionData\<close>, \<^verbatim>\<open>GetRootCode\<close>, \<^verbatim>\<open>mkRootCode\<close>, \<^verbatim>\<open>CheckRootCert\<close> on a certificate
  handle and the code that \<^verbatim>\<open>mkRoot\<close> writes. The certificate and OpenSSL's functions on it are a record of parameters, the digest is the class
  \<^verbatim>\<open>Sha256\<close> over its library. The theory shows which certificates are accepted and what the texts of their times mean.
\<close>

section \<open>The validity of a certificate\<close>

text \<open>
  A failure is the message written to \<^verbatim>\<open>out_msg\<close>, a read outside of a buffer or a write behind its end. \<open>X509_NAME_text\<close> is the entry of the
  subject with the given identifier, \<open>X509_get_ext\<close> the memory from the data of an extension on, with nothing inside for an extension without data.
\<close>

datatype cert_error = Message bytes | ReadOutside | Overrun

record 'x x509_lib =
  X509_get_notBefore :: "'x \<Rightarrow> ASN1_TIME"
  X509_get_notAfter :: "'x \<Rightarrow> ASN1_TIME"
  X509_cmp_current_time :: "ASN1_TIME \<Rightarrow> int"
  X509_NAME_text :: "'x \<Rightarrow> string \<Rightarrow> bytes option"
  OBJ_create :: "bytes \<Rightarrow> bytes \<Rightarrow> bytes \<Rightarrow> int"
  X509_get_ext_by_NID :: "'x \<Rightarrow> int \<Rightarrow> int"
  X509_get_ext :: "'x \<Rightarrow> int \<Rightarrow> bytes option option"

text \<open>
  The local variables \<^verbatim>\<open>tm_not_before\<close> and \<^verbatim>\<open>tm_not_after\<close> are uninitialised: what they hold, with the value of \<^verbatim>\<open>tm_isdst\<close>, which
  \<^verbatim>\<open>asn1_time_to_tm\<close> does not set, is an argument. The texts are written only through pointers that are not null.
\<close>

definition local_hour :: "int \<Rightarrow> tm \<Rightarrow> int" where
  "local_hour tm_isdst tm =
     (if 1 = tm_isdst then (if tm_hour tm + 7 \<ge> 24 then tm_hour tm - 17 else tm_hour tm + 7)
      else (if tm_hour tm + 8 \<ge> 24 then tm_hour tm - 16 else tm_hour tm + 8))"

definition time_string :: "int \<Rightarrow> tm \<Rightarrow> bytes" where
  "time_string tm_isdst tm =
     fmt_zeros 4 (tm_year tm + 1900) @ fmt_zeros 2 (tm_mon tm + 1) @ fmt_zeros 2 (tm_mday tm) @
     fmt_zeros 2 (local_hour tm_isdst tm) @ fmt_zeros 2 (tm_min tm) @ fmt_zeros 2 (tm_sec tm)"

definition CheckCertValidity :: "'x x509_lib \<Rightarrow> tm \<times> int \<Rightarrow> tm \<times> int \<Rightarrow> 'x option \<Rightarrow> bool \<Rightarrow> bool \<Rightarrow> cert_error + bytes option \<times> bytes option" where
  "CheckCertValidity L tm_not_before tm_not_after x509 not_before not_after =
     (case x509 of
        None \<Rightarrow> Inl (Message (lit ''certificate can not be null''))
      | Some x \<Rightarrow>
          let not_before_time = X509_get_notBefore L x; not_after_time = X509_get_notAfter L x
          in if X509_cmp_current_time L not_before_time > 0 then
               Inl (Message (lit ''the begin time of the certificate can not later than the current time''))
             else if X509_cmp_current_time L not_after_time < 0 then
               Inl (Message (lit ''the end time of the certificate can not earlier than the current time''))
             else
               (case asn1_time_to_tm None (fst tm_not_before) (Some not_before_time) of
                 None \<Rightarrow> Inl ReadOutside
               | Some (ok, before) \<Rightarrow>
                   if ok \<noteq> 1 then Inl (Message (lit ''parse begin time failed, maybe the certificate is broken''))
                   else
                     (case asn1_time_to_tm None (fst tm_not_after) (Some not_after_time) of
                       None \<Rightarrow> Inl ReadOutside
                     | Some (ok, after) \<Rightarrow>
                         if ok \<noteq> 1 then Inl (Message (lit ''parse end time failed, maybe the certificate is broken''))
                         else Inr (if not_before then Some (time_string (snd tm_not_before) before) else None,
                                   if not_after then Some (time_string (snd tm_not_after) after) else None))))"

section \<open>The code of a root certificate\<close>

text \<open>A buffer is its length, or nothing when the pointer is null; \<^verbatim>\<open>strcpy\<close> writes one byte more than the length of the text.\<close>

definition GetExtensionData :: "'x x509_lib \<Rightarrow> 'x option \<Rightarrow> bytes \<Rightarrow> bytes \<Rightarrow> bytes \<Rightarrow> nat option \<Rightarrow> cert_error + bytes" where
  "GetExtensionData L x509 oid sn long_name data =
     (case (data, x509) of
        (Some len, Some x) \<Rightarrow>
          let nid = OBJ_create L oid sn long_name; idx = X509_get_ext_by_NID L x nid
          in if idx = - 1 then Inl (Message (lit ''not contain this extension ('' @ oid @ lit '')''))
             else
               (case X509_get_ext L x idx of
                  None \<Rightarrow> Inl (Message (lit ''X509_get_ext '' @ dec_int idx @ lit '' failed''))
                | Some None \<Rightarrow> Inl (Message (lit ''X509_EXTENSION_get_data failed''))
                | Some (Some octets) \<Rightarrow>
                    if 0 \<notin> set (drop 2 octets) then Inl ReadOutside
                    else let s = cstr (drop 2 octets)
                         in if len < length s then Inl (Message (lit ''the length of buffer is too small''))
                            else if len < length s + 1 then Inl Overrun
                            else Inr s)
      | _ \<Rightarrow> Inl (Message (lit ''the buffer is null'')))"

definition GetRootCode :: "'x x509_lib \<Rightarrow> 'x option \<Rightarrow> nat option \<Rightarrow> cert_error + bytes" where
  "GetRootCode L x509 root_ext_code =
     (if root_ext_code = None then Inl (Message (lit ''root ext buffer is emtpy''))
      else GetExtensionData L x509 (lit ''1.12.30663.195.6325'') (lit ''root_code'') (lit ''Root Code'') root_ext_code)"

definition GetDataSecuretKey :: bytes where
  "GetDataSecuretKey = lit ''HCPwz!H1Y3jaJ*|qw8K<eo7>Qih)rPq1''"

text \<open>The fields of \<^verbatim>\<open>stuSUBJECT\<close>, without the padding behind their texts. \<^verbatim>\<open>X509_NAME_get_text_by_NID\<close> copies at most the size of the field less one.\<close>

record stuSUBJECT =
  sub_C :: bytes
  sub_ST :: bytes
  sub_L :: bytes
  sub_O :: bytes
  sub_OU :: bytes
  sub_CN :: bytes
  sub_MAIL :: bytes
  sub_PMAIL :: bytes
  sub_T :: bytes
  sub_D :: bytes
  sub_G :: bytes
  sub_I :: bytes
  sub_NAME :: bytes
  sub_S :: bytes
  sub_QUAL :: bytes
  sub_STN :: bytes
  sub_PW :: bytes
  sub_ADD :: bytes
  sub_HD :: bytes
  sub_NI :: bytes

text \<open>The constructor fills the structure with zeros.\<close>

definition stuSUBJECT_new :: stuSUBJECT where
  "stuSUBJECT_new = \<lparr>sub_C = [], sub_ST = [], sub_L = [], sub_O = [], sub_OU = [], sub_CN = [], sub_MAIL = [], sub_PMAIL = [],
     sub_T = [], sub_D = [], sub_G = [], sub_I = [], sub_NAME = [], sub_S = [], sub_QUAL = [],
     sub_STN = [], sub_PW = [], sub_ADD = [], sub_HD = [], sub_NI = []\<rparr>"

definition mkRootCode :: "'c sha256_lib \<Rightarrow> stuSUBJECT \<Rightarrow> bytes \<Rightarrow> bytes \<Rightarrow> bytes" where
  "mkRootCode S rootInfo not_before not_after =
     (let code_one = GetDataSecuretKey; code_two = GetDataSecuretKey;
          src = code_one @ cstr (sub_CN rootInfo) @ cstr (sub_MAIL rootInfo) @ code_two @ cstr (sub_OU rootInfo) @ not_before @ not_after
      in BinToHexString (Sha256_Crypto S src))"

definition name_text :: "'x x509_lib \<Rightarrow> 'x \<Rightarrow> string \<Rightarrow> nat \<Rightarrow> bytes" where
  "name_text L x nid len = (case X509_NAME_text L x nid of None \<Rightarrow> [] | Some t \<Rightarrow> take (len - 1) t)"

definition root_info :: "'x x509_lib \<Rightarrow> 'x \<Rightarrow> stuSUBJECT" where
  "root_info L x = stuSUBJECT_new
     \<lparr>sub_O := name_text L x ''organizationName'' 128, sub_CN := name_text L x ''commonName'' 128,
      sub_MAIL := name_text L x ''pkcs9_emailAddress'' 128, sub_C := name_text L x ''countryName'' 4,
      sub_ST := name_text L x ''stateOrProvinceName'' 4, sub_L := name_text L x ''localityName'' 12,
      sub_OU := name_text L x ''organizationalUnitName'' 128, sub_T := name_text L x ''title'' 128\<rparr>"

definition CheckRootCert :: "'x x509_lib \<Rightarrow> 'c sha256_lib \<Rightarrow> tm \<times> int \<Rightarrow> tm \<times> int \<Rightarrow> 'x option \<Rightarrow> nat option \<Rightarrow> cert_error + bytes" where
  "CheckRootCert L S tm_not_before tm_not_after x509 root_ext_code =
     (case x509 of
        None \<Rightarrow> Inl (Message (lit ''the handle of the certificate is null''))
      | Some x \<Rightarrow>
          if root_ext_code = None then Inl (Message (lit ''the buffer of the root code is null''))
          else
            (case CheckCertValidity L tm_not_before tm_not_after (Some x) True True of
              Inl e \<Rightarrow> Inl e
            | Inr (not_before, not_after) \<Rightarrow>
                (case GetRootCode L (Some x) root_ext_code of
                   Inl e \<Rightarrow> Inl e
                 | Inr ext_code \<Rightarrow>
                     if mkRootCode S (root_info L x) (the not_before) (the not_after) \<noteq> ext_code then
                       Inl (Message (lit ''this root certificate is not match with this version of echain, please contact the echain official!''))
                     else Inr ext_code)))"

text \<open>The code that \<^verbatim>\<open>mkRoot\<close> puts in a new root certificate.\<close>

definition mkRoot_time :: "tm \<times> int \<Rightarrow> ASN1_TIME \<Rightarrow> bytes option" where
  "mkRoot_time tm0 t =
     (case asn1_time_to_tm None (fst tm0) (Some t) of
        None \<Rightarrow> None
      | Some (ok, tm) \<Rightarrow> Some (if ok = 1 then time_string (snd tm0) tm else []))"

definition mkRoot_code :: "'c sha256_lib \<Rightarrow> stuSUBJECT \<Rightarrow> tm \<times> int \<Rightarrow> tm \<times> int \<Rightarrow> ASN1_TIME \<Rightarrow> ASN1_TIME \<Rightarrow> bytes option" where
  "mkRoot_code S rootInfo tm_not_before tm_not_after not_before_time not_after_time =
     Option.bind (mkRoot_time tm_not_before not_before_time) (\<lambda>not_before.
     Option.bind (mkRoot_time tm_not_after not_after_time) (\<lambda>not_after.
       Some (mkRootCode S rootInfo not_before not_after)))"

section \<open>Checking a root certificate\<close>

definition clock_text :: "tm \<Rightarrow> bytes" where
  "clock_text tm =
     fmt_zeros 4 (tm_year tm + 1900) @ fmt_zeros 2 (tm_mon tm + 1) @ fmt_zeros 2 (tm_mday tm) @
     fmt_zeros 2 (tm_hour tm) @ fmt_zeros 2 (tm_min tm) @ fmt_zeros 2 (tm_sec tm)"

lemma time_string_local:
  assumes "valid_tm tm" "tm_isdst \<noteq> 1"
  shows "\<exists>u. valid_tm u \<and> time_string tm_isdst tm = clock_text u \<and>
    instant u = instant tm + (if tm_hour tm < 16 then 8 * 3600 else 8 * 3600 - SECS_PER_DAY)"
proof (intro exI conjI)
  let ?u = "tm\<lparr>tm_hour := local_hour tm_isdst tm\<rparr>"
  show "valid_tm ?u" using assms by (auto simp: valid_tm_def local_hour_def)
  show "time_string tm_isdst tm = clock_text ?u" by (simp add: time_string_def clock_text_def)
  show "instant ?u = instant tm + (if tm_hour tm < 16 then 8 * 3600 else 8 * 3600 - SECS_PER_DAY)"
    using assms(2) by (simp add: instant_def local_hour_def SECS_PER_DAY_def)
qed

lemma time_string_dst: "(i = 1 \<longleftrightarrow> j = 1) \<Longrightarrow> time_string i tm = time_string j tm"
  by (simp add: time_string_def local_hour_def)

lemma denotes_zulu: "denotes d tm z \<Longrightarrow> zone_shift z = 0 \<Longrightarrow> asn1_time_to_tm now tm0 (Some d) = Some (1, tm)"
  using asn1_time_denotes [of d tm z now tm0] by (simp add: shifted_def)

text \<open>A certificate within its validity, and the code that one of its extensions holds behind two bytes of its encoding.\<close>

definition valid_now :: "'x x509_lib \<Rightarrow> 'x \<Rightarrow> bool" where
  "valid_now L x \<longleftrightarrow> X509_cmp_current_time L (X509_get_notBefore L x) \<le> 0 \<and> 0 \<le> X509_cmp_current_time L (X509_get_notAfter L x)"

definition holds_code :: "'x x509_lib \<Rightarrow> 'x \<Rightarrow> bytes \<Rightarrow> bool" where
  "holds_code L x code \<longleftrightarrow> 0 \<notin> set code \<and>
     (let idx = X509_get_ext_by_NID L x (OBJ_create L (lit ''1.12.30663.195.6325'') (lit ''root_code'') (lit ''Root Code''))
      in idx \<noteq> - 1 \<and> (\<exists>t n rest. X509_get_ext L x idx = Some (Some (t # n # code @ 0 # rest))))"

lemma cstr_prefix: "0 \<notin> set code \<Longrightarrow> cstr (code @ 0 # rest) = code"
  by (induction code) (simp_all add: cstr_def)

lemma GetRootCode_holds:
  assumes "holds_code L x code"
  shows "GetRootCode L (Some x) (Some len) =
    (if len < length code then Inl (Message (lit ''the length of buffer is too small''))
     else if len = length code then Inl Overrun else Inr code)"
  using assms by (auto simp: holds_code_def GetRootCode_def GetExtensionData_def Let_def cstr_prefix)

lemma CheckCertValidity_denotes:
  assumes "valid_now L x" "denotes (X509_get_notBefore L x) tb zb" "zone_shift zb = 0" "denotes (X509_get_notAfter L x) ta za" "zone_shift za = 0"
  shows "CheckCertValidity L b a (Some x) True True = Inr (Some (time_string (snd b) tb), Some (time_string (snd a) ta))"
  using assms by (simp add: CheckCertValidity_def Let_def valid_now_def denotes_zulu)

text \<open>
  Claim C14. Checking a root certificate within its validity, whose times are written in universal time: \<^verbatim>\<open>CheckRootCert\<close> accepts it exactly when the code
  in its extension is the digest of its subject and the texts of its times under the built-in key. It accepts the code that \<^verbatim>\<open>mkRoot\<close> computed when
  \<^verbatim>\<open>tm_isdst\<close>, which is never set, was 1 in the same of the local variables. A buffer of exactly the length of the code is overrun by one byte. The texts of the
  times mean the time eight hours later for hours before 16, and otherwise a time sixteen hours earlier, since the hour wraps and the date stays.
\<close>

theorem root_cert_checked:
  assumes "valid_now L x" and "holds_code L x code"
    and "denotes (X509_get_notBefore L x) tb zb" and "zone_shift zb = 0"
    and "denotes (X509_get_notAfter L x) ta za" and "zone_shift za = 0"
  shows "CheckRootCert L S b a (Some x) (Some len) =
      (if len < length code then Inl (Message (lit ''the length of buffer is too small''))
       else if len = length code then Inl Overrun
       else if code = mkRootCode S (root_info L x) (time_string (snd b) tb) (time_string (snd a) ta) then Inr code
       else Inl (Message (lit ''this root certificate is not match with this version of echain, please contact the echain official!''))) \<and>
    (length code < len \<longrightarrow> (snd b = 1 \<longleftrightarrow> snd b' = 1) \<longrightarrow> (snd a = 1 \<longleftrightarrow> snd a' = 1) \<longrightarrow>
      mkRoot_code S (root_info L x) b' a' (X509_get_notBefore L x) (X509_get_notAfter L x) = Some code \<longrightarrow>
      CheckRootCert L S b a (Some x) (Some len) = Inr code) \<and>
    (snd b \<noteq> 1 \<longrightarrow> (\<exists>u. valid_tm u \<and> time_string (snd b) tb = clock_text u \<and>
      instant u = instant tb + (if tm_hour tb < 16 then 8 * 3600 else 8 * 3600 - SECS_PER_DAY)))"
proof (intro conjI impI)
  show check: "CheckRootCert L S b a (Some x) (Some len) =
      (if len < length code then Inl (Message (lit ''the length of buffer is too small''))
       else if len = length code then Inl Overrun
       else if code = mkRootCode S (root_info L x) (time_string (snd b) tb) (time_string (snd a) ta) then Inr code
       else Inl (Message (lit ''this root certificate is not match with this version of echain, please contact the echain official!'')))"
    using CheckCertValidity_denotes [OF assms(1,3-6)] GetRootCode_holds [OF assms(2)] by (simp add: CheckRootCert_def eq_commute)
  assume "length code < len" "snd b = 1 \<longleftrightarrow> snd b' = 1" "snd a = 1 \<longleftrightarrow> snd a' = 1"
    and made: "mkRoot_code S (root_info L x) b' a' (X509_get_notBefore L x) (X509_get_notAfter L x) = Some code"
  moreover have "mkRootCode S (root_info L x) (time_string (snd b') tb) (time_string (snd a') ta) = code"
    using made by (simp add: mkRoot_code_def mkRoot_time_def denotes_zulu [OF assms(3,4)] denotes_zulu [OF assms(5,6)])
  ultimately show "CheckRootCert L S b a (Some x) (Some len) = Inr code"
    using check time_string_dst [of "snd b" "snd b'" tb] time_string_dst [of "snd a" "snd a'" ta] by simp
next
  assume "snd b \<noteq> 1"
  moreover have "valid_tm tb" using assms(3) by (simp add: denotes_def)
  ultimately show "\<exists>u. valid_tm u \<and> time_string (snd b) tb = clock_text u \<and>
      instant u = instant tb + (if tm_hour tb < 16 then 8 * 3600 else 8 * 3600 - SECS_PER_DAY)"
    using time_string_local by blast
qed

text \<open>A certificate of 29 February 2024, 20:15, which the text of its time puts at 04:15 of the same day.\<close>

definition eve_zulu :: ASN1_TIME where
  "eve_zulu = \<lparr>asn1_type = 23, asn1_length = 11, asn1_data = utc_text False eve @ zone_text Zulu @ [0]\<rparr>"

definition eve_lib :: "bytes \<Rightarrow> unit x509_lib" where
  "eve_lib code = \<lparr>X509_get_notBefore = \<lambda>_. eve_zulu, X509_get_notAfter = \<lambda>_. eve_zulu, X509_cmp_current_time = \<lambda>_. 0,
     X509_NAME_text = \<lambda>_ _. None, OBJ_create = \<lambda>_ _ _. 1, X509_get_ext_by_NID = \<lambda>_ _. 0,
     X509_get_ext = \<lambda>_ _. Some (Some ([22, 64] @ code @ [0]))\<rparr>"

definition eve_code :: bytes where
  "eve_code = mkRootCode sum_sha256 (root_info (eve_lib []) ()) (time_string 0 eve) (time_string 0 eve)"

lemma denotes_eve_zulu: "denotes eve_zulu eve Zulu"
proof -
  have "length (utc_text False eve) = 10" by (simp add: utc_text_def eve_def length_fmt_zeros)
  then have "utc_form eve_zulu eve Zulu False []" by (simp add: utc_form_def eve_zulu_def V_ASN1_UTCTIME_def eve_def)
  then show ?thesis using valid_eve by (auto simp: denotes_def)
qed

lemma hex_no_zero: "all_hex s \<Longrightarrow> 0 \<notin> set s"
  by (induction s rule: all_hex.induct) (auto simp: char_range_unsigned split: if_splits)

lemma eve_code_holds: "holds_code (eve_lib eve_code) () eve_code"
  using hex_no_zero [OF all_hex_BinToHexString] by (auto simp: holds_code_def eve_lib_def eve_code_def mkRootCode_def Let_def)

lemma length_eve_code: "length eve_code = 64"
  by (simp add: eve_code_def mkRootCode_def Let_def Sha256_Crypto_def sum_sha256_def memcpy_def)

theorem root_cert_checked_witness:
  "CheckRootCert (eve_lib eve_code) sum_sha256 (eve, 0) (eve, 0) (Some ()) (Some 65) = Inr eve_code \<and>
   CheckRootCert (eve_lib eve_code) sum_sha256 (eve, 0) (eve, 0) (Some ()) (Some 64) = Inl Overrun \<and>
   (\<exists>u. valid_tm u \<and> time_string 0 eve = clock_text u \<and> instant u = instant eve + 8 * 3600 - SECS_PER_DAY)"
proof -
  have now: "valid_now (eve_lib eve_code) ()" by (simp add: valid_now_def eve_lib_def)
  have times: "denotes (X509_get_notBefore (eve_lib eve_code) ()) eve Zulu" "denotes (X509_get_notAfter (eve_lib eve_code) ()) eve Zulu"
    using denotes_eve_zulu by (simp_all add: eve_lib_def)
  have code: "mkRootCode sum_sha256 (root_info (eve_lib eve_code) ()) (time_string 0 eve) (time_string 0 eve) = eve_code"
    by (simp add: eve_code_def root_info_def name_text_def eve_lib_def)
  note all = root_cert_checked [OF now eve_code_holds times(1) _ times(2), of sum_sha256 "(eve, 0)" "(eve, 0)"]
  have "\<not> tm_hour eve < 16" by (simp add: eve_def)
  then show ?thesis using all [of 65] all [of 64] code length_eve_code by (simp add: add_diff_eq)
qed

end
