(* ===== verification/Spec2Isabelle.thy ===== *)
theory Spec2Isabelle
  imports UInt128 StringFacts BaseN BaseUint Crc Base58 Sm3 Sm2 Md5 Crypto Keys EntryCache Timer LruCache ExprFacts Locks TaskPool Paths Logger IniConfig XmlDoc Calendar CertTime RootCert
begin

text \<open>
  \<^bold>\<open>The EChain SDK library.\<close> The repository holds a C++ library for clients of a block chain: integers and texts
  (\<^verbatim>\<open>src/utils\<close>), hashes and codecs (\<^verbatim>\<open>src/utils/crypto.cpp\<close>, \<^verbatim>\<open>sm3.cpp\<close>, \<^verbatim>\<open>basen.h\<close>), keys, addresses and signatures
  (\<^verbatim>\<open>src/common/private_key.cpp\<close>), containers with branches and limits (\<^verbatim>\<open>entry_cache.h\<close>, \<^verbatim>\<open>lrucache.hpp\<close>), timers, threads,
  log files, an evaluator of expressions, configuration files and certificates. This development models these parts as functions and step relations of HOL and
  proves what makes them correct, or where they are not. A definition has the name of the C++ function it models, with the
  class in front where names meet; the functions of a theory stand in the order of its source.

  \<^bold>\<open>Conventions.\<close> \<open>Prelude\<close> has the machine types. A \<^verbatim>\<open>std::string\<close> is a list of bytes, \<^verbatim>\<open>char\<close> is signed, fixed width integers are
  words, or integers with the wrap-around written out. An exception is \<open>Inl\<close> of \<open>cpp_error\<close>; the element
  \<open>undefined_behaviour\<close> of this type is no exception but marks an access outside of an object, and \<open>Calendar\<close> gives \<open>None\<close> where the arithmetic of \<^verbatim>\<open>int\<close> overflows. A loop that may not end is
  a \<open>partial_function\<close> into \<open>option\<close>, so that not returning is \<open>None\<close>; all others are shown to terminate. Code
  that is not in the repository is a parameter: OpenSSL's SHA-256, AES, RSA and big numbers, the CFCA library, double precision arithmetic and the
  functions of \<^verbatim>\<open>cmath\<close>, \<^verbatim>\<open>mktime\<close> and \<^verbatim>\<open>localtime\<close>, clocks, \<^verbatim>\<open>pthread_mutex\<close>, and the client's callbacks and \<^verbatim>\<open>LoadValue\<close>. Parameters too
  are the two vendored libraries that the repository does contain, the curves of \<^verbatim>\<open>src/ec\<close> and ed25519, whose code is not modelled. What is
  assumed of them are named predicates such as \<open>cbc_laws\<close> or \<open>mutex_laws\<close>, with an instance that satisfies them next to every use.

  \<^bold>\<open>Integers and texts.\<close>
  \<^item> \<open>UInt128\<close>: \<^verbatim>\<open>uint128_t\<close> of \<^verbatim>\<open>base_int.h\<close> as two words. All operators are arithmetic modulo $2^{128}$, division included, whose loop
    ends for every divisor but 0; \<^verbatim>\<open>str\<close> and \<^verbatim>\<open>bigDivide\<close>. The locale \<open>wide_uint\<close>, interpreted as \<open>u128\<close>, is what \<^verbatim>\<open>bigDivide\<close> needs of it.
  \<^item> \<open>Strings\<close>, \<open>StringFacts\<close>: the class \<^verbatim>\<open>utils::String\<close> and its properties: round trips of hexadecimal and decimal texts, splitting, replacing,
    attributes, classification of numbers, formatting into a growing buffer (at most 8 doublings), dates.
  \<^item> \<open>BaseN\<close>: base 16, 32 and 64 of \<^verbatim>\<open>basen.h\<close>. The generic loops are verified once in the locale \<open>conversion\<close>, over the traits that
    the three interpretations \<open>b16\<close>, \<open>b32\<close> and \<open>b64\<close> discharge. \<open>BaseUint\<close>: the class template \<^verbatim>\<open>base_uint\<close> over it.
  \<^item> \<open>Base58\<close>: conversion of the base digit by digit, with the locale \<open>digit_vector\<close> for both directions. The size of the buffer of \<^verbatim>\<open>Decode\<close> is computed in rounded
    arithmetic, a parameter with the law \<open>double_arith\<close>, and shown to be enough. \<open>Crc\<close>: \<^verbatim>\<open>Crc8\<close>, \<^verbatim>\<open>Crc16\<close> and the tables.

  \<^bold>\<open>Hashes and keys.\<close>
  \<^item> \<open>HashSpec\<close>: padding and blocks of a hash in the style of Merkle and Damgard, and the locale \<open>streaming_hash\<close>: hashing in pieces is hashing the whole.
    \<open>Sm3\<close> (\<^verbatim>\<open>sm3.cpp\<close>) and \<open>Md5\<close> (\<^verbatim>\<open>crypto.cpp\<close>) are shown equal to reference definitions of the standards and interpret it as \<open>sm3h\<close> and \<open>md5h\<close>; HMAC over SM3.
  \<^item> \<open>Sm2\<close>: the class \<^verbatim>\<open>EccSm2\<close> (\<^verbatim>\<open>ecc_sm2.cpp\<close>) over an abstract curve: signatures verify for every key but $n - 1$, which has none.
  \<^item> \<open>Crypto\<close>: \<^verbatim>\<open>Sha256\<close>, \<^verbatim>\<open>Aes\<close> and \<^verbatim>\<open>Char2Hex\<close> over the library's functions.
  \<^item> \<open>Keys\<close>: \<^verbatim>\<open>PublicKey\<close> and \<^verbatim>\<open>PrivateKey\<close>, built on the check byte, the hash functions and the hexadecimal texts; the locale \<open>text_form\<close>, interpreted as \<open>keyt\<close>, is the
    contract of key texts. Keys are restored from their texts, signatures verify, a changed byte is detected.

  \<^bold>\<open>Containers and time.\<close>
  \<^item> \<open>EntryCache\<close>: the stack of caches of \<^verbatim>\<open>entry_cache.h\<close> with an explicit heap for the shared values, over the locale \<open>std_map\<close> (interpretation \<open>em\<close>). What a cache shows is a map;
    operations have their effect on it, branches are isolated, merging commits.
  \<^item> \<open>LruCache\<close>: the list and the map of iterators of \<^verbatim>\<open>lrucache.hpp\<close> refine the list of recently used pairs, by the locale \<open>simulation\<close> (interpretation \<open>lru\<close>).
  \<^item> \<open>Timer\<close>: the timer queue, as operations and as an inductive set of runs; no timer is lost, none fires early or twice.

  \<^bold>\<open>Expressions.\<close> \<open>ExprValue\<close> and \<open>ExprParser\<close> are the values, the scanner and the recursive descent of \<^verbatim>\<open>exprparser.cpp\<close>. The recursion goes through a bound: \<open>ExprTotal\<close>
  shows that a bound above the length of the program is never reached and does not change the result, so that \<^verbatim>\<open>Evaluate\<close> ends on every program, with a value or an exception
  unless a text literal is not closed, in which case the scanner reads behind the program.
  \<open>ExprMeaning\<close> is the abstract syntax, its value and its text; \<open>ExprFacts\<close> shows that evaluating the text gives the value, and where the code departs from its documentation.

  \<^bold>\<open>Threads.\<close> The operations of \<^verbatim>\<open>thread.cpp\<close> are lists of atomic instructions, runs are lists of actions of any number of threads. \<open>Locks\<close> has the contracts of such systems,
  the locales \<open>thread_system\<close> and \<open>critical_sections\<close>, and the read/write lock (interpretation \<open>rw\<close>): exclusion, progress of a free lock, and the thread that waits for itself. \<open>TaskPool\<close> has
  the spin lock, the queue and the pool (interpretation \<open>tq\<close>): the queue is linearizable, every task is run once and in order. The steps are those of
  sequentially consistent memory; counters stay below $2^{63}$.

  \<^bold>\<open>Log files.\<close> \<open>Paths\<close> has the text forms of times and the functions on path names, \<open>Logger\<close> the writers and the logger over a disk of named contents: the names of backups
  carry their times, and what a write does to the files. \<open>IniConfig\<close> is the reader of the configuration file of \<^verbatim>\<open>ReadConfig.cpp\<close>: what a lookup finds in every file of the usual
  form, and the settings that \<^verbatim>\<open>ReadIni\<close> makes of them. \<open>XmlDoc\<close> has the tree of \<^verbatim>\<open>XMLNode.cpp\<close>, whose constructor is a parser, and the documents of
  \<^verbatim>\<open>XMLDoc.cpp\<close>: trees are read back from their texts and files, and one text is never read to its end.

  \<^bold>\<open>Certificates.\<close> Of \<^verbatim>\<open>ca.cpp\<close>, \<open>Calendar\<close> has the Julian day numbers and the moving of times, shown exact against the calendar and the count of seconds; \<open>CertTime\<close> the reading
  of UTCTime and GeneralizedTime; \<open>RootCert\<close> the checks of validity and of the code of a root certificate, over a record of OpenSSL's functions and the class \<^verbatim>\<open>Sha256\<close>.

  \<^bold>\<open>Not modelled.\<close> Windows branches; making and loading of certificates, requests and keys in \<^verbatim>\<open>ca.cpp\<close>, CFCA, HTTP, network, storage, web socket server and daemon, which only call OpenSSL, the operating system or code that
  the repository does not contain; MySQL access, calls of a client library; the curve code of \<^verbatim>\<open>src/ec\<close>, a copy of OpenSSL's on \<^verbatim>\<open>BIGNUM\<close>; the
  vendored ed25519, WebSocket++ and Google Test. Of modelled parts: \<^verbatim>\<open>Base58::Decode_old\<close>, file contents and directories in \<^verbatim>\<open>file.cpp\<close>, semaphores and thread creation.

  \<^bold>\<open>Plan.\<close> Next are the parts of \<^verbatim>\<open>system.cpp\<close> and \<^verbatim>\<open>net.h\<close> that compute (parsing of addresses and of \<^verbatim>\<open>/proc\<close>).
\<close>

end
